(* ===== verification/Prelude.thy ===== *)
theory Prelude
  imports Main "HOL-Library.Word" "HOL-Library.Monad_Syntax"
begin

text \<open>
  Shared vocabulary of the development: the machine integer types, arrays with checked
  accesses (a C array is a list, an access outside it is the result \<open>None\<close>), little-endian
  byte images of words, NUL-terminated strings, and the collections of rewrite rules
  (\<open>mem_simps\<close> for memory accesses, \<open>le_simps\<close> for byte images, \<open>const_simps\<close> for the
  constants of the headers) that the component theories hand to the simplifier.
\<close>

unbundle bit_operations_syntax

type_synonym byte = "8 word"
type_synonym u16 = "16 word"
type_synonym u32 = "32 word"
type_synonym u64 = "64 word"

named_theorems mem_simps
named_theorems le_simps
named_theorems const_simps

section \<open>Arrays with checked accesses\<close>

text \<open>
  \<open>peek\<close>, \<open>poke\<close> and \<open>copy_to\<close> are a read, a write and a \<open>memcpy\<close>. Outside the array C's
  behaviour is undefined; here the result is \<open>None\<close>, so that a theorem that a routine
  returns \<open>Some\<close> is a theorem that it stays inside its buffers.
\<close>

definition peek :: "'a list \<Rightarrow> nat \<Rightarrow> 'a option" where
  "peek a i = (if i < length a then Some (a ! i) else None)"

definition poke :: "'a list \<Rightarrow> nat \<Rightarrow> 'a \<Rightarrow> 'a list option" where
  "poke a i x = (if i < length a then Some (a[i := x]) else None)"

definition copy_to :: "'a list \<Rightarrow> nat \<Rightarrow> 'a list \<Rightarrow> nat \<Rightarrow> nat \<Rightarrow> 'a list option" where
  "copy_to dst off src soff n =
     (if off + n \<le> length dst \<and> soff + n \<le> length src
      then Some (take off dst @ take n (drop soff src) @ drop (off + n) dst)
      else None)"

text \<open>\<open>overlay bs old\<close>: the array \<open>old\<close> after its first \<open>length bs\<close> cells became \<open>bs\<close>.\<close>

definition overlay :: "'a list \<Rightarrow> 'a list \<Rightarrow> 'a list" where
  "overlay bs old = bs @ drop (length bs) old"

lemma overlay_Nil [mem_simps]: "overlay [] old = old"
  by (simp add: overlay_def)

lemma length_overlay [mem_simps]: "length bs \<le> length old \<Longrightarrow> length (overlay bs old) = length old"
  by (simp add: overlay_def)

lemma take_overlay [mem_simps]: "take (length bs) (overlay bs old) = bs"
  by (simp add: overlay_def)

lemma drop_overlay [mem_simps]: "drop (length bs) (overlay bs old) = drop (length bs) old"
  by (simp add: overlay_def)

lemma poke_overlay [mem_simps]:
  "length bs < length old \<Longrightarrow> poke (overlay bs old) (length bs) x = Some (overlay (bs @ [x]) old)"
  by (auto simp: poke_def overlay_def list_update_append Cons_nth_drop_Suc [symmetric])

lemma copy_to_overlay [mem_simps]:
  "length bs + n \<le> length old \<Longrightarrow> soff + n \<le> length src \<Longrightarrow>
   copy_to (overlay bs old) (length bs) src soff n =
     Some (overlay (bs @ take n (drop soff src)) old)"
  by (simp add: copy_to_def overlay_def add.commute)

lemma poke_length: "poke a i x = Some b \<Longrightarrow> length b = length a"
  by (auto simp: poke_def split: if_splits)

lemma copy_to_length: "copy_to d off s soff n = Some d' \<Longrightarrow> length d' = length d"
  by (auto simp: copy_to_def split: if_splits)

lemma peek_Some_iff [mem_simps]: "peek a i = Some x \<longleftrightarrow> i < length a \<and> x = a ! i"
  by (auto simp: peek_def)

text \<open>Lengths that fit their words.\<close>

lemma unat_of_nat_byte [mem_simps]: "n < 256 \<Longrightarrow> unat (of_nat n :: byte) = n"
  by (simp add: unat_of_nat)

lemma unat_of_nat_u16 [mem_simps]: "n < 65536 \<Longrightarrow> unat (of_nat n :: u16) = n"
  by (simp add: unat_of_nat)

lemma unat_of_nat_u32 [mem_simps]: "n < 2 ^ 32 \<Longrightarrow> unat (of_nat n :: u32) = n"
  by (simp add: unat_of_nat)

lemma unat_of_nat_u64 [mem_simps]: "n < 2 ^ 64 \<Longrightarrow> unat (of_nat n :: u64) = n"
  by (simp add: unat_of_nat)

lemma unat_mod_less: "0 < unat n \<Longrightarrow> unat (b mod n) < unat (n :: 'a::len word)"
  by (simp add: unat_mod_distrib)

section \<open>Little-endian byte images\<close>

text \<open>
  The hosts the program supports store words little-endian. \<open>le_enc n w\<close> is the first \<open>n\<close>
  bytes of the memory of \<open>w\<close>; \<open>le_dec\<close> reads a word back.
\<close>

primrec le_enc :: "nat \<Rightarrow> 'a::len word \<Rightarrow> byte list" where
  "le_enc 0 w = []"
| "le_enc (Suc n) w = ucast w # le_enc n (drop_bit 8 w)"

primrec le_dec :: "byte list \<Rightarrow> 'a::len word" where
  "le_dec [] = 0"
| "le_dec (b # bs) = ucast b OR push_bit 8 (le_dec bs)"

lemma length_le_enc [simp]: "length (le_enc n w) = n"
  by (induction n arbitrary: w) auto

lemma le_dec_le_enc_take: "le_dec (le_enc n w) = take_bit (8 * n) (w :: 'a::len word)"
proof (induction n arbitrary: w)
  case 0
  then show ?case by simp
next
  case (Suc n)
  show ?case
    by (rule bit_word_eqI)
      (auto simp: Suc bit_or_iff bit_ucast_iff bit_push_bit_iff bit_take_bit_iff bit_drop_bit_eq)
qed

lemma le_dec_le_enc [le_simps]:
  "LENGTH('a) \<le> 8 * n \<Longrightarrow> le_dec (le_enc n w) = (w :: 'a::len word)"
  by (simp add: le_dec_le_enc_take take_bit_word_eq_self)

lemma le_enc_take_bit:
  "8 * n \<le> m \<Longrightarrow> le_enc n (take_bit m w) = le_enc n (w :: 'a::len word)"
proof (induction n arbitrary: m w)
  case 0
  then show ?case by simp
next
  case (Suc n)
  have hd: "ucast (take_bit m w) = (ucast w :: byte)"
    by (rule bit_word_eqI) (use Suc.prems in \<open>auto simp: bit_ucast_iff bit_take_bit_iff\<close>)
  have tl: "drop_bit 8 (take_bit m w) = take_bit (m - 8) (drop_bit 8 w)"
    by (rule bit_word_eqI) (use Suc.prems in \<open>auto simp: bit_drop_bit_eq bit_take_bit_iff\<close>)
  show ?case
    using Suc.prems by (simp add: hd tl Suc.IH)
qed

lemma le_enc_le_dec [le_simps]:
  "8 * length bs \<le> LENGTH('a) \<Longrightarrow> le_enc (length bs) (le_dec bs :: 'a::len word) = bs"
proof (induction bs)
  case Nil
  then show ?case by simp
next
  case (Cons b bs)
  have hd: "ucast (ucast b OR push_bit 8 (le_dec bs :: 'a word)) = b"
    by (rule bit_word_eqI)
      (use Cons.prems in \<open>auto simp: bit_or_iff bit_ucast_iff bit_push_bit_iff\<close>)
  have tl: "drop_bit 8 (ucast b OR push_bit 8 (le_dec bs :: 'a word))
      = take_bit (LENGTH('a) - 8) (le_dec bs)"
    by (rule bit_word_eqI)
      (use Cons.prems in \<open>auto simp: bit_or_iff bit_ucast_iff bit_push_bit_iff bit_drop_bit_eq
        bit_take_bit_iff dest: bit_imp_le_length\<close>)
  have "8 * length bs \<le> LENGTH('a) - 8"
    using Cons.prems by simp
  then have "le_enc (length bs) (drop_bit 8 (ucast b OR push_bit 8 (le_dec bs :: 'a word))) = bs"
    using Cons by (simp only: tl le_enc_take_bit)
  then show ?case
    using hd by (simp only: list.size le_dec.simps le_enc.simps add_0_right add_Suc_right)
qed

section \<open>NUL-terminated strings\<close>

text \<open>
  The string a buffer holds is what precedes its first NUL byte; \<open>c_strlen\<close> has no value
  for a buffer without one, where \<open>strlen\<close> would read on past its end.
\<close>

definition c_string :: "byte list \<Rightarrow> byte list" where
  "c_string buf = takeWhile (\<lambda>b. b \<noteq> 0) buf"

definition c_strlen :: "byte list \<Rightarrow> nat option" where
  "c_strlen buf = (if 0 \<in> set buf then Some (length (c_string buf)) else None)"

lemma c_string_terminated [mem_simps]: "0 \<notin> set s \<Longrightarrow> c_string (s @ 0 # rest) = s"
  unfolding c_string_def by (subst takeWhile_append2) auto

lemma c_strlen_terminated [mem_simps]: "0 \<notin> set s \<Longrightarrow> c_strlen (s @ 0 # rest) = Some (length s)"
  by (simp add: c_strlen_def mem_simps)

lemma c_string_no_nul: "0 \<notin> set (c_string buf)"
  by (auto simp: c_string_def dest: set_takeWhileD)

lemma length_c_string_le: "length (c_string buf) \<le> length buf"
  by (simp add: c_string_def length_takeWhile_le)

lemma c_strlen_less:
  assumes "c_strlen buf = Some n"
  shows "n < length buf"
proof -
  have n: "n = length (c_string buf)" and nul: "0 \<in> set buf"
    using assms by (auto simp: c_strlen_def split: if_splits)
  have "c_string buf \<noteq> buf"
    using nul c_string_no_nul [of buf] by auto
  then have "length (c_string buf) \<noteq> length buf"
    unfolding c_string_def by (metis takeWhile_eq_take take_all_iff order_refl)
  then show ?thesis
    using n length_c_string_le [of buf] by simp
qed

text \<open>A text literal as bytes, for the strings the C sources hold.\<close>

definition bytes_of :: "string \<Rightarrow> byte list" where
  "bytes_of s = map (\<lambda>c. of_nat (of_char c)) s"

lemma bytes_of_Nil [simp]: "bytes_of [] = []"
  by (simp add: bytes_of_def)

lemma bytes_of_append [simp]: "bytes_of (s @ t) = bytes_of s @ bytes_of t"
  by (simp add: bytes_of_def)

lemma length_bytes_of [simp]: "length (bytes_of s) = length s"
  by (simp add: bytes_of_def)

section \<open>Runs of step relations\<close>

text \<open>
  A step relation labels its steps with the events they show; \<open>trace_run step s0 es s\<close> says that
  \<open>s\<close> is reached from \<open>s0\<close> showing \<open>es\<close>. A \<open>traced_system\<close> has an invariant over the events so
  far and the state, and the invariant of its runs follows once for all of them.
\<close>

inductive trace_run :: "('s \<Rightarrow> 'e list \<Rightarrow> 's \<Rightarrow> bool) \<Rightarrow> 's \<Rightarrow> 'e list \<Rightarrow> 's \<Rightarrow> bool" for step s0 where
  start: "trace_run step s0 [] s0"
| more: "trace_run step s0 es s \<Longrightarrow> step s es' s' \<Longrightarrow> trace_run step s0 (es @ es') s'"

lemma trace_run_trans:
  assumes "trace_run step s es' s'" and "trace_run step s0 es s"
  shows "trace_run step s0 (es @ es') s'"
  using assms
proof (induction rule: trace_run.induct)
  case start
  then show ?case by simp
next
  case (more es1 s1 es2 s2)
  then show ?case
    using trace_run.more [of step s0 "es @ es1" s1 es2 s2] by simp
qed

locale traced_system =
  fixes step :: "'s \<Rightarrow> 'e list \<Rightarrow> 's \<Rightarrow> bool"
    and good_start :: "'s \<Rightarrow> bool"
    and inv :: "'e list \<Rightarrow> 's \<Rightarrow> bool"
  assumes inv_start: "good_start s \<Longrightarrow> inv [] s"
    and inv_step: "inv es s \<Longrightarrow> step s es' s' \<Longrightarrow> inv (es @ es') s'"
begin

lemma run_inv: "trace_run step s0 es s \<Longrightarrow> good_start s0 \<Longrightarrow> inv es s"
  by (induction rule: trace_run.induct) (auto intro: inv_start inv_step)

end

end
