(* ===== verification/Mish_Common.thy ===== *)
theory Mish_Common
  imports Prelude
begin

text \<open>
  The data shared by the fuzzer, its workers and the converter (src/include/mish_common.h and
  src/worker/worker.h): the limits, the decode status, the input and output slots, and the
  byte images the slots have in memory, which are what \<open>write_output\<close> sends to the stream.
\<close>

section \<open>Limits\<close>

definition MISHEGOS_INSN_MAXLEN :: nat where
  "MISHEGOS_INSN_MAXLEN = 15"

definition MISHEGOS_DEC_MAXLEN :: nat where
  "MISHEGOS_DEC_MAXLEN = 248"

definition MISHEGOS_MAX_NWORKERS :: nat where
  "MISHEGOS_MAX_NWORKERS = 31"

lemmas [const_simps, simp] =
  MISHEGOS_INSN_MAXLEN_def MISHEGOS_DEC_MAXLEN_def MISHEGOS_MAX_NWORKERS_def

section \<open>Decode status\<close>

datatype decode_status =
  S_NONE | S_SUCCESS | S_FAILURE | S_CRASH | S_PARTIAL | S_UNKNOWN

text \<open>The value of the enumerator, as the 32-bit integer that is stored and written.\<close>

primrec status_code :: "decode_status \<Rightarrow> u32" where
  "status_code S_NONE = 0"
| "status_code S_SUCCESS = 1"
| "status_code S_FAILURE = 2"
| "status_code S_CRASH = 3"
| "status_code S_PARTIAL = 4"
| "status_code S_UNKNOWN = 5"

lemma status_code_inject [simp]: "status_code s = status_code t \<longleftrightarrow> s = t"
  by (cases s; cases t) simp_all

text \<open>Statuses are ordered by their enumerators, as C compares them.\<close>

instantiation decode_status :: linorder
begin

definition less_eq_decode_status :: "decode_status \<Rightarrow> decode_status \<Rightarrow> bool" where
  "less_eq_decode_status s t \<longleftrightarrow> status_code s \<le> status_code t"

definition less_decode_status :: "decode_status \<Rightarrow> decode_status \<Rightarrow> bool" where
  "less_decode_status s t \<longleftrightarrow> status_code s < status_code t"

instance
  by standard (auto simp: less_eq_decode_status_def less_decode_status_def order_less_le)

end

section \<open>Slots\<close>

record input_slot =
  in_len :: byte
  raw_insn :: "byte list"

record output_slot =
  status :: decode_status
  ndecoded :: u16
  out_len :: u16
  result :: "byte list"

text \<open>The shape the C array types give the two buffers.\<close>

definition input_slot_wf :: "input_slot \<Rightarrow> bool" where
  "input_slot_wf s \<longleftrightarrow> length (raw_insn s) = MISHEGOS_INSN_MAXLEN"

definition output_slot_wf :: "output_slot \<Rightarrow> bool" where
  "output_slot_wf r \<longleftrightarrow> length (result r) = MISHEGOS_DEC_MAXLEN"

text \<open>
  What every consumer relies on beyond the shape: the recorded length lies inside the buffer.
\<close>

definition input_slot_ok :: "input_slot \<Rightarrow> bool" where
  "input_slot_ok s \<longleftrightarrow> input_slot_wf s \<and> unat (in_len s) \<le> MISHEGOS_INSN_MAXLEN"

definition output_slot_ok :: "output_slot \<Rightarrow> bool" where
  "output_slot_ok r \<longleftrightarrow> output_slot_wf r \<and> unat (out_len r) \<le> MISHEGOS_DEC_MAXLEN"

lemmas slot_defs = input_slot_wf_def output_slot_wf_def input_slot_ok_def output_slot_ok_def

lemma input_slot_ok_wf: "input_slot_ok s \<Longrightarrow> input_slot_wf s"
  by (simp add: slot_defs)

text \<open>Memory of a zeroed slot, as the shared mappings start out.\<close>

definition zero_input_slot :: input_slot where
  "zero_input_slot = \<lparr>in_len = 0, raw_insn = replicate MISHEGOS_INSN_MAXLEN 0\<rparr>"

definition zero_output_slot :: output_slot where
  "zero_output_slot = \<lparr>status = S_NONE, ndecoded = 0, out_len = 0,
     result = replicate MISHEGOS_DEC_MAXLEN 0\<rparr>"

lemma zero_slots_ok [simp]: "input_slot_ok zero_input_slot" "output_slot_ok zero_output_slot"
  by (simp_all add: slot_defs zero_input_slot_def zero_output_slot_def)

text \<open>The bytes of an instruction candidate that count.\<close>

definition insn_bytes :: "input_slot \<Rightarrow> byte list" where
  "insn_bytes s = take (unat (in_len s)) (raw_insn s)"

lemma length_insn_bytes: "input_slot_ok s \<Longrightarrow> length (insn_bytes s) = unat (in_len s)"
  by (simp add: insn_bytes_def slot_defs)

text \<open>
  Byte images: \<open>input_slot\<close> is 16 single bytes; \<open>output_slot\<close> is packed, an 8-byte header
  (status, ndecoded, len) followed by the result buffer.
\<close>

definition input_slot_bytes :: "input_slot \<Rightarrow> byte list" where
  "input_slot_bytes s = in_len s # raw_insn s"

definition output_slot_bytes :: "output_slot \<Rightarrow> byte list" where
  "output_slot_bytes r =
     le_enc 4 (status_code (status r)) @ le_enc 2 (ndecoded r) @ le_enc 2 (out_len r) @ result r"

lemma input_slot_size: "input_slot_wf s \<Longrightarrow> length (input_slot_bytes s) = 16"
  by (simp add: input_slot_bytes_def slot_defs)

lemma output_slot_size: "output_slot_wf r \<Longrightarrow> length (output_slot_bytes r) = 256"
  by (simp add: output_slot_bytes_def slot_defs)

end
