(* ===== verification/Rng.thy ===== *)
theory Rng
  imports Prelude
begin

text \<open>
  The pseudo-random generator of src/mishegos/mutator.c: xoshiro256** over four 64-bit words,
  and the two accessors the mutators draw from. The state is the static array \<open>rng_state\<close>,
  passed explicitly. The lemmas show that the update is a bijection of the state space, so a
  seeded generator never falls into the all-zero state it could not leave.
\<close>

record rng =
  rs0 :: u64
  rs1 :: u64
  rs2 :: u64
  rs3 :: u64

definition xoroshiro256_rotl :: "u64 \<Rightarrow> nat \<Rightarrow> u64" where
  "xoroshiro256_rotl x k = push_bit k x OR drop_bit (64 - k) x"

text \<open>The assignments of \<open>xoroshiro256_next\<close>, in their order.\<close>

definition xoroshiro256_next :: "rng \<Rightarrow> u64 \<times> rng" where
  "xoroshiro256_next r =
     (let result_starstar = xoroshiro256_rotl (rs1 r * 5) 7 * 9;
          t = push_bit 17 (rs1 r);
          r = r\<lparr>rs2 := rs2 r XOR rs0 r\<rparr>;
          r = r\<lparr>rs3 := rs3 r XOR rs1 r\<rparr>;
          r = r\<lparr>rs1 := rs1 r XOR rs2 r\<rparr>;
          r = r\<lparr>rs0 := rs0 r XOR rs3 r\<rparr>;
          r = r\<lparr>rs2 := rs2 r XOR t\<rparr>;
          r = r\<lparr>rs3 := xoroshiro256_rotl (rs3 r) 45\<rparr>
      in (result_starstar, r))"

definition rand_long :: "rng \<Rightarrow> u64 \<times> rng" where
  "rand_long r = xoroshiro256_next r"

definition rand_byte :: "rng \<Rightarrow> byte \<times> rng" where
  "rand_byte r = (case rand_long r of (x, r') \<Rightarrow> (ucast x, r'))"

section \<open>Rotation\<close>

lemma bit_rotl:
  assumes "k < 64"
  shows "bit (xoroshiro256_rotl x k) n \<longleftrightarrow>
    n < 64 \<and> (if k \<le> n then bit x (n - k) else bit x (n + 64 - k))"
proof -
  have "\<not> bit x m" if "64 \<le> m" for m
    using that by (auto dest: bit_imp_le_length)
  then show ?thesis
    using assms
    by (auto simp: xoroshiro256_rotl_def bit_or_iff bit_push_bit_iff bit_drop_bit_eq
        bit_imp_le_length add.commute)
qed

lemma rotl_rotl_inverse:
  assumes "0 < k" "k < 64"
  shows "xoroshiro256_rotl (xoroshiro256_rotl x k) (64 - k) = x"
proof (rule bit_word_eqI)
  fix n
  assume "n < LENGTH(64)"
  then show "bit (xoroshiro256_rotl (xoroshiro256_rotl x k) (64 - k)) n = bit x n"
    using assms by (auto simp: bit_rotl)
qed

text \<open>For the shift counts the code uses the macro-like helper is the library's rotation.\<close>

lemma rotl_is_word_rotl:
  assumes "k < 64"
  shows "xoroshiro256_rotl x k = word_rotl k x"
proof (rule bit_word_eqI)
  fix n
  assume n: "n < LENGTH(64)"
  have "(n + (64 - k)) mod 64 = (if k \<le> n then n - k else n + 64 - k)"
    using n assms by (simp add: mod_if)
  then show "bit (xoroshiro256_rotl x k) n = bit (word_rotl k x) n"
    using n assms by (auto simp: bit_rotl bit_word_rotl_iff)
qed

section \<open>The update is a bijection\<close>

lemma xor_cancel_left [simp]: "x XOR (x XOR y) = (y :: u64)"
  by (simp flip: xor.assoc)

lemma xor_cancel_right [simp]: "(x XOR y) XOR y = (x :: u64)"
  by (simp add: xor.assoc)

text \<open>Undoing \<open>x XOR (x << 17)\<close> on 64 bits takes the shifts 17, 34 and 51; 68 is out of range.\<close>

definition unshift17 :: "u64 \<Rightarrow> u64" where
  "unshift17 y = y XOR push_bit 17 y XOR push_bit 34 y XOR push_bit 51 y"

lemma push_bit_68: "push_bit 68 (x :: u64) = 0"
  by (rule bit_word_eqI) (simp add: bit_push_bit_iff)

lemma unshift17_inverse: "unshift17 (x XOR push_bit 17 x) = x"
  by (simp add: unshift17_def push_bit_xor push_bit_68 ac_simps)

lemma shift17_unshift17: "unshift17 y XOR push_bit 17 (unshift17 y) = y"
  by (simp add: unshift17_def push_bit_xor push_bit_68 ac_simps)

definition rng_prev :: "rng \<Rightarrow> rng" where
  "rng_prev r =
     (let b3 = xoroshiro256_rotl (rs3 r) 19;
          a0 = rs0 r XOR b3;
          a1 = unshift17 (rs1 r XOR rs2 r);
          a2 = rs1 r XOR a1 XOR a0;
          a3 = b3 XOR a1
      in \<lparr>rs0 = a0, rs1 = a1, rs2 = a2, rs3 = a3\<rparr>)"

lemma next_state:
  "snd (xoroshiro256_next r) =
     \<lparr>rs0 = rs0 r XOR (rs3 r XOR rs1 r), rs1 = rs1 r XOR (rs2 r XOR rs0 r),
      rs2 = (rs2 r XOR rs0 r) XOR push_bit 17 (rs1 r), rs3 = xoroshiro256_rotl (rs3 r XOR rs1 r) 45\<rparr>"
  by (simp add: xoroshiro256_next_def Let_def)

lemma rng_prev_next: "rng_prev (snd (xoroshiro256_next r)) = r"
proof -
  have rot: "xoroshiro256_rotl (xoroshiro256_rotl x 45) 19 = x" for x
    using rotl_rotl_inverse [of 45 x] by simp
  have "(rs1 r XOR (rs2 r XOR rs0 r)) XOR ((rs2 r XOR rs0 r) XOR push_bit 17 (rs1 r)) =
      rs1 r XOR push_bit 17 (rs1 r)"
    by (simp add: ac_simps)
  then show ?thesis
    by (simp add: rng_prev_def next_state Let_def rot unshift17_inverse) (simp add: ac_simps)
qed

lemma next_rng_prev: "snd (xoroshiro256_next (rng_prev r)) = r"
proof -
  have rot: "xoroshiro256_rotl (xoroshiro256_rotl x 19) 45 = x" for x
    using rotl_rotl_inverse [of 19 x] by simp
  have "(unshift17 y XOR push_bit 17 (unshift17 y)) XOR unshift17 y = y XOR unshift17 y" for y
    by (simp only: shift17_unshift17)
  then have "push_bit 17 (unshift17 y) = y XOR unshift17 y" for y
    by (simp add: ac_simps)
  then show ?thesis
    by (simp add: rng_prev_def next_state Let_def rot) (simp add: ac_simps)
qed

lemma next_state_bij: "bij (\<lambda>r. snd (xoroshiro256_next r))"
  by (rule o_bij [of rng_prev]) (auto simp: fun_eq_iff rng_prev_next next_rng_prev)

definition rng_zero :: rng where
  "rng_zero = \<lparr>rs0 = 0, rs1 = 0, rs2 = 0, rs3 = 0\<rparr>"

lemma next_zero: "snd (xoroshiro256_next rng_zero) = rng_zero"
  by (simp add: next_state rng_zero_def xoroshiro256_rotl_def)

lemma next_nonzero: "r \<noteq> rng_zero \<Longrightarrow> snd (xoroshiro256_next r) \<noteq> rng_zero"
  by (metis next_zero rng_prev_next)

section \<open>Properties\<close>

text \<open>The state update of the generator is a bijection of the 256-bit state space whose only
  fixed all-zero orbit is the all-zero state itself: a generator seeded with a non-zero state
  never reaches it, and no two states are merged.\<close>

theorem rng_update_bijective:
  "bij (\<lambda>r. snd (xoroshiro256_next r)) \<and> (snd (xoroshiro256_next r) = rng_zero \<longleftrightarrow> r = rng_zero)"
  by (metis next_state_bij next_zero next_nonzero)

end
