(* ===== verification/Mutator.thy ===== *)
theory Mutator
  imports Mish_Common Rng "HOL-Library.Signed_Division"
begin

text \<open>
  src/mishegos/mutator.c: the instruction candidate generators. The static variables
  \<open>rng_state\<close> and \<open>insn_cand\<close> and the unread part of stdin form the record \<open>mutator_state\<close>,
  which every generator takes and returns. Buffer writes go through the checked \<open>poke\<close> and
  \<open>copy_to\<close>, so a result \<open>Some\<close> says that no buffer was overrun. The local variable
  \<open>opcode opc\<close>, which C leaves uninitialised, is an argument \<open>junk\<close> of the code that declares
  it; the field \<open>stack_junk\<close> holds whatever the stack happens to contain there.
\<close>

section \<open>Data\<close>

record opcode =
  op_len :: byte
  op :: "byte list"

record insn_candidate =
  c_off :: byte
  c_len :: byte
  c_insn :: "byte list"

record mutator_state =
  rng_state :: rng
  insn_cand :: insn_candidate
  stdin :: "byte list"
  stack_junk :: opcode

definition zero_candidate :: insn_candidate where
  "zero_candidate = \<lparr>c_off = 0, c_len = 0, c_insn = replicate 28 0\<rparr>"

definition legacy_prefixes :: "byte list" where
  "legacy_prefixes = [0xf0, 0xf3, 0xf2, 0x2e, 0x36, 0x3e, 0x26, 0x64, 0x65, 0x66, 0x67]"

definition rex_prefixes :: "byte list" where
  "rex_prefixes = [0x40, 0x41, 0x42, 0x43, 0x44, 0x45, 0x46, 0x47,
                   0x48, 0x49, 0x4a, 0x4b, 0x4c, 0x4d, 0x4e, 0x4f]"

section \<open>Opcodes\<close>

definition set_op :: "nat \<Rightarrow> byte \<Rightarrow> opcode \<Rightarrow> opcode option" where
  "set_op i b opc = do { bs \<leftarrow> poke (op opc) i b; Some (opc\<lparr>op := bs\<rparr>) }"

text \<open>\<open>rand_op_bytes i n\<close>: \<open>opc->op[i] = rand_byte(); ...\<close>, \<open>n\<close> times in a row.\<close>

fun rand_op_bytes :: "nat \<Rightarrow> nat \<Rightarrow> opcode \<Rightarrow> rng \<Rightarrow> (opcode \<times> rng) option" where
  "rand_op_bytes i 0 opc r = Some (opc, r)"
| "rand_op_bytes i (Suc n) opc r =
     (case rand_byte r of (b, r') \<Rightarrow>
        do { opc' \<leftarrow> set_op i b opc; rand_op_bytes (Suc i) n opc' r' })"

definition rand_opcode :: "opcode \<Rightarrow> rng \<Rightarrow> (opcode \<times> rng) option" where
  "rand_opcode opc r =
     (case rand_byte r of (b, r) \<Rightarrow>
        let k = unat b mod 8 in
        if k = 0 then rand_op_bytes 0 1 (opc\<lparr>op_len := 1\<rparr>) r
        else if k = 1 then do {
          opc \<leftarrow> set_op 0 0x0f (opc\<lparr>op_len := 2\<rparr>);
          rand_op_bytes 1 1 opc r }
        else if k = 2 then do {
          opc \<leftarrow> set_op 0 0x0f (opc\<lparr>op_len := 3\<rparr>);
          opc \<leftarrow> set_op 1 0x38 opc;
          rand_op_bytes 2 1 opc r }
        else if k = 3 then do {
          opc \<leftarrow> set_op 0 0x0f (opc\<lparr>op_len := 3\<rparr>);
          opc \<leftarrow> set_op 1 0x3a opc;
          rand_op_bytes 2 1 opc r }
        else if k = 4 then do {
          opc \<leftarrow> set_op 0 0xc5 (opc\<lparr>op_len := 3\<rparr>);
          rand_op_bytes 1 2 opc r }
        else if k = 5 then do {
          opc \<leftarrow> set_op 0 0xc4 (opc\<lparr>op_len := 4\<rparr>);
          rand_op_bytes 1 3 opc r }
        else if k = 6 then do {
          opc \<leftarrow> set_op 0 0x8f (opc\<lparr>op_len := 4\<rparr>);
          rand_op_bytes 1 3 opc r }
        else do {
          opc \<leftarrow> set_op 0 0x62 (opc\<lparr>op_len := 5\<rparr>);
          rand_op_bytes 1 4 opc r })"

section \<open>Pieces of a candidate\<close>

text \<open>
  Both structured generators write through a cursor: a buffer and the number of bytes used,
  an 8-bit length. \<open>put_byte\<close> is \<open>buf[len] = b; len++\<close> and \<open>put_bytes\<close> is
  \<open>memcpy(buf + len, src, n); len += n\<close>.
\<close>

type_synonym cursor = "byte list \<times> byte"

definition put_byte :: "byte \<Rightarrow> cursor \<Rightarrow> cursor option" where
  "put_byte b c = (case c of (buf, len) \<Rightarrow>
     do { buf' \<leftarrow> poke buf (unat len) b; Some (buf', len + 1) })"

definition put_bytes :: "byte list \<Rightarrow> byte \<Rightarrow> cursor \<Rightarrow> cursor option" where
  "put_bytes src n c = (case c of (buf, len) \<Rightarrow>
     do { buf' \<leftarrow> copy_to buf (unat len) src 0 (unat n); Some (buf', len + n) })"

text \<open>The prefix loop: \<open>for (i = 0; i < n; ++i) buf[i] = legacy_prefixes[rand_byte() % 11]\<close>.\<close>

fun rand_legacy :: "nat \<Rightarrow> nat \<Rightarrow> byte list \<Rightarrow> rng \<Rightarrow> (byte list \<times> rng) option" where
  "rand_legacy i 0 buf r = Some (buf, r)"
| "rand_legacy i (Suc n) buf r =
     (case rand_byte r of (b, r') \<Rightarrow> do {
        p \<leftarrow> peek legacy_prefixes (unat b mod length legacy_prefixes);
        buf' \<leftarrow> poke buf i p;
        rand_legacy (Suc i) n buf' r' })"

text \<open>A prefix of the REX table.\<close>

definition rand_rex :: "cursor \<Rightarrow> rng \<Rightarrow> (cursor \<times> rng) option" where
  "rand_rex c r = (case rand_byte r of (b, r') \<Rightarrow> do {
     p \<leftarrow> peek rex_prefixes (unat b mod length rex_prefixes);
     c' \<leftarrow> put_byte p c;
     Some (c', r') })"

text \<open>One fully random byte.\<close>

definition rand_put :: "cursor \<Rightarrow> rng \<Rightarrow> (cursor \<times> rng) option" where
  "rand_put c r = (case rand_byte r of (b, r') \<Rightarrow> do { c' \<leftarrow> put_byte b c; Some (c', r') })"

text \<open>\<open>opcode opc; rand_opcode(&opc); memcpy(..., opc.op, opc.len); len += opc.len\<close>.\<close>

definition put_opcode :: "opcode \<Rightarrow> cursor \<Rightarrow> rng \<Rightarrow> (cursor \<times> rng) option" where
  "put_opcode junk c r = do {
     (opc, r) \<leftarrow> rand_opcode junk r;
     c' \<leftarrow> put_bytes (op opc) (op_len opc) c;
     Some (c', r) }"

text \<open>A displacement or an immediate of the sliding candidate: absent, or 1, 2, 4 or 8 bytes.\<close>

definition rand_field :: "cursor \<Rightarrow> rng \<Rightarrow> (cursor \<times> rng) option" where
  "rand_field c r = (case rand_byte r of (b, r) \<Rightarrow>
     if unat b mod 2 = 0 then
       (case rand_byte r of (b, r) \<Rightarrow>
        let fieldlen = push_bit (unat b mod 4) (1 :: byte) in
        (case rand_long r of (field, r) \<Rightarrow>
           do { c' \<leftarrow> put_bytes (le_enc 8 field) fieldlen c; Some (c', r) }))
     else Some (c, r))"

text \<open>The end of a sliding candidate: ModR/M, SIB, displacement, immediate.\<close>

definition rand_operands :: "cursor \<Rightarrow> rng \<Rightarrow> (cursor \<times> rng) option" where
  "rand_operands c r = do {
     (c, r) \<leftarrow> rand_put c r;
     (c, r) \<leftarrow> rand_put c r;
     (c, r) \<leftarrow> rand_field c r;
     rand_field c r }"

text \<open>The optional pieces of the structured generator, each behind a coin toss.\<close>

definition optional_rex :: "cursor \<Rightarrow> rng \<Rightarrow> (cursor \<times> rng) option" where
  "optional_rex c r = (case rand_byte r of (b, r) \<Rightarrow>
     if unat b mod 2 \<noteq> 0 then rand_rex c r else Some (c, r))"

definition optional_byte :: "cursor \<Rightarrow> rng \<Rightarrow> (cursor \<times> rng) option" where
  "optional_byte c r = (case rand_byte r of (b, r) \<Rightarrow>
     if unat b mod 2 \<noteq> 0 then rand_put c r else Some (c, r))"

text \<open>\<open>if (len + tail_size > MISHEGOS_INSN_MAXLEN) tail_size = MISHEGOS_INSN_MAXLEN - len\<close>.\<close>

definition clamp_tail :: "byte \<Rightarrow> byte \<Rightarrow> byte" where
  "clamp_tail len tail_size =
     (if unat len + unat tail_size > MISHEGOS_INSN_MAXLEN
      then of_nat MISHEGOS_INSN_MAXLEN - len else tail_size)"

section \<open>The generators\<close>

definition build_sliding_candidate :: "opcode \<Rightarrow> rng \<Rightarrow> (insn_candidate \<times> rng) option" where
  "build_sliding_candidate junk r = do {
     let cand = zero_candidate;
     (buf, r) \<leftarrow> rand_legacy 0 4 (c_insn cand) r;
     let c = (buf, c_len cand + 4);
     let (b, r) = rand_byte r;
     (c, r) \<leftarrow> (if unat b mod 3 = 0 then rand_rex c r
                else if unat b mod 3 = 1 then rand_put c r
                else Some (c, r));
     (c, r) \<leftarrow> put_opcode junk c r;
     (c, r) \<leftarrow> rand_operands c r;
     Some (cand\<lparr>c_insn := fst c, c_len := snd c\<rparr>, r) }"

definition havoc_candidate ::
  "mutator_state \<Rightarrow> input_slot \<Rightarrow> (bool \<times> input_slot \<times> mutator_state) option" where
  "havoc_candidate e slot = do {
     let (b, r) = rand_byte (rng_state e);
     let slot = slot\<lparr>in_len := of_nat (unat b mod MISHEGOS_INSN_MAXLEN + 1)\<rparr>;
     let (lower, r) = rand_long r;
     let (upper, r) = rand_long r;
     raw \<leftarrow> copy_to (raw_insn slot) 0 (le_enc 8 lower) 0 8;
     raw \<leftarrow> copy_to raw 8 (le_enc 8 upper) 0 7;
     Some (True, slot\<lparr>raw_insn := raw\<rparr>, e\<lparr>rng_state := r\<rparr>) }"

definition sliding_candidate ::
  "mutator_state \<Rightarrow> input_slot \<Rightarrow> (bool \<times> input_slot \<times> mutator_state) option" where
  "sliding_candidate e slot = do {
     (cand, r) \<leftarrow> (if c_off (insn_cand e) = 0 then build_sliding_candidate (stack_junk e) (rng_state e)
                  else Some (insn_cand e, rng_state e));
     (if unat (c_len cand) \<le> MISHEGOS_INSN_MAXLEN then do {
        raw \<leftarrow> copy_to (raw_insn slot) 0 (c_insn cand) 0 (unat (c_len cand));
        Some (True, slot\<lparr>raw_insn := raw, in_len := c_len cand\<rparr>,
              e\<lparr>rng_state := r, insn_cand := cand\<lparr>c_off := 0\<rparr>\<rparr>) }
      else do {
        raw \<leftarrow> copy_to (raw_insn slot) 0 (c_insn cand) (unat (c_off cand)) MISHEGOS_INSN_MAXLEN;
        Some (True, slot\<lparr>raw_insn := raw, in_len := of_nat MISHEGOS_INSN_MAXLEN\<rparr>,
              e\<lparr>rng_state := r,
                insn_cand := cand\<lparr>c_off := of_nat ((unat (c_off cand) + 1)
                    mod (unat (c_len cand) - MISHEGOS_INSN_MAXLEN + 1))\<rparr>\<rparr>) }) }"

definition structured_candidate ::
  "mutator_state \<Rightarrow> input_slot \<Rightarrow> (bool \<times> input_slot \<times> mutator_state) option" where
  "structured_candidate e slot = do {
     let (b, r) = rand_byte (rng_state e);
     let prefix_count = b mod 5;
     (raw, r) \<leftarrow> rand_legacy 0 (unat prefix_count) (raw_insn slot) r;
     let c = (raw, prefix_count);
     (c, r) \<leftarrow> optional_rex c r;
     (c, r) \<leftarrow> put_opcode (stack_junk e) c r;
     (c, r) \<leftarrow> optional_byte c r;
     (c, r) \<leftarrow> optional_byte c r;
     let (tail, r) = rand_long r;
     let (b, r) = rand_byte r;
     let tail_size = clamp_tail (snd c) (b mod 6);
     c \<leftarrow> put_bytes (le_enc 8 tail) tail_size c;
     Some (True, slot\<lparr>raw_insn := fst c, in_len := snd c\<rparr>, e\<lparr>rng_state := r\<rparr>) }"

definition dummy_candidate ::
  "mutator_state \<Rightarrow> input_slot \<Rightarrow> (bool \<times> input_slot \<times> mutator_state) option" where
  "dummy_candidate e slot = do {
     raw \<leftarrow> poke (raw_insn slot) 0 0x90;
     Some (False, slot\<lparr>raw_insn := raw, in_len := 1\<rparr>, e) }"

section \<open>What the pieces write\<close>

text \<open>
  \<open>cursor_at old bs c\<close>: starting from the buffer \<open>old\<close>, exactly the bytes \<open>bs\<close> have been
  written, at its front, and the length says so. The lemmas of this section say which bytes
  each piece appends; the generators are then chains of them.
\<close>

definition cursor_at :: "byte list \<Rightarrow> byte list \<Rightarrow> cursor \<Rightarrow> bool" where
  "cursor_at old bs c \<longleftrightarrow>
     c = (overlay bs old, of_nat (length bs)) \<and> length bs \<le> length old \<and> length old < 256"

lemma cursor_at_len: "cursor_at old bs c \<Longrightarrow> unat (snd c) = length bs"
  by (auto simp: cursor_at_def mem_simps)

lemma put_byte_at:
  "cursor_at old bs c \<Longrightarrow> length bs < length old \<Longrightarrow>
   \<exists>c'. put_byte b c = Some c' \<and> cursor_at old (bs @ [b]) c'"
  by (auto simp: cursor_at_def put_byte_def mem_simps)

lemma put_bytes_at:
  assumes "cursor_at old bs c" and "length bs + unat n \<le> length old" and "unat n \<le> length src"
  shows "\<exists>c'. put_bytes src n c = Some c' \<and> cursor_at old (bs @ take (unat n) src) c'"
proof -
  have "copy_to (overlay bs old) (length bs) src 0 (unat n) =
      Some (overlay (bs @ take (unat n) src) old)"
    using assms by (simp add: mem_simps)
  moreover have "of_nat (length bs) + n = (of_nat (length (bs @ take (unat n) src)) :: byte)"
    using assms by (simp add: min_def)
  ultimately show ?thesis
    using assms by (auto simp: cursor_at_def put_bytes_def mem_simps)
qed

lemma rand_put_at:
  assumes "cursor_at old bs c" and "length bs < length old"
  shows "\<exists>b c' r'. rand_put c r = Some (c', r') \<and> cursor_at old (bs @ [b]) c'"
proof -
  obtain x r' where x: "rand_byte r = (x, r')"
    by fastforce
  obtain c' where "put_byte x c = Some c'" and "cursor_at old (bs @ [x]) c'"
    using put_byte_at [OF assms] by blast
  with x show ?thesis
    by (auto simp: rand_put_def)
qed

lemma rand_rex_at:
  assumes "cursor_at old bs c" and "length bs < length old"
  shows "\<exists>b c' r'. rand_rex c r = Some (c', r') \<and> b \<in> set rex_prefixes \<and>
           cursor_at old (bs @ [b]) c'"
proof -
  obtain x r' where x: "rand_byte r = (x, r')"
    by fastforce
  define k where "k = unat x mod length rex_prefixes"
  have k: "k < length rex_prefixes"
    by (simp add: k_def rex_prefixes_def)
  obtain c' where "put_byte (rex_prefixes ! k) c = Some c'"
      and "cursor_at old (bs @ [rex_prefixes ! k]) c'"
    using put_byte_at [OF assms] by blast
  with x k show ?thesis
    by (auto simp: rand_rex_def peek_def k_def intro!: exI [of _ "rex_prefixes ! k"])
qed

lemma rand_legacy_at:
  assumes "i = length bs" and "length bs + n \<le> length old"
  shows "\<exists>ps r'. rand_legacy i n (overlay bs old) r = Some (overlay (bs @ ps) old, r') \<and>
           length ps = n \<and> set ps \<subseteq> set legacy_prefixes"
  using assms
proof (induction n arbitrary: i bs r)
  case 0
  then show ?case by (intro exI [of _ "[]"]) simp
next
  case (Suc n)
  obtain x r' where x: "rand_byte r = (x, r')"
    by fastforce
  define p where "p = legacy_prefixes ! (unat x mod length legacy_prefixes)"
  have k: "unat x mod length legacy_prefixes < length legacy_prefixes"
    by (simp add: legacy_prefixes_def)
  then have p: "p \<in> set legacy_prefixes"
    unfolding p_def by (rule nth_mem)
  have "\<exists>ps r''. rand_legacy (Suc i) n (overlay (bs @ [p]) old) r'
        = Some (overlay ((bs @ [p]) @ ps) old, r'') \<and> length ps = n \<and>
          set ps \<subseteq> set legacy_prefixes"
    using Suc.prems by (intro Suc.IH) auto
  then obtain ps r'' where
    "rand_legacy (Suc i) n (overlay (bs @ [p]) old) r' = Some (overlay ((bs @ [p]) @ ps) old, r'')"
    and "length ps = n" and "set ps \<subseteq> set legacy_prefixes"
    by blast
  with x k p Suc.prems show ?case
    by (intro exI [of _ "p # ps"] exI [of _ r'']) (simp add: peek_def p_def mem_simps)
qed

text \<open>The six formats of an opcode, as the eight cases of \<open>rand_opcode\<close> produce them.\<close>

definition opcode_form :: "byte list \<Rightarrow> bool" where
  "opcode_form bs \<longleftrightarrow>
     length bs = 1
   \<or> length bs = 2 \<and> bs ! 0 = 0x0f
   \<or> length bs = 3 \<and> (bs ! 0 = 0x0f \<and> (bs ! 1 = 0x38 \<or> bs ! 1 = 0x3a) \<or> bs ! 0 = 0xc5)
   \<or> length bs = 4 \<and> (bs ! 0 = 0xc4 \<or> bs ! 0 = 0x8f)
   \<or> length bs = 5 \<and> bs ! 0 = 0x62"

lemma opcode_form_length: "opcode_form bs \<Longrightarrow> 1 \<le> length bs \<and> length bs \<le> 5"
  by (auto simp: opcode_form_def)

text \<open>
  The switch of \<open>rand_opcode\<close> as a table: the fixed bytes of each format and the number of
  random bytes that follow them.
\<close>

primrec rand_bytes :: "nat \<Rightarrow> rng \<Rightarrow> byte list \<times> rng" where
  "rand_bytes 0 r = ([], r)"
| "rand_bytes (Suc n) r =
     (case rand_byte r of (b, r') \<Rightarrow> (case rand_bytes n r' of (bs, r'') \<Rightarrow> (b # bs, r'')))"

definition opcode_formats :: "(byte list \<times> nat) list" where
  "opcode_formats =
     [([], 1), ([0x0f], 1), ([0x0f, 0x38], 1), ([0x0f, 0x3a], 1),
      ([0xc5], 2), ([0xc4], 3), ([0x8f], 3), ([0x62], 4)]"

definition opcode_draw :: "rng \<Rightarrow> byte list \<times> rng" where
  "opcode_draw r =
     (case rand_byte r of (b, r) \<Rightarrow>
      case opcode_formats ! (unat b mod 8) of (fixed, n) \<Rightarrow>
      case rand_bytes n r of (bs, r) \<Rightarrow> (fixed @ bs, r))"

lemma length_rand_bytes: "rand_bytes n r = (bs, r') \<Longrightarrow> length bs = n"
  by (induction n arbitrary: r bs) (auto split: prod.splits)

lemma rand_op_bytes_draw:
  "op opc = overlay pre old \<Longrightarrow> i = length pre \<Longrightarrow> i + n \<le> length old \<Longrightarrow>
   rand_op_bytes i n opc r =
     (case rand_bytes n r of (bs, r') \<Rightarrow> Some (opc\<lparr>op := overlay (pre @ bs) old\<rparr>, r'))"
proof (induction n arbitrary: i pre opc r)
  case 0
  then show ?case by simp
next
  case (Suc n)
  obtain x r' where x: "rand_byte r = (x, r')"
    by fastforce
  define opc1 where "opc1 = opc\<lparr>op := overlay (pre @ [x]) old\<rparr>"
  have "rand_op_bytes (Suc i) n opc1 r' =
      (case rand_bytes n r' of (bs, r'') \<Rightarrow>
         Some (opc1\<lparr>op := overlay ((pre @ [x]) @ bs) old\<rparr>, r''))"
    using Suc.prems by (intro Suc.IH) (auto simp: opc1_def)
  with Suc.prems x show ?case
    by (simp add: set_op_def mem_simps opc1_def split: prod.split)
qed

lemma nat_lt_8_cases: "(k :: nat) < 8 \<Longrightarrow>
  k = 0 \<or> k = 1 \<or> k = 2 \<or> k = 3 \<or> k = 4 \<or> k = 5 \<or> k = 6 \<or> k = 7"
  by arith

lemma set_op_overlay [mem_simps]:
  "op opc = overlay pre old \<Longrightarrow> i = length pre \<Longrightarrow> i < length old \<Longrightarrow>
   set_op i b opc = Some (opc\<lparr>op := overlay (pre @ [b]) old\<rparr>)"
  by (simp add: set_op_def mem_simps)

lemma rand_opcode_draw:
  assumes "length (op junk) = 5"
  shows "rand_opcode junk r = (case opcode_draw r of (obs, r') \<Rightarrow>
    Some (\<lparr>op_len = of_nat (length obs), op = overlay obs (op junk)\<rparr>, r'))"
proof -
  obtain x r' where x: "rand_byte r = (x, r')"
    by fastforce
  have j: "op junk = overlay [] (op junk)"
    by (simp add: mem_simps)
  have "unat x mod 8 < 8"
    by simp
  from nat_lt_8_cases [OF this] show ?thesis
    using assms x
    by (elim disjE)
      (simp_all add: rand_opcode_def opcode_draw_def opcode_formats_def
        set_op_overlay [where pre = "[]" and old = "op junk"]
        set_op_overlay [where pre = "[0xf]" and old = "op junk"]
        rand_op_bytes_draw [where pre = "[]" and old = "op junk"]
        rand_op_bytes_draw [where pre = "[a]" and old = "op junk" for a]
        rand_op_bytes_draw [where pre = "[a, b]" and old = "op junk" for a b]
        mem_simps split: prod.split, auto dest!: length_rand_bytes)
qed

lemma opcode_draw_form: "opcode_draw r = (obs, r') \<Longrightarrow> opcode_form obs"
proof -
  assume draw: "opcode_draw r = (obs, r')"
  obtain x r1 where x: "rand_byte r = (x, r1)"
    by fastforce
  have "unat x mod 8 < 8"
    by simp
  from nat_lt_8_cases [OF this] show ?thesis
    using draw x
    by (elim disjE)
      (auto simp: opcode_draw_def opcode_formats_def opcode_form_def
        dest!: length_rand_bytes split: prod.splits)
qed

lemma put_opcode_at:
  assumes "length (op junk) = 5" and "cursor_at old bs c" and "length bs + 5 \<le> length old"
  shows "\<exists>obs c' r'. put_opcode junk c r = Some (c', r') \<and> opcode_draw r = (obs, r') \<and>
           opcode_form obs \<and> cursor_at old (bs @ obs) c'"
proof -
  obtain obs r' where d: "opcode_draw r = (obs, r')"
    by fastforce
  have form: "opcode_form obs"
    using d by (rule opcode_draw_form)
  then have len: "length obs \<le> 5"
    by (simp add: opcode_form_length)
  have "\<exists>c'. put_bytes (overlay obs (op junk)) (of_nat (length obs)) c = Some c' \<and>
      cursor_at old (bs @ take (unat (of_nat (length obs) :: byte)) (overlay obs (op junk))) c'"
    using assms len by (intro put_bytes_at) (simp_all add: mem_simps)
  with assms(1) d form len show ?thesis
    by (auto simp: put_opcode_def rand_opcode_draw mem_simps)
qed

text \<open>A displacement or immediate field.\<close>

definition field_form :: "byte list \<Rightarrow> bool" where
  "field_form bs \<longleftrightarrow> length bs \<in> {0, 1, 2, 4, 8}"

lemma unat_push_bit_1:
  assumes "k < 4"
  shows "unat (push_bit k (1 :: byte)) \<in> {1, 2, 4, 8}"
proof -
  have "k = 0 \<or> k = 1 \<or> k = 2 \<or> k = 3"
    using assms by arith
  then show ?thesis
    by (elim disjE) simp_all
qed

lemma rand_field_at:
  assumes "cursor_at old bs c" and "length bs + 8 \<le> length old"
  shows "\<exists>f c' r'. rand_field c r = Some (c', r') \<and> field_form f \<and> cursor_at old (bs @ f) c'"
proof -
  obtain b1 r1 where b1: "rand_byte r = (b1, r1)" by fastforce
  obtain b2 r2 where b2: "rand_byte r1 = (b2, r2)" by fastforce
  obtain w r3 where w: "rand_long r2 = (w, r3)" by fastforce
  define n where "n = push_bit (unat b2 mod 4) (1 :: byte)"
  have n: "unat n \<in> {1, 2, 4, 8}"
    unfolding n_def by (rule unat_push_bit_1) simp
  then have "unat n \<le> 8"
    by auto
  then have "\<exists>c'. put_bytes (le_enc 8 w) n c = Some c' \<and>
      cursor_at old (bs @ take (unat n) (le_enc 8 w)) c'"
    using assms by (intro put_bytes_at) auto
  moreover have "field_form (take (unat n) (le_enc 8 w))" "field_form []"
    using n by (auto simp: field_form_def min_def)
  ultimately show ?thesis
    using assms(1) b1 b2 w
    by (cases "unat b1 mod 2 = 0")
      (fastforce simp: rand_field_def n_def Let_def, force simp: rand_field_def)
qed

section \<open>The sliding generator\<close>

text \<open>
  The shape of a sliding candidate: four legacy prefixes, at most one more prefix byte, an
  opcode, two bytes for ModR/M and SIB, a displacement and an immediate.
\<close>

definition sliding_form :: "byte list \<Rightarrow> bool" where
  "sliding_form bs \<longleftrightarrow> (\<exists>ps rx obs ms dp im. bs = ps @ rx @ obs @ ms @ dp @ im \<and>
     length ps = 4 \<and> set ps \<subseteq> set legacy_prefixes \<and> length rx \<le> 1 \<and> opcode_form obs \<and>
     length ms = 2 \<and> field_form dp \<and> field_form im)"

lemma sliding_form_length: "sliding_form bs \<Longrightarrow> 7 \<le> length bs \<and> length bs \<le> 28"
  by (auto simp: sliding_form_def field_form_def dest!: opcode_form_length)

definition candidate_of :: "byte list \<Rightarrow> insn_candidate" where
  "candidate_of bs =
     \<lparr>c_off = 0, c_len = of_nat (length bs), c_insn = bs @ replicate (28 - length bs) 0\<rparr>"

text \<open>The REX step: a table entry, a random byte or nothing.\<close>

lemma rex_step_at:
  assumes "cursor_at old bs c" and "length bs < length old"
  shows "\<exists>rx c' r'. (if k = (0 :: nat) then rand_rex c r else if k = 1 then rand_put c r
            else Some (c, r)) = Some (c', r') \<and> length rx \<le> 1 \<and> cursor_at old (bs @ rx) c'"
proof -
  obtain b1 c1 r1 where 1: "rand_rex c r = Some (c1, r1)" "cursor_at old (bs @ [b1]) c1"
    using rand_rex_at [OF assms, of r] by blast
  obtain b2 c2 r2 where 2: "rand_put c r = Some (c2, r2)" "cursor_at old (bs @ [b2]) c2"
    using rand_put_at [OF assms, of r] by blast
  consider "k = 0" | "k = 1" | "k \<noteq> 0" "k \<noteq> 1" by blast
  then show ?thesis
  proof cases
    case 1 then show ?thesis
      using \<open>rand_rex c r = Some (c1, r1)\<close> \<open>cursor_at old (bs @ [b1]) c1\<close>
      by (intro exI [of _ "[b1]"]) simp
  next
    case 2 then show ?thesis
      using \<open>rand_put c r = Some (c2, r2)\<close> \<open>cursor_at old (bs @ [b2]) c2\<close>
      by (intro exI [of _ "[b2]"]) simp
  next
    case 3 then show ?thesis
      using assms(1) by (intro exI [of _ "[]"]) simp
  qed
qed

lemma field_form_length: "field_form f \<Longrightarrow> length f \<le> 8"
  by (auto simp: field_form_def)

lemma rand_operands_at:
  assumes "cursor_at old bs c" and "length bs + 18 \<le> length old"
  shows "\<exists>ms dp im c' r'. rand_operands c r = Some (c', r') \<and> length ms = 2 \<and>
           field_form dp \<and> field_form im \<and> cursor_at old (bs @ ms @ dp @ im) c'"
proof -
  obtain m1 c1 r1 where c1: "rand_put c r = Some (c1, r1)" "cursor_at old (bs @ [m1]) c1"
    using rand_put_at [OF assms(1), of r] assms(2) by auto
  obtain m2 c2 r2 where c2: "rand_put c1 r1 = Some (c2, r2)" "cursor_at old ((bs @ [m1]) @ [m2]) c2"
    using rand_put_at [OF c1(2), of r1] assms(2) by auto
  obtain dp c3 r3 where c3: "rand_field c2 r2 = Some (c3, r3)" "field_form dp"
    "cursor_at old (((bs @ [m1]) @ [m2]) @ dp) c3"
    using rand_field_at [OF c2(2), of r2] assms(2) by auto
  obtain im c4 r4 where c4: "rand_field c3 r3 = Some (c4, r4)" "field_form im"
    "cursor_at old ((((bs @ [m1]) @ [m2]) @ dp) @ im) c4"
    using rand_field_at [OF c3(3), of r3] assms(2) field_form_length [OF c3(2)] by auto
  show ?thesis
    using c1 c2 c3 c4
    by (intro exI [of _ "[m1, m2]"] exI [of _ dp] exI [of _ im]) (simp add: rand_operands_def)
qed

lemma build_sliding_shape:
  assumes junk: "length (op junk) = 5"
  shows "\<exists>bs r'. build_sliding_candidate junk r = Some (candidate_of bs, r') \<and> sliding_form bs"
proof -
  let ?old = "replicate 28 (0 :: byte)"
  obtain ps r1 where ps: "rand_legacy 0 4 ?old r = Some (overlay ps ?old, r1)"
    "length ps = 4" "set ps \<subseteq> set legacy_prefixes"
    using rand_legacy_at [of 0 "[]" 4 ?old r] by (auto simp: mem_simps)
  have c0: "cursor_at ?old ps (overlay ps ?old, 4)"
    using ps(2) by (simp add: cursor_at_def)
  obtain b r2 where b: "rand_byte r1 = (b, r2)" by fastforce
  obtain rx c1 r3 where c1: "(if unat b mod 3 = 0 then rand_rex (overlay ps ?old, 4) r2
      else if unat b mod 3 = 1 then rand_put (overlay ps ?old, 4) r2
      else Some ((overlay ps ?old, 4), r2)) = Some (c1, r3)"
    "length rx \<le> 1" "cursor_at ?old (ps @ rx) c1"
    using rex_step_at [OF c0, of "unat b mod 3" r2] ps(2) by auto
  obtain obs c2 r4 where c2: "put_opcode junk c1 r3 = Some (c2, r4)" "opcode_form obs"
    "cursor_at ?old ((ps @ rx) @ obs) c2"
    using put_opcode_at [OF junk c1(3), of r3] ps(2) c1(2) by auto
  obtain ms dp im c3 r5 where c3: "rand_operands c2 r4 = Some (c3, r5)" "length ms = 2"
    "field_form dp" "field_form im" "cursor_at ?old (((ps @ rx) @ obs) @ ms @ dp @ im) c3"
    using rand_operands_at [OF c2(3), of r4] ps(2) c1(2) opcode_form_length [OF c2(2)] by auto
  define bs where "bs = ps @ rx @ obs @ ms @ dp @ im"
  have form: "sliding_form bs"
    unfolding sliding_form_def bs_def using ps(2,3) c1(2) c2(2) c3(2-4) by blast
  have "c3 = (bs @ replicate (28 - length bs) 0, of_nat (length bs))"
    using c3(5) by (simp add: cursor_at_def overlay_def bs_def)
  then have "build_sliding_candidate junk r = Some (candidate_of bs, r5)"
    using ps(1) b c1(1) c2(1) c3(1)
    by (simp add: build_sliding_candidate_def zero_candidate_def candidate_of_def)
  with form show ?thesis
    by blast
qed

text \<open>The uninitialised local variable never reaches the candidate.\<close>

lemma put_opcode_junk:
  "length (op j) = 5 \<Longrightarrow> length (op j') = 5 \<Longrightarrow> put_opcode j c r = put_opcode j' c r"
  by (auto simp: put_opcode_def rand_opcode_draw put_bytes_def copy_to_def overlay_def mem_simps
      dest!: opcode_draw_form opcode_form_length split: prod.split)

lemma build_sliding_junk:
  "length (op j) = 5 \<Longrightarrow> length (op j') = 5 \<Longrightarrow>
   build_sliding_candidate j r = build_sliding_candidate j' r"
  by (simp add: build_sliding_candidate_def put_opcode_junk [of j j'])

text \<open>
  The invariant of \<open>insn_cand\<close> between calls: a 28-byte buffer, a length inside it, and a
  non-zero offset only while a candidate longer than 15 bytes is being slid through.
\<close>

definition candidate_inv :: "insn_candidate \<Rightarrow> bool" where
  "candidate_inv c \<longleftrightarrow> length (c_insn c) = 28 \<and> unat (c_len c) \<le> 28 \<and>
     (c_off c \<noteq> 0 \<longrightarrow> MISHEGOS_INSN_MAXLEN < unat (c_len c) \<and>
        unat (c_off c) \<le> unat (c_len c) - MISHEGOS_INSN_MAXLEN)"

lemma candidate_inv_zero [simp]: "candidate_inv zero_candidate"
  by (simp add: candidate_inv_def zero_candidate_def)

lemma candidate_inv_of: "sliding_form bs \<Longrightarrow> candidate_inv (candidate_of bs)"
  by (auto simp: candidate_inv_def candidate_of_def mem_simps dest!: sliding_form_length)

lemma unat_candidate_len: "sliding_form bs \<Longrightarrow> unat (c_len (candidate_of bs)) = length bs"
  by (auto simp: candidate_of_def mem_simps dest!: sliding_form_length)

text \<open>Emitting from a candidate in hand: the second half of \<open>sliding_candidate\<close>.\<close>

definition window :: "insn_candidate \<Rightarrow> nat \<Rightarrow> byte list" where
  "window c k = take MISHEGOS_INSN_MAXLEN (drop k (c_insn c))"

lemma off_step_less:
  assumes "n \<le> (28 :: nat)"
  shows "(k + 1) mod (n - 15 + 1) \<le> n - 15 \<and> (k + 1) mod (n - 15 + 1) < 256"
proof -
  have "(k + 1) mod (n - 15 + 1) < n - 15 + 1"
    by (rule mod_less_divisor) simp
  then show ?thesis
    using assms by linarith
qed

lemma sliding_candidate_long:
  assumes "c_off (insn_cand e) = 0 \<Longrightarrow>
      build_sliding_candidate (stack_junk e) (rng_state e) = Some (cand, r)"
    and "c_off (insn_cand e) \<noteq> 0 \<Longrightarrow> cand = insn_cand e \<and> r = rng_state e"
    and "candidate_inv cand" and "15 < unat (c_len cand)" and "input_slot_wf slot"
  shows "sliding_candidate e slot =
    Some (True, slot\<lparr>raw_insn := window cand (unat (c_off cand)), in_len := 15\<rparr>,
      e\<lparr>rng_state := r, insn_cand := cand\<lparr>c_off := of_nat ((unat (c_off cand) + 1)
         mod (unat (c_len cand) - 15 + 1))\<rparr>\<rparr>)"
proof -
  have "unat (c_off cand) + 15 \<le> 28"
    using assms(3,4) by (cases "c_off cand = 0") (auto simp: candidate_inv_def)
  then show ?thesis
    using assms
    by (cases "c_off (insn_cand e) = 0")
      (simp_all add: sliding_candidate_def copy_to_def window_def slot_defs candidate_inv_def)
qed

lemma sliding_candidate_short:
  assumes "c_off (insn_cand e) = 0"
    and "build_sliding_candidate (stack_junk e) (rng_state e) = Some (candidate_of bs, r)"
    and "sliding_form bs" and "length bs \<le> 15" and "input_slot_wf slot"
  shows "sliding_candidate e slot =
    Some (True, slot\<lparr>raw_insn := overlay bs (raw_insn slot), in_len := of_nat (length bs)\<rparr>,
      e\<lparr>rng_state := r, insn_cand := candidate_of bs\<rparr>)"
proof -
  have u: "unat (of_nat (length bs) :: byte) = length bs"
    using assms(4) by (simp add: mem_simps)
  show ?thesis
    using assms u
    by (simp add: sliding_candidate_def copy_to_def overlay_def candidate_of_def slot_defs)
qed

lemma sliding_candidate_step:
  assumes junk: "length (op (stack_junk e)) = 5" and inv: "candidate_inv (insn_cand e)"
    and wf: "input_slot_wf slot"
  shows "\<exists>slot' e'. sliding_candidate e slot = Some (True, slot', e') \<and>
    candidate_inv (insn_cand e') \<and> input_slot_ok slot' \<and> 7 \<le> unat (in_len slot') \<and>
    stdin e' = stdin e \<and> stack_junk e' = stack_junk e"
proof -
  obtain bs r where b: "build_sliding_candidate (stack_junk e) (rng_state e) = Some (candidate_of bs, r)"
    and form: "sliding_form bs"
    using build_sliding_shape [OF junk] by blast
  note len = sliding_form_length [OF form]
  show ?thesis
  proof (cases "c_off (insn_cand e) = 0 \<and> length bs \<le> 15")
    case True
    then show ?thesis
      using sliding_candidate_short [OF _ b form _ wf] candidate_inv_of [OF form] wf len
      by (simp add: slot_defs mem_simps)
  next
    case False
    define cand where "cand = (if c_off (insn_cand e) = 0 then candidate_of bs else insn_cand e)"
    define r' where "r' = (if c_off (insn_cand e) = 0 then r else rng_state e)"
    have ci: "candidate_inv cand"
      using inv candidate_inv_of [OF form] by (simp add: cand_def)
    have long: "15 < unat (c_len cand)"
      using False inv unat_candidate_len [OF form] by (auto simp: cand_def candidate_inv_def)
    have off: "unat (c_off cand) \<le> unat (c_len cand) - 15" "unat (c_len cand) \<le> 28"
      "length (c_insn cand) = 28"
      using ci by (cases "c_off cand = 0"; simp add: candidate_inv_def)+
    have "sliding_candidate e slot =
      Some (True, slot\<lparr>raw_insn := window cand (unat (c_off cand)), in_len := 15\<rparr>,
        e\<lparr>rng_state := r', insn_cand := cand\<lparr>c_off := of_nat ((unat (c_off cand) + 1)
         mod (unat (c_len cand) - 15 + 1))\<rparr>\<rparr>)"
      using b ci long wf by (intro sliding_candidate_long) (auto simp: cand_def r'_def)
    with off long off_step_less [OF off(2), of "unat (c_off cand)"] show ?thesis
      by (simp add: candidate_inv_def slot_defs window_def mem_simps)
  qed
qed

text \<open>
  One candidate longer than 15 bytes is emitted as all its 15-byte windows, in order, over
  the following calls; then the offset is zero again and the next call builds a new one.
\<close>

fun mutate_list ::
  "('e \<Rightarrow> input_slot \<Rightarrow> (bool \<times> input_slot \<times> 'e) option) \<Rightarrow> 'e \<Rightarrow> input_slot list \<Rightarrow>
     (input_slot list \<times> 'e) option" where
  "mutate_list f e [] = Some ([], e)"
| "mutate_list f e (s # ss) = do {
     (b, s', e') \<leftarrow> f e s;
     (ss', e'') \<leftarrow> mutate_list f e' ss;
     Some (s' # ss', e'') }"

definition after_slide :: "mutator_state \<Rightarrow> rng \<Rightarrow> insn_candidate \<Rightarrow> mutator_state" where
  "after_slide e r cand = e\<lparr>rng_state := r, insn_cand := cand\<lparr>c_off := 0\<rparr>\<rparr>"

lemma slide_rest:
  assumes "candidate_inv cand" and "15 < unat (c_len cand)"
    and "0 < k" and "k + length slots = unat (c_len cand) - 14" and "slots \<noteq> []"
    and "insn_cand e = cand\<lparr>c_off := of_nat k\<rparr>" and "\<forall>s \<in> set slots. input_slot_wf s"
  shows "\<exists>outs. mutate_list sliding_candidate e slots =
      Some (outs, after_slide e (rng_state e) cand) \<and>
      map insn_bytes outs = map (window cand) [k..<unat (c_len cand) - 14]"
  using assms(3-7)
proof (induction slots arbitrary: k e)
  case Nil
  then show ?case by simp
next
  case (Cons s ss)
  let ?n = "unat (c_len cand)"
  have n: "?n \<le> 28" "length (c_insn cand) = 28"
    using assms(1) by (auto simp: candidate_inv_def)
  have k: "k \<le> ?n - 15" "k < 256" "unat (of_nat k :: byte) = k"
    using Cons.prems n by (auto simp: mem_simps)
  define e' where "e' = e\<lparr>insn_cand := cand\<lparr>c_off := of_nat ((k + 1) mod (?n - 15 + 1))\<rparr>\<rparr>"
  have nz: "of_nat k \<noteq> (0 :: byte)"
    using k Cons.prems(1) by (metis neq0_conv unat_0)
  have step: "sliding_candidate e s =
      Some (True, s\<lparr>raw_insn := window cand k, in_len := 15\<rparr>, e')"
    using sliding_candidate_long [of e "insn_cand e" "rng_state e" s] Cons.prems assms(1,2)
      k nz by (simp add: candidate_inv_def window_def e'_def)
  have w: "insn_bytes (s\<lparr>raw_insn := window cand k, in_len := 15\<rparr>) = window cand k"
    using k n by (simp add: insn_bytes_def window_def)
  show ?case
  proof (cases ss)
    case Nil
    then have "k + 1 = ?n - 15 + 1" "[k..<?n - 14] = [k]"
      using Cons.prems assms(2) by (auto simp: upt_rec)
    then have "e' = after_slide e (rng_state e) cand"
      by (simp add: e'_def after_slide_def)
    with Nil step w \<open>[k..<?n - 14] = [k]\<close> show ?thesis
      by simp
  next
    case (Cons s' ss')
    then have lt: "k + 1 < ?n - 15 + 1"
      using Cons.prems assms(2) by auto
    have "\<exists>outs. mutate_list sliding_candidate e' ss =
        Some (outs, after_slide e' (rng_state e') cand) \<and>
        map insn_bytes outs = map (window cand) [Suc k..<?n - 14]"
      using Cons Cons.prems lt by (intro Cons.IH) (auto simp: e'_def)
    moreover have "after_slide e' (rng_state e') cand = after_slide e (rng_state e) cand"
      by (simp add: after_slide_def e'_def)
    moreover have "[k..<?n - 14] = k # [Suc k..<?n - 14]"
      using lt by (simp add: upt_rec)
    ultimately show ?thesis
      using step w by auto
  qed
qed

lemma window_candidate_of:
  "sliding_form bs \<Longrightarrow> k + 15 \<le> length bs \<Longrightarrow>
   window (candidate_of bs) k = take 15 (drop k bs)"
  by (simp add: window_def candidate_of_def)

lemma slide_through:
  assumes "c_off (insn_cand e) = 0"
    and "build_sliding_candidate (stack_junk e) (rng_state e) = Some (candidate_of bs, r)"
    and "sliding_form bs" and "15 < length bs"
    and "length slots = length bs - 14" and "\<forall>s \<in> set slots. input_slot_wf s"
  shows "\<exists>outs. mutate_list sliding_candidate e slots =
      Some (outs, e\<lparr>rng_state := r, insn_cand := candidate_of bs\<rparr>) \<and>
      map insn_bytes outs = map (\<lambda>k. take 15 (drop k bs)) [0..<length bs - 14]"
proof -
  let ?c = "candidate_of bs"
  note len = unat_candidate_len [OF assms(3)]
  have off: "c_off ?c = 0" "?c\<lparr>c_off := 0\<rparr> = ?c"
    by (simp_all add: candidate_of_def)
  obtain s ss where slots: "slots = s # ss" and ss: "ss \<noteq> []"
    using assms(4,5) by (cases slots; cases "tl slots"; fastforce)
  define e1 where "e1 = e\<lparr>rng_state := r, insn_cand := ?c\<lparr>c_off := 1\<rparr>\<rparr>"
  have one: "(1 :: nat) mod (length bs - 15 + 1) = 1"
    using assms(4) by simp
  have step: "sliding_candidate e s =
      Some (True, s\<lparr>raw_insn := window ?c 0, in_len := 15\<rparr>, e1)"
    using sliding_candidate_long [of e ?c r s] assms candidate_inv_of [OF assms(3)] len
      slots one by (simp add: e1_def off)
  have "\<exists>outs. mutate_list sliding_candidate e1 ss =
      Some (outs, after_slide e1 (rng_state e1) ?c) \<and>
      map insn_bytes outs = map (window ?c) [1..<unat (c_len ?c) - 14]"
    using assms candidate_inv_of [OF assms(3)] len slots ss
    by (intro slide_rest) (auto simp: e1_def)
  then obtain outs where outs: "mutate_list sliding_candidate e1 ss =
      Some (outs, after_slide e1 (rng_state e1) ?c)"
    "map insn_bytes outs = map (window ?c) [1..<length bs - 14]"
    using len by auto
  have first: "insn_bytes (s\<lparr>raw_insn := window ?c 0, in_len := 15\<rparr>) = window ?c 0"
    using candidate_inv_of [OF assms(3)]
    by (simp add: insn_bytes_def window_def candidate_inv_def)
  have upt: "[0..<length bs - 14] = 0 # [1..<length bs - 14]"
    using assms(4) by (simp add: upt_rec)
  have "map (window ?c) [0..<length bs - 14] =
      map (\<lambda>k. take 15 (drop k bs)) [0..<length bs - 14]"
    using assms(3) by (intro map_cong) (auto intro!: window_candidate_of)
  then show ?thesis
    using step outs slots first
    by (simp add: after_slide_def e1_def off upt del: upt_Suc)
qed

section \<open>The other generators\<close>

lemma havoc_candidate_step:
  assumes "input_slot_wf slot"
  shows "\<exists>slot' e'. havoc_candidate e slot = Some (True, slot', e') \<and> input_slot_ok slot' \<and>
    1 \<le> unat (in_len slot') \<and> insn_cand e' = insn_cand e \<and> stdin e' = stdin e \<and>
    stack_junk e' = stack_junk e"
proof -
  obtain b r where b: "rand_byte (rng_state e) = (b, r)" by fastforce
  obtain lo r' where lo: "rand_long r = (lo, r')" by fastforce
  obtain up r'' where up: "rand_long r' = (up, r'')" by fastforce
  have u: "unat (of_nat (unat b mod 15 + 1) :: byte) = unat b mod 15 + 1"
    by (rule unat_of_nat_byte) (simp add: add.commute less_trans [of _ "15 + 1"])
  have "unat b mod 15 < 15"
    by simp
  then show ?thesis
    using assms b lo up u
    by (simp add: havoc_candidate_def copy_to_def slot_defs Let_def)
qed

definition structured_form :: "byte list \<Rightarrow> bool" where
  "structured_form bs \<longleftrightarrow> (\<exists>ps rx obs ms tl. bs = ps @ rx @ obs @ ms @ tl \<and>
     length ps \<le> 4 \<and> set ps \<subseteq> set legacy_prefixes \<and>
     length rx \<le> 1 \<and> set rx \<subseteq> set rex_prefixes \<and> opcode_form obs \<and>
     length ms \<le> 2 \<and> length tl \<le> 5)"

lemma optional_byte_at:
  assumes "cursor_at old bs c" and "length bs < length old"
  shows "\<exists>ms c' r'. optional_byte c r = Some (c', r') \<and> length ms \<le> 1 \<and>
    cursor_at old (bs @ ms) c'"
proof -
  obtain b r1 where b: "rand_byte r = (b, r1)" by fastforce
  obtain x c' r' where x: "rand_put c r1 = Some (c', r')" "cursor_at old (bs @ [x]) c'"
    using rand_put_at [OF assms, of r1] by blast
  show ?thesis
  proof (cases "unat b mod 2 \<noteq> 0")
    case True
    with b x show ?thesis
      by (intro exI [of _ "[x]"]) (simp add: optional_byte_def)
  next
    case False
    with b assms(1) show ?thesis
      by (intro exI [of _ "[]"]) (simp add: optional_byte_def)
  qed
qed

lemma optional_rex_at:
  assumes "cursor_at old bs c" and "length bs < length old"
  shows "\<exists>rx c' r'. optional_rex c r = Some (c', r') \<and> length rx \<le> 1 \<and>
    set rx \<subseteq> set rex_prefixes \<and> cursor_at old (bs @ rx) c'"
proof -
  obtain b r1 where b: "rand_byte r = (b, r1)" by fastforce
  obtain x c' r' where x: "rand_rex c r1 = Some (c', r')" "x \<in> set rex_prefixes"
      "cursor_at old (bs @ [x]) c'"
    using rand_rex_at [OF assms, of r1] by blast
  show ?thesis
  proof (cases "unat b mod 2 \<noteq> 0")
    case True
    with b x show ?thesis
      by (intro exI [of _ "[x]"]) (simp add: optional_rex_def)
  next
    case False
    with b assms(1) show ?thesis
      by (intro exI [of _ "[]"]) (simp add: optional_rex_def)
  qed
qed

text \<open>The tail size is cut so that the instruction never exceeds 15 bytes.\<close>

lemma clamp_tail_bound:
  assumes "n \<le> 15" and "unat t \<le> 5"
  shows "n + unat (clamp_tail (of_nat n) t) \<le> 15" and "unat (clamp_tail (of_nat n) t) \<le> 5"
proof -
  have n: "unat (of_nat n :: byte) = n"
    using assms(1) by (simp add: mem_simps)
  have s: "unat (15 - of_nat n :: byte) = 15 - n"
    using assms(1) n by (subst unat_sub) (simp_all add: word_le_nat_alt)
  show "n + unat (clamp_tail (of_nat n) t) \<le> 15"
    using assms(1) n s by (simp add: clamp_tail_def)
  show "unat (clamp_tail (of_nat n) t) \<le> 5"
    using assms n s by (auto simp: clamp_tail_def)
qed

lemma structured_candidate_shape:
  assumes junk: "length (op (stack_junk e)) = 5" and wf: "input_slot_wf slot"
  shows "\<exists>bs r. structured_candidate e slot = Some (True,
      slot\<lparr>raw_insn := overlay bs (raw_insn slot), in_len := of_nat (length bs)\<rparr>,
      e\<lparr>rng_state := r\<rparr>) \<and> structured_form bs \<and> length bs \<le> 15"
proof -
  let ?old = "raw_insn slot"
  have old: "length ?old = 15"
    using wf by (simp add: slot_defs)
  obtain b r1 where b: "rand_byte (rng_state e) = (b, r1)" by fastforce
  have pc: "unat (b mod 5) \<le> 4"
    using unat_mod_less [of 5 b] by simp
  obtain ps r2 where ps: "rand_legacy 0 (unat (b mod 5)) ?old r1 = Some (overlay ps ?old, r2)"
    "length ps = unat (b mod 5)" "set ps \<subseteq> set legacy_prefixes"
    using rand_legacy_at [of 0 "[]" "unat (b mod 5)" ?old r1] pc old by (auto simp: mem_simps)
  have c0: "cursor_at ?old ps (overlay ps ?old, b mod 5)"
    using ps(2) pc old by (simp add: cursor_at_def)
  obtain rx c1 r3 where c1: "optional_rex (overlay ps ?old, b mod 5) r2 = Some (c1, r3)"
    "length rx \<le> 1" "set rx \<subseteq> set rex_prefixes" "cursor_at ?old (ps @ rx) c1"
    using optional_rex_at [OF c0, of r2] ps(2) pc old by auto
  obtain obs c2 r4 where c2: "put_opcode (stack_junk e) c1 r3 = Some (c2, r4)" "opcode_form obs"
    "cursor_at ?old ((ps @ rx) @ obs) c2"
    using put_opcode_at [OF junk c1(4), of r3] ps(2) pc c1(2) old by auto
  note obs = opcode_form_length [OF c2(2)]
  obtain m1 c3 r5 where c3: "optional_byte c2 r4 = Some (c3, r5)" "length m1 \<le> 1"
    "cursor_at ?old (((ps @ rx) @ obs) @ m1) c3"
    using optional_byte_at [OF c2(3), of r4] ps(2) pc c1(2) obs old by auto
  obtain m2 c4 r6 where c4: "optional_byte c3 r5 = Some (c4, r6)" "length m2 \<le> 1"
    "cursor_at ?old ((((ps @ rx) @ obs) @ m1) @ m2) c4"
    using optional_byte_at [OF c3(3), of r5] ps(2) pc c1(2) obs c3(2) old by auto
  obtain t r7 where t: "rand_long r6 = (t, r7)" by fastforce
  obtain b4 r8 where b4: "rand_byte r7 = (b4, r8)" by fastforce
  define hs where "hs = (((ps @ rx) @ obs) @ m1) @ m2"
  have hs: "length hs \<le> 15"
    using ps(2) pc c1(2) obs c3(2) c4(2) by (auto simp: hs_def)
  have at4: "cursor_at ?old hs c4" and snd: "snd c4 = of_nat (length hs)"
    using c4(3) by (auto simp: hs_def cursor_at_def)
  define ts where "ts = clamp_tail (snd c4) (b4 mod 6)"
  have ts: "length hs + unat ts \<le> 15" "unat ts \<le> 5"
    using clamp_tail_bound [OF hs, of "b4 mod 6"] unat_mod_less [of 6 b4]
    by (simp_all add: ts_def snd)
  then obtain c5 where c5: "put_bytes (le_enc 8 t) ts c4 = Some c5"
    "cursor_at ?old (hs @ take (unat ts) (le_enc 8 t)) c5"
    using put_bytes_at [OF at4, of ts "le_enc 8 t"] old by auto
  define tl where "tl = take (unat ts) (le_enc 8 t)"
  have form: "structured_form (hs @ tl)"
    unfolding structured_form_def hs_def
    using ps pc c1(2,3) c2(2) c3(2) c4(2) ts(2)
    by (intro exI [of _ ps] exI [of _ rx] exI [of _ obs] exI [of _ "m1 @ m2"] exI [of _ tl])
      (auto simp: tl_def)
  have "c5 = (overlay (hs @ tl) ?old, of_nat (length (hs @ tl)))" "length (hs @ tl) \<le> 15"
    using c5(2) ts by (auto simp: cursor_at_def tl_def old)
  with form show ?thesis
    using b ps(1) c1(1) c2(1) c3(1) c4(1) t b4 c5(1)
    by (intro exI [of _ "hs @ tl"] exI [of _ r8]) (simp add: structured_candidate_def ts_def)
qed

section \<open>Properties\<close>

text \<open>C10: The sliding generator. When the previous candidate is used up, the next one is built
  inside its 28-byte buffer and has the documented form (four legacy prefixes, at most one
  REX-like byte, an opcode, ModR/M and SIB, displacement, immediate); the calls that follow
  emit it whole when it fits into 15 bytes and otherwise all its 15-byte windows, each once and
  in order, after which the offset is back at zero.\<close>

theorem sliding_covers_candidate:
  assumes "length (op (stack_junk e)) = 5" and "c_off (insn_cand e) = 0"
  shows "\<exists>bs r. build_sliding_candidate (stack_junk e) (rng_state e) = Some (candidate_of bs, r) \<and>
    sliding_form bs \<and>
    (\<forall>slots. length slots = (if length bs \<le> 15 then 1 else length bs - 14) \<longrightarrow>
       (\<forall>s \<in> set slots. input_slot_wf s) \<longrightarrow>
       (\<exists>outs. mutate_list sliding_candidate e slots =
            Some (outs, e\<lparr>rng_state := r, insn_cand := candidate_of bs\<rparr>) \<and>
          map insn_bytes outs = (if length bs \<le> 15 then [bs]
            else map (\<lambda>k. take 15 (drop k bs)) [0..<length bs - 14])))"
proof -
  obtain bs r where b: "build_sliding_candidate (stack_junk e) (rng_state e) = Some (candidate_of bs, r)"
    and form: "sliding_form bs"
    using build_sliding_shape [OF assms(1)] by blast
  have "\<exists>outs. mutate_list sliding_candidate e slots =
        Some (outs, e\<lparr>rng_state := r, insn_cand := candidate_of bs\<rparr>) \<and>
      map insn_bytes outs = (if length bs \<le> 15 then [bs]
        else map (\<lambda>k. take 15 (drop k bs)) [0..<length bs - 14])"
    if len: "length slots = (if length bs \<le> 15 then 1 else length bs - 14)"
      and wf: "\<forall>s \<in> set slots. input_slot_wf s" for slots
  proof (cases "length bs \<le> 15")
    case True
    then obtain s where "slots = [s]" "input_slot_wf s"
      using len wf True by (cases slots) auto
    then show ?thesis
      using sliding_candidate_short [OF assms(2) b form True] True
      by (simp add: insn_bytes_def mem_simps slot_defs)
  next
    case False
    then show ?thesis
      using slide_through [OF assms(2) b form] len wf by simp
  qed
  then show ?thesis
    using b form by blast
qed

definition sample_mutator :: mutator_state where
  "sample_mutator = \<lparr>rng_state = \<lparr>rs0 = 1, rs1 = 2, rs2 = 3, rs3 = 4\<rparr>, insn_cand = zero_candidate,
     stdin = bytes_of ''90'', stack_junk = \<lparr>op_len = 7, op = [1, 2, 3, 4, 5]\<rparr>\<rparr>"

lemma sample_mutator_simps [simp]:
  "length (op (stack_junk sample_mutator)) = 5" "c_off (insn_cand sample_mutator) = 0"
  "candidate_inv (insn_cand sample_mutator)"
  by (simp_all add: sample_mutator_def) (simp add: zero_candidate_def)

theorem sliding_covers_candidate_witness:
  "\<exists>bs r. build_sliding_candidate (stack_junk sample_mutator) (rng_state sample_mutator) =
     Some (candidate_of bs, r) \<and> sliding_form bs"
  using sliding_covers_candidate [of sample_mutator] by auto

text \<open>C11: The structured generator always returns, writes one candidate of at most 15 bytes of
  the documented form (up to four legacy prefixes, at most one REX prefix, an opcode, at most two
  bytes for ModR/M and SIB, at most five tail bytes) at the front of the slot, leaves the rest of
  the slot as it was and records exactly its length.\<close>

theorem structured_writes_candidate:
  assumes "length (op (stack_junk e)) = 5" and "input_slot_wf slot"
  shows "\<exists>bs r. structured_candidate e slot = Some (True,
      slot\<lparr>raw_insn := bs @ drop (length bs) (raw_insn slot), in_len := of_nat (length bs)\<rparr>,
      e\<lparr>rng_state := r\<rparr>) \<and> structured_form bs \<and> length bs \<le> 15"
  using structured_candidate_shape [OF assms] by (simp add: overlay_def)

theorem structured_writes_candidate_witness:
  "\<exists>bs r. structured_candidate sample_mutator zero_input_slot = Some (True,
      zero_input_slot\<lparr>raw_insn := bs @ drop (length bs) (raw_insn zero_input_slot),
        in_len := of_nat (length bs)\<rparr>, sample_mutator\<lparr>rng_state := r\<rparr>) \<and> structured_form bs"
  using structured_writes_candidate [of sample_mutator zero_input_slot] by (auto simp: slot_defs zero_input_slot_def)

text \<open>C39: The switch of \<open>rand_opcode\<close> is the table of the eight opcode formats: the fixed bytes
  of the format the first random byte selects modulo 8, followed by that format's number of
  random bytes, drawn in order, with the recorded length equal to the number of bytes; the rest
  of the five-byte array keeps what was there.\<close>

theorem rand_opcode_table:
  assumes "length (op junk) = 5"
  shows "rand_opcode junk r = (case opcode_draw r of (bs, r') \<Rightarrow>
    Some (\<lparr>op_len = of_nat (length bs), op = bs @ drop (length bs) (op junk)\<rparr>, r'))"
  using rand_opcode_draw [OF assms, of r] by (simp add: overlay_def split: prod.split)

theorem rand_opcode_table_witness:
  "rand_opcode \<lparr>op_len = 7, op = [1, 2, 3, 4, 5]\<rparr> \<lparr>rs0 = 1, rs1 = 2, rs2 = 3, rs3 = 4\<rparr> =
    (case opcode_draw \<lparr>rs0 = 1, rs1 = 2, rs2 = 3, rs3 = 4\<rparr> of (bs, r') \<Rightarrow>
      Some (\<lparr>op_len = of_nat (length bs), op = bs @ drop (length bs) [1, 2, 3, 4, 5]\<rparr>, r'))"
  using rand_opcode_table [of "\<lparr>op_len = 7, op = [1, 2, 3, 4, 5]\<rparr>" "\<lparr>rs0 = 1, rs1 = 2, rs2 = 3, rs3 = 4\<rparr>"]
  by simp

end
