(* ===== verification/Manual_Input.thy ===== *)
theory Manual_Input
  imports Mutator
begin

text \<open>
  The manual mode of src/mishegos/mutator.c (lines read from stdin, parsed as hexadecimal),
  the choice of a generator by name, and the contract every generator meets towards the main
  loop that calls it through a function pointer: the locale \<open>candidate_mutator\<close>, interpreted
  for each of the five.
\<close>

section \<open>Lines\<close>

text \<open>
  \<open>getline\<close>: \<open>None\<close> at the end of the input, otherwise the next line with its newline (if it
  has one) and the input after it.
\<close>

definition getline :: "byte list \<Rightarrow> (byte list \<times> byte list) option" where
  "getline inp =
     (if inp = [] then None
      else case dropWhile (\<lambda>b. b \<noteq> 10) inp of
        [] \<Rightarrow> Some (inp, [])
      | nl # rest \<Rightarrow> Some (takeWhile (\<lambda>b. b \<noteq> 10) inp @ [nl], rest))"

text \<open>
  \<open>line[strcspn(line, "\n")] = '\0'\<close> on the NUL-terminated buffer \<open>getline\<close> returns, then
  read as a C string.
\<close>

definition chomp :: "byte list \<Rightarrow> byte list" where
  "chomp line =
     (let buf = line @ [0];
          n = length (takeWhile (\<lambda>b. b \<noteq> 10 \<and> b \<noteq> 0) buf)
      in c_string (buf[n := 0]))"

lemma chomp_eq: "chomp line = takeWhile (\<lambda>b. b \<noteq> 10 \<and> b \<noteq> 0) line"
proof -
  let ?P = "\<lambda>b :: byte. b \<noteq> 10 \<and> b \<noteq> 0"
  have "takeWhile ?P (line @ [0]) = takeWhile ?P line"
    by (induction line) auto
  moreover have "c_string ((line @ [0])[length (takeWhile ?P line) := 0]) = takeWhile ?P line"
    by (induction line) (auto simp: c_string_def)
  ultimately show ?thesis
    by (simp add: chomp_def Let_def)
qed

lemma getline_line:
  "10 \<notin> set l \<Longrightarrow> getline (l @ 10 # rest) = Some (l @ [10], rest)"
proof -
  assume l: "10 \<notin> set l"
  then have "\<forall>b \<in> set l. b \<noteq> 10"
    by auto
  then show ?thesis
    by (simp add: getline_def dropWhile_append2 takeWhile_append2)
qed

lemma getline_shorter: "getline inp = Some (line, rest) \<Longrightarrow> length rest < length inp"
  by (auto simp: getline_def split: if_splits list.splits)
    (metis length_dropWhile_le Suc_le_lessD length_Cons)

section \<open>Hexadecimal\<close>

text \<open>
  \<open>(input[i] % 32 + 9) % 25\<close>, in \<open>int\<close> arithmetic on a signed \<open>char\<close>, where \<open>%\<close> truncates
  towards zero.
\<close>

definition hex_digit_value :: "byte \<Rightarrow> int" where
  "hex_digit_value c = (sint c smod 32 + 9) smod 25"

definition hex_pair :: "byte \<Rightarrow> byte \<Rightarrow> byte" where
  "hex_pair hi lo = word_of_int (hex_digit_value hi * 16 + hex_digit_value lo)"

text \<open>\<open>hex2bytes_loop k j\<close>: the last \<open>k\<close> iterations of the loop, from index \<open>j\<close> on.\<close>

fun hex2bytes_loop :: "nat \<Rightarrow> nat \<Rightarrow> byte list \<Rightarrow> byte list \<Rightarrow> byte list option" where
  "hex2bytes_loop 0 j input outbuf = Some outbuf"
| "hex2bytes_loop (Suc k) j input outbuf = do {
     hi \<leftarrow> peek input (2 * j);
     lo \<leftarrow> peek input (2 * j + 1);
     outbuf' \<leftarrow> poke outbuf j (hex_pair hi lo);
     hex2bytes_loop k (Suc j) input outbuf' }"

definition hex2bytes :: "byte list \<Rightarrow> byte list \<Rightarrow> nat \<Rightarrow> byte list option" where
  "hex2bytes outbuf input input_len = hex2bytes_loop (input_len div 2) 0 input outbuf"

definition manual_candidate ::
  "mutator_state \<Rightarrow> input_slot \<Rightarrow> (bool \<times> input_slot \<times> mutator_state) option" where
  "manual_candidate e slot =
     (case getline (stdin e) of
        None \<Rightarrow> Some (False, slot, e)
      | Some (line, rest) \<Rightarrow>
          let e = e\<lparr>stdin := rest\<rparr>;
              line = chomp line;
              linelen = length line
          in if linelen = 0 \<or> linelen > MISHEGOS_INSN_MAXLEN * 2 then Some (False, slot, e)
             else do {
               raw \<leftarrow> hex2bytes (raw_insn slot) line linelen;
               Some (True, slot\<lparr>raw_insn := raw, in_len := of_nat (linelen div 2)\<rparr>, e) })"

section \<open>Choosing a generator\<close>

datatype mutator_kind = Dummy | Sliding | Structured | Havoc | Manual

text \<open>
  \<open>mutator_create\<close> seeds the generator from the system's entropy (the argument \<open>seed\<close>) and
  resolves the name; an unknown name ends the program with a message (\<open>Inl\<close>).
\<close>

definition mutator_create ::
  "rng \<Rightarrow> string option \<Rightarrow> mutator_state \<Rightarrow> (string + mutator_kind) \<times> mutator_state" where
  "mutator_create seed nm e =
     ((case nm of
         None \<Rightarrow> Inr Sliding
       | Some n \<Rightarrow>
           if n = ''dummy'' then Inr Dummy
           else if n = ''sliding'' then Inr Sliding
           else if n = ''structured'' then Inr Structured
           else if n = ''havoc'' then Inr Havoc
           else if n = ''manual'' then Inr Manual
           else Inl (''invalid mutator: '' @ n)),
      e\<lparr>rng_state := seed\<rparr>)"

text \<open>A call through the function pointer.\<close>

fun run_mutator :: "mutator_kind \<Rightarrow> mutator_state \<Rightarrow> input_slot \<Rightarrow>
    (bool \<times> input_slot \<times> mutator_state) option" where
  "run_mutator Dummy = dummy_candidate"
| "run_mutator Sliding = sliding_candidate"
| "run_mutator Structured = structured_candidate"
| "run_mutator Havoc = havoc_candidate"
| "run_mutator Manual = manual_candidate"

section \<open>Hexadecimal input, digit by digit\<close>

text \<open>The lower-case digit of a nibble, as the converter prints it.\<close>

definition hex_char :: "nat \<Rightarrow> byte" where
  "hex_char n = (if n < 10 then of_nat (48 + n) else of_nat (87 + n))"

definition hex_upper :: "nat \<Rightarrow> byte" where
  "hex_upper n = (if n < 10 then of_nat (48 + n) else of_nat (55 + n))"

lemma nibble_cases: "n < 16 \<Longrightarrow> n \<in> set [0..<16 :: nat]"
  by simp

lemma hex_digit_value_char: "n < 16 \<Longrightarrow> hex_digit_value (hex_char n) = int n"
proof -
  have "\<forall>n \<in> set [0..<16]. hex_digit_value (hex_char n) = int n"
    by code_simp
  then show "n < 16 \<Longrightarrow> ?thesis" by simp
qed

lemma hex_digit_value_upper: "n < 16 \<Longrightarrow> hex_digit_value (hex_upper n) = int n"
proof -
  have "\<forall>n \<in> set [0..<16]. hex_digit_value (hex_upper n) = int n"
    by code_simp
  then show "n < 16 \<Longrightarrow> ?thesis" by simp
qed

definition hex_of_byte :: "byte \<Rightarrow> byte list" where
  "hex_of_byte b = [hex_char (unat b div 16), hex_char (unat b mod 16)]"

definition hex_of_bytes :: "byte list \<Rightarrow> byte list" where
  "hex_of_bytes bs = concat (map hex_of_byte bs)"

text \<open>Pairs of digits, read as bytes.\<close>

fun unhex :: "byte list \<Rightarrow> byte list" where
  "unhex (hi # lo # cs) = hex_pair hi lo # unhex cs"
| "unhex cs = []"

lemma length_unhex: "length (unhex cs) = length cs div 2"
  by (induction cs rule: unhex.induct) auto

lemma unhex_step:
  "n + 2 \<le> length cs \<Longrightarrow> unhex (drop n cs) =
     hex_pair (cs ! n) (cs ! (n + 1)) # unhex (drop (n + 2) cs)"
  by (simp flip: Cons_nth_drop_Suc [of n cs] Cons_nth_drop_Suc [of "Suc n" cs])

lemma hex2bytes_loop_unhex:
  "length bs = j \<Longrightarrow> k = (length input - 2 * j) div 2 \<Longrightarrow> 2 * j \<le> length input \<Longrightarrow>
   j + k \<le> length old \<Longrightarrow>
   hex2bytes_loop k j input (overlay bs old) =
     Some (overlay (bs @ unhex (drop (2 * j) input)) old)"
proof (induction k arbitrary: j bs)
  case 0
  then have "length (unhex (drop (2 * j) input)) = 0"
    by (simp add: length_unhex)
  then show ?case
    by simp
next
  case (Suc k)
  define b where "b = hex_pair (input ! (2 * j)) (input ! (2 * j + 1))"
  have len: "2 * j + 2 \<le> length input"
    using Suc.prems by linarith
  have "hex2bytes_loop k (Suc j) input (overlay (bs @ [b]) old) =
      Some (overlay ((bs @ [b]) @ unhex (drop (2 * Suc j) input)) old)"
    using Suc.prems len by (intro Suc.IH) auto
  moreover have "poke (overlay bs old) j b = Some (overlay (bs @ [b]) old)"
    using Suc.prems by (auto simp: mem_simps)
  ultimately show ?case
    using len unhex_step [OF len] by (simp add: peek_def b_def)
qed

lemma hex2bytes_unhex:
  "length input div 2 \<le> length old \<Longrightarrow>
   hex2bytes old input (length input) = Some (overlay (unhex input) old)"
  using hex2bytes_loop_unhex [of "[]" 0 "length input div 2" input old]
  by (simp add: hex2bytes_def mem_simps)

text \<open>What the converter prints, manual mode reads back.\<close>

lemma hex_pair_digits:
  "hex_pair (hex_char (unat b div 16)) (hex_char (unat b mod 16)) = b"
proof -
  have "unat b div 16 < 16"
    using unsigned_less [of b] by (simp add: div_less_iff_less_mult)
  then have "hex_pair (hex_char (unat b div 16)) (hex_char (unat b mod 16)) =
      word_of_int (int (unat b div 16) * 16 + int (unat b mod 16))"
    by (simp only: hex_pair_def hex_digit_value_char mod_less_divisor zero_less_numeral)
  also have "int (unat b div 16) * 16 + int (unat b mod 16) =
      int (unat b div 16 * 16 + unat b mod 16)"
    by (simp only: of_nat_add of_nat_mult of_nat_numeral)
  also have "unat b div 16 * 16 + unat b mod 16 = unat b"
    by (simp only: div_mult_mod_eq)
  finally show ?thesis
    by simp
qed

lemma unhex_hex_of_bytes: "unhex (hex_of_bytes bs) = bs"
  by (induction bs) (simp_all add: hex_of_bytes_def hex_of_byte_def hex_pair_digits)

lemma length_hex_of_bytes: "length (hex_of_bytes bs) = 2 * length bs"
  by (induction bs) (auto simp: hex_of_bytes_def hex_of_byte_def)

lemma nibbles: "unat (b :: byte) div 16 < 16" "unat b mod 16 < 16"
  using unsigned_less [of b] by (simp_all add: div_less_iff_less_mult)

lemma hex_char_printable: "n < 16 \<Longrightarrow> hex_char n \<noteq> 0 \<and> hex_char n \<noteq> 10 \<and> hex_char n \<noteq> 34"
proof -
  have "\<forall>n \<in> set [0..<16]. hex_char n \<noteq> 0 \<and> hex_char n \<noteq> 10 \<and> hex_char n \<noteq> 34"
    by code_simp
  then show "n < 16 \<Longrightarrow> ?thesis" by simp
qed

lemma hex_of_bytes_printable:
  "c \<in> set (hex_of_bytes bs) \<Longrightarrow> c \<noteq> 0 \<and> c \<noteq> 10 \<and> c \<noteq> 34"
  using hex_char_printable [OF nibbles(1)] hex_char_printable [OF nibbles(2)]
  by (auto simp: hex_of_bytes_def hex_of_byte_def)

lemma hex_of_bytes_no_nul: "0 \<notin> set (hex_of_bytes bs)"
  and hex_of_bytes_no_newline: "10 \<notin> set (hex_of_bytes bs)"
  using hex_of_bytes_printable by blast+

section \<open>The manual generator\<close>

lemma manual_candidate_eof: "stdin e = [] \<Longrightarrow> manual_candidate e slot = Some (False, slot, e)"
  by (simp add: manual_candidate_def getline_def)

lemma manual_candidate_line:
  assumes "10 \<notin> set l" "0 \<notin> set l" and "1 \<le> length l" and "length l \<le> 30"
    and "stdin e = l @ 10 # rest" and "input_slot_wf slot"
  shows "manual_candidate e slot =
    Some (True, slot\<lparr>raw_insn := overlay (unhex l) (raw_insn slot), in_len := of_nat (length l div 2)\<rparr>,
      e\<lparr>stdin := rest\<rparr>)"
proof -
  have "chomp (l @ [10]) = l"
    using assms(1,2) by (simp add: chomp_eq takeWhile_append2)
      (metis (mono_tags, lifting) takeWhile_eq_all_conv takeWhile_tail append_Nil2)
  then show ?thesis
    using assms
    by (cases "l = []")
      (simp_all add: manual_candidate_def getline_line hex2bytes_unhex slot_defs Let_def)
qed

lemma manual_candidate_step:
  assumes "input_slot_wf slot"
  shows "\<exists>b slot' rest. manual_candidate e slot = Some (b, slot', e\<lparr>stdin := rest\<rparr>) \<and>
    input_slot_wf slot' \<and> (b \<longrightarrow> input_slot_ok slot')"
proof (cases "getline (stdin e)")
  case None
  then have "manual_candidate e slot = Some (False, slot, e\<lparr>stdin := stdin e\<rparr>)"
    by (simp add: manual_candidate_def)
  with assms show ?thesis
    by blast
next
  case (Some lr)
  obtain line rest where lr: "lr = (line, rest)" by fastforce
  define line' where "line' = chomp line"
  show ?thesis
  proof (cases "length line' = 0 \<or> length line' > 30")
    case True
    then have "manual_candidate e slot = Some (False, slot, e\<lparr>stdin := rest\<rparr>)"
      using Some lr by (auto simp: manual_candidate_def Let_def line'_def)
    with assms show ?thesis
      by blast
  next
    case False
    then have "length line' div 2 \<le> 15"
      by auto
    define raw where "raw = overlay (unhex line') (raw_insn slot)"
    have "hex2bytes (raw_insn slot) line' (length line') = Some raw"
      unfolding raw_def using assms \<open>length line' div 2 \<le> 15\<close>
      by (intro hex2bytes_unhex) (simp add: slot_defs)
    then have "manual_candidate e slot = Some (True,
        slot\<lparr>raw_insn := raw, in_len := of_nat (length line' div 2)\<rparr>, e\<lparr>stdin := rest\<rparr>)"
      using Some lr False by (simp add: manual_candidate_def Let_def line'_def)
    moreover have "length raw = 15" "unat (of_nat (length line' div 2) :: byte) \<le> 15"
      using assms False by (auto simp: raw_def slot_defs mem_simps length_unhex)
    ultimately show ?thesis
      by (intro exI [of _ True] exI [of _ rest] exI
          [of _ "slot\<lparr>raw_insn := raw, in_len := of_nat (length line' div 2)\<rparr>"])
        (simp add: slot_defs)
  qed
qed

section \<open>The contract towards the main loop\<close>

text \<open>
  What the loop that fills a chunk relies on: under the generator's invariant a call returns,
  keeps the invariant and the shape of the slot, and a slot it reports as filled holds a
  length inside its buffer.
\<close>

locale candidate_mutator =
  fixes mutate :: "'e \<Rightarrow> input_slot \<Rightarrow> (bool \<times> input_slot \<times> 'e) option"
    and inv :: "'e \<Rightarrow> bool"
  assumes mutate_step: "inv e \<Longrightarrow> input_slot_wf s \<Longrightarrow>
    \<exists>b s' e'. mutate e s = Some (b, s', e') \<and> inv e' \<and> input_slot_wf s' \<and>
      (b \<longrightarrow> input_slot_ok s')"
begin

lemma mutate_SomeE:
  assumes "inv e" and "input_slot_wf s"
  obtains b s' e' where "mutate e s = Some (b, s', e')" and "inv e'" and "input_slot_wf s'"
    and "b \<longrightarrow> input_slot_ok s'"
  using mutate_step [OF assms] by blast

lemma mutate_list_total:
  "inv e \<Longrightarrow> \<forall>s \<in> set ss. input_slot_wf s \<Longrightarrow>
   \<exists>ss' e'. mutate_list mutate e ss = Some (ss', e') \<and> inv e' \<and> length ss' = length ss \<and>
     (\<forall>s \<in> set ss'. input_slot_wf s)"
proof (induction ss arbitrary: e)
  case Nil
  then show ?case by simp
next
  case (Cons s ss)
  then obtain b s' e' where 1: "mutate e s = Some (b, s', e')" "inv e'" "input_slot_wf s'"
    by (auto elim: mutate_SomeE)
  then obtain ss' e'' where "mutate_list mutate e' ss = Some (ss', e'')" "inv e''"
      "length ss' = length ss" "\<forall>s \<in> set ss'. input_slot_wf s"
    using Cons.IH [of e'] Cons.prems by auto
  with 1 show ?case
    by simp
qed

end

definition mutator_inv :: "mutator_state \<Rightarrow> bool" where
  "mutator_inv e \<longleftrightarrow> candidate_inv (insn_cand e) \<and> length (op (stack_junk e)) = 5"

interpretation sliding_mut: candidate_mutator sliding_candidate mutator_inv
  by unfold_locales
    (metis input_slot_ok_wf mutator_inv_def sliding_candidate_step)

interpretation havoc_mut: candidate_mutator havoc_candidate mutator_inv
  by unfold_locales (metis input_slot_ok_wf mutator_inv_def havoc_candidate_step)

interpretation structured_mut: candidate_mutator structured_candidate mutator_inv
proof unfold_locales
  fix e s
  assume "mutator_inv e" and wf: "input_slot_wf s"
  then have "length (op (stack_junk e)) = 5" and inv: "mutator_inv (e\<lparr>rng_state := r\<rparr>)" for r
    by (auto simp: mutator_inv_def)
  from structured_candidate_shape [OF this(1) wf] obtain bs r where
    "structured_candidate e s = Some (True,
      s\<lparr>raw_insn := overlay bs (raw_insn s), in_len := of_nat (length bs)\<rparr>, e\<lparr>rng_state := r\<rparr>)"
    "length bs \<le> 15"
    by blast
  then show "\<exists>b s' e'. structured_candidate e s = Some (b, s', e') \<and> mutator_inv e' \<and>
      input_slot_wf s' \<and> (b \<longrightarrow> input_slot_ok s')"
    using inv wf by (intro exI [of _ True]) (simp add: slot_defs mem_simps)
qed

interpretation dummy_mut: candidate_mutator dummy_candidate mutator_inv
  by unfold_locales (auto simp: dummy_candidate_def poke_def slot_defs)

interpretation manual_mut: candidate_mutator manual_candidate mutator_inv
proof unfold_locales
  fix e s
  assume "mutator_inv e" and "input_slot_wf s"
  then show "\<exists>b s' e'. manual_candidate e s = Some (b, s', e') \<and> mutator_inv e' \<and>
      input_slot_wf s' \<and> (b \<longrightarrow> input_slot_ok s')"
    using manual_candidate_step [of s e] by (fastforce simp: mutator_inv_def)
qed

text \<open>Whatever generator was chosen, the function pointer meets the contract.\<close>

interpretation chosen_mut: candidate_mutator "run_mutator k" mutator_inv for k
  by (cases k)
    (simp_all add: sliding_mut.candidate_mutator_axioms havoc_mut.candidate_mutator_axioms
      structured_mut.candidate_mutator_axioms dummy_mut.candidate_mutator_axioms
      manual_mut.candidate_mutator_axioms)

section \<open>Properties\<close>

text \<open>C33: Whichever generator was chosen, a call through the function pointer returns without
  leaving a buffer, keeps the generator's invariant, keeps the shape of the slot, and a slot it
  reports as filled records a length of at most 15.\<close>

theorem generators_stay_in_bounds:
  assumes "mutator_inv e" and "input_slot_wf slot"
  shows "\<exists>filled slot' e'. run_mutator k e slot = Some (filled, slot', e') \<and> mutator_inv e' \<and>
    input_slot_wf slot' \<and> (filled \<longrightarrow> unat (in_len slot') \<le> MISHEGOS_INSN_MAXLEN)"
  using chosen_mut.mutate_step [OF assms, of k] by (auto simp: slot_defs)

theorem generators_stay_in_bounds_witness:
  "\<exists>filled slot' e'. run_mutator Structured sample_mutator zero_input_slot = Some (filled, slot', e') \<and>
    mutator_inv e' \<and> input_slot_wf slot' \<and> (filled \<longrightarrow> unat (in_len slot') \<le> MISHEGOS_INSN_MAXLEN)"
  by (rule generators_stay_in_bounds) (auto simp: mutator_inv_def slot_defs zero_input_slot_def)

text \<open>Results up to the contents of the stack.\<close>

definition hide_stack :: "(bool \<times> input_slot \<times> mutator_state) option \<Rightarrow>
    (bool \<times> input_slot \<times> mutator_state) option" where
  "hide_stack = map_option (\<lambda>(b, s, e). (b, s, e\<lparr>stack_junk := \<lparr>op_len = 0, op = []\<rparr>\<rparr>))"

lemma hide_stack_bind: "hide_stack (x \<bind> f) = x \<bind> (\<lambda>y. hide_stack (f y))"
  by (simp add: hide_stack_def map_option_bind comp_def)

lemma hide_stack_Some [simp]:
  "hide_stack (Some (b, s, e)) = Some (b, s, e\<lparr>stack_junk := \<lparr>op_len = 0, op = []\<rparr>\<rparr>)"
  by (simp add: hide_stack_def)

lemma structured_junk:
  "length (op j) = 5 \<Longrightarrow> length (op j') = 5 \<Longrightarrow>
   hide_stack (structured_candidate (e\<lparr>stack_junk := j\<rparr>) slot) =
   hide_stack (structured_candidate (e\<lparr>stack_junk := j'\<rparr>) slot)"
  by (simp add: structured_candidate_def put_opcode_junk [of j j'] Let_def case_prod_beta
      hide_stack_bind)

lemma sliding_junk:
  "length (op j) = 5 \<Longrightarrow> length (op j') = 5 \<Longrightarrow>
   hide_stack (sliding_candidate (e\<lparr>stack_junk := j\<rparr>) slot) =
   hide_stack (sliding_candidate (e\<lparr>stack_junk := j'\<rparr>) slot)"
  by (simp add: sliding_candidate_def build_sliding_junk [of j j'] Let_def case_prod_beta
      hide_stack_bind if_distrib [of hide_stack] cong: if_cong)

text \<open>The uninitialised local \<open>opcode\<close> never shows: two runs that differ only in the stack
  contents give the same verdict, the same slot and the same next state, for every generator.\<close>

theorem stack_contents_hidden:
  assumes "length (op j) = 5" and "length (op j') = 5"
  shows "hide_stack (run_mutator k (e\<lparr>stack_junk := j\<rparr>) slot) =
    hide_stack (run_mutator k (e\<lparr>stack_junk := j'\<rparr>) slot)"
  using structured_junk [OF assms] sliding_junk [OF assms]
  by (cases k) (simp_all add: dummy_candidate_def havoc_candidate_def manual_candidate_def Let_def
      case_prod_beta hide_stack_bind split: option.split)

theorem stack_contents_hidden_witness:
  "hide_stack (run_mutator Sliding
     (sample_mutator\<lparr>stack_junk := \<lparr>op_len = 0, op = [0, 0, 0, 0, 0]\<rparr>\<rparr>) zero_input_slot) =
   hide_stack (run_mutator Sliding
     (sample_mutator\<lparr>stack_junk := \<lparr>op_len = 9, op = [1, 2, 3, 4, 5]\<rparr>\<rparr>) zero_input_slot)"
  by (rule stack_contents_hidden) simp_all

text \<open>\<open>hex2bytes\<close> decodes what hexadecimal printing produces: on the digits of \<open>bs\<close>, with a
  buffer at least as long as \<open>bs\<close>, it stays inside both buffers and stores exactly \<open>bs\<close> at the
  front.\<close>

theorem hex2bytes_decodes:
  assumes "length bs \<le> length old"
  shows "hex2bytes old (hex_of_bytes bs) (2 * length bs) = Some (bs @ drop (length bs) old)"
  using hex2bytes_unhex [of "hex_of_bytes bs" old] assms
  by (simp add: length_hex_of_bytes unhex_hex_of_bytes overlay_def)

theorem hex2bytes_decodes_witness:
  "hex2bytes [0, 0, 0] (hex_of_bytes [0x0f, 0xab]) 4 = Some [0x0f, 0xab, 0]"
  using hex2bytes_decodes [of "[0x0f, 0xab]" "[0, 0, 0]"] by simp

text \<open>In manual mode a line of at most 30 characters is taken as its pairs of digits: the slot
  holds the decoded bytes, its length is half the number of characters, the line is consumed; a
  line that is empty or longer ends the input, and so does the end of the file.\<close>

theorem manual_reads_one_line:
  assumes "10 \<notin> set l" and "0 \<notin> set l" and "stdin e = l @ 10 # rest" and "input_slot_wf slot"
  shows "manual_candidate e slot =
    (if l = [] \<or> 30 < length l then Some (False, slot, e\<lparr>stdin := rest\<rparr>)
     else Some (True, slot\<lparr>raw_insn := unhex l @ drop (length l div 2) (raw_insn slot),
       in_len := of_nat (length l div 2)\<rparr>, e\<lparr>stdin := rest\<rparr>))"
proof (cases "l = [] \<or> 30 < length l")
  case True
  have "chomp (l @ [10]) = l"
    using assms(1,2) by (induction l) (auto simp: chomp_eq)
  then show ?thesis
    using True assms by (auto simp: manual_candidate_def getline_line Let_def)
next
  case False
  then have "1 \<le> length l"
    by (cases l) auto
  then show ?thesis
    using False manual_candidate_line [OF assms(1,2) _ _ assms(3,4)]
    by (simp add: overlay_def length_unhex)
qed

theorem manual_reads_one_line_witness:
  "manual_candidate (sample_mutator\<lparr>stdin := [48, 70, 48, 98] @ 10 # [57, 48]\<rparr>) zero_input_slot =
    Some (True, zero_input_slot\<lparr>raw_insn := [0x0f, 0x0b] @ replicate 13 0, in_len := 2\<rparr>,
      sample_mutator\<lparr>stdin := [57, 48]\<rparr>)"
proof -
  have "unhex [48, 70, 48, 98] = [0x0f, 0x0b]"
    by code_simp
  then show ?thesis
    using manual_reads_one_line [of "[48, 70, 48, 98]"
        "sample_mutator\<lparr>stdin := [48, 70, 48, 98] @ 10 # [57, 48]\<rparr>" "[57, 48]" zero_input_slot]
    by (simp add: slot_defs zero_input_slot_def)
qed

end
