(* ===== verification/Chunk_Fill.thy ===== *)
theory Chunk_Fill
  imports Manual_Input
begin

text \<open>
  The main loop's refill of one input chunk (src/mishegos/mishegos.c, the part of \<open>main\<close> under
  "Not yet exiting, so fill another chunk"): the mutator is called for slot after slot until the
  chunk is full or the mutator reports that it has nothing more, then the count, the number of
  workers and the generation are published. The lemmas are a client of the mutator's contract.
\<close>

definition MISHEGOS_NUM_SLOTS_PER_CHUNK :: nat where
  "MISHEGOS_NUM_SLOTS_PER_CHUNK = 4096"

definition MISHEGOS_NUM_CHUNKS :: nat where
  "MISHEGOS_NUM_CHUNKS = 16"

lemmas chunk_consts [const_simps] =
  MISHEGOS_NUM_SLOTS_PER_CHUNK_def MISHEGOS_NUM_CHUNKS_def

record input_chunk =
  generation :: u32
  remaining_workers :: u32
  input_count :: u32
  inputs :: "input_slot list"

definition chunk_wf :: "input_chunk \<Rightarrow> bool" where
  "chunk_wf ic \<longleftrightarrow> length (inputs ic) = MISHEGOS_NUM_SLOTS_PER_CHUNK \<and>
     (\<forall>s \<in> set (inputs ic). input_slot_wf s)"

section \<open>The refill\<close>

text \<open>
  \<open>fill_slots\<close>: the loop over the slots still to come. The result is the slots, how many were
  counted, whether the mutator ended the run, and the mutator's state.
\<close>

fun fill_slots :: "('e \<Rightarrow> input_slot \<Rightarrow> (bool \<times> input_slot \<times> 'e) option) \<Rightarrow> 'e \<Rightarrow> input_slot list \<Rightarrow>
    nat \<Rightarrow> (input_slot list \<times> nat \<times> bool \<times> 'e) option" where
  "fill_slots mutator e [] count = Some ([], count, False, e)"
| "fill_slots mutator e (s # ss) count = do {
     (filled, s, e) \<leftarrow> mutator e s;
     if filled then do {
       (ss, count, ended, e) \<leftarrow> fill_slots mutator e ss (count + 1);
       Some (s # ss, count, ended, e) }
     else Some (s # ss, count, True, e) }"

definition fill_chunk :: "('e \<Rightarrow> input_slot \<Rightarrow> (bool \<times> input_slot \<times> 'e) option) \<Rightarrow> 'e \<Rightarrow> nat \<Rightarrow> u64 \<Rightarrow>
    nat \<Rightarrow> nat \<Rightarrow> input_chunk \<Rightarrow> (input_chunk \<times> nat \<times> 'e) option" where
  "fill_chunk mutator e nworkers gen idx exit_idx ic = do {
     (slots, count, ended, e) \<leftarrow> fill_slots mutator e (inputs ic) 0;
     let exit_idx = (if ended then idx else exit_idx);
     Some (ic\<lparr>inputs := slots, input_count := of_nat count, remaining_workers := of_nat nworkers,
              generation := ucast gen\<rparr>, exit_idx, e) }"

section \<open>The refill as a client of the mutator\<close>

context candidate_mutator
begin

lemma fill_slots_total:
  "inv e \<Longrightarrow> \<forall>s \<in> set ss. input_slot_wf s \<Longrightarrow>
   \<exists>ss' m ended e'. fill_slots mutate e ss n = Some (ss', n + m, ended, e') \<and> inv e' \<and>
     length ss' = length ss \<and> (\<forall>s \<in> set ss'. input_slot_wf s) \<and>
     (\<forall>s \<in> set (take m ss'). input_slot_ok s) \<and>
     (if ended then m < length ss else m = length ss)"
proof (induction ss arbitrary: e n)
  case Nil
  then show ?case by (intro exI [of _ "[]"] exI [of _ 0] exI [of _ False]) simp
next
  case (Cons s ss)
  then obtain b s' e1 where s: "mutate e s = Some (b, s', e1)" "inv e1" "input_slot_wf s'"
      "b \<longrightarrow> input_slot_ok s'"
    by (auto elim: mutate_SomeE)
  show ?case
  proof (cases b)
    case True
    obtain ss' m ended e' where "fill_slots mutate e1 ss (n + 1) = Some (ss', n + 1 + m, ended, e')"
      "inv e'" "length ss' = length ss" "\<forall>s \<in> set ss'. input_slot_wf s"
      "\<forall>s \<in> set (take m ss'). input_slot_ok s" "if ended then m < length ss else m = length ss"
      using Cons.IH [of e1 "n + 1"] Cons.prems s(2) by auto
    then show ?thesis
      using True s by (intro exI [of _ "s' # ss'"] exI [of _ "Suc m"] exI [of _ ended] exI [of _ e'])
        auto
  next
    case False
    then show ?thesis
      using Cons.prems s
      by (intro exI [of _ "s' # ss"] exI [of _ 0] exI [of _ True] exI [of _ e1]) auto
  qed
qed

text \<open>
  A refill returns, publishes a count inside the chunk, exposes only well-formed candidates
  below the count, and marks the last chunk exactly when it is not full.
\<close>

lemma fill_chunk_total:
  assumes "inv e" and "chunk_wf ic" and "nworkers \<le> 31" and "idx \<noteq> exit_idx"
  shows "\<exists>ic' exit' e'. fill_chunk mutate e nworkers gen idx exit_idx ic = Some (ic', exit', e') \<and>
    inv e' \<and> chunk_wf ic' \<and> unat (input_count ic') \<le> MISHEGOS_NUM_SLOTS_PER_CHUNK \<and>
    unat (remaining_workers ic') = nworkers \<and> generation ic' = ucast gen \<and>
    (\<forall>s \<in> set (take (unat (input_count ic')) (inputs ic')). input_slot_ok s) \<and>
    exit' = (if unat (input_count ic') \<noteq> MISHEGOS_NUM_SLOTS_PER_CHUNK then idx else exit_idx)"
proof -
  obtain ss' m ended e' where f: "fill_slots mutate e (inputs ic) 0 = Some (ss', m, ended, e')"
      "inv e'" "length ss' = length (inputs ic)" "\<forall>s \<in> set ss'. input_slot_wf s"
      "\<forall>s \<in> set (take m ss'). input_slot_ok s"
      "if ended then m < length (inputs ic) else m = length (inputs ic)"
    using fill_slots_total [of e "inputs ic" 0] assms by (auto simp: chunk_wf_def)
  have m: "m \<le> 4096" "ended \<longleftrightarrow> m \<noteq> 4096"
    using f(6) assms(2) by (auto simp: chunk_wf_def const_simps split: if_splits)
  then have "unat (of_nat m :: u32) = m" "unat (of_nat nworkers :: u32) = nworkers"
    using assms(3) by (auto simp: unat_of_nat)
  then show ?thesis
    using f m assms(2) by (auto simp: fill_chunk_def chunk_wf_def const_simps)
qed

end

section \<open>Manual mode, line by line\<close>

text \<open>One hexadecimal line per instruction, as \<open>mish2jsonl\<close> prints the inputs.\<close>

definition manual_lines :: "byte list list \<Rightarrow> byte list" where
  "manual_lines insns = concat (map (\<lambda>bs. hex_of_bytes bs @ [10]) insns)"

lemma manual_lines_candidate:
  assumes "1 \<le> length bs" and "length bs \<le> 15" and "stdin e = hex_of_bytes bs @ 10 # rest"
    and "input_slot_wf slot"
  shows "\<exists>slot'. manual_candidate e slot = Some (True, slot', e\<lparr>stdin := rest\<rparr>) \<and>
    input_slot_ok slot' \<and> insn_bytes slot' = bs"
proof -
  define slot' where "slot' = slot\<lparr>raw_insn := overlay bs (raw_insn slot),
    in_len := of_nat (length bs)\<rparr>"
  have "manual_candidate e slot = Some (True, slot', e\<lparr>stdin := rest\<rparr>)"
    using manual_candidate_line [of "hex_of_bytes bs" e rest slot] assms hex_of_bytes_no_nul [of bs]
      hex_of_bytes_no_newline [of bs]
    by (simp add: slot'_def length_hex_of_bytes unhex_hex_of_bytes)
  moreover have "input_slot_ok slot'" "insn_bytes slot' = bs"
    using assms by (simp_all add: slot'_def slot_defs insn_bytes_def mem_simps)
  ultimately show ?thesis
    by blast
qed

lemma fill_slots_manual:
  assumes "\<forall>bs \<in> set insns. 1 \<le> length bs \<and> length bs \<le> 15" and "length insns < length ss"
    and "stdin e = manual_lines insns" and "\<forall>s \<in> set ss. input_slot_wf s"
  shows "\<exists>ss'. fill_slots manual_candidate e ss n =
      Some (ss', n + length insns, True, e\<lparr>stdin := []\<rparr>) \<and>
    map insn_bytes (take (length insns) ss') = insns"
  using assms
proof (induction insns arbitrary: e ss n)
  case Nil
  then obtain s ss' where "ss = s # ss'"
    by (cases ss) auto
  with Nil show ?case
    by (simp add: manual_candidate_eof manual_lines_def)
next
  case (Cons bs insns)
  then obtain s ss1 where ss: "ss = s # ss1"
    by (cases ss) auto
  obtain s' where s': "manual_candidate e s = Some (True, s', e\<lparr>stdin := manual_lines insns\<rparr>)"
      "insn_bytes s' = bs"
    using manual_lines_candidate [of bs e "manual_lines insns" s] Cons.prems ss
    by (auto simp: manual_lines_def)
  obtain ss' where "fill_slots manual_candidate (e\<lparr>stdin := manual_lines insns\<rparr>) ss1 (n + 1) =
      Some (ss', n + 1 + length insns, True, e\<lparr>stdin := []\<rparr>)"
      "map insn_bytes (take (length insns) ss') = insns"
    using Cons.IH [of ss1 "e\<lparr>stdin := manual_lines insns\<rparr>" "n + 1"] Cons.prems ss by auto
  then show ?case
    using s' ss by simp
qed

text \<open>As many lines as slots: the loop runs through without learning that the input is over.\<close>

lemma fill_slots_manual_full:
  assumes "\<forall>bs \<in> set insns. 1 \<le> length bs \<and> length bs \<le> 15" and "length insns = length ss"
    and "stdin e = manual_lines insns @ rest" and "\<forall>s \<in> set ss. input_slot_wf s"
  shows "\<exists>ss'. fill_slots manual_candidate e ss n =
      Some (ss', n + length insns, False, e\<lparr>stdin := rest\<rparr>) \<and>
    (\<forall>s \<in> set ss'. input_slot_ok s) \<and> map insn_bytes ss' = insns"
  using assms(2,1,3,4)
proof (induction insns ss arbitrary: e n rule: list_induct2)
  case Nil
  then show ?case
    by (simp add: manual_lines_def)
next
  case (Cons bs insns s ss)
  define e1 where "e1 = e\<lparr>stdin := manual_lines insns @ rest\<rparr>"
  obtain s' where s': "manual_candidate e s = Some (True, s', e1)" "input_slot_ok s'" "insn_bytes s' = bs"
    using manual_lines_candidate [of bs e "manual_lines insns @ rest" s] Cons.prems
    by (auto simp: manual_lines_def e1_def)
  obtain ss' where "fill_slots manual_candidate e1 ss (n + 1) =
      Some (ss', n + 1 + length insns, False, e1\<lparr>stdin := rest\<rparr>)"
      "\<forall>s \<in> set ss'. input_slot_ok s" "map insn_bytes ss' = insns"
    using Cons.IH [of e1 "n + 1"] Cons.prems by (auto simp: e1_def)
  then show ?case
    using s' by (simp add: e1_def)
qed

section \<open>Properties\<close>

definition sample_chunk :: input_chunk where
  "sample_chunk = \<lparr>generation = 0, remaining_workers = 0, input_count = 0,
     inputs = replicate MISHEGOS_NUM_SLOTS_PER_CHUNK zero_input_slot\<rparr>"

lemma sample_chunk_wf [simp]: "chunk_wf sample_chunk"
  by (simp add: sample_chunk_def chunk_wf_def input_slot_ok_wf)

lemma sample_mutator_inv [simp]: "mutator_inv sample_mutator" "mutator_inv (sample_mutator\<lparr>stdin := x\<rparr>)"
  by (simp_all add: mutator_inv_def)

text \<open>C35: A refill of a chunk returns whatever generator was chosen; it publishes a count of at
  most 4096, below which every slot holds a candidate whose length is inside its buffer, the
  number of workers and the generation, and it marks the chunk as the last one exactly when the
  count is not 4096.\<close>

theorem refill_publishes_candidates:
  assumes "mutator_inv e" and "chunk_wf ic" and "nworkers \<le> 31" and "idx \<noteq> exit_idx"
  shows "\<exists>ic' exit' e'. fill_chunk (run_mutator k) e nworkers gen idx exit_idx ic = Some (ic', exit', e') \<and>
    mutator_inv e' \<and> chunk_wf ic' \<and> unat (input_count ic') \<le> MISHEGOS_NUM_SLOTS_PER_CHUNK \<and>
    unat (remaining_workers ic') = nworkers \<and> generation ic' = ucast gen \<and>
    (\<forall>s \<in> set (take (unat (input_count ic')) (inputs ic')). unat (in_len s) \<le> 15) \<and>
    exit' = (if unat (input_count ic') \<noteq> MISHEGOS_NUM_SLOTS_PER_CHUNK then idx else exit_idx)"
  using chosen_mut.fill_chunk_total [OF assms, of k gen] by (fastforce simp: slot_defs)

theorem refill_publishes_candidates_witness:
  "\<exists>ic' exit' e'. fill_chunk (run_mutator Havoc) sample_mutator 3 1 0 16 sample_chunk =
     Some (ic', exit', e') \<and> unat (remaining_workers ic') = 3"
  using refill_publishes_candidates [of sample_mutator sample_chunk 3 0 16 Havoc 1] by auto

text \<open>Manual mode makes of a file with one hexadecimal line per instruction, as \<open>mish2jsonl\<close>
  prints them, exactly these instructions, in order: with fewer lines than slots the loop counts
  every line, consumes the whole input and reports the end.\<close>

theorem manual_mode_fills_listed_instructions:
  assumes "\<forall>bs \<in> set insns. 1 \<le> length bs \<and> length bs \<le> 15" and "length insns < length ss"
    and "stdin e = manual_lines insns" and "\<forall>s \<in> set ss. input_slot_wf s"
  shows "\<exists>ss'. fill_slots manual_candidate e ss 0 = Some (ss', length insns, True, e\<lparr>stdin := []\<rparr>) \<and>
    map insn_bytes (take (length insns) ss') = insns"
  using fill_slots_manual [OF assms, of 0] by simp

theorem manual_mode_fills_listed_instructions_witness:
  "\<exists>ss'. fill_slots manual_candidate
      (sample_mutator\<lparr>stdin := manual_lines [[0x90], [0x0f, 0x0b]]\<rparr>) (replicate 5 zero_input_slot) 0 =
      Some (ss', 2, True, sample_mutator\<lparr>stdin := []\<rparr>) \<and>
    map insn_bytes (take 2 ss') = [[0x90], [0x0f, 0x0b]]"
  using manual_mode_fills_listed_instructions [of "[[0x90], [0x0f, 0x0b]]" "replicate 5 zero_input_slot"
      "sample_mutator\<lparr>stdin := manual_lines [[0x90], [0x0f, 0x0b]]\<rparr>"]
  by (simp add: input_slot_ok_wf numeral_2_eq_2)

text \<open>Dummy mode publishes no input at all: the generator writes its NOP but returns false,
  so the refill counts nothing and ends the run with an empty chunk.\<close>

theorem dummy_mode_publishes_nothing:
  assumes "chunk_wf ic"
  shows "\<exists>ic'. fill_chunk (run_mutator Dummy) e nworkers gen idx exit_idx ic = Some (ic', idx, e) \<and>
    input_count ic' = 0 \<and> insn_bytes (hd (inputs ic')) = [0x90]"
proof -
  obtain s ss where ic: "inputs ic = s # ss" "length (raw_insn s) = 15"
    using assms by (cases "inputs ic") (auto simp: chunk_wf_def const_simps slot_defs)
  then obtain b raw where "raw_insn s = b # raw"
    by (cases "raw_insn s") auto
  then show ?thesis
    using ic by (simp add: fill_chunk_def dummy_candidate_def poke_def insn_bytes_def)
qed

theorem dummy_mode_publishes_nothing_witness:
  "\<exists>ic'. fill_chunk (run_mutator Dummy) sample_mutator 2 1 0 16 sample_chunk =
     Some (ic', 0, sample_mutator) \<and> input_count ic' = 0"
  using dummy_mode_publishes_nothing [of sample_chunk sample_mutator 2 1 0 16] by auto

end
