(* ===== verification/Worker_Config.thy ===== *)
theory Worker_Config
  imports Manual_Input
begin

text \<open>
  The table of workers of src/mishegos/mishegos.c: how \<open>main\<close> fills it from the lines of the
  worker file and how the signal handler finds a worker by its process id. Whether a file is
  readable (\<open>access\<close>) and which process id \<open>fork\<close> hands out belong to the operating system and
  are parameters.
\<close>

record worker_config =
  soname_len :: nat
  soname :: "byte list"
  workerno :: nat
  start_gen :: u64
  start_idx :: nat
  sigchld :: bool
  pid :: int

text \<open>\<open>line\<close> lacks its newline exactly when \<open>getline\<close> ran into the end of the file (\<open>feof\<close>).\<close>

definition hit_feof :: "byte list \<Rightarrow> bool" where
  "hit_feof line \<longleftrightarrow> last line \<noteq> 10"

definition worker_entry :: "(nat \<Rightarrow> int) \<Rightarrow> nat \<Rightarrow> byte list \<Rightarrow> worker_config" where
  "worker_entry fork n line =
     \<lparr>soname_len = length line, soname = line, workerno = n, start_gen = 1, start_idx = 0,
      sigchld = False, pid = fork n\<rparr>"

text \<open>
  The loading loop. A file that cannot be read ends the program with its name (\<open>Inl\<close>); a line
  that starts with a hash sign is skipped; the loop stops at 31 workers or at the end.
\<close>

function load_workers :: "(byte list \<Rightarrow> bool) \<Rightarrow> (nat \<Rightarrow> int) \<Rightarrow> worker_config list \<Rightarrow> byte list \<Rightarrow>
    byte list + worker_config list" where
  "load_workers access fork workers inp =
     (if length workers < MISHEGOS_MAX_NWORKERS then
        case getline inp of
          None \<Rightarrow> Inr workers
        | Some (line, rest) \<Rightarrow>
            if hit_feof line then Inr workers
            else if hd line = 35 then load_workers access fork workers rest
            else let line = chomp line in
              if \<not> access line then Inl line
              else load_workers access fork
                (workers @ [worker_entry fork (length workers) line]) rest
      else Inr workers)"
  by auto
termination
  by (relation "measure (\<lambda>(_, _, _, inp). length inp)") (auto dest: getline_shorter)

declare load_workers.simps [simp del]

text \<open>
  \<open>worker_for_pid\<close> searches the whole static array; entries not in use are zeroed. The result
  \<open>-1\<close> is \<open>None\<close>.
\<close>

fun worker_for_pid_from :: "nat \<Rightarrow> worker_config list \<Rightarrow> int \<Rightarrow> nat option" where
  "worker_for_pid_from i [] p = None"
| "worker_for_pid_from i (w # ws) p =
     (if pid w = p then Some i else worker_for_pid_from (i + 1) ws p)"

definition worker_for_pid :: "worker_config list \<Rightarrow> int \<Rightarrow> nat option" where
  "worker_for_pid workers p = worker_for_pid_from 0 workers p"

section \<open>Which lines become workers\<close>

definition is_comment :: "byte list \<Rightarrow> bool" where
  "is_comment l \<longleftrightarrow> l \<noteq> [] \<and> hd l = 35"

definition spec_file :: "byte list list \<Rightarrow> byte list" where
  "spec_file ls = concat (map (\<lambda>l. l @ [10]) ls)"

definition text_line :: "byte list \<Rightarrow> bool" where
  "text_line l \<longleftrightarrow> 10 \<notin> set l \<and> 0 \<notin> set l"

text \<open>The entries for the names \<open>ns\<close>, or the first name that cannot be read.\<close>

definition worker_table :: "(byte list \<Rightarrow> bool) \<Rightarrow> (nat \<Rightarrow> int) \<Rightarrow> nat \<Rightarrow> byte list list \<Rightarrow>
    byte list + worker_config list" where
  "worker_table access fork k ns =
     (case find (\<lambda>n. \<not> access n) ns of
        Some n \<Rightarrow> Inl n
      | None \<Rightarrow> Inr (map (\<lambda>i. worker_entry fork (k + i) (ns ! i)) [0..<length ns]))"

lemma chomp_line: "text_line l \<Longrightarrow> chomp (l @ [10]) = l"
  by (induction l) (auto simp: chomp_eq text_line_def)

lemma worker_table_Cons:
  "worker_table access fork k (n # ns) =
     (if access n then
        case worker_table access fork (k + 1) ns of
          Inl x \<Rightarrow> Inl x
        | Inr ws \<Rightarrow> Inr (worker_entry fork k n # ws)
      else Inl n)"
proof -
  have "map (\<lambda>i. worker_entry fork (k + i) ((n # ns) ! i)) [0..<Suc (length ns)] =
      worker_entry fork k n # map (\<lambda>i. worker_entry fork (k + 1 + i) (ns ! i)) [0..<length ns]"
    by (simp add: map_upt_Suc del: upt_Suc)
  then show ?thesis
    by (simp add: worker_table_def split: option.splits)
qed

lemma load_workers_spec:
  assumes "\<forall>l \<in> set ls. text_line l" and "10 \<notin> set tail"
    and "length ws \<le> 31"
  shows "load_workers access fork ws (spec_file ls @ tail) =
    map_sum id ((@) ws)
      (worker_table access fork (length ws)
        (take (31 - length ws) (filter (\<lambda>l. \<not> is_comment l) ls)))"
  using assms(1,3)
proof (induction ls arbitrary: ws)
  case Nil
  have no_newline: "dropWhile (\<lambda>b. b \<noteq> 10) tail = []"
    using assms(2) by (auto simp: dropWhile_eq_Nil_conv)
  have "getline tail = None \<or> getline tail = Some (tail, []) \<and> hit_feof tail"
  proof (cases "tail = []")
    case False
    then show ?thesis
      using assms(2) last_in_set [OF False]
      by (metis getline_def hit_feof_def list.simps(4) no_newline)
  qed (simp add: getline_def)
  then show ?case
    by (subst load_workers.simps) (auto simp: spec_file_def worker_table_def)
next
  case (Cons l ls)
  have line: "text_line l" "10 \<notin> set l"
    using Cons.prems by (auto simp: text_line_def)
  have 1: "getline (spec_file (l # ls) @ tail) = Some (l @ [10], spec_file ls @ tail)"
    using getline_line [OF line(2), of "spec_file ls @ tail"] by (simp add: spec_file_def)
  have 2: "\<not> hit_feof (l @ [10])" "hd (l @ [10]) = 35 \<longleftrightarrow> is_comment l"
    by (auto simp: hit_feof_def is_comment_def hd_append)
  show ?case
  proof (cases "length ws = 31")
    case True
    then show ?thesis
      by (subst load_workers.simps) (simp add: worker_table_def)
  next
    case False
    then have len: "length ws < 31"
      using Cons.prems by simp
    then have n: "31 - length ws = Suc (31 - Suc (length ws))"
      by simp
    show ?thesis
      using Cons.IH [of ws] Cons.IH [of "ws @ [worker_entry fork (length ws) l]"] Cons.prems len 2
      by (subst load_workers.simps)
        (auto simp: 1 chomp_line [OF line(1)] n worker_table_Cons id_def
          split: sum.splits)
  qed
qed

section \<open>Finding a worker by its process\<close>

lemma worker_for_pid_from_eq:
  "worker_for_pid_from i ws p =
     (if \<exists>w \<in> set ws. pid w = p then Some (i + length (takeWhile (\<lambda>w. pid w \<noteq> p) ws)) else None)"
  by (induction i ws p rule: worker_for_pid_from.induct) auto

lemma worker_for_pid_nth:
  assumes "distinct (map pid ws)" and "i < length ws"
  shows "worker_for_pid ws (pid (ws ! i)) = Some i"
proof -
  have "pid (ws ! j) \<noteq> pid (ws ! i)" if "j < i" for j
    using assms that by (auto simp: distinct_conv_nth)
  then have "takeWhile (\<lambda>w. pid w \<noteq> pid (ws ! i)) ws = take i ws"
    using assms(2) by (intro takeWhile_eq_take_P_nth) auto
  then show ?thesis
    using assms(2) by (auto simp: worker_for_pid_def worker_for_pid_from_eq)
qed

section \<open>Properties\<close>

text \<open>C37: Loading the worker file: of its complete lines the first 31 that do not start with a hash
  sign become the workers, in order and numbered from zero, each with its whole line as name and
  generation 1, chunk 0 as its starting point; the first of them that cannot be read ends the
  program with its name. Text after the last newline is ignored.\<close>

theorem load_workers_takes_lines:
  assumes "\<forall>l \<in> set ls. 10 \<notin> set l \<and> 0 \<notin> set l" and "10 \<notin> set tail"
  shows "load_workers access fork [] (spec_file ls @ tail) =
    (let ns = take 31 (filter (\<lambda>l. l = [] \<or> hd l \<noteq> 35) ls) in
     case find (\<lambda>n. \<not> access n) ns of
       Some n \<Rightarrow> Inl n
     | None \<Rightarrow> Inr (map (\<lambda>i. \<lparr>soname_len = length (ns ! i), soname = ns ! i, workerno = i,
         start_gen = 1, start_idx = 0, sigchld = False, pid = fork i\<rparr>) [0..<length ns]))"
proof -
  have "filter (\<lambda>l. \<not> is_comment l) ls = filter (\<lambda>l. l = [] \<or> hd l \<noteq> 35) ls"
    by (rule filter_cong) (auto simp: is_comment_def)
  then show ?thesis
    using load_workers_spec [of ls tail "[]" access fork] assms
    by (simp add: text_line_def worker_table_def worker_entry_def Let_def split: option.splits)
qed

theorem load_workers_takes_lines_witness:
  "load_workers (\<lambda>n. n \<noteq> []) (\<lambda>i. 100 + int i) [] (spec_file [[97], [35, 98], [99, 100]] @ [101]) =
    Inr [\<lparr>soname_len = 1, soname = [97], workerno = 0, start_gen = 1, start_idx = 0, sigchld = False,
          pid = 100\<rparr>,
         \<lparr>soname_len = 2, soname = [99, 100], workerno = 1, start_gen = 1, start_idx = 0,
          sigchld = False, pid = 101\<rparr>]"
  using load_workers_takes_lines [of "[[97], [35, 98], [99, 100]]" "[101]" "\<lambda>n. n \<noteq> []" "\<lambda>i. 100 + int i"]
  by (simp add: upt_rec)

text \<open>The handler finds the worker a process id belongs to: with distinct ids the result is the
  index of the worker, and an id that is in no entry gives no worker.\<close>

theorem worker_for_pid_finds:
  assumes "distinct (map pid ws)"
  shows "worker_for_pid ws p = Some i \<longleftrightarrow> i < length ws \<and> pid (ws ! i) = p"
proof
  assume r: "worker_for_pid ws p = Some i"
  then have "\<exists>w \<in> set ws. pid w = p"
    by (auto simp: worker_for_pid_def worker_for_pid_from_eq split: if_splits)
  then obtain j where j: "j < length ws" "pid (ws ! j) = p"
    by (auto simp: in_set_conv_nth)
  then show "i < length ws \<and> pid (ws ! i) = p"
    using worker_for_pid_nth [OF assms j(1)] r by simp
next
  assume "i < length ws \<and> pid (ws ! i) = p"
  then show "worker_for_pid ws p = Some i"
    using worker_for_pid_nth [OF assms] by auto
qed

theorem worker_for_pid_finds_witness:
  "worker_for_pid [worker_entry int 7 [], worker_entry int 9 []] 9 = Some 1"
  using worker_for_pid_finds [of "[worker_entry int 7 [], worker_entry int 9 []]" 9 1]
  by (simp add: worker_entry_def)

end
