(* ===== verification/Chunk_Ring.thy ===== *)
theory Chunk_Ring
  imports Chunk_Fill Worker_Config
begin

text \<open>
  The ring of chunks through which the main loop and the worker processes of
  src/mishegos/mishegos.c exchange inputs and outputs, as a state machine at the granularity of
  the accesses to shared memory. The main loop (\<open>main_step\<close>), each worker (\<open>worker_step\<close>, the
  loop of \<open>worker\<close>) and the signal handler (\<open>sigchld_handler\<close>) are executable step functions;
  \<open>ring_step\<close> interleaves them in any order. A crash is modelled where the code expects it, in a
  call of the worker's \<open>try_decode\<close>, which is a parameter: it says whether the call returned
  and what it left in the output slot.
\<close>

section \<open>State\<close>

record output_chunk =
  remaining :: u32
  outputs :: "output_slot list"

datatype worker_pc =
    WWait | WStart | WLoop nat | WDecode nat | WDec | WCheck | WExit | WDead | WReaped

record worker = worker_config +
  w_pc :: worker_pc
  w_gen :: u32
  w_idx :: nat
  out_chunks :: "output_chunk list"

datatype main_pc =
    MWait | MScan nat bool | MProcess nat | MFill | MCount nat | MWorkers | MGeneration
  | MAdvance | MDone

record ring =
  chunks :: "input_chunk list"
  workers :: "worker list"
  m_pc :: main_pc
  m_gen :: nat
  m_idx :: nat
  m_exit_idx :: nat
  m_env :: mutator_state

text \<open>What the run is made of: the generator, the workers' decoders and their number.\<close>

record fuzz_config =
  su_mutator :: mutator_kind
  su_decode :: "nat \<Rightarrow> output_slot \<Rightarrow> input_slot \<Rightarrow> bool \<times> output_slot"
  su_nworkers :: nat

text \<open>What a run shows to the outside: the inputs made public and the samples processed.\<close>

datatype event =
    Published "input_slot list"
  | Processed input_slot "output_slot list"

definition upd_chunk :: "nat \<Rightarrow> (input_chunk \<Rightarrow> input_chunk) \<Rightarrow> ring \<Rightarrow> ring" where
  "upd_chunk c f s = s\<lparr>chunks := (chunks s)[c := f (chunks s ! c)]\<rparr>"

definition upd_worker :: "nat \<Rightarrow> (worker \<Rightarrow> worker) \<Rightarrow> ring \<Rightarrow> ring" where
  "upd_worker i f s = s\<lparr>workers := (workers s)[i := f (workers s ! i)]\<rparr>"

definition upd_out :: "nat \<Rightarrow> (output_chunk \<Rightarrow> output_chunk) \<Rightarrow> worker \<Rightarrow> worker" where
  "upd_out c f w = w\<lparr>out_chunks := (out_chunks w)[c := f (out_chunks w ! c)]\<rparr>"

definition put_output :: "nat \<Rightarrow> output_slot \<Rightarrow> output_chunk \<Rightarrow> output_chunk" where
  "put_output j r oc = oc\<lparr>outputs := (outputs oc)[j := r]\<rparr>"

section \<open>A worker\<close>

text \<open>
  \<open>start\<close> is computed in 64 bits; the value stored back is truncated to the 32 bits of the
  counter, where the subtraction can as well be done.
\<close>

definition start_slot :: "u32 \<Rightarrow> u32 \<Rightarrow> nat" where
  "start_slot count old_remaining =
     (if old_remaining = 0 then 0 else unat (ucast count - ucast old_remaining + 1 :: u64))"

definition worker_step :: "fuzz_config \<Rightarrow> nat \<Rightarrow> ring \<Rightarrow> ring option" where
  "worker_step u i s =
     (let w = workers s ! i; c = w_idx w; ic = chunks s ! c; oc = out_chunks w ! c in
      case w_pc w of
        WWait \<Rightarrow>
          if generation ic = w_gen w then Some (upd_worker i (\<lambda>w. w\<lparr>w_pc := WStart\<rparr>) s) else None
      | WStart \<Rightarrow>
          let start = start_slot (input_count ic) (remaining oc) in
          Some (upd_worker i (\<lambda>w. upd_out c
            (\<lambda>oc. oc\<lparr>remaining := input_count ic - of_nat start\<rparr>) w\<lparr>w_pc := WLoop start\<rparr>) s)
      | WLoop j \<Rightarrow>
          if j < unat (input_count ic) then
            Some (upd_worker i (\<lambda>w. upd_out c
              (put_output j ((outputs oc ! j)\<lparr>out_len := 0, ndecoded := 0\<rparr>)) w\<lparr>w_pc := WDecode j\<rparr>) s)
          else Some (upd_worker i (\<lambda>w. w\<lparr>w_pc := WDec\<rparr>) s)
      | WDecode j \<Rightarrow>
          (case su_decode u i (outputs oc ! j) (inputs ic ! j) of (returned, r) \<Rightarrow>
             Some (upd_worker i (\<lambda>w. upd_out c
               (\<lambda>oc. if returned
                     then (put_output j r oc)\<lparr>remaining := input_count ic - of_nat j - 1\<rparr>
                     else put_output j r oc) w
               \<lparr>w_pc := if returned then WLoop (j + 1) else WDead\<rparr>) s))
      | WDec \<Rightarrow>
          Some (upd_worker i (\<lambda>w. w\<lparr>w_pc := WCheck\<rparr>)
            (upd_chunk c (\<lambda>ic. ic\<lparr>remaining_workers := remaining_workers ic - 1\<rparr>) s))
      | WCheck \<Rightarrow>
          if unat (input_count ic) \<noteq> MISHEGOS_NUM_SLOTS_PER_CHUNK
          then Some (upd_worker i (\<lambda>w. w\<lparr>w_pc := WExit\<rparr>) s)
          else Some (upd_worker i (\<lambda>w.
            if c + 1 = MISHEGOS_NUM_CHUNKS then w\<lparr>w_idx := 0, w_gen := w_gen w + 1, w_pc := WWait\<rparr>
            else w\<lparr>w_idx := c + 1, w_pc := WWait\<rparr>) s)
      | WExit \<Rightarrow> None | WDead \<Rightarrow> None | WReaped \<Rightarrow> None)"

section \<open>The signal handler\<close>

text \<open>
  One turn of the handler's loop, for the dead worker \<open>i\<close>: the first chunk with a non-zero
  \<open>remaining\<close> is where it crashed.
\<close>

definition crash_chunk :: "worker \<Rightarrow> nat option" where
  "crash_chunk w = find (\<lambda>c. remaining (out_chunks w ! c) \<noteq> 0) [0..<MISHEGOS_NUM_CHUNKS]"

definition mark_crash :: "input_chunk \<Rightarrow> output_chunk \<Rightarrow> output_chunk" where
  "mark_crash ic oc =
     (let j = unat (input_count ic - remaining oc)
      in put_output j ((outputs oc ! j)\<lparr>status := S_CRASH\<rparr>) oc)"

definition sigchld_handler :: "nat \<Rightarrow> ring \<Rightarrow> ring option" where
  "sigchld_handler i s =
     (let w = workers s ! i in
      if w_pc w \<noteq> WDead then None
      else case crash_chunk w of
        None \<Rightarrow> Some (upd_worker i (\<lambda>w. w\<lparr>w_pc := WReaped\<rparr>) s)
      | Some c \<Rightarrow>
          let ic = chunks s ! c in
          Some (upd_chunk c (\<lambda>ic. ic\<lparr>remaining_workers := remaining_workers ic - 1\<rparr>)
            (upd_worker i (\<lambda>w. (upd_out c (mark_crash ic) w)
               \<lparr>w_pc := WReaped, start_gen := ucast (generation ic), start_idx := c, sigchld := True\<rparr>)
             s)))"

section \<open>The main loop\<close>

text \<open>\<open>worker_start\<close>: the new process takes its position from the configuration.\<close>

definition worker_start :: "worker \<Rightarrow> worker" where
  "worker_start w = w\<lparr>sigchld := False, w_pc := WWait, w_gen := ucast (start_gen w), w_idx := start_idx w\<rparr>"

definition main_step :: "fuzz_config \<Rightarrow> ring \<Rightarrow> (ring \<times> event list) option" where
  "main_step u s =
     (let c = m_idx s; ic = chunks s ! c in
      case m_pc s of
        MWait \<Rightarrow> if remaining_workers ic = 0 then Some (s\<lparr>m_pc := MScan 0 False\<rparr>, []) else None
      | MScan i restarted \<Rightarrow>
          if i < su_nworkers u then
            let w = workers s ! i in
            if sigchld w then
              Some (upd_worker i worker_start
                (upd_chunk (start_idx w) (\<lambda>ic. ic\<lparr>remaining_workers := remaining_workers ic + 1\<rparr>)
                  (s\<lparr>m_pc := MScan (i + 1) True\<rparr>)), [])
            else Some (s\<lparr>m_pc := MScan (i + 1) restarted\<rparr>, [])
          else if restarted then Some (s\<lparr>m_pc := MWait\<rparr>, [])
          else Some (s\<lparr>m_pc := MProcess 0\<rparr>, [])
      | MProcess i \<Rightarrow>
          if m_gen s > 1 \<and> i < unat (input_count ic) then
            Some (s\<lparr>m_pc := MProcess (i + 1)\<rparr>,
              [Processed (inputs ic ! i) (map (\<lambda>w. outputs (out_chunks w ! c) ! i) (workers s))])
          else if c = m_exit_idx s then Some (s\<lparr>m_pc := MDone\<rparr>, [])
          else if m_exit_idx s = MISHEGOS_NUM_CHUNKS then Some (s\<lparr>m_pc := MFill\<rparr>, [])
          else Some (s\<lparr>m_pc := MAdvance\<rparr>, [])
      | MFill \<Rightarrow> do {
          (slots, count, ended, e) \<leftarrow> fill_slots (run_mutator (su_mutator u)) (m_env s) (inputs ic) 0;
          Some (upd_chunk c (\<lambda>ic. ic\<lparr>inputs := slots\<rparr>)
            (s\<lparr>m_env := e, m_exit_idx := if ended then c else m_exit_idx s, m_pc := MCount count\<rparr>), []) }
      | MCount n \<Rightarrow>
          Some (upd_chunk c (\<lambda>ic. ic\<lparr>input_count := of_nat n\<rparr>) (s\<lparr>m_pc := MWorkers\<rparr>), [])
      | MWorkers \<Rightarrow>
          Some (upd_chunk c (\<lambda>ic. ic\<lparr>remaining_workers := of_nat (su_nworkers u)\<rparr>)
            (s\<lparr>m_pc := MGeneration\<rparr>), [])
      | MGeneration \<Rightarrow>
          Some (upd_chunk c (\<lambda>ic. ic\<lparr>generation := of_nat (m_gen s)\<rparr>) (s\<lparr>m_pc := MAdvance\<rparr>),
            [Published (take (unat (input_count ic)) (inputs ic))])
      | MAdvance \<Rightarrow>
          if c + 1 = MISHEGOS_NUM_CHUNKS
          then Some (s\<lparr>m_idx := 0, m_gen := m_gen s + 1, m_pc := MWait\<rparr>, [])
          else Some (s\<lparr>m_idx := c + 1, m_pc := MWait\<rparr>, [])
      | MDone \<Rightarrow> None)"

section \<open>Runs\<close>

inductive ring_step :: "fuzz_config \<Rightarrow> ring \<Rightarrow> event list \<Rightarrow> ring \<Rightarrow> bool" for u where
  by_main: "main_step u s = Some (s', es) \<Longrightarrow> ring_step u s es s'"
| by_worker: "i < su_nworkers u \<Longrightarrow> worker_step u i s = Some s' \<Longrightarrow> ring_step u s [] s'"
| by_signal: "i < su_nworkers u \<Longrightarrow> sigchld_handler i s = Some s' \<Longrightarrow> ring_step u s [] s'"

inductive_cases ring_stepE: "ring_step u s es s'"

abbreviation ring_run :: "fuzz_config \<Rightarrow> ring \<Rightarrow> event list \<Rightarrow> ring \<Rightarrow> bool" where
  "ring_run u \<equiv> trace_run (ring_step u)"

text \<open>The zeroed shared mappings and the workers right after \<open>load_workers\<close> started them.\<close>

definition zero_chunk :: input_chunk where
  "zero_chunk = \<lparr>generation = 0, remaining_workers = 0, input_count = 0,
     inputs = replicate MISHEGOS_NUM_SLOTS_PER_CHUNK zero_input_slot\<rparr>"

definition zero_output_chunk :: output_chunk where
  "zero_output_chunk = \<lparr>remaining = 0,
     outputs = replicate MISHEGOS_NUM_SLOTS_PER_CHUNK zero_output_slot\<rparr>"

definition start_worker :: "worker_config \<Rightarrow> worker" where
  "start_worker wc = worker_config.extend wc
     (worker.fields WWait (ucast (start_gen wc)) (start_idx wc)
        (replicate MISHEGOS_NUM_CHUNKS zero_output_chunk))"

definition ring_start :: "worker_config list \<Rightarrow> mutator_state \<Rightarrow> ring" where
  "ring_start wcs e =
     \<lparr>chunks = replicate MISHEGOS_NUM_CHUNKS zero_chunk, workers = map start_worker wcs,
      m_pc = MWait, m_gen = 1, m_idx = 0, m_exit_idx = MISHEGOS_NUM_CHUNKS, m_env = e\<rparr>"

end
