(* ===== verification/Chunk_Ring_Inv.thy ===== *)
theory Chunk_Ring_Inv
  imports Chunk_Ring
begin

text \<open>
  The invariant of the ring. The turns of the main loop are numbered: turn \<open>t\<close> uses chunk
  \<open>t mod 16\<close> in generation \<open>t div 16 + 1\<close>, and so does the \<open>t\<close>-th chunk of inputs that is
  published (\<open>pub ! t\<close>) and that every worker goes through. \<open>\<tau> i\<close> is the turn worker \<open>i\<close> is at.
  The invariant says how the counters shared by the processes relate to these numbers: when a
  worker counts as done, what \<open>remaining_workers\<close> counts, which chunks still hold which inputs
  and which outputs are final.
\<close>

section \<open>Projections of a run\<close>

primrec published :: "event list \<Rightarrow> input_slot list list" where
  "published [] = []"
| "published (e # es) = (case e of Published b \<Rightarrow> b # published es | Processed _ _ \<Rightarrow> published es)"

primrec processed :: "event list \<Rightarrow> (input_slot \<times> output_slot list) list" where
  "processed [] = []"
| "processed (e # es) =
     (case e of Published _ \<Rightarrow> processed es | Processed inp outs \<Rightarrow> (inp, outs) # processed es)"

lemma published_append [simp]: "published (es @ es') = published es @ published es'"
  by (induction es) (auto split: event.split)

lemma processed_append [simp]: "processed (es @ es') = processed es @ processed es'"
  by (induction es) (auto split: event.split)

section \<open>The parts of the invariant\<close>

definition turn :: "ring \<Rightarrow> nat" where
  "turn s = (m_gen s - 1) * 16 + m_idx s"

text \<open>Between deciding to refill a chunk and publishing it; after the wait at the loop's head.\<close>

fun filling :: "main_pc \<Rightarrow> bool" where
  "filling MFill = True" | "filling (MCount n) = True" | "filling MWorkers = True"
| "filling MGeneration = True" | "filling _ = False"

fun waiting_pc :: "main_pc \<Rightarrow> bool" where
  "waiting_pc MWait = True" | "waiting_pc (MScan i r) = True" | "waiting_pc _ = False"

definition finished_pc :: "worker_pc \<Rightarrow> bool" where
  "finished_pc p \<longleftrightarrow> p = WCheck \<or> p = WExit"

lemma finished_pc_simps [simp]:
  "finished_pc WCheck" "finished_pc WExit" "\<not> finished_pc WWait" "\<not> finished_pc WStart"
  "\<not> finished_pc (WLoop j)" "\<not> finished_pc (WDecode j)" "\<not> finished_pc WDec"
  "\<not> finished_pc WDead" "\<not> finished_pc WReaped"
  by (simp_all add: finished_pc_def)

text \<open>Worker \<open>i\<close> is done with turn \<open>t\<close>: it is past it or has given its sign-off.\<close>

definition done_with :: "(nat \<Rightarrow> nat) \<Rightarrow> worker list \<Rightarrow> nat \<Rightarrow> nat \<Rightarrow> bool" where
  "done_with \<tau> ws i t \<longleftrightarrow> t < \<tau> i \<or> t = \<tau> i \<and> finished_pc (w_pc (ws ! i))"

text \<open>The workers \<open>remaining_workers\<close> stands for: not done, and not taken out by the handler.\<close>

definition counted :: "(nat \<Rightarrow> nat) \<Rightarrow> worker list \<Rightarrow> nat \<Rightarrow> nat set" where
  "counted \<tau> ws t = {i. i < length ws \<and> \<not> done_with \<tau> ws i t \<and>
     \<not> (w_pc (ws ! i) = WReaped \<and> \<tau> i = t)}"

text \<open>An output slot a call of \<open>try_decode\<close> has finished with, or crashed on.\<close>

definition cleared_slot :: "output_slot \<Rightarrow> output_slot" where
  "cleared_slot r = r\<lparr>out_len := 0, ndecoded := 0\<rparr>"

text \<open>
  A result array has its 248 bytes before a call and after it. Where every decoder of the run
  keeps to that, all the output slots do.
\<close>

definition decoder_wf :: "fuzz_config \<Rightarrow> bool" where
  "decoder_wf u \<longleftrightarrow> (\<forall>i r inp. output_slot_wf r \<longrightarrow> output_slot_wf (snd (su_decode u i r inp)))"

definition slot_kept :: "fuzz_config \<Rightarrow> output_slot \<Rightarrow> bool" where
  "slot_kept u r \<longleftrightarrow> (decoder_wf u \<longrightarrow> output_slot_wf r)"

definition outs_kept :: "fuzz_config \<Rightarrow> output_slot list \<Rightarrow> bool" where
  "outs_kept u outs \<longleftrightarrow> length outs = 4096 \<and> (\<forall>r \<in> set outs. slot_kept u r)"

definition decoded :: "fuzz_config \<Rightarrow> nat \<Rightarrow> input_slot \<Rightarrow> output_slot \<Rightarrow> bool" where
  "decoded u i inp r \<longleftrightarrow> (\<exists>old r'. slot_kept u old \<and>
     (su_decode u i (cleared_slot old) inp = (True, r') \<and> r = r'
      \<or> su_decode u i (cleared_slot old) inp = (False, r') \<and> r = r'\<lparr>status := S_CRASH\<rparr>))"

definition decoded_upto ::
  "fuzz_config \<Rightarrow> nat \<Rightarrow> input_slot list \<Rightarrow> output_slot list \<Rightarrow> nat \<Rightarrow> bool" where
  "decoded_upto u i slots outs k \<longleftrightarrow> (\<forall>j < k. decoded u i (slots ! j) (outs ! j))"

text \<open>
  How far a worker is in the chunk of its turn, with inputs \<open>slots\<close>, by its program counter
  and its \<open>remaining\<close> counter \<open>r\<close>.
\<close>

fun progress_ok :: "fuzz_config \<Rightarrow> nat \<Rightarrow> input_slot list \<Rightarrow> nat \<Rightarrow> output_slot list \<Rightarrow> worker_pc \<Rightarrow> bool" where
  "progress_ok u i slots r outs WWait \<longleftrightarrow>
     r = 0 \<or> r \<le> length slots \<and> decoded_upto u i slots outs (length slots - r + 1)"
| "progress_ok u i slots r outs WStart \<longleftrightarrow>
     r = 0 \<or> r \<le> length slots \<and> decoded_upto u i slots outs (length slots - r + 1)"
| "progress_ok u i slots r outs (WLoop j) \<longleftrightarrow>
     j \<le> length slots \<and> r = length slots - j \<and> decoded_upto u i slots outs j"
| "progress_ok u i slots r outs (WDecode j) \<longleftrightarrow>
     j < length slots \<and> r = length slots - j \<and> decoded_upto u i slots outs j \<and>
     cleared_slot (outs ! j) = outs ! j"
| "progress_ok u i slots r outs WDec \<longleftrightarrow> r = 0 \<and> decoded_upto u i slots outs (length slots)"
| "progress_ok u i slots r outs WCheck \<longleftrightarrow> r = 0"
| "progress_ok u i slots r outs WExit \<longleftrightarrow> r = 0"
| "progress_ok u i slots r outs WDead \<longleftrightarrow>
     0 < r \<and> r \<le> length slots \<and> decoded_upto u i slots outs (length slots - r) \<and>
     (\<exists>old. slot_kept u old \<and> su_decode u i (cleared_slot old) (slots ! (length slots - r)) =
       (False, outs ! (length slots - r)))"
| "progress_ok u i slots r outs WReaped \<longleftrightarrow>
     0 < r \<and> r \<le> length slots \<and> decoded_upto u i slots outs (length slots - r + 1)"

definition worker_ok :: "fuzz_config \<Rightarrow> input_slot list list \<Rightarrow> nat \<Rightarrow> nat \<Rightarrow> worker \<Rightarrow> bool" where
  "worker_ok u pub t i w \<longleftrightarrow>
     length (out_chunks w) = 16 \<and> (\<forall>oc \<in> set (out_chunks w). outs_kept u (outputs oc)) \<and>
     t \<le> length pub \<and> w_gen w = of_nat (t div 16 + 1) \<and> w_idx w = t mod 16 \<and>
     (sigchld w \<longleftrightarrow> w_pc w = WReaped) \<and>
     (w_pc w = WReaped \<longrightarrow> start_gen w = ucast (w_gen w) \<and> start_idx w = w_idx w) \<and>
     (\<forall>c < 16. c \<noteq> t mod 16 \<longrightarrow> remaining (out_chunks w ! c) = 0) \<and>
     (if t < length pub
      then progress_ok u i (pub ! t) (unat (remaining (out_chunks w ! (t mod 16))))
             (outputs (out_chunks w ! (t mod 16))) (w_pc w)
      else w_pc w = WWait \<and> remaining (out_chunks w ! (t mod 16)) = 0)"

text \<open>Turn \<open>t\<close> is the last of the first \<open>q\<close> to use its chunk; its contents are still there.\<close>

definition latest :: "nat \<Rightarrow> nat \<Rightarrow> bool" where
  "latest q t \<longleftrightarrow> t < q \<and> q \<le> t + 16"

definition live :: "main_pc \<Rightarrow> nat \<Rightarrow> nat \<Rightarrow> bool" where
  "live p q t \<longleftrightarrow> latest q t \<and> (filling p \<longrightarrow> q < t + 16)"

text \<open>Turns whose \<open>remaining_workers\<close> has been set.\<close>

definition armed :: "main_pc \<Rightarrow> nat \<Rightarrow> nat" where
  "armed p q = (if p = MGeneration then q + 1 else q)"

definition contents_ok :: "input_slot list list \<Rightarrow> ring \<Rightarrow> bool" where
  "contents_ok pub s \<longleftrightarrow> (\<forall>t. live (m_pc s) (length pub) t \<longrightarrow>
     unat (input_count (chunks s ! (t mod 16))) = length (pub ! t) \<and>
     take (length (pub ! t)) (inputs (chunks s ! (t mod 16))) = pub ! t)"

definition gens_ok :: "input_slot list list \<Rightarrow> ring \<Rightarrow> bool" where
  "gens_ok pub s \<longleftrightarrow> (\<forall>c < 16. generation (chunks s ! c) = of_nat ((length pub + 15 - c) div 16))"

definition counts_ok :: "(nat \<Rightarrow> nat) \<Rightarrow> input_slot list list \<Rightarrow> ring \<Rightarrow> bool" where
  "counts_ok \<tau> pub s \<longleftrightarrow>
     (\<forall>t. latest (armed (m_pc s) (length pub)) t \<longrightarrow>
        remaining_workers (chunks s ! (t mod 16)) = of_nat (card (counted \<tau> (workers s) t))) \<and>
     (\<forall>c < 16. armed (m_pc s) (length pub) \<le> c \<longrightarrow> remaining_workers (chunks s ! c) = 0)"

definition results_ok :: "fuzz_config \<Rightarrow> (nat \<Rightarrow> nat) \<Rightarrow> input_slot list list \<Rightarrow> ring \<Rightarrow> bool" where
  "results_ok u \<tau> pub s \<longleftrightarrow> (\<forall>t. live (m_pc s) (length pub) t \<longrightarrow>
     (\<forall>i < length (workers s). done_with \<tau> (workers s) i t \<longrightarrow>
        decoded_upto u i (pub ! t) (outputs (out_chunks (workers s ! i) ! (t mod 16)))
          (length (pub ! t))))"

definition workers_ok :: "fuzz_config \<Rightarrow> (nat \<Rightarrow> nat) \<Rightarrow> input_slot list list \<Rightarrow> ring \<Rightarrow> bool" where
  "workers_ok u \<tau> pub s \<longleftrightarrow> length (workers s) = su_nworkers u \<and> su_nworkers u \<le> 31 \<and>
     (\<forall>i < length (workers s). worker_ok u pub (\<tau> i) i (workers s ! i))"

text \<open>Where the main loop is, and what it has put behind it.\<close>

definition shape_ok :: "ring \<Rightarrow> bool" where
  "shape_ok s \<longleftrightarrow> length (chunks s) = 16 \<and> (\<forall>ic \<in> set (chunks s). chunk_wf ic) \<and>
     1 \<le> m_gen s \<and> m_idx s < 16 \<and> m_exit_idx s \<le> 16 \<and> mutator_inv (m_env s)"

definition turns_ok :: "input_slot list list \<Rightarrow> ring \<Rightarrow> bool" where
  "turns_ok pub s \<longleftrightarrow>
     length pub \<le> turn s + (if m_pc s = MAdvance then 1 else 0) \<and>
     turn s \<le> length pub + (if m_pc s = MAdvance then 14 else 15) \<and>
     (filling (m_pc s) \<longrightarrow> length pub = turn s \<and> m_exit_idx s \<in> {16, m_idx s}) \<and>
     (m_pc s = MFill \<longrightarrow> m_exit_idx s = 16) \<and>
     (\<not> filling (m_pc s) \<longrightarrow>
        (if m_exit_idx s = 16 then turn s + (if m_pc s = MAdvance then 1 else 0) = length pub
         else 0 < length pub \<and> (length pub - 1) mod 16 = m_exit_idx s)) \<and>
     (m_pc s = MDone \<longrightarrow> turn s = length pub + 15 \<and> 0 < length pub) \<and>
     (\<forall>n. m_pc s = MCount n \<longrightarrow> n \<le> 4096) \<and>
     (m_pc s \<in> {MWorkers, MGeneration} \<longrightarrow> unat (input_count (chunks s ! m_idx s)) \<le> 4096) \<and>
     (\<forall>x \<in> set pub. length x \<le> 4096)"

definition cleared_ok :: "(nat \<Rightarrow> nat) \<Rightarrow> input_slot list list \<Rightarrow> ring \<Rightarrow> bool" where
  "cleared_ok \<tau> pub s \<longleftrightarrow>
     (\<forall>t < length pub. t + 16 < turn s \<or> t + 16 = turn s \<and> \<not> waiting_pc (m_pc s) \<longrightarrow>
        (\<forall>i < length (workers s). done_with \<tau> (workers s) i t)) \<and>
     (\<forall>k r. m_pc s = MScan k r \<longrightarrow> 16 \<le> turn s \<longrightarrow> \<not> r \<longrightarrow>
        (\<forall>i < length (workers s). done_with \<tau> (workers s) i (turn s - 16) \<or>
           w_pc (workers s ! i) = WReaped \<and> \<tau> i = turn s - 16 \<and> k \<le> i))"

text \<open>The samples processed so far: all turns up to the current one, in order.\<close>

fun current_part :: "main_pc \<Rightarrow> 'a list \<Rightarrow> 'a list" where
  "current_part MWait b = []" | "current_part (MScan i r) b = []"
| "current_part (MProcess i) b = take i b" | "current_part _ b = b"

definition log_ok :: "fuzz_config \<Rightarrow> input_slot list list \<Rightarrow> (input_slot \<times> output_slot list) list \<Rightarrow>
    ring \<Rightarrow> bool" where
  "log_ok u pub log s \<longleftrightarrow>
     map fst log = (if turn s < 16 then []
       else concat (take (turn s - 16) pub) @ current_part (m_pc s) (pub ! (turn s - 16))) \<and>
     (\<forall>k. m_pc s = MProcess k \<longrightarrow> k \<le> (if turn s < 16 then 0 else length (pub ! (turn s - 16)))) \<and>
     (\<forall>(inp, outs) \<in> set log. length outs = su_nworkers u \<and>
        (\<forall>i < su_nworkers u. decoded u i inp (outs ! i)))"

definition ring_inv :: "fuzz_config \<Rightarrow> (nat \<Rightarrow> nat) \<Rightarrow> event list \<Rightarrow> ring \<Rightarrow> bool" where
  "ring_inv u \<tau> es s \<longleftrightarrow> shape_ok s \<and> workers_ok u \<tau> (published es) s \<and>
     contents_ok (published es) s \<and> gens_ok (published es) s \<and> counts_ok \<tau> (published es) s \<and>
     results_ok u \<tau> (published es) s \<and> turns_ok (published es) s \<and>
     cleared_ok \<tau> (published es) s \<and> log_ok u (published es) (processed es) s"

lemmas ring_inv_defs = shape_ok_def workers_ok_def contents_ok_def gens_ok_def counts_ok_def
  results_ok_def turns_ok_def cleared_ok_def log_ok_def

section \<open>Turns and chunks\<close>

lemma turn_split:
  obtains a r where "t = 16 * a + r" and "(r :: nat) < 16" and "t div 16 = a" and "t mod 16 = r"
  by (metis mod_less_divisor mult_div_mod_eq zero_less_numeral)

lemma latest_same_chunk:
  assumes "latest q t" and "latest q t'" and "t mod 16 = t' mod 16"
  shows "t = t'"
proof -
  obtain a r where t: "t = 16 * a + r" "t mod 16 = r"
    by (rule turn_split)
  obtain b r' where t': "t' = 16 * b + r'" "t' mod 16 = r'"
    by (rule turn_split)
  have "16 * a + r < 16 * b + r + 16" "16 * b + r < 16 * a + r + 16"
    using assms t t' by (auto simp: latest_def)
  then show ?thesis
    using t t' assms(3) by simp
qed

lemma live_latest: "live p q t \<Longrightarrow> latest q t"
  by (simp add: live_def)

lemma turn_mod: "m_idx s < 16 \<Longrightarrow> turn s mod 16 = m_idx s"
  by (simp add: turn_def)

lemma turn_div: "m_idx s < 16 \<Longrightarrow> turn s div 16 = m_gen s - 1"
  by (simp add: turn_def)

lemma gen_published:
  assumes "latest q t"
  shows "(q + 15 - t mod 16) div 16 = t div 16 + 1"
proof -
  obtain a r where t: "t = 16 * a + r" "r < 16" "t div 16 = a" "t mod 16 = r"
    by (rule turn_split)
  show ?thesis
    using assms by (intro div_nat_eqI) (auto simp: t latest_def)
qed

lemma gen_unpublished: "(q + 15 - q mod 16) div 16 = q div (16 :: nat)"
proof -
  obtain a r where t: "q = 16 * a + r" "r < 16" "q div 16 = a" "q mod 16 = r"
    by (rule turn_split)
  show ?thesis
    by (intro div_nat_eqI) (auto simp: t)
qed

lemma gen_other:
  assumes "c < 16" and "c \<noteq> q mod 16"
  shows "(q + 1 + 15 - c) div 16 = (q + 15 - c) div (16 :: nat)"
proof -
  obtain a r where t: "q = 16 * a + r" "r < 16" "q mod 16 = r"
    by (rule turn_split)
  define k where "k = (if c < r then a + 1 else a)"
  have "(q + 1 + 15 - c) div 16 = k" "(q + 15 - c) div 16 = k"
    using assms t by (auto intro!: div_nat_eqI simp: k_def)
  then show ?thesis
    by simp
qed

lemma counted_subset: "counted \<tau> ws t \<subseteq> {..<length ws}"
  by (auto simp: counted_def)

lemma card_counted: "card (counted \<tau> ws t) \<le> length ws"
  using card_mono [OF _ counted_subset] by fastforce

lemma of_nat_u32_eq_0: "n \<le> 31 \<Longrightarrow> (of_nat n :: u32) = 0 \<longleftrightarrow> n = 0"
proof -
  assume "n \<le> 31"
  then have "unat (of_nat n :: u32) = n"
    by (simp add: mem_simps)
  then show ?thesis
    by auto
qed

end
