(* ===== verification/Ring_Workers.thy ===== *)
theory Ring_Workers
  imports Chunk_Ring_Inv
begin

text \<open>
  The steps of a worker and of the signal handler keep the invariant of the ring. A step inside
  a chunk needs only the worker's own progress (\<open>local_step\<close>); signing off and being taken out
  by the handler also change the chunk's counter.
\<close>

section \<open>Frames\<close>

lemma ring_frame_workers:
  "chunks (s\<lparr>workers := x\<rparr>) = chunks s" "workers (s\<lparr>workers := x\<rparr>) = x"
  "m_pc (s\<lparr>workers := x\<rparr>) = m_pc s" "m_gen (s\<lparr>workers := x\<rparr>) = m_gen s"
  "m_idx (s\<lparr>workers := x\<rparr>) = m_idx s" "m_exit_idx (s\<lparr>workers := x\<rparr>) = m_exit_idx s"
  "m_env (s\<lparr>workers := x\<rparr>) = m_env s" "turn (s\<lparr>workers := x\<rparr>) = turn s"
  by (simp_all add: turn_def)

lemma workers_frame:
  "shape_ok (s\<lparr>workers := x\<rparr>) \<longleftrightarrow> shape_ok s" "contents_ok pub (s\<lparr>workers := x\<rparr>) \<longleftrightarrow> contents_ok pub s"
  "gens_ok pub (s\<lparr>workers := x\<rparr>) \<longleftrightarrow> gens_ok pub s"
  "turns_ok pub (s\<lparr>workers := x\<rparr>) \<longleftrightarrow> turns_ok pub s"
  "log_ok u pub log (s\<lparr>workers := x\<rparr>) \<longleftrightarrow> log_ok u pub log s"
  by (simp_all only: shape_ok_def contents_ok_def gens_ok_def turns_ok_def log_ok_def
      ring_frame_workers)

lemma done_with_update:
  "i < length ws \<Longrightarrow> finished_pc (w_pc w') = finished_pc (w_pc (ws ! i)) \<Longrightarrow>
   done_with \<tau> (ws[i := w']) k t = done_with \<tau> ws k t"
  by (cases "k = i") (auto simp: done_with_def)

lemma counted_update:
  "i < length ws \<Longrightarrow> finished_pc (w_pc w') = finished_pc (w_pc (ws ! i)) \<Longrightarrow>
   (w_pc w' = WReaped) = (w_pc (ws ! i) = WReaped) \<Longrightarrow>
   counted \<tau> (ws[i := w']) t = counted \<tau> ws t"
  unfolding counted_def by (auto simp: done_with_update nth_list_update)

text \<open>A worker that is not done with its own turn keeps that turn's chunk alive.\<close>

lemma own_chunk_live:
  assumes inv: "turns_ok pub s" "cleared_ok \<tau> pub s"
    and i: "i < length (workers s)" "\<tau> i < length pub" "\<not> done_with \<tau> (workers s) i (\<tau> i)"
  shows "live (m_pc s) (length pub) (\<tau> i)"
proof -
  have "\<not> (\<tau> i + 16 < turn s \<or> \<tau> i + 16 = turn s \<and> \<not> waiting_pc (m_pc s))"
    using inv(2) i unfolding cleared_ok_def by blast
  then have *: "turn s < \<tau> i + 16 \<or> turn s = \<tau> i + 16 \<and> waiting_pc (m_pc s)"
    by linarith
  have pub: "length pub \<le> turn s + (if m_pc s = MAdvance then 1 else 0)"
    "filling (m_pc s) \<Longrightarrow> length pub = turn s"
    using inv(1) by (auto simp: turns_ok_def)
  show ?thesis
    using * pub i(2) by (cases "m_pc s") (auto simp: live_def latest_def)
qed

lemma results_ok_update:
  assumes old: "results_ok u \<tau> pub s" and i: "i < length (workers s)"
    and live: "live (m_pc s) (length pub) (\<tau> i)" and notdone: "\<not> done_with \<tau> (workers s) i (\<tau> i)"
    and dn: "\<And>k t. done_with \<tau> ((workers s)[i := w']) k t = done_with \<tau> (workers s) k t"
    and outs: "\<And>c. c < 16 \<Longrightarrow> c \<noteq> \<tau> i mod 16 \<Longrightarrow> out_chunks w' ! c = out_chunks (workers s ! i) ! c"
  shows "results_ok u \<tau> pub (s\<lparr>workers := (workers s)[i := w']\<rparr>)"
  unfolding results_ok_def ring_frame_workers
proof (intro allI impI)
  fix t k
  assume t: "live (m_pc s) (length pub) t" and k: "k < length ((workers s)[i := w'])"
    and d: "done_with \<tau> ((workers s)[i := w']) k t"
  have "out_chunks ((workers s)[i := w'] ! k) ! (t mod 16) = out_chunks (workers s ! k) ! (t mod 16)"
  proof (cases "k = i")
    case True
    have "t \<noteq> \<tau> i"
      using d True notdone by (auto simp: dn)
    then have "t mod 16 \<noteq> \<tau> i mod 16"
      using live t by (auto dest!: live_latest dest: latest_same_chunk)
    then show ?thesis
      using True i outs by simp
  qed simp
  then show "decoded_upto u k (pub ! t) (outputs (out_chunks ((workers s)[i := w'] ! k) ! (t mod 16)))
      (length (pub ! t))"
    using old t k d unfolding results_ok_def by (simp add: dn)
qed

lemma local_step:
  assumes inv: "ring_inv u \<tau> es s" and i: "i < length (workers s)" "\<tau> i < length (published es)"
    and old: "\<not> finished_pc (w_pc (workers s ! i))" "w_pc (workers s ! i) \<noteq> WReaped"
    and new: "\<not> finished_pc (w_pc w')" "w_pc w' \<noteq> WReaped"
    and ok: "worker_ok u (published es) (\<tau> i) i w'"
    and outs: "\<And>c. c < 16 \<Longrightarrow> c \<noteq> \<tau> i mod 16 \<Longrightarrow> out_chunks w' ! c = out_chunks (workers s ! i) ! c"
  shows "ring_inv u \<tau> es (s\<lparr>workers := (workers s)[i := w']\<rparr>)"
proof -
  let ?s = "s\<lparr>workers := (workers s)[i := w']\<rparr>" and ?pub = "published es"
  note parts = inv [unfolded ring_inv_def]
  have dn: "done_with \<tau> ((workers s)[i := w']) k t = done_with \<tau> (workers s) k t" for k t
    using i(1) old new by (intro done_with_update) auto
  have cnt: "counted \<tau> ((workers s)[i := w']) t = counted \<tau> (workers s) t" for t
    using i(1) old new by (intro counted_update) auto
  have rp: "w_pc ((workers s)[i := w'] ! k) = WReaped \<longleftrightarrow> w_pc (workers s ! k) = WReaped" for k
    using i(1) old new by (cases "k = i") auto
  have notdone: "\<not> done_with \<tau> (workers s) i (\<tau> i)"
    using old by (simp add: done_with_def)
  then have "live (m_pc s) (length ?pub) (\<tau> i)"
    using parts i by (intro own_chunk_live) auto
  then have "results_ok u \<tau> ?pub ?s"
    using parts i(1) notdone dn outs by (intro results_ok_update) auto
  moreover have "workers_ok u \<tau> ?pub ?s"
    using parts ok i(1) unfolding workers_ok_def by (auto simp: nth_list_update)
  moreover have "cleared_ok \<tau> ?pub ?s \<longleftrightarrow> cleared_ok \<tau> ?pub s"
    "counts_ok \<tau> ?pub ?s \<longleftrightarrow> counts_ok \<tau> ?pub s"
    unfolding cleared_ok_def counts_ok_def
    by (simp_all only: dn rp cnt ring_frame_workers length_list_update)
  ultimately show ?thesis
    using parts by (simp only: ring_inv_def workers_frame simp_thms)
qed

section \<open>Steps inside a chunk\<close>

lemma worker_okD:
  assumes "worker_ok u pub t i w"
  shows "length (out_chunks w) = 16" "w_gen w = of_nat (t div 16 + 1)" "w_idx w = t mod 16"
    "t \<le> length pub" "sigchld w \<longleftrightarrow> w_pc w = WReaped"
    "c < 16 \<Longrightarrow> outs_kept u (outputs (out_chunks w ! c))"
    "c < 16 \<Longrightarrow> c \<noteq> t mod 16 \<Longrightarrow> remaining (out_chunks w ! c) = 0"
    "t < length pub \<Longrightarrow> progress_ok u i (pub ! t) (unat (remaining (out_chunks w ! (t mod 16))))
             (outputs (out_chunks w ! (t mod 16))) (w_pc w)"
    "w_pc w \<noteq> WWait \<Longrightarrow> t < length pub"
  using assms by (auto simp: worker_ok_def split: if_splits)

text \<open>Replacing the chunk of the current turn and the program counter.\<close>

lemma worker_ok_update:
  assumes "worker_ok u pub t i w" and "t < length pub" and "p \<noteq> WReaped" and "w_pc w \<noteq> WReaped"
    and "outs_kept u (outputs oc)"
    and "progress_ok u i (pub ! t) (unat (remaining oc)) (outputs oc) p"
  shows "worker_ok u pub t i (w\<lparr>out_chunks := (out_chunks w)[t mod 16 := oc], w_pc := p\<rparr>)"
  using assms by (auto simp: worker_ok_def set_update_subset_insert [THEN subsetD]
      dest!: set_update_subset_insert [THEN subsetD])

text \<open>Slots keep their shape in every update.\<close>

lemma slot_kept_cleared: "slot_kept u r \<Longrightarrow> slot_kept u (cleared_slot r)"
  by (simp add: slot_kept_def cleared_slot_def output_slot_wf_def)

lemma slot_kept_status: "slot_kept u (r\<lparr>status := st\<rparr>) \<longleftrightarrow> slot_kept u r"
  by (simp add: slot_kept_def output_slot_wf_def)

lemma slot_kept_decode:
  "slot_kept u r \<Longrightarrow> su_decode u i (cleared_slot r) inp = (ret, r') \<Longrightarrow> slot_kept u r'"
  using slot_kept_cleared [of u r] by (auto simp: slot_kept_def decoder_wf_def) (metis snd_conv)

lemma outs_kept_update: "outs_kept u outs \<Longrightarrow> slot_kept u r \<Longrightarrow> outs_kept u (outs[j := r])"
  by (auto simp: outs_kept_def dest!: set_update_subset_insert [THEN subsetD])

lemma slot_kept_nth: "outs_kept u outs \<Longrightarrow> j < 4096 \<Longrightarrow> slot_kept u (outs ! j)"
  by (simp add: outs_kept_def)

lemma decoded_upto_mono: "decoded_upto u i slots outs k \<Longrightarrow> j \<le> k \<Longrightarrow> decoded_upto u i slots outs j"
  by (auto simp: decoded_upto_def)

lemma decoded_upto_update: "k \<le> j \<Longrightarrow> decoded_upto u i slots (outs[j := r]) k = decoded_upto u i slots outs k"
  by (auto simp: decoded_upto_def)

lemma decoded_upto_Suc: "decoded_upto u i slots outs (Suc k) \<longleftrightarrow>
    decoded_upto u i slots outs k \<and> decoded u i (slots ! k) (outs ! k)"
  by (auto simp: decoded_upto_def less_Suc_eq)

text \<open>The arithmetic of \<open>start\<close> and of the counters.\<close>

lemma unat_u32_less: "unat (x :: u32) < 2 ^ 32"
  using unsigned_less [of x] by simp

lemma unat_ucast_u64: "unat (ucast (x :: u32) :: u64) = unat x"
proof -
  have "unat x < 2 ^ 32"
    using unsigned_less [of x] by simp
  then show ?thesis
    by (simp add: unsigned_ucast_eq take_bit_nat_eq_self)
qed

lemma start_slot_eq:
  assumes "unat old \<le> unat count"
  shows "start_slot count old = (if old = 0 then 0 else unat count - unat old + 1)"
proof -
  have "unat (ucast count :: u64) = unat count" "unat (ucast old :: u64) = unat old"
    by (simp_all add: unat_ucast_u64)
  then have "unat (ucast count - ucast old :: u64) = unat count - unat old"
    using assms by (simp add: unat_sub word_le_nat_alt)
  moreover have "unat count < 2 ^ 32"
    using unsigned_less [of count] by simp
  ultimately show ?thesis
    by (simp add: start_slot_def unat_word_ariths)
qed

lemma unat_count_minus:
  assumes "j \<le> unat (count :: u32)"
  shows "unat (count - of_nat j) = unat count - j"
proof -
  have "unat (of_nat j :: u32) = j"
    using assms unat_u32_less [of count] by (simp add: mem_simps)
  then show ?thesis
    using assms by (simp add: unat_sub word_le_nat_alt)
qed

lemma unat_count_minus_Suc:
  "j < unat (count :: u32) \<Longrightarrow> unat (count - of_nat j - 1) = unat count - Suc j"
  using unat_count_minus [of "Suc j" count] by (simp add: algebra_simps)

section \<open>The worker's loop\<close>

lemma ring_invD:
  assumes "ring_inv u \<tau> es s"
  shows "shape_ok s" "workers_ok u \<tau> (published es) s" "contents_ok (published es) s"
    "gens_ok (published es) s" "counts_ok \<tau> (published es) s" "results_ok u \<tau> (published es) s"
    "turns_ok (published es) s" "cleared_ok \<tau> (published es) s"
    "log_ok u (published es) (processed es) s"
  using assms by (simp_all add: ring_inv_def)

lemma ring_inv_worker:
  "ring_inv u \<tau> es s \<Longrightarrow> i < length (workers s) \<Longrightarrow>
   worker_ok u (published es) (\<tau> i) i (workers s ! i)"
  by (auto simp: ring_inv_def workers_ok_def)

text \<open>What a worker finds in the chunk of its turn.\<close>

lemma own_chunk_contents:
  assumes "ring_inv u \<tau> es s" and "i < length (workers s)" and "\<tau> i < length (published es)"
    and "\<not> finished_pc (w_pc (workers s ! i))"
  shows "unat (input_count (chunks s ! (\<tau> i mod 16))) = length (published es ! \<tau> i)"
    and "j < length (published es ! \<tau> i) \<Longrightarrow>
      inputs (chunks s ! (\<tau> i mod 16)) ! j = published es ! \<tau> i ! j"
    and "length (published es ! \<tau> i) \<le> 4096"
proof -
  note inv = ring_invD [OF assms(1)]
  have "live (m_pc s) (length (published es)) (\<tau> i)"
    using inv assms by (intro own_chunk_live) (auto simp: done_with_def)
  then have *: "unat (input_count (chunks s ! (\<tau> i mod 16))) = length (published es ! \<tau> i)"
    "take (length (published es ! \<tau> i)) (inputs (chunks s ! (\<tau> i mod 16))) = published es ! \<tau> i"
    using inv(3) by (auto simp: contents_ok_def)
  show "unat (input_count (chunks s ! (\<tau> i mod 16))) = length (published es ! \<tau> i)"
    by (rule *)
  show "inputs (chunks s ! (\<tau> i mod 16)) ! j = published es ! \<tau> i ! j"
    if "j < length (published es ! \<tau> i)"
    using *(2) that by (metis nth_take)
  show "length (published es ! \<tau> i) \<le> 4096"
    using inv(7) assms(3) by (auto simp: turns_ok_def)
qed

text \<open>A waiting worker whose generation has come is at a published turn.\<close>

lemma wait_over:
  assumes "ring_inv u \<tau> es s" and "i < length (workers s)"
    and "generation (chunks s ! (\<tau> i mod 16)) = w_gen (workers s ! i)"
  shows "\<tau> i < length (published es)"
proof (rule ccontr)
  assume "\<not> \<tau> i < length (published es)"
  then have t: "\<tau> i = length (published es)"
    using worker_okD(4) [OF ring_inv_worker [OF assms(1,2)]] by simp
  have "generation (chunks s ! (\<tau> i mod 16)) = of_nat (\<tau> i div 16)"
    using ring_invD(4) [OF assms(1)] by (simp add: gens_ok_def t gen_unpublished)
  moreover have "w_gen (workers s ! i) = of_nat (\<tau> i div 16) + 1"
    using worker_okD(2) [OF ring_inv_worker [OF assms(1,2)]] by simp
  ultimately show False
    using assms(3) by simp
qed

text \<open>The general form of a step inside a chunk.\<close>

lemma chunk_step:
  assumes inv: "ring_inv u \<tau> es s" and i: "i < length (workers s)" "\<tau> i < length (published es)"
    and old: "\<not> finished_pc (w_pc (workers s ! i))" "w_pc (workers s ! i) \<noteq> WReaped"
    and new: "\<not> finished_pc p" "p \<noteq> WReaped"
    and oc: "outs_kept u (outputs oc)"
    and ok: "progress_ok u i (published es ! \<tau> i) (unat (remaining oc)) (outputs oc) p"
  shows "ring_inv u \<tau> es (upd_worker i (\<lambda>w. upd_out (\<tau> i mod 16) (\<lambda>_. oc) w\<lparr>w_pc := p\<rparr>) s)"
proof -
  have "worker_ok u (published es) (\<tau> i) i
      ((workers s ! i)\<lparr>out_chunks := (out_chunks (workers s ! i))[\<tau> i mod 16 := oc], w_pc := p\<rparr>)"
    using ring_inv_worker [OF inv i(1)] i(2) new(2) old(2) oc ok by (rule worker_ok_update)
  then show ?thesis
    unfolding upd_worker_def upd_out_def using inv i old new
    by (intro local_step) auto
qed

lemma wait_step:
  assumes "ring_inv u \<tau> es s" and "i < length (workers s)" and "w_pc (workers s ! i) = WWait"
    and "worker_step u i s = Some s'"
  shows "ring_inv u \<tau> es s'"
proof -
  let ?w = "workers s ! i" and ?c = "\<tau> i mod 16"
  note w = worker_okD [OF ring_inv_worker [OF assms(1,2)]]
  have gen: "generation (chunks s ! ?c) = w_gen ?w" and
    s': "s' = upd_worker i (\<lambda>w. w\<lparr>w_pc := WStart\<rparr>) s"
    using assms(3,4) w(3) by (auto simp: worker_step_def Let_def split: if_splits)
  have t: "\<tau> i < length (published es)"
    using assms gen by (intro wait_over)
  have "upd_worker i (\<lambda>w. upd_out ?c (\<lambda>_. out_chunks ?w ! ?c) w\<lparr>w_pc := WStart\<rparr>) s = s'"
    by (simp add: s' upd_worker_def upd_out_def)
  moreover have "ring_inv u \<tau> es
      (upd_worker i (\<lambda>w. upd_out ?c (\<lambda>_. out_chunks ?w ! ?c) w\<lparr>w_pc := WStart\<rparr>) s)"
    using assms t w(6) [of ?c] w(8) [OF t] by (intro chunk_step) auto
  ultimately show ?thesis
    by simp
qed

lemma start_step:
  assumes "ring_inv u \<tau> es s" and "i < length (workers s)" and pc: "w_pc (workers s ! i) = WStart"
    and "worker_step u i s = Some s'"
  shows "ring_inv u \<tau> es s'"
proof -
  let ?w = "workers s ! i" and ?c = "\<tau> i mod 16" and ?slots = "published es ! \<tau> i"
  let ?oc = "out_chunks ?w ! ?c" and ?count = "input_count (chunks s ! ?c)"
  note w = worker_okD [OF ring_inv_worker [OF assms(1,2)]]
  have t: "\<tau> i < length (published es)"
    using w(9) pc by simp
  have n: "unat ?count = length ?slots"
    using assms t by (intro own_chunk_contents) auto
  define st where "st = start_slot ?count (remaining ?oc)"
  have r: "unat (remaining ?oc) = 0 \<or> unat (remaining ?oc) \<le> length ?slots \<and>
      decoded_upto u i ?slots (outputs ?oc) (length ?slots - unat (remaining ?oc) + 1)"
    using w(8) [OF t] pc by simp
  have st: "st \<le> length ?slots" "decoded_upto u i ?slots (outputs ?oc) st"
    using r n start_slot_eq [of "remaining ?oc" ?count]
      unat_gt_0 [of "remaining ?oc"]
    by (auto simp: st_def decoded_upto_def split: if_splits)
  have "s' = upd_worker i (\<lambda>w. upd_out ?c (\<lambda>_. ?oc\<lparr>remaining := ?count - of_nat st\<rparr>) w
      \<lparr>w_pc := WLoop st\<rparr>) s"
    using assms(4) pc w(3) by (auto simp: worker_step_def Let_def st_def upd_worker_def upd_out_def)
  then show ?thesis
    using assms t pc w(6) [of ?c] st n unat_count_minus [of st ?count]
    by (simp only:) (intro chunk_step, auto)
qed

lemma loop_step:
  assumes "ring_inv u \<tau> es s" and "i < length (workers s)" and pc: "w_pc (workers s ! i) = WLoop j"
    and "worker_step u i s = Some s'"
  shows "ring_inv u \<tau> es s'"
proof -
  let ?w = "workers s ! i" and ?c = "\<tau> i mod 16" and ?slots = "published es ! \<tau> i"
  let ?oc = "out_chunks ?w ! ?c" and ?count = "input_count (chunks s ! ?c)"
  note w = worker_okD [OF ring_inv_worker [OF assms(1,2)]]
  have t: "\<tau> i < length (published es)"
    using w(9) pc by simp
  have n: "unat ?count = length ?slots" "length ?slots \<le> 4096"
    using assms t own_chunk_contents(1,3) by auto
  have prog: "j \<le> length ?slots" "unat (remaining ?oc) = length ?slots - j"
    "decoded_upto u i ?slots (outputs ?oc) j"
    using w(8) [OF t] pc by simp_all
  show ?thesis
  proof (cases "j < unat ?count")
    case True
    define oc where "oc = put_output j (cleared_slot (outputs ?oc ! j)) ?oc"
    have "s' = upd_worker i (\<lambda>w. upd_out ?c (\<lambda>_. oc) w\<lparr>w_pc := WDecode j\<rparr>) s"
      using assms(4) pc w(3) True
      by (auto simp: worker_step_def Let_def oc_def cleared_slot_def upd_worker_def upd_out_def)
    moreover have "outs_kept u (outputs oc)"
      using w(6) [of ?c] n True
      by (simp add: oc_def put_output_def outs_kept_update slot_kept_cleared slot_kept_nth)
    ultimately show ?thesis
      using assms t pc w(6) [of ?c] n prog True
      by (simp only:) (intro chunk_step,
        auto simp: oc_def put_output_def cleared_slot_def decoded_upto_update outs_kept_def)
  next
    case False
    then have "s' = upd_worker i (\<lambda>w. upd_out ?c (\<lambda>_. ?oc) w\<lparr>w_pc := WDec\<rparr>) s"
      using assms(4) pc w(3) by (auto simp: worker_step_def Let_def upd_worker_def upd_out_def)
    then show ?thesis
      using assms t pc w(6) [of ?c] n prog False
      by (simp only:) (intro chunk_step, auto)
  qed
qed

lemma decode_step:
  assumes "ring_inv u \<tau> es s" and "i < length (workers s)" and pc: "w_pc (workers s ! i) = WDecode j"
    and "worker_step u i s = Some s'"
  shows "ring_inv u \<tau> es s'"
proof -
  let ?w = "workers s ! i" and ?c = "\<tau> i mod 16" and ?slots = "published es ! \<tau> i"
  let ?oc = "out_chunks ?w ! ?c" and ?count = "input_count (chunks s ! ?c)"
  note w = worker_okD [OF ring_inv_worker [OF assms(1,2)]]
  have t: "\<tau> i < length (published es)"
    using w(9) pc by simp
  have n: "unat ?count = length ?slots" "length ?slots \<le> 4096"
    using assms t own_chunk_contents(1,3) by auto
  have prog: "j < length ?slots" "unat (remaining ?oc) = length ?slots - j"
    "decoded_upto u i ?slots (outputs ?oc) j" "cleared_slot (outputs ?oc ! j) = outputs ?oc ! j"
    using w(8) [OF t] pc by simp_all
  have inp: "inputs (chunks s ! ?c) ! j = ?slots ! j"
    using assms t pc prog(1) by (intro own_chunk_contents) auto
  obtain ret r where r: "su_decode u i (cleared_slot (outputs ?oc ! j)) (?slots ! j) = (ret, r)"
    by fastforce
  have kept: "outs_kept u (outputs ?oc)" "length (outputs ?oc) = 4096"
    using w(6) [of ?c] by (simp_all add: outs_kept_def)
  have "j < 4096"
    using prog(1) n(2) by simp
  then have old: "slot_kept u (outputs ?oc ! j)" and new: "slot_kept u r"
    using slot_kept_nth [OF kept(1)] r by (auto intro: slot_kept_decode)
  show ?thesis
  proof (cases ret)
    case True
    define oc where "oc = (put_output j r ?oc)\<lparr>remaining := ?count - of_nat j - 1\<rparr>"
    have "s' = upd_worker i (\<lambda>w. upd_out ?c (\<lambda>_. oc) w\<lparr>w_pc := WLoop (j + 1)\<rparr>) s"
      using assms(4) pc w(3) True r prog(4) inp
      by (auto simp: worker_step_def Let_def oc_def upd_worker_def upd_out_def)
    moreover have "unat (remaining oc) = length ?slots - (j + 1)"
      using unat_count_minus_Suc [of j ?count] prog(1) n by (simp add: oc_def)
    moreover have "decoded u i (?slots ! j) r"
      using r True unfolding decoded_def
      by (intro exI [of _ "outputs ?oc ! j"] exI [of _ r]) (simp add: old)
    ultimately show ?thesis
      using assms t pc kept new n prog
      by (simp only:) (intro chunk_step,
        auto simp: oc_def put_output_def decoded_upto_Suc decoded_upto_update outs_kept_update)
  next
    case False
    define oc where "oc = put_output j r ?oc"
    have "s' = upd_worker i (\<lambda>w. upd_out ?c (\<lambda>_. oc) w\<lparr>w_pc := WDead\<rparr>) s"
      using assms(4) pc w(3) False r prog(4) inp
      by (auto simp: worker_step_def Let_def oc_def upd_worker_def upd_out_def)
    moreover have "\<exists>old. slot_kept u old \<and> su_decode u i (cleared_slot old) (?slots ! j) = (False, r)"
      using r False old by auto
    ultimately show ?thesis
      using assms t pc kept new n prog
      by (simp only:) (intro chunk_step,
        auto simp: oc_def put_output_def decoded_upto_update outs_kept_update)
  qed
qed

section \<open>Counting in and out\<close>

text \<open>Changing a counter leaves everything but the counting alone.\<close>

definition set_counter :: "nat \<Rightarrow> u32 \<Rightarrow> ring \<Rightarrow> ring" where
  "set_counter c x = upd_chunk c (\<lambda>ic. ic\<lparr>remaining_workers := x\<rparr>)"

lemma set_counter_simps [simp]:
  "workers (set_counter c x s) = workers s" "m_pc (set_counter c x s) = m_pc s"
  "m_gen (set_counter c x s) = m_gen s" "m_idx (set_counter c x s) = m_idx s"
  "m_exit_idx (set_counter c x s) = m_exit_idx s" "m_env (set_counter c x s) = m_env s"
  "turn (set_counter c x s) = turn s" "length (chunks (set_counter c x s)) = length (chunks s)"
  by (simp_all add: set_counter_def upd_chunk_def turn_def)

lemma update_same_field:
  "(\<And>x. g (f x) = g x) \<Longrightarrow> g (xs[c := f (xs ! c)] ! k) = g (xs ! k)"
  by (cases "c < length xs"; cases "k = c") (auto simp: not_less list_update_beyond)

lemma set_counter_nth [simp]:
  "generation (chunks (set_counter c x s) ! k) = generation (chunks s ! k)"
  "input_count (chunks (set_counter c x s) ! k) = input_count (chunks s ! k)"
  "inputs (chunks (set_counter c x s) ! k) = inputs (chunks s ! k)"
  by (simp_all add: set_counter_def upd_chunk_def update_same_field)

lemma set_counter_remaining:
  "c < length (chunks s) \<Longrightarrow> remaining_workers (chunks (set_counter c x s) ! k) =
     (if k = c then x else remaining_workers (chunks s ! k))"
  by (simp add: set_counter_def upd_chunk_def nth_list_update)

lemma set_counter_shape: "shape_ok s \<Longrightarrow> c < 16 \<Longrightarrow> shape_ok (set_counter c x s)"
proof -
  assume s: "shape_ok s" and "c < 16"
  then have "chunk_wf (chunks s ! c)"
    by (simp add: shape_ok_def)
  then have "chunk_wf ((chunks s ! c)\<lparr>remaining_workers := x\<rparr>)"
    by (simp add: chunk_wf_def)
  then show ?thesis
    using s by (auto simp: shape_ok_def set_counter_def upd_chunk_def
        dest!: set_update_subset_insert [THEN subsetD])
qed

lemma set_counter_frame:
  "workers_ok u \<tau> pub (set_counter c x s) \<longleftrightarrow> workers_ok u \<tau> pub s"
  "contents_ok pub (set_counter c x s) \<longleftrightarrow> contents_ok pub s"
  "gens_ok pub (set_counter c x s) \<longleftrightarrow> gens_ok pub s"
  "results_ok u \<tau> pub (set_counter c x s) \<longleftrightarrow> results_ok u \<tau> pub s"
  "turns_ok pub (set_counter c x s) \<longleftrightarrow> turns_ok pub s"
  "cleared_ok \<tau> pub (set_counter c x s) \<longleftrightarrow> cleared_ok \<tau> pub s"
  "log_ok u pub log (set_counter c x s) \<longleftrightarrow> log_ok u pub log s"
  by (simp_all only: workers_ok_def contents_ok_def gens_ok_def results_ok_def turns_ok_def
      cleared_ok_def log_ok_def set_counter_simps set_counter_nth)

text \<open>
  One worker enters or leaves the set the counter of turn \<open>t\<close> stands for; the other turns'
  sets stay as they are.
\<close>

lemma counts_ok_change:
  assumes old: "counts_ok \<tau> pub s" and pc: "m_pc s' = m_pc s"
    and t: "latest (armed (m_pc s) (length pub)) t"
    and others: "\<And>t'. t' \<noteq> t \<Longrightarrow> counted \<tau>' (workers s') t' = counted \<tau> (workers s) t'"
    and c: "length (chunks s) = 16"
    and chunks: "chunks s' = chunks (set_counter (t mod 16) (of_nat (card (counted \<tau>' (workers s') t))) s)"
  shows "counts_ok \<tau>' pub s'"
  unfolding counts_ok_def
proof (intro conjI allI impI)
  fix t'
  assume t': "latest (armed (m_pc s') (length pub)) t'"
  show "remaining_workers (chunks s' ! (t' mod 16)) = of_nat (card (counted \<tau>' (workers s') t'))"
  proof (cases "t' = t")
    case True
    then show ?thesis
      using c by (simp add: chunks set_counter_remaining)
  next
    case False
    then have "t' mod 16 \<noteq> t mod 16"
      using t t' pc latest_same_chunk by metis
    then show ?thesis
      using c t' pc old others [OF False] by (simp add: chunks set_counter_remaining counts_ok_def)
  qed
next
  fix k :: nat
  assume k: "k < 16" "armed (m_pc s') (length pub) \<le> k"
  then have "t < 16" "t \<noteq> k"
    using t pc by (auto simp: latest_def)
  then show "remaining_workers (chunks s' ! k) = 0"
    using k c pc old by (simp add: chunks set_counter_remaining counts_ok_def)
qed

lemma finite_counted: "finite (counted \<tau> ws t)"
  by (rule finite_subset [OF counted_subset]) simp

lemma of_nat_card_remove:
  assumes "i \<in> A" and "finite A"
  shows "(of_nat (card A) :: u32) - 1 = of_nat (card (A - {i}))"
  using card_Suc_Diff1 [OF assms(2,1)] by (metis add_diff_cancel_left' of_nat_Suc)

lemma live_armed: "live p q t \<Longrightarrow> latest (armed p q) t"
  by (cases p) (auto simp: live_def latest_def armed_def)

text \<open>Being done, and being taken out, only ever spread.\<close>

lemma cleared_ok_mono:
  assumes old: "cleared_ok \<tau> pub s"
    and same: "turn s' = turn s" "m_pc s' = m_pc s" "length (workers s') = length (workers s)"
    and dn: "\<And>k t. done_with \<tau> (workers s) k t \<Longrightarrow> done_with \<tau>' (workers s') k t"
    and rp: "\<And>k. w_pc (workers s ! k) = WReaped \<Longrightarrow> w_pc (workers s' ! k) = WReaped \<and> \<tau>' k = \<tau> k"
  shows "cleared_ok \<tau>' pub s'"
  unfolding cleared_ok_def same
proof (intro conjI allI impI)
  fix t k
  assume "t < length pub" "t + 16 < turn s \<or> t + 16 = turn s \<and> \<not> waiting_pc (m_pc s)"
    "k < length (workers s)"
  then show "done_with \<tau>' (workers s') k t"
    using old unfolding cleared_ok_def by (blast intro: dn)
next
  fix k r i
  assume "m_pc s = MScan k r" "16 \<le> turn s" "\<not> r" "i < length (workers s)"
  then have "done_with \<tau> (workers s) i (turn s - 16) \<or>
      w_pc (workers s ! i) = WReaped \<and> \<tau> i = turn s - 16 \<and> k \<le> i"
    using old unfolding cleared_ok_def by blast
  then show "done_with \<tau>' (workers s') i (turn s - 16) \<or>
      w_pc (workers s' ! i) = WReaped \<and> \<tau>' i = turn s - 16 \<and> k \<le> i"
    using dn rp by fastforce
qed

text \<open>Signing off: \<open>mish_atomic_fetch_add(&remaining_workers, -1)\<close>.\<close>

lemma sign_off_step:
  assumes inv: "ring_inv u \<tau> es s" and i: "i < length (workers s)"
    and pc: "w_pc (workers s ! i) = WDec" and step: "worker_step u i s = Some s'"
  shows "ring_inv u \<tau> es s'"
proof -
  let ?t = "\<tau> i" and ?pub = "published es" and ?w = "workers s ! i"
  let ?ws = "(workers s)[i := ?w\<lparr>w_pc := WCheck\<rparr>]"
  note parts = ring_invD [OF inv] and w = worker_okD [OF ring_inv_worker [OF inv i]]
  have t: "?t < length ?pub"
    using w(9) pc by simp
  have live: "live (m_pc s) (length ?pub) ?t"
    using parts i t pc by (intro own_chunk_live) (auto simp: done_with_def)
  have c16: "length (chunks s) = 16"
    using parts(1) by (simp add: shape_ok_def)
  define x where "x = remaining_workers (chunks s ! (?t mod 16)) - 1"
  have s': "s' = set_counter (?t mod 16) x (s\<lparr>workers := ?ws\<rparr>)"
    using step pc w(3)
    by (auto simp: worker_step_def Let_def x_def set_counter_def upd_chunk_def upd_worker_def)
  have dn: "done_with \<tau> ?ws k t' \<longleftrightarrow> done_with \<tau> (workers s) k t' \<or> k = i \<and> t' = ?t" for k t'
    using i pc by (auto simp: done_with_def nth_list_update)
  have mem: "i \<in> counted \<tau> (workers s) ?t"
    using i pc by (simp add: counted_def done_with_def)
  have cnt: "counted \<tau> ?ws t' = counted \<tau> (workers s) t' - (if t' = ?t then {i} else {})" for t'
    using i pc by (auto simp: counted_def dn nth_list_update split: if_splits)
  have x: "x = of_nat (card (counted \<tau> ?ws ?t))"
    using parts(5) live_armed [OF live] of_nat_card_remove [OF mem finite_counted]
    by (simp add: x_def counts_ok_def cnt)
  have "counts_ok \<tau> ?pub s'"
    by (rule counts_ok_change [OF parts(5) _ live_armed [OF live] _ c16])
      (simp_all add: s' x cnt, simp add: set_counter_def upd_chunk_def)
  moreover have "results_ok u \<tau> ?pub (s\<lparr>workers := ?ws\<rparr>)"
    unfolding results_ok_def ring_frame_workers
  proof (intro allI impI)
    fix t' k
    assume t': "live (m_pc s) (length ?pub) t'" and k: "k < length ?ws" and d: "done_with \<tau> ?ws k t'"
    have same: "out_chunks (?ws ! k) = out_chunks (workers s ! k)"
      using i by (simp add: nth_list_update)
    show "decoded_upto u k (?pub ! t') (outputs (out_chunks (?ws ! k) ! (t' mod 16)))
        (length (?pub ! t'))"
    proof (cases "k = i \<and> t' = ?t")
      case True
      then show ?thesis
        using w(8) [OF t] pc same by simp
    next
      case False
      then show ?thesis
        using parts(6) t' k d same by (auto simp: results_ok_def dn)
    qed
  qed
  moreover have "workers_ok u \<tau> ?pub (s\<lparr>workers := ?ws\<rparr>)"
  proof -
    have "worker_ok u ?pub ?t i (?w\<lparr>w_pc := WCheck\<rparr>)"
      using ring_inv_worker [OF inv i] t pc by (auto simp: worker_ok_def)
    then show ?thesis
      using parts(2) i by (auto simp: workers_ok_def nth_list_update)
  qed
  moreover have "cleared_ok \<tau> ?pub (s\<lparr>workers := ?ws\<rparr>)"
    using parts(8) by (rule cleared_ok_mono) (use i pc in \<open>auto simp: dn ring_frame_workers nth_list_update\<close>)
  moreover have "shape_ok s'"
    unfolding s' using parts(1) by (intro set_counter_shape) (simp_all add: workers_frame)
  ultimately show ?thesis
    using parts by (simp only: ring_inv_def s' set_counter_frame workers_frame simp_thms)
qed

end
