(* ===== verification/Ring_Signal.thy ===== *)
theory Ring_Signal
  imports Ring_Workers
begin

text \<open>
  The steps of a worker after its sign-off, and the signal handler that takes a crashed worker
  out of its chunk, keep the invariant of the ring.
\<close>

section \<open>After signing off\<close>

text \<open>A step that only moves the worker's position, with nobody's sign-offs changed.\<close>

lemma quiet_step:
  assumes inv: "ring_inv u \<tau> es s" and i: "i < length (workers s)"
    and outs: "out_chunks w' = out_chunks (workers s ! i)"
    and ok: "worker_ok u (published es) (\<tau>' i) i w'" and others: "\<And>k. k \<noteq> i \<Longrightarrow> \<tau>' k = \<tau> k"
    and dn: "\<And>k t. done_with \<tau>' ((workers s)[i := w']) k t = done_with \<tau> (workers s) k t"
    and rp: "w_pc w' \<noteq> WReaped" "w_pc (workers s ! i) \<noteq> WReaped"
  shows "ring_inv u \<tau>' es (s\<lparr>workers := (workers s)[i := w']\<rparr>)"
proof -
  let ?ws = "(workers s)[i := w']" and ?pub = "published es"
  let ?s = "s\<lparr>workers := ?ws\<rparr>"
  note parts = ring_invD [OF inv]
  have reaped: "w_pc (?ws ! k) = WReaped \<and> \<tau>' k = t \<longleftrightarrow> w_pc (workers s ! k) = WReaped \<and> \<tau> k = t"
    for k t
    using i rp others by (cases "k = i") auto
  have cnt: "counted \<tau>' ?ws t = counted \<tau> (workers s) t" for t
    unfolding counted_def by (simp only: dn reaped length_list_update)
  have same: "out_chunks (?ws ! k) = out_chunks (workers s ! k)" for k
    using i outs by (cases "k = i") auto
  have "workers_ok u \<tau>' ?pub ?s"
    using parts(2) ok others i by (auto simp: workers_ok_def nth_list_update)
  moreover have "results_ok u \<tau>' ?pub ?s \<longleftrightarrow> results_ok u \<tau> ?pub s"
    "counts_ok \<tau>' ?pub ?s \<longleftrightarrow> counts_ok \<tau> ?pub s"
    by (simp_all only: results_ok_def counts_ok_def ring_frame_workers dn cnt same length_list_update)
  moreover have "cleared_ok \<tau>' ?pub ?s"
    using parts(8)
    by (rule cleared_ok_mono) (use reaped in \<open>auto simp: ring_frame_workers dn\<close>)
  ultimately show ?thesis
    using parts by (simp only: ring_inv_def workers_frame simp_thms)
qed

lemma check_step:
  assumes inv: "ring_inv u \<tau> es s" and i: "i < length (workers s)"
    and pc: "w_pc (workers s ! i) = WCheck" and step: "worker_step u i s = Some s'"
  shows "\<exists>\<tau>'. ring_inv u \<tau>' es s' \<and>
    (\<tau>' = \<tau> \<and> w_pc (workers s' ! i) = WExit \<or> \<tau>' = \<tau>(i := \<tau> i + 1) \<and> w_pc (workers s' ! i) = WWait)"
proof -
  let ?w = "workers s ! i" and ?c = "\<tau> i mod 16" and ?pub = "published es"
  note wok = ring_inv_worker [OF inv i]
  note w = worker_okD [OF wok]
  have t: "\<tau> i < length ?pub"
    using w(9) pc by simp
  have rem: "remaining (out_chunks ?w ! c) = 0" if "c < 16" for c
    using w(7,8) t pc that by (cases "c = ?c") (auto simp: unat_eq_zero)
  consider (quit) "s' = s\<lparr>workers := (workers s)[i := ?w\<lparr>w_pc := WExit\<rparr>]\<rparr>"
    | (adv) w' where "s' = s\<lparr>workers := (workers s)[i := w']\<rparr>"
      "w' = (if ?c + 1 = 16 then ?w\<lparr>w_idx := 0, w_gen := w_gen ?w + 1, w_pc := WWait\<rparr>
             else ?w\<lparr>w_idx := ?c + 1, w_pc := WWait\<rparr>)"
    using step pc w(3)
    by (auto simp: worker_step_def Let_def upd_worker_def const_simps split: if_splits)
  then show ?thesis
  proof cases
    case quit
    have "worker_ok u ?pub (\<tau> i) i (?w\<lparr>w_pc := WExit\<rparr>)"
      using wok t pc by (auto simp: worker_ok_def)
    then have "ring_inv u \<tau> es s'"
      unfolding quit using inv i pc
      by (intro quiet_step) (auto simp: done_with_def nth_list_update)
    then show ?thesis using i by (intro exI [of _ \<tau>]) (simp add: quit)
  next
    case adv
    define \<tau>' where "\<tau>' = \<tau>(i := \<tau> i + 1)"
    have pos: "w_idx w' = (\<tau> i + 1) mod 16" "w_gen w' = of_nat ((\<tau> i + 1) div 16 + 1)"
      using w(2) adv(2) mod_Suc [of "\<tau> i" 16] div_Suc [of "\<tau> i" 16] by (auto split: if_splits)
    have "worker_ok u ?pub (\<tau>' i) i w'"
      using wok t pc rem pos adv(2) by (auto simp: worker_ok_def \<tau>'_def)
    moreover have "done_with \<tau>' ((workers s)[i := w']) k t = done_with \<tau> (workers s) k t" for k t
      using i pc adv(2) by (auto simp: done_with_def \<tau>'_def nth_list_update)
    ultimately have "ring_inv u \<tau>' es s'"
      unfolding adv(1) using inv i pc adv(2)
      by (intro quiet_step) (auto simp: \<tau>'_def)
    then show ?thesis using i adv(2) by (intro exI [of _ \<tau>']) (simp add: adv(1) \<tau>'_def)
  qed
qed

section \<open>The signal handler\<close>

lemma crash_chunk_eq:
  assumes "c < 16" and "remaining (out_chunks w ! c) \<noteq> 0"
    and "\<And>k. k < 16 \<Longrightarrow> k \<noteq> c \<Longrightarrow> remaining (out_chunks w ! k) = 0"
  shows "crash_chunk w = Some c"
  unfolding crash_chunk_def find_Some_iff
  using assms by (intro exI [of _ c]) (auto simp: const_simps)

lemma signal_step:
  assumes inv: "ring_inv u \<tau> es s" and i: "i < length (workers s)"
    and step: "sigchld_handler i s = Some s'"
  shows "ring_inv u \<tau> es s'"
proof -
  let ?w = "workers s ! i" and ?t = "\<tau> i" and ?c = "\<tau> i mod 16" and ?pub = "published es"
  let ?oc = "out_chunks ?w ! ?c" and ?ic = "chunks s ! ?c"
  note parts = ring_invD [OF inv] and wok = ring_inv_worker [OF inv i]
  note w = worker_okD [OF wok]
  have pc: "w_pc ?w = WDead"
    using step by (auto simp: sigchld_handler_def Let_def split: if_splits)
  have t: "?t < length ?pub"
    using w(9) pc by simp
  define r where "r = unat (remaining ?oc)"
  have prog: "0 < r" "r \<le> length (?pub ! ?t)"
    "decoded_upto u i (?pub ! ?t) (outputs ?oc) (length (?pub ! ?t) - r)"
    and crashed: "\<exists>old. slot_kept u old \<and> su_decode u i (cleared_slot old) (?pub ! ?t ! (length (?pub ! ?t) - r)) =
      (False, outputs ?oc ! (length (?pub ! ?t) - r))"
    using w(8) [OF t] pc by (auto simp: r_def)
  have n: "unat (input_count ?ic) = length (?pub ! ?t)" "length (?pub ! ?t) \<le> 4096"
    using inv i t pc own_chunk_contents(1,3) by auto
  have cc: "crash_chunk ?w = Some ?c"
    using w(7) prog(1) by (intro crash_chunk_eq) (auto simp: r_def)
  define j where "j = length (?pub ! ?t) - r"
  have j: "unat (input_count ?ic - remaining ?oc) = j" "j < length (?pub ! ?t)"
    using unat_count_minus [of r "input_count ?ic"] prog n by (auto simp: r_def j_def)
  have marked: "mark_crash ?ic ?oc = put_output j ((outputs ?oc ! j)\<lparr>status := S_CRASH\<rparr>) ?oc"
    by (simp add: mark_crash_def Let_def j(1))
  define w' where "w' = ?w\<lparr>out_chunks := (out_chunks ?w)[?c := mark_crash ?ic ?oc], w_pc := WReaped,
    start_gen := ucast (generation ?ic), start_idx := ?c, sigchld := True\<rparr>"
  have pc': "w_pc w' = WReaped"
    by (simp add: w'_def)
  let ?ws = "(workers s)[i := w']"
  define x where "x = remaining_workers ?ic - 1"
  have s': "s' = set_counter ?c x (s\<lparr>workers := ?ws\<rparr>)"
    using step pc cc
    by (simp add: sigchld_handler_def Let_def x_def set_counter_def upd_chunk_def upd_worker_def
        upd_out_def w'_def)
  have notdone: "\<not> done_with \<tau> (workers s) i ?t"
    using pc by (simp add: done_with_def)
  have live: "live (m_pc s) (length ?pub) ?t"
    using parts i t notdone by (intro own_chunk_live) auto
  have dn: "done_with \<tau> ?ws k t' = done_with \<tau> (workers s) k t'" for k t'
    using i pc by (intro done_with_update) (auto simp: pc')
  have mem: "i \<in> counted \<tau> (workers s) ?t"
    using i pc notdone by (simp add: counted_def)
  have cnt: "counted \<tau> ?ws t' = counted \<tau> (workers s) t' - (if t' = ?t then {i} else {})" for t'
    using i pc by (auto simp: counted_def dn nth_list_update pc' split: if_splits)
  have c16: "length (chunks s) = 16"
    using parts(1) by (simp add: shape_ok_def)
  have x: "x = of_nat (card (counted \<tau> ?ws ?t))"
    using parts(5) live_armed [OF live] of_nat_card_remove [OF mem finite_counted]
    by (simp add: x_def counts_ok_def cnt)
  have "counts_ok \<tau> ?pub s'"
    by (rule counts_ok_change [OF parts(5) _ live_armed [OF live] _ c16])
      (simp_all add: s' x cnt, simp add: set_counter_def upd_chunk_def)
  moreover have "results_ok u \<tau> ?pub (s\<lparr>workers := ?ws\<rparr>)"
    using parts(6) i live notdone dn by (rule results_ok_update) (simp add: w'_def)
  moreover have "worker_ok u ?pub ?t i w'"
  proof -
    have "outs_kept u (outputs (mark_crash ?ic ?oc))"
      using w(6) [of ?c] j(2) n(2)
      by (simp add: marked put_output_def outs_kept_update slot_kept_status slot_kept_nth)
    moreover have "decoded u i (?pub ! ?t ! j) ((outputs ?oc ! j)\<lparr>status := S_CRASH\<rparr>)"
      using crashed unfolding decoded_def j_def by blast
    then have "decoded_upto u i (?pub ! ?t) (outputs (mark_crash ?ic ?oc)) (j + 1)"
      using prog(3) j(2) n(2) w(6) [of ?c]
      by (auto simp: marked put_output_def decoded_upto_Suc decoded_upto_update outs_kept_def j_def)
    moreover have "generation ?ic = w_gen ?w"
      using parts(4) gen_published [OF live_latest [OF live]] w(2) by (simp add: gens_ok_def)
    ultimately show ?thesis
      using wok t pc prog w(3) j
      by (auto simp: worker_ok_def w'_def marked put_output_def r_def j_def nth_list_update
          dest!: set_update_subset_insert [THEN subsetD])
  qed
  then have "workers_ok u \<tau> ?pub (s\<lparr>workers := ?ws\<rparr>)"
    using parts(2) i by (auto simp: workers_ok_def nth_list_update)
  moreover have "cleared_ok \<tau> ?pub (s\<lparr>workers := ?ws\<rparr>)"
    using parts(8)
    by (rule cleared_ok_mono)
      (use i pc in \<open>auto simp: dn ring_frame_workers nth_list_update pc'\<close>)
  moreover have "shape_ok s'"
    unfolding s' using parts(1) by (intro set_counter_shape) (simp_all add: workers_frame)
  ultimately show ?thesis
    using parts by (simp only: ring_inv_def s' set_counter_frame workers_frame simp_thms)
qed

end
