(* ===== verification/Ring_Main.thy ===== *)
theory Ring_Main
  imports Ring_Signal
begin

text \<open>
  The steps of the main loop keep the invariant of the ring: the wait and the scan that restarts
  crashed workers, the processing of a finished chunk, its refill and publication.
\<close>

section \<open>Moving the program counter\<close>

lemma ring_frame_pc:
  "chunks (s\<lparr>m_pc := p\<rparr>) = chunks s" "workers (s\<lparr>m_pc := p\<rparr>) = workers s"
  "m_pc (s\<lparr>m_pc := p\<rparr>) = p" "m_gen (s\<lparr>m_pc := p\<rparr>) = m_gen s"
  "m_idx (s\<lparr>m_pc := p\<rparr>) = m_idx s" "m_exit_idx (s\<lparr>m_pc := p\<rparr>) = m_exit_idx s"
  "m_env (s\<lparr>m_pc := p\<rparr>) = m_env s" "turn (s\<lparr>m_pc := p\<rparr>) = turn s"
  by (simp_all add: turn_def)

lemma live_mono: "live p q t \<Longrightarrow> (filling p' \<Longrightarrow> filling p) \<Longrightarrow> live p' q t"
  by (auto simp: live_def)

lemma pc_frame:
  assumes inv: "ring_inv u \<tau> es s" and p: "filling (m_pc s) \<Longrightarrow> filling p"
    and g: "m_pc s = MGeneration \<longleftrightarrow> p = MGeneration"
    and turns: "turns_ok (published es) (s\<lparr>m_pc := p\<rparr>)"
    and cleared: "cleared_ok \<tau> (published es) (s\<lparr>m_pc := p\<rparr>)"
    and log: "log_ok u (published es) (processed es) (s\<lparr>m_pc := p\<rparr>)"
  shows "ring_inv u \<tau> es (s\<lparr>m_pc := p\<rparr>)"
proof -
  let ?pub = "published es" and ?s = "s\<lparr>m_pc := p\<rparr>"
  note parts = ring_invD [OF inv]
  have "armed (m_pc s) q = armed p q" for q
    using g by (auto simp: armed_def)
  then have "counts_ok \<tau> ?pub ?s \<longleftrightarrow> counts_ok \<tau> ?pub s"
    by (simp add: counts_ok_def ring_frame_pc)
  moreover have "live (m_pc s) q t" if "live p q t" for q t
    using that p by (rule live_mono)
  then have "contents_ok ?pub ?s" "results_ok u \<tau> ?pub ?s"
    using parts(3,6) unfolding contents_ok_def results_ok_def ring_frame_pc by blast+
  moreover have "shape_ok ?s \<longleftrightarrow> shape_ok s" "workers_ok u \<tau> ?pub ?s \<longleftrightarrow> workers_ok u \<tau> ?pub s"
    "gens_ok ?pub ?s \<longleftrightarrow> gens_ok ?pub s"
    by (simp_all only: shape_ok_def workers_ok_def gens_ok_def ring_frame_pc)
  ultimately show ?thesis
    using parts turns cleared log by (simp only: ring_inv_def simp_thms)
qed

text \<open>A program counter outside the refill, on both sides.\<close>

lemma turns_ok_pc:
  "turns_ok pub s \<Longrightarrow> \<not> filling (m_pc s) \<Longrightarrow> \<not> filling p \<Longrightarrow> m_pc s \<noteq> MAdvance \<Longrightarrow> p \<noteq> MAdvance \<Longrightarrow>
   p \<noteq> MDone \<Longrightarrow> turns_ok pub (s\<lparr>m_pc := p\<rparr>)"
  unfolding turns_ok_def ring_frame_pc by (cases p) auto

section \<open>The wait and the scan\<close>

text \<open>
  When the counter of the current chunk is zero, every worker is done with the turn whose
  outputs are about to be processed, or has been taken out by the handler.
\<close>

lemma wait_done:
  assumes inv: "ring_inv u \<tau> es s" and pc: "m_pc s = MWait" and T: "16 \<le> turn s"
    and zero: "remaining_workers (chunks s ! m_idx s) = 0" and i: "i < length (workers s)"
  shows "done_with \<tau> (workers s) i (turn s - 16) \<or>
    w_pc (workers s ! i) = WReaped \<and> \<tau> i = turn s - 16"
proof -
  let ?t = "turn s - 16"
  note parts = ring_invD [OF inv]
  have "latest (length (published es)) ?t"
    using parts(7) pc T by (auto simp: turns_ok_def latest_def)
  then have "remaining_workers (chunks s ! (?t mod 16)) =
      of_nat (card (counted \<tau> (workers s) ?t))"
    using parts(5) pc by (simp add: counts_ok_def armed_def)
  moreover have "?t mod 16 = m_idx s"
    using parts(1) T turn_mod [of s] by (simp add: shape_ok_def mod_if [of "turn s"] le_mod_geq)
  ultimately have "of_nat (card (counted \<tau> (workers s) ?t)) = (0 :: u32)"
    using zero by simp
  moreover have "card (counted \<tau> (workers s) ?t) \<le> 31"
    using card_counted [of \<tau> "workers s" ?t] parts(2) by (simp add: workers_ok_def)
  ultimately have "counted \<tau> (workers s) ?t = {}"
    using finite_counted by (simp add: of_nat_u32_eq_0)
  then show ?thesis
    using i by (auto simp: counted_def)
qed

lemma main_wait_step:
  assumes inv: "ring_inv u \<tau> es s" and pc: "m_pc s = MWait"
    and zero: "remaining_workers (chunks s ! m_idx s) = 0"
  shows "ring_inv u \<tau> es (s\<lparr>m_pc := MScan 0 False\<rparr>)"
proof -
  note parts = ring_invD [OF inv]
  have "cleared_ok \<tau> (published es) (s\<lparr>m_pc := MScan 0 False\<rparr>)"
    using parts(8) pc wait_done [OF inv pc _ zero]
    by (auto simp: cleared_ok_def ring_frame_pc)
  moreover have "log_ok u (published es) (processed es) (s\<lparr>m_pc := MScan 0 False\<rparr>)"
    using parts(9) pc by (simp add: log_ok_def ring_frame_pc)
  ultimately show ?thesis
    using inv parts(7) pc by (intro pc_frame turns_ok_pc) auto
qed

lemma main_scan_skip:
  assumes inv: "ring_inv u \<tau> es s" and pc: "m_pc s = MScan k r" and k: "k < length (workers s)"
    and flag: "\<not> sigchld (workers s ! k)"
  shows "ring_inv u \<tau> es (s\<lparr>m_pc := MScan (k + 1) r\<rparr>)"
proof -
  note parts = ring_invD [OF inv]
  have "w_pc (workers s ! k) \<noteq> WReaped"
    using worker_okD(5) [OF ring_inv_worker [OF inv k]] flag by simp
  then have "cleared_ok \<tau> (published es) (s\<lparr>m_pc := MScan (k + 1) r\<rparr>)"
    using parts(8) pc unfolding cleared_ok_def ring_frame_pc
    by (auto simp: Suc_le_eq order_less_le)
  moreover have "log_ok u (published es) (processed es) (s\<lparr>m_pc := MScan (k + 1) r\<rparr>)"
    using parts(9) pc by (simp add: log_ok_def ring_frame_pc)
  ultimately show ?thesis
    using inv parts(7) pc by (intro pc_frame turns_ok_pc) auto
qed

lemma main_scan_again:
  assumes inv: "ring_inv u \<tau> es s" and pc: "m_pc s = MScan k r"
  shows "ring_inv u \<tau> es (s\<lparr>m_pc := MWait\<rparr>)"
proof -
  note parts = ring_invD [OF inv]
  have "cleared_ok \<tau> (published es) (s\<lparr>m_pc := MWait\<rparr>)"
    using parts(8) pc by (auto simp: cleared_ok_def ring_frame_pc)
  moreover have "log_ok u (published es) (processed es) (s\<lparr>m_pc := MWait\<rparr>)"
    using parts(9) pc by (simp add: log_ok_def ring_frame_pc)
  ultimately show ?thesis
    using inv parts(7) pc by (intro pc_frame turns_ok_pc) auto
qed

lemma main_scan_over:
  assumes inv: "ring_inv u \<tau> es s" and pc: "m_pc s = MScan k False" and k: "su_nworkers u \<le> k"
  shows "ring_inv u \<tau> es (s\<lparr>m_pc := MProcess 0\<rparr>)"
proof -
  note parts = ring_invD [OF inv]
  have N: "length (workers s) \<le> k"
    using parts(2) k by (simp add: workers_ok_def)
  have all: "done_with \<tau> (workers s) i (turn s - 16)" if "i < length (workers s)" "16 \<le> turn s" for i
    using parts(8) pc that N unfolding cleared_ok_def by force
  have "cleared_ok \<tau> (published es) (s\<lparr>m_pc := MProcess 0\<rparr>)"
    unfolding cleared_ok_def ring_frame_pc
  proof (intro conjI allI impI)
    fix t i
    assume "t < length (published es)" and i: "i < length (workers s)"
      and "t + 16 < turn s \<or> t + 16 = turn s \<and> \<not> waiting_pc (MProcess 0)"
    then consider "t + 16 < turn s" "t < length (published es)" | "t = turn s - 16" "16 \<le> turn s"
      by linarith
    then show "done_with \<tau> (workers s) i t"
      using parts(8) i all by cases (auto simp: cleared_ok_def)
  qed simp
  moreover have "log_ok u (published es) (processed es) (s\<lparr>m_pc := MProcess 0\<rparr>)"
    using parts(9) pc by (simp add: log_ok_def ring_frame_pc)
  ultimately show ?thesis
    using inv parts(7) pc by (intro pc_frame turns_ok_pc) auto
qed

lemma ucast_ucast_u32 [simp]: "ucast (ucast (x :: u32) :: u64) = x"
  by (rule bit_word_eqI) (simp add: bit_ucast_iff)

text \<open>
  Restarting a worker the handler took out: it is counted again, and goes back to its chunk.
\<close>

lemma main_restart_step:
  assumes inv: "ring_inv u \<tau> es s" and pc: "m_pc s = MScan k r" and k: "k < length (workers s)"
    and flag: "sigchld (workers s ! k)"
    and s': "s' = upd_worker k worker_start (upd_chunk (start_idx (workers s ! k))
      (\<lambda>ic. ic\<lparr>remaining_workers := remaining_workers ic + 1\<rparr>) (s\<lparr>m_pc := MScan (k + 1) True\<rparr>))"
  shows "ring_inv u \<tau> es s'"
proof -
  let ?w = "workers s ! k" and ?t = "\<tau> k" and ?c = "\<tau> k mod 16" and ?pub = "published es"
  define s1 where "s1 = s\<lparr>m_pc := MScan (k + 1) True\<rparr>"
  define w' where "w' = worker_start ?w"
  let ?ws = "(workers s)[k := w']"
  note parts = ring_invD [OF inv] and wok = ring_inv_worker [OF inv k]
  note w = worker_okD [OF wok]
  have reaped: "w_pc ?w = WReaped"
    using w(5) flag by simp
  have "start_gen ?w = ucast (w_gen ?w)" "start_idx ?w = ?c"
    using wok reaped by (simp_all add: worker_ok_def)
  then have pos: "start_idx ?w = ?c" "ucast (start_gen ?w) = w_gen ?w"
    by (simp_all only: ucast_ucast_u32)
  have t: "?t < length ?pub"
    using w(9) reaped by simp
  have inv1: "ring_inv u \<tau> es s1"
    unfolding s1_def
  proof (rule pc_frame [OF inv])
    show "turns_ok ?pub (s\<lparr>m_pc := MScan (k + 1) True\<rparr>)"
      using parts(7) pc by (intro turns_ok_pc) auto
    show "cleared_ok \<tau> ?pub (s\<lparr>m_pc := MScan (k + 1) True\<rparr>)"
      using parts(8) pc by (auto simp: cleared_ok_def ring_frame_pc)
    show "log_ok u ?pub (processed es) (s\<lparr>m_pc := MScan (k + 1) True\<rparr>)"
      using parts(9) pc by (simp add: log_ok_def ring_frame_pc)
  qed (use pc in auto)
  note parts1 = ring_invD [OF inv1]
  have s1: "workers s1 = workers s" "m_pc s1 = MScan (k + 1) True" "chunks s1 = chunks s"
    by (simp_all add: s1_def)
  have notdone: "\<not> done_with \<tau> (workers s1) k ?t"
    using reaped by (simp add: done_with_def s1)
  have live: "live (m_pc s1) (length ?pub) ?t"
    using parts1 k t notdone by (intro own_chunk_live) (auto simp: s1)
  have w': "w_pc w' = WWait" "out_chunks w' = out_chunks ?w"
    by (simp_all add: w'_def worker_start_def)
  have dn: "done_with \<tau> ?ws i t' = done_with \<tau> (workers s) i t'" for i t'
    using k reaped w' by (intro done_with_update) auto
  have cnt: "counted \<tau> ?ws t' = (if t' = ?t then insert k (counted \<tau> (workers s) t')
      else counted \<tau> (workers s) t')" for t'
    using k reaped notdone
    by (auto simp: counted_def dn nth_list_update w' s1)
  have new: "k \<notin> counted \<tau> (workers s) ?t"
    using reaped by (simp add: counted_def)
  define x where "x = remaining_workers (chunks s ! ?c) + 1"
  have eq: "s' = set_counter ?c x (s1\<lparr>workers := ?ws\<rparr>)"
    by (simp add: s' pos x_def s1_def set_counter_def upd_chunk_def upd_worker_def w'_def)
  have c16: "length (chunks s1) = 16"
    using parts(1) by (simp add: shape_ok_def s1)
  have x: "x = of_nat (card (counted \<tau> ?ws ?t))"
    using parts1(5) live_armed [OF live] new finite_counted [of \<tau> "workers s" ?t]
    by (simp add: x_def counts_ok_def cnt s1)
  have "counts_ok \<tau> ?pub s'"
    by (rule counts_ok_change [OF parts1(5) _ live_armed [OF live] _ c16])
      (simp_all add: eq x cnt s1, simp add: set_counter_def upd_chunk_def s1)
  moreover have "results_ok u \<tau> ?pub (s1\<lparr>workers := ?ws\<rparr>)"
    using parts1(6) k live notdone dn unfolding s1(1) [symmetric]
    by (intro results_ok_update) (auto simp: w' s1)
  moreover have "worker_ok u ?pub ?t k w'"
  proof -
    have "progress_ok u k (?pub ! ?t) (unat (remaining (out_chunks ?w ! ?c)))
        (outputs (out_chunks ?w ! ?c)) WWait"
      using w(8) [OF t] reaped by simp
    moreover have "w_gen w' = w_gen ?w" "w_idx w' = ?c" "\<not> sigchld w'"
      by (simp_all add: w'_def worker_start_def pos)
    moreover have "\<forall>oc \<in> set (out_chunks ?w). outs_kept u (outputs oc)"
      using wok by (simp add: worker_ok_def)
    ultimately show ?thesis
      using w(1,2,4,7) t w' by (simp add: worker_ok_def)
  qed
  then have "workers_ok u \<tau> ?pub (s1\<lparr>workers := ?ws\<rparr>)"
    using parts(2) k by (auto simp: workers_ok_def nth_list_update s1)
  moreover have "cleared_ok \<tau> ?pub (s1\<lparr>workers := ?ws\<rparr>)"
    using parts1(8) by (auto simp: cleared_ok_def ring_frame_workers dn s1)
  moreover have "shape_ok s'"
    unfolding eq using parts1(1) by (intro set_counter_shape) (simp_all add: workers_frame)
  ultimately show ?thesis
    using parts1 by (simp only: ring_inv_def eq set_counter_frame workers_frame simp_thms)
qed

section \<open>Processing\<close>

lemma process_turn:
  assumes inv: "ring_inv u \<tau> es s" and pc: "m_pc s = MProcess k" and T: "16 \<le> turn s"
  shows "live (m_pc s) (length (published es)) (turn s - 16)" "(turn s - 16) mod 16 = m_idx s"
    "turn s - 16 < length (published es)"
    "unat (input_count (chunks s ! m_idx s)) = length (published es ! (turn s - 16))"
    "j < length (published es ! (turn s - 16)) \<Longrightarrow>
       inputs (chunks s ! m_idx s) ! j = published es ! (turn s - 16) ! j"
    "i < length (workers s) \<Longrightarrow> done_with \<tau> (workers s) i (turn s - 16)"
proof -
  let ?t = "turn s - 16" and ?pub = "published es"
  note parts = ring_invD [OF inv]
  show live: "live (m_pc s) (length ?pub) ?t"
    using parts(7) pc T by (auto simp: turns_ok_def live_def latest_def)
  show idx: "?t mod 16 = m_idx s"
    using parts(1) T turn_mod [of s] by (simp add: shape_ok_def le_mod_geq)
  show lt: "?t < length ?pub"
    using live by (simp add: live_def latest_def)
  have *: "unat (input_count (chunks s ! m_idx s)) = length (?pub ! ?t)"
    "take (length (?pub ! ?t)) (inputs (chunks s ! m_idx s)) = ?pub ! ?t"
    using parts(3) live idx by (auto simp: contents_ok_def)
  show "unat (input_count (chunks s ! m_idx s)) = length (?pub ! ?t)"
    by (rule *)
  show "inputs (chunks s ! m_idx s) ! j = ?pub ! ?t ! j" if "j < length (?pub ! ?t)"
    using *(2) that by (metis nth_take)
  show "done_with \<tau> (workers s) i ?t" if "i < length (workers s)"
    using parts(8) lt T pc that by (simp add: cleared_ok_def)
qed

lemma gen_turn: "shape_ok s \<Longrightarrow> m_gen s > 1 \<longleftrightarrow> 16 \<le> turn s"
  unfolding shape_ok_def turn_def by (cases "m_gen s") auto

lemma main_process_step:
  assumes inv: "ring_inv u \<tau> es s" and pc: "m_pc s = MProcess k"
    and gen: "m_gen s > 1" and k: "k < unat (input_count (chunks s ! m_idx s))"
  shows "ring_inv u \<tau> (es @ [Processed (inputs (chunks s ! m_idx s) ! k)
      (map (\<lambda>w. outputs (out_chunks w ! m_idx s) ! k) (workers s))]) (s\<lparr>m_pc := MProcess (k + 1)\<rparr>)"
    (is "ring_inv u \<tau> (es @ [?e]) ?s")
proof -
  let ?t = "turn s - 16" and ?pub = "published es"
  let ?outs = "map (\<lambda>w. outputs (out_chunks w ! m_idx s) ! k) (workers s)"
  note parts = ring_invD [OF inv]
  have T: "16 \<le> turn s"
    using gen gen_turn [OF parts(1)] by simp
  note p = process_turn [OF inv pc T]
  have n: "k < length (?pub ! ?t)"
    using k p(4) by simp
  have N: "length (workers s) = su_nworkers u"
    using parts(2) by (simp add: workers_ok_def)
  have "decoded u i (?pub ! ?t ! k) (?outs ! i)" if "i < su_nworkers u" for i
  proof -
    have "decoded_upto u i (?pub ! ?t) (outputs (out_chunks (workers s ! i) ! m_idx s))
        (length (?pub ! ?t))"
      using parts(6) p(1,2,6) that N unfolding results_ok_def by metis
    then show ?thesis
      using n that N by (simp add: decoded_upto_def)
  qed
  then have log: "log_ok u ?pub (processed es @ [(?pub ! ?t ! k, ?outs)]) ?s"
    using parts(9) pc T n N p(5) by (auto simp: log_ok_def ring_frame_pc take_Suc_conv_app_nth)
  have cl: "cleared_ok \<tau> ?pub ?s"
    using parts(8) pc by (auto simp: cleared_ok_def ring_frame_pc)
  have tu: "turns_ok ?pub ?s"
    using parts(7) pc by (intro turns_ok_pc) auto
  have "shape_ok ?s \<longleftrightarrow> shape_ok s" "workers_ok u \<tau> ?pub ?s \<longleftrightarrow> workers_ok u \<tau> ?pub s"
    "gens_ok ?pub ?s \<longleftrightarrow> gens_ok ?pub s" "contents_ok ?pub ?s \<longleftrightarrow> contents_ok ?pub s"
    "counts_ok \<tau> ?pub ?s \<longleftrightarrow> counts_ok \<tau> ?pub s" "results_ok u \<tau> ?pub ?s \<longleftrightarrow> results_ok u \<tau> ?pub s"
    using pc by (simp_all only: shape_ok_def workers_ok_def gens_ok_def contents_ok_def counts_ok_def
        results_ok_def ring_frame_pc live_def armed_def filling.simps main_pc.distinct if_False)
  then show ?thesis
    using parts log cl tu p(5) [OF n]
    by (simp only: ring_inv_def published_append processed_append published.simps processed.simps
        event.case append_Nil2 simp_thms)
qed

lemma main_process_over:
  assumes inv: "ring_inv u \<tau> es s" and pc: "m_pc s = MProcess k"
    and over: "\<not> (m_gen s > 1 \<and> k < unat (input_count (chunks s ! m_idx s)))"
    and p: "p = (if m_idx s = m_exit_idx s then MDone
      else if m_exit_idx s = 16 then MFill else MAdvance)"
  shows "ring_inv u \<tau> es (s\<lparr>m_pc := p\<rparr>)"
proof -
  note parts = ring_invD [OF inv]
  have idx: "m_idx s < 16" "turn s mod 16 = m_idx s"
    using parts(1) turn_mod by (auto simp: shape_ok_def)
  have pub: "length (published es) \<le> turn s" "turn s \<le> length (published es) + 15"
    "m_exit_idx s = 16 \<Longrightarrow> turn s = length (published es)"
    "m_exit_idx s \<noteq> 16 \<Longrightarrow> 0 < length (published es)"
    "m_exit_idx s \<noteq> 16 \<Longrightarrow> (length (published es) - 1) mod 16 = m_exit_idx s"
    "\<forall>x \<in> set (published es). length x \<le> 4096"
    using parts(7) pc by (auto simp: turns_ok_def split: if_splits)
  have last: "turn s = length (published es) + 15 \<longleftrightarrow> m_idx s = m_exit_idx s" if "m_exit_idx s \<noteq> 16"
  proof
    assume *: "turn s = length (published es) + 15"
    then have "turn s = (length (published es) - 1) + 16"
      using pub(4) that by simp
    then show "m_idx s = m_exit_idx s"
      using idx(2) pub(5) [OF that] by simp
  next
    assume "m_idx s = m_exit_idx s"
    moreover obtain a r where a: "turn s = 16 * a + r" "turn s mod 16 = r"
      by (rule turn_split)
    moreover obtain b r' where b: "length (published es) - 1 = 16 * b + r'" "r' < 16"
      "(length (published es) - 1) mod 16 = r'"
      by (rule turn_split)
    ultimately have "r = r'"
      using idx(2) pub(5) [OF that] by simp
    then have "16 * b < 16 * a" "16 * a < 16 * b + 32"
      using a b pub(1,2,4) that by linarith+
    then have "a = b + 1"
      by simp
    then show "turn s = length (published es) + 15"
      using a(1) b(1) \<open>r = r'\<close> pub(4) that by linarith
  qed
  have "turns_ok (published es) (s\<lparr>m_pc := p\<rparr>)"
    unfolding turns_ok_def ring_frame_pc p
    using pub last idx(1) by (auto split: if_splits simp: le_Suc_eq)
  moreover have "cleared_ok \<tau> (published es) (s\<lparr>m_pc := p\<rparr>)"
    using parts(8) pc by (auto simp: cleared_ok_def ring_frame_pc p)
  moreover have "log_ok u (published es) (processed es) (s\<lparr>m_pc := p\<rparr>)"
  proof -
    have "take k (published es ! (turn s - 16)) = published es ! (turn s - 16)" if "16 \<le> turn s"
      using process_turn(4) [OF inv pc that] over gen_turn [OF parts(1)] that by simp
    then show ?thesis
      using parts(9) pc by (auto simp: log_ok_def ring_frame_pc p)
  qed
  ultimately show ?thesis
    using inv pc by (intro pc_frame) (auto simp: p)
qed

section \<open>The refill\<close>

text \<open>While a chunk is being refilled, no turn that still counts uses it.\<close>

lemma fill_frame:
  assumes inv: "ring_inv u \<tau> es s" and pc: "filling (m_pc s)" "filling (m_pc s')"
    and chunks: "chunks s' = (chunks s)[m_idx s := ic']" "chunk_wf ic'"
      "generation ic' = generation (chunks s ! m_idx s)"
    and same: "workers s' = workers s" "m_gen s' = m_gen s" "m_idx s' = m_idx s"
      "m_exit_idx s' \<le> 16" "mutator_inv (m_env s')"
    and turns: "turns_ok (published es) s'" and counts: "counts_ok \<tau> (published es) s'"
  shows "ring_inv u \<tau> es s'"
proof -
  let ?pub = "published es"
  note parts = ring_invD [OF inv]
  have turn: "turn s' = turn s"
    by (simp add: turn_def same)
  have idx: "m_idx s < 16" "turn s mod 16 = m_idx s" "length (chunks s) = 16"
    using parts(1) turn_mod by (auto simp: shape_ok_def)
  have live: "live (m_pc s') q t = live (m_pc s) q t" for q t
    using pc by (simp add: live_def)
  have T: "length ?pub = turn s"
    using parts(7) pc by (simp add: turns_ok_def)
  have other: "chunks s' ! (t mod 16) = chunks s ! (t mod 16)" if "live (m_pc s) (length ?pub) t" for t
  proof -
    have "t < turn s" "turn s < t + 16"
      using that pc T by (auto simp: live_def latest_def)
    then have "latest (turn s + 1) t" "latest (turn s + 1) (turn s)"
      by (auto simp: latest_def)
    then have "t mod 16 \<noteq> m_idx s"
      using latest_same_chunk [of "turn s + 1" t "turn s"] idx(2) \<open>t < turn s\<close> by auto
    then show ?thesis
      by (simp add: chunks)
  qed
  have "contents_ok ?pub s'"
    using parts(3) other by (simp add: contents_ok_def live)
  moreover have "gens_ok ?pub s'"
    using parts(4) chunks(3) by (auto simp: gens_ok_def chunks(1) nth_list_update idx)
  moreover have "shape_ok s'"
    using parts(1) chunks(2) same
    by (auto simp: shape_ok_def chunks(1) dest!: set_update_subset_insert [THEN subsetD])
  moreover have "workers_ok u \<tau> ?pub s'" "results_ok u \<tau> ?pub s'"
    using parts(2,6) by (simp_all add: workers_ok_def results_ok_def same live)
  moreover have "cleared_ok \<tau> ?pub s'"
    using parts(8) pc by (cases "m_pc s"; cases "m_pc s'") (auto simp: cleared_ok_def turn same)
  moreover have "log_ok u ?pub (processed es) s'"
    using parts(9) pc by (cases "m_pc s"; cases "m_pc s'") (auto simp: log_ok_def turn same)
  ultimately show ?thesis
    using turns counts by (simp add: ring_inv_def)
qed

lemma counts_ok_frame:
  assumes "counts_ok \<tau> pub s" and "workers s' = workers s"
    and "armed (m_pc s') (length pub) = armed (m_pc s) (length pub)"
    and "\<And>c. remaining_workers (chunks s' ! c) = remaining_workers (chunks s ! c)"
  shows "counts_ok \<tau> pub s'"
  using assms by (simp add: counts_ok_def)

lemma turn_upd_chunk [simp]: "turn (upd_chunk c f s) = turn s"
  by (simp add: turn_def upd_chunk_def)

lemma main_fill_step:
  assumes inv: "ring_inv u \<tau> es s" and pc: "m_pc s = MFill"
    and fill: "fill_slots (run_mutator (su_mutator u)) (m_env s) (inputs (chunks s ! m_idx s)) 0 =
      Some (slots, count, ended, e)"
    and s': "s' = upd_chunk (m_idx s) (\<lambda>ic. ic\<lparr>inputs := slots\<rparr>)
      (s\<lparr>m_env := e, m_exit_idx := if ended then m_idx s else m_exit_idx s, m_pc := MCount count\<rparr>)"
  shows "ring_inv u \<tau> es s'"
proof -
  let ?ic = "chunks s ! m_idx s"
  note parts = ring_invD [OF inv]
  have idx: "m_idx s < 16" "length (chunks s) = 16" "chunk_wf ?ic" "mutator_inv (m_env s)"
    using parts(1) by (auto simp: shape_ok_def)
  obtain m where m: "mutator_inv e" "length slots = length (inputs ?ic)"
      "\<forall>s \<in> set slots. input_slot_wf s" "count = m" "m \<le> length (inputs ?ic)"
    using chosen_mut.fill_slots_total [OF idx(4), of "inputs ?ic" "su_mutator u" 0] idx(3) fill
    by (auto simp: chunk_wf_def split: if_splits)
  have s'_simps: "chunks s' = (chunks s)[m_idx s := ?ic\<lparr>inputs := slots\<rparr>]" "m_pc s' = MCount count"
      "workers s' = workers s" "m_gen s' = m_gen s" "m_idx s' = m_idx s" "m_env s' = e"
      "m_exit_idx s' = (if ended then m_idx s else m_exit_idx s)" "turn s' = turn s"
    by (simp_all add: s' upd_chunk_def turn_def)
  show ?thesis
  proof (rule fill_frame [OF inv])
    show "chunk_wf (?ic\<lparr>inputs := slots\<rparr>)"
      using m idx(3) by (simp add: chunk_wf_def)
    show "turns_ok (published es) s'"
      using parts(7) pc m idx(1,3) by (auto simp: turns_ok_def s'_simps chunk_wf_def const_simps)
    show "counts_ok \<tau> (published es) s'"
      by (rule counts_ok_frame [OF parts(5)])
        (use idx in \<open>auto simp: s'_simps pc armed_def nth_list_update
          update_same_field [of remaining_workers "\<lambda>ic. ic\<lparr>inputs := slots\<rparr>"]\<close>)
  qed (use idx m parts(1) pc in \<open>auto simp: s'_simps shape_ok_def\<close>)
qed

lemma main_count_step:
  assumes inv: "ring_inv u \<tau> es s" and pc: "m_pc s = MCount n"
    and s': "s' = upd_chunk (m_idx s) (\<lambda>ic. ic\<lparr>input_count := of_nat n\<rparr>) (s\<lparr>m_pc := MWorkers\<rparr>)"
  shows "ring_inv u \<tau> es s'"
proof -
  let ?ic = "chunks s ! m_idx s"
  note parts = ring_invD [OF inv]
  have idx: "m_idx s < 16" "length (chunks s) = 16" "chunk_wf ?ic"
    using parts(1) by (auto simp: shape_ok_def)
  have n: "n \<le> 4096" "unat (of_nat n :: u32) = n"
    using parts(7) pc by (auto simp: turns_ok_def unat_of_nat)
  have s'_simps: "chunks s' = (chunks s)[m_idx s := ?ic\<lparr>input_count := of_nat n\<rparr>]"
      "m_pc s' = MWorkers" "workers s' = workers s" "m_gen s' = m_gen s" "m_idx s' = m_idx s"
      "m_env s' = m_env s" "m_exit_idx s' = m_exit_idx s" "turn s' = turn s"
    by (simp_all add: s' upd_chunk_def turn_def)
  show ?thesis
  proof (rule fill_frame [OF inv])
    show "chunk_wf (?ic\<lparr>input_count := of_nat n\<rparr>)"
      using idx(3) by (simp add: chunk_wf_def)
    show "turns_ok (published es) s'"
      using parts(7) pc n idx by (auto simp: turns_ok_def s'_simps)
    show "counts_ok \<tau> (published es) s'"
      by (rule counts_ok_frame [OF parts(5)])
        (use idx in \<open>auto simp: s'_simps pc armed_def
          update_same_field [of remaining_workers "\<lambda>ic. ic\<lparr>input_count := of_nat n\<rparr>"]\<close>)
  qed (use idx parts(1) pc in \<open>auto simp: s'_simps shape_ok_def\<close>)
qed

section \<open>Publishing\<close>

text \<open>At a turn that is not yet published, no worker has signed off or crashed.\<close>

lemma counted_unpublished:
  assumes inv: "ring_inv u \<tau> es s"
  shows "counted \<tau> (workers s) (length (published es)) = {..<length (workers s)}"
proof -
  have "\<not> done_with \<tau> (workers s) i (length (published es)) \<and>
      \<not> (w_pc (workers s ! i) = WReaped \<and> \<tau> i = length (published es))"
    if "i < length (workers s)" for i
  proof -
    note w = worker_okD [OF ring_inv_worker [OF inv that]]
    show ?thesis
      using w(4,9) by (cases "w_pc (workers s ! i) = WWait") (auto simp: done_with_def)
  qed
  then show ?thesis
    by (auto simp: counted_def)
qed

lemma main_workers_step:
  assumes inv: "ring_inv u \<tau> es s" and pc: "m_pc s = MWorkers"
    and s': "s' = upd_chunk (m_idx s) (\<lambda>ic. ic\<lparr>remaining_workers := of_nat (su_nworkers u)\<rparr>)
      (s\<lparr>m_pc := MGeneration\<rparr>)"
  shows "ring_inv u \<tau> es s'"
proof -
  let ?ic = "chunks s ! m_idx s" and ?N = "of_nat (su_nworkers u) :: u32" and ?P = "length (published es)"
  note parts = ring_invD [OF inv]
  have idx: "m_idx s < 16" "length (chunks s) = 16" "chunk_wf ?ic" "turn s mod 16 = m_idx s"
    using parts(1) turn_mod by (auto simp: shape_ok_def)
  have T: "?P = turn s"
    using parts(7) pc by (simp add: turns_ok_def)
  have s'_simps: "chunks s' = (chunks s)[m_idx s := ?ic\<lparr>remaining_workers := ?N\<rparr>]"
      "m_pc s' = MGeneration" "workers s' = workers s" "m_gen s' = m_gen s" "m_idx s' = m_idx s"
      "m_env s' = m_env s" "m_exit_idx s' = m_exit_idx s" "turn s' = turn s"
    by (simp_all add: s' upd_chunk_def turn_def)
  have counts: "counts_ok \<tau> (published es) s'"
    unfolding counts_ok_def
  proof (intro conjI allI impI)
    fix t
    assume "latest (armed (m_pc s') ?P) t"
    then have t: "latest (?P + 1) t"
      by (simp add: s'_simps armed_def)
    show "remaining_workers (chunks s' ! (t mod 16)) = of_nat (card (counted \<tau> (workers s') t))"
    proof (cases "t = ?P")
      case True
      then show ?thesis
        using counted_unpublished [OF inv] parts(2) idx T by (simp add: s'_simps workers_ok_def)
    next
      case False
      moreover have "latest (?P + 1) ?P"
        by (simp add: latest_def)
      ultimately have "t mod 16 \<noteq> m_idx s"
        using t latest_same_chunk idx(4) T by metis
      moreover have "latest (armed (m_pc s) ?P) t"
        using t False pc by (auto simp: latest_def armed_def)
      ultimately show ?thesis
        using parts(5) by (simp add: counts_ok_def s'_simps)
    qed
  next
    fix c :: nat
    assume "c < 16" "armed (m_pc s') ?P \<le> c"
    then have "m_idx s \<noteq> c" "armed (m_pc s) ?P \<le> c" "c < 16"
      using idx(4) T pc by (auto simp: s'_simps armed_def)
    then show "remaining_workers (chunks s' ! c) = 0"
      using parts(5) by (simp add: counts_ok_def s'_simps)
  qed
  show ?thesis
  proof (rule fill_frame [OF inv])
    show "chunk_wf (?ic\<lparr>remaining_workers := ?N\<rparr>)"
      using idx(3) by (simp add: chunk_wf_def)
    show "turns_ok (published es) s'"
      using parts(7) pc idx by (auto simp: turns_ok_def s'_simps)
  qed (use idx parts(1) pc counts in \<open>auto simp: s'_simps shape_ok_def\<close>)
qed

text \<open>The invariant of a worker does not mind a further chunk being published.\<close>

lemma worker_ok_publish:
  assumes "worker_ok u pub t i w"
  shows "worker_ok u (pub @ [b]) t i w"
  using assms by (auto simp: worker_ok_def nth_append split: if_splits)

lemma done_publish:
  assumes "ring_inv u \<tau> es s" and "i < length (workers s)" and "done_with \<tau> (workers s) i t"
  shows "t < length (published es)"
  using worker_okD(4,9) [OF ring_inv_worker [OF assms(1,2)]] assms(3)
  by (cases "w_pc (workers s ! i) = WWait") (auto simp: done_with_def)

lemma main_publish_step:
  assumes inv: "ring_inv u \<tau> es s" and pc: "m_pc s = MGeneration"
    and s': "s' = upd_chunk (m_idx s) (\<lambda>ic. ic\<lparr>generation := of_nat (m_gen s)\<rparr>) (s\<lparr>m_pc := MAdvance\<rparr>)"
    and b: "b = take (unat (input_count (chunks s ! m_idx s))) (inputs (chunks s ! m_idx s))"
  shows "ring_inv u \<tau> (es @ [Published b]) s'"
proof -
  let ?ic = "chunks s ! m_idx s" and ?pub = "published es" and ?pub' = "published es @ [b]"
  let ?P = "length (published es)"
  note parts = ring_invD [OF inv]
  have idx: "m_idx s < 16" "length (chunks s) = 16" "chunk_wf ?ic" "turn s mod 16 = m_idx s"
      "turn s div 16 = m_gen s - 1" "1 \<le> m_gen s"
    using parts(1) turn_mod turn_div by (auto simp: shape_ok_def)
  have T: "?P = turn s" and n: "unat (input_count ?ic) \<le> 4096"
    and exit: "m_exit_idx s \<in> {16, m_idx s}"
    using parts(7) pc by (simp_all add: turns_ok_def)
  have len: "length b = unat (input_count ?ic)"
    using idx(3) n by (simp add: b chunk_wf_def const_simps)
  have s'_simps: "chunks s' = (chunks s)[m_idx s := ?ic\<lparr>generation := of_nat (m_gen s)\<rparr>]"
      "m_pc s' = MAdvance" "workers s' = workers s" "m_gen s' = m_gen s" "m_idx s' = m_idx s"
      "m_env s' = m_env s" "m_exit_idx s' = m_exit_idx s" "turn s' = turn s"
    by (simp_all add: s' upd_chunk_def turn_def)
  have fields: "input_count (chunks s' ! k) = input_count (chunks s ! k)"
      "inputs (chunks s' ! k) = inputs (chunks s ! k)"
      "remaining_workers (chunks s' ! k) = remaining_workers (chunks s ! k)" for k
    by (simp_all add: s'_simps update_same_field)
  have live: "live (m_pc s) ?P t \<or> t = ?P" if "live (m_pc s') (?P + 1) t" for t
    using that pc by (auto simp: live_def latest_def s'_simps)
  have live_lt: "t < ?P" if "live (m_pc s) ?P t" for t
    using that by (simp add: live_def latest_def)
  have "contents_ok ?pub' s'"
    unfolding contents_ok_def
  proof (intro allI impI)
    fix t
    assume "live (m_pc s') (length ?pub') t"
    then have "live (m_pc s) ?P t \<or> t = ?P"
      using live by simp
    then show "unat (input_count (chunks s' ! (t mod 16))) = length (?pub' ! t) \<and>
        take (length (?pub' ! t)) (inputs (chunks s' ! (t mod 16))) = ?pub' ! t"
      using parts(3) live_lt [of t] len idx(4) T
      by (auto simp: contents_ok_def fields nth_append) (simp add: b)
  qed
  moreover have "gens_ok ?pub' s'"
    unfolding gens_ok_def
  proof (intro allI impI)
    fix c :: nat
    assume c: "c < 16"
    show "generation (chunks s' ! c) = of_nat ((length ?pub' + 15 - c) div 16)"
    proof (cases "c = m_idx s")
      case True
      have "(?P + 1 + 15 - ?P mod 16) div 16 = ?P div 16 + 1"
        using gen_published [of "?P + 1" ?P] by (simp add: latest_def)
      then show ?thesis
        using True idx T by (simp add: s'_simps)
    next
      case False
      then show ?thesis
        using parts(4) gen_other [OF c, of ?P] c idx(4) T by (simp add: gens_ok_def s'_simps)
    qed
  qed
  moreover have "counts_ok \<tau> ?pub' s'"
    using parts(5) pc by (simp add: counts_ok_def s'_simps(2,3) armed_def fields)
  moreover have "results_ok u \<tau> ?pub' s'"
    unfolding results_ok_def
  proof (intro allI impI)
    fix t i
    assume "live (m_pc s') (length ?pub') t" and i: "i < length (workers s')"
      and d: "done_with \<tau> (workers s') i t"
    then have l: "live (m_pc s) ?P t"
      using live done_publish [OF inv, of i t] by (auto simp: s'_simps)
    then show "decoded_upto u i (?pub' ! t) (outputs (out_chunks (workers s' ! i) ! (t mod 16)))
        (length (?pub' ! t))"
      using parts(6) live_lt [OF l] i d by (simp add: results_ok_def s'_simps nth_append)
  qed
  moreover have "workers_ok u \<tau> ?pub' s'"
    using parts(2) worker_ok_publish by (auto simp: workers_ok_def s'_simps)
  moreover have "shape_ok s'"
    using parts(1) idx(3)
    by (auto simp: shape_ok_def s'_simps chunk_wf_def dest!: set_update_subset_insert [THEN subsetD])
  moreover have "turns_ok ?pub' s'"
    using parts(7) T exit idx(4) len n by (auto simp: turns_ok_def s'_simps)
  moreover have "cleared_ok \<tau> ?pub' s'"
    using parts(8) pc T by (auto simp: cleared_ok_def s'_simps less_Suc_eq)
  moreover have "log_ok u ?pub' (processed es) s'"
    using parts(9) pc T by (auto simp: log_ok_def s'_simps nth_append)
  ultimately show ?thesis
    by (simp add: ring_inv_def)
qed

lemma main_advance_step:
  assumes inv: "ring_inv u \<tau> es s" and pc: "m_pc s = MAdvance"
    and s': "s' = (if m_idx s + 1 = 16 then s\<lparr>m_idx := 0, m_gen := m_gen s + 1, m_pc := MWait\<rparr>
      else s\<lparr>m_idx := m_idx s + 1, m_pc := MWait\<rparr>)"
  shows "ring_inv u \<tau> es s'"
proof -
  let ?pub = "published es"
  note parts = ring_invD [OF inv]
  have s'_simps: "chunks s' = chunks s" "m_pc s' = MWait" "workers s' = workers s"
      "m_exit_idx s' = m_exit_idx s" "m_env s' = m_env s"
    by (simp_all add: s')
  have turn: "turn s' = turn s + 1" and shape: "shape_ok s'"
    using parts(1) by (auto simp: s' turn_def shape_ok_def)
  have live: "live MWait q t = live (m_pc s) q t" for q t
    by (simp add: live_def pc)
  have bounds: "turn s \<le> length ?pub + 14"
    using parts(7) pc by (simp add: turns_ok_def)
  have "contents_ok ?pub s' \<longleftrightarrow> contents_ok ?pub s" "gens_ok ?pub s' \<longleftrightarrow> gens_ok ?pub s"
    "results_ok u \<tau> ?pub s' \<longleftrightarrow> results_ok u \<tau> ?pub s" "workers_ok u \<tau> ?pub s' \<longleftrightarrow> workers_ok u \<tau> ?pub s"
    by (simp_all only: contents_ok_def gens_ok_def results_ok_def workers_ok_def s'_simps live)
  moreover have "counts_ok \<tau> ?pub s' \<longleftrightarrow> counts_ok \<tau> ?pub s"
    by (simp add: counts_ok_def s'_simps armed_def pc)
  moreover have "turns_ok ?pub s'"
    using parts(7) pc by (auto simp: turns_ok_def s'_simps turn)
  moreover have "cleared_ok \<tau> ?pub s'"
    using parts(8) pc by (auto simp: cleared_ok_def s'_simps turn less_Suc_eq)
  moreover have "log_ok u ?pub (processed es) s'"
  proof -
    have "turn s + 1 - 16 = Suc (turn s - 16)" if "16 \<le> turn s"
      using that by simp
    then show ?thesis
      using parts(9) pc bounds
      by (auto simp: log_ok_def s'_simps turn take_Suc_conv_app_nth)
  qed
  ultimately show ?thesis
    using parts shape by (simp only: ring_inv_def simp_thms)
qed

end
