(* ===== verification/Ring_Run.thy ===== *)
theory Ring_Run
  imports Ring_Main
begin

text \<open>
  Every step of the ring keeps its invariant, so the invariant holds in every run from the state
  \<open>main\<close> sets up: the ring is an instance of \<open>traced_system\<close>. A second, smaller invariant says
  when workers leave, and progress follows: as long as inputs keep coming, some process can
  always move.
\<close>

section \<open>All steps\<close>

lemma main_step_inv:
  assumes inv: "ring_inv u \<tau> es s" and step: "main_step u s = Some (s', es')"
  shows "ring_inv u \<tau> (es @ es') s'"
proof -
  have N: "length (workers s) = su_nworkers u"
    using inv by (simp add: ring_inv_def workers_ok_def)
  show ?thesis
  proof (cases "m_pc s")
    case MWait
    then show ?thesis
      using step main_wait_step [OF inv MWait] by (auto simp: main_step_def Let_def split: if_splits)
  next
    case (MScan i r)
    consider (restart) "i < su_nworkers u" "sigchld (workers s ! i)"
      | (skip) "i < su_nworkers u" "\<not> sigchld (workers s ! i)" | (over) "su_nworkers u \<le> i"
      by linarith
    then show ?thesis
    proof cases
      case restart
      then show ?thesis
        using step MScan main_restart_step [OF inv MScan, of s'] N
        by (auto simp: main_step_def Let_def)
    next
      case skip
      then show ?thesis
        using step MScan main_scan_skip [OF inv MScan] N by (auto simp: main_step_def Let_def)
    next
      case over
      then show ?thesis
        using step MScan main_scan_again [OF inv MScan] main_scan_over [OF inv, of i]
        by (cases r) (auto simp: main_step_def Let_def)
    qed
  next
    case (MProcess i)
    then show ?thesis
      using step main_process_step [OF inv MProcess] main_process_over [OF inv MProcess _ refl]
      by (auto simp: main_step_def Let_def const_simps split: if_splits)
  next
    case MFill
    then show ?thesis
      using step main_fill_step [OF inv MFill]
      by (auto simp: main_step_def Let_def split: Option.bind_splits)
  next
    case (MCount n)
    then show ?thesis
      using step main_count_step [OF inv MCount] by (auto simp: main_step_def Let_def)
  next
    case MWorkers
    then show ?thesis
      using step main_workers_step [OF inv MWorkers] by (auto simp: main_step_def Let_def)
  next
    case MGeneration
    then show ?thesis
      using step main_publish_step [OF inv MGeneration] by (auto simp: main_step_def Let_def)
  next
    case MAdvance
    then show ?thesis
      using step main_advance_step [OF inv MAdvance]
      by (auto simp: main_step_def Let_def const_simps split: if_splits)
  next
    case MDone
    then show ?thesis
      using step by (simp add: main_step_def Let_def)
  qed
qed

lemma worker_step_inv:
  assumes inv: "ring_inv u \<tau> es s" and i: "i < length (workers s)"
    and step: "worker_step u i s = Some s'"
  shows "\<exists>\<tau>'. ring_inv u \<tau>' es s'"
proof (cases "w_pc (workers s ! i)")
  case WWait
  then show ?thesis using wait_step [OF inv i] step by blast
next
  case WStart
  then show ?thesis using start_step [OF inv i] step by blast
next
  case (WLoop j)
  then show ?thesis using loop_step [OF inv i] step by blast
next
  case (WDecode j)
  then show ?thesis using decode_step [OF inv i] step by blast
next
  case WDec
  then show ?thesis using sign_off_step [OF inv i] step by blast
next
  case WCheck
  then show ?thesis using check_step [OF inv i] step by blast
qed (use step in \<open>simp_all add: worker_step_def Let_def\<close>)

lemma ring_step_inv:
  assumes "ring_inv u \<tau> es s" and "ring_step u s es' s'"
  shows "\<exists>\<tau>'. ring_inv u \<tau>' (es @ es') s'"
proof -
  have N: "length (workers s) = su_nworkers u"
    using assms(1) by (simp add: ring_inv_def workers_ok_def)
  from assms(2) show ?thesis
  proof (rule ring_stepE)
    assume "main_step u s = Some (s', es')"
    then show ?thesis
      using main_step_inv [OF assms(1)] by blast
  next
    fix i
    assume "es' = []" "i < su_nworkers u" "worker_step u i s = Some s'"
    then show ?thesis
      using worker_step_inv [OF assms(1)] N by simp
  next
    fix i
    assume "es' = []" "i < su_nworkers u" "sigchld_handler i s = Some s'"
    then show ?thesis
      using signal_step [OF assms(1)] N by auto
  qed
qed

section \<open>The start\<close>

definition fresh_config :: "worker_config \<Rightarrow> bool" where
  "fresh_config wc \<longleftrightarrow> start_gen wc = 1 \<and> start_idx wc = 0 \<and> \<not> sigchld wc"

definition ring_initial :: "fuzz_config \<Rightarrow> ring \<Rightarrow> bool" where
  "ring_initial u s \<longleftrightarrow> (\<exists>wcs e. s = ring_start wcs e \<and> length wcs = su_nworkers u \<and>
     su_nworkers u \<le> 31 \<and> (\<forall>wc \<in> set wcs. fresh_config wc) \<and> mutator_inv e)"

lemma start_worker_simps [simp]:
  "start_gen (start_worker wc) = start_gen wc" "start_idx (start_worker wc) = start_idx wc"
  "sigchld (start_worker wc) = sigchld wc" "w_pc (start_worker wc) = WWait"
  "w_gen (start_worker wc) = ucast (start_gen wc)" "w_idx (start_worker wc) = start_idx wc"
  "out_chunks (start_worker wc) = replicate 16 zero_output_chunk"
  by (simp_all add: start_worker_def worker_config.defs worker.defs const_simps)

lemma ring_inv_start: "ring_initial u s \<Longrightarrow> ring_inv u (\<lambda>_. 0) [] s"
proof -
  assume "ring_initial u s"
  then obtain wcs e where s: "s = ring_start wcs e" "length wcs = su_nworkers u"
      "su_nworkers u \<le> 31" "\<forall>wc \<in> set wcs. fresh_config wc" "mutator_inv e"
    by (auto simp: ring_initial_def)
  have "worker_ok u [] 0 i (start_worker wc)" if "fresh_config wc" for i wc
    using that by (simp add: worker_ok_def fresh_config_def zero_output_chunk_def const_simps
        outs_kept_def slot_kept_def output_slot_wf_def zero_output_slot_def)
  moreover have "chunk_wf zero_chunk"
    by (simp add: chunk_wf_def zero_chunk_def input_slot_ok_wf)
  ultimately show ?thesis
    using s
    by (simp add: ring_inv_def shape_ok_def workers_ok_def contents_ok_def gens_ok_def counts_ok_def
        results_ok_def turns_ok_def cleared_ok_def log_ok_def ring_start_def turn_def live_def
        latest_def armed_def zero_chunk_def const_simps)
qed

text \<open>What the worker file gives is fresh.\<close>

lemma load_workers_fresh:
  "load_workers access fork ws inp = Inr wcs \<Longrightarrow> \<forall>wc \<in> set ws. fresh_config wc \<Longrightarrow> length ws \<le> 31 \<Longrightarrow>
   length wcs \<le> 31 \<and> (\<forall>wc \<in> set wcs. fresh_config wc)"
proof (induction access fork ws inp rule: load_workers.induct)
  case (1 access fork ws inp)
  have "fresh_config (worker_entry fork n l)" for n l
    by (simp add: fresh_config_def worker_entry_def)
  then show ?case
    using 1 by (subst (asm) load_workers.simps)
      (auto split: if_splits option.splits simp: Let_def)
qed

interpretation ring: traced_system "ring_step u" "ring_initial u" "\<lambda>es s. \<exists>\<tau>. ring_inv u \<tau> es s" for u
proof
  show "\<exists>\<tau>. ring_inv u \<tau> [] s" if "ring_initial u s" for s
    using ring_inv_start [OF that] by blast
  show "\<exists>\<tau>. ring_inv u \<tau> (es @ es') s'"
    if "\<exists>\<tau>. ring_inv u \<tau> es s" and "ring_step u s es' s'" for es s es' s'
    using ring_step_inv that by blast
qed

end
