(* ===== verification/Ring_Progress.thy ===== *)
theory Ring_Progress
  imports Ring_Run
begin

text \<open>
  What the invariant of the ring gives: exclusion between the refill and the workers, the range
  of every index and counter, the order and completeness of what is processed, and progress.
\<close>

section \<open>Exclusion and ranges\<close>

text \<open>A worker has business in the chunk of its current index.\<close>

definition in_chunk :: "worker \<Rightarrow> bool" where
  "in_chunk w \<longleftrightarrow> w_pc w \<notin> {WWait, WCheck, WExit}"

lemma in_chunk_live:
  assumes inv: "ring_inv u \<tau> es s" and i: "i < length (workers s)" "in_chunk (workers s ! i)"
  shows "\<tau> i < length (published es)" "live (m_pc s) (length (published es)) (\<tau> i)"
    "w_idx (workers s ! i) = \<tau> i mod 16" "\<not> done_with \<tau> (workers s) i (\<tau> i)"
proof -
  note w = worker_okD [OF ring_inv_worker [OF inv i(1)]]
  show t: "\<tau> i < length (published es)"
    using w(9) i(2) by (auto simp: in_chunk_def)
  show nd: "\<not> done_with \<tau> (workers s) i (\<tau> i)"
    using i(2) by (auto simp: done_with_def finished_pc_def in_chunk_def)
  show "live (m_pc s) (length (published es)) (\<tau> i)"
    using ring_invD [OF inv] i t nd by (intro own_chunk_live) auto
  show "w_idx (workers s ! i) = \<tau> i mod 16"
    by (rule w(3))
qed

lemma filling_exclusion:
  assumes inv: "ring_inv u \<tau> es s" and fill: "filling (m_pc s)"
    and i: "i < length (workers s)" "in_chunk (workers s ! i)"
  shows "w_idx (workers s ! i) \<noteq> m_idx s"
proof -
  note parts = ring_invD [OF inv] and l = in_chunk_live [OF inv i]
  have T: "length (published es) = turn s" "turn s mod 16 = m_idx s"
    using parts(1,7) fill turn_mod by (auto simp: turns_ok_def shape_ok_def)
  have "\<tau> i < turn s" "turn s < \<tau> i + 16"
    using l(2) fill T(1) by (auto simp: live_def latest_def)
  then have "latest (turn s + 1) (\<tau> i)" "latest (turn s + 1) (turn s)" "\<tau> i \<noteq> turn s"
    by (auto simp: latest_def)
  then show ?thesis
    using latest_same_chunk T(2) l(3) by metis
qed

text \<open>The processed chunk is not touched either: every worker has signed off or not arrived.\<close>

lemma processing_exclusion:
  assumes inv: "ring_inv u \<tau> es s" and pc: "m_pc s = MProcess k" and gen: "m_gen s > 1"
    and i: "i < length (workers s)" "in_chunk (workers s ! i)"
  shows "w_idx (workers s ! i) \<noteq> m_idx s"
proof -
  note parts = ring_invD [OF inv] and l = in_chunk_live [OF inv i]
  have T: "16 \<le> turn s"
    using gen gen_turn [OF parts(1)] by simp
  note p = process_turn [OF inv pc T]
  have "\<tau> i \<noteq> turn s - 16"
    using p(6) [OF i(1)] l(4) by auto
  then show ?thesis
    using latest_same_chunk [OF live_latest [OF l(2)] live_latest [OF p(1)]] p(2) l(3) by auto
qed

lemma counter_range:
  assumes inv: "ring_inv u \<tau> es s" and c: "c < 16"
  shows "unat (remaining_workers (chunks s ! c)) \<le> su_nworkers u"
proof -
  note parts = ring_invD [OF inv]
  define q where "q = armed (m_pc s) (length (published es))"
  show ?thesis
  proof (cases "q \<le> c")
    case True
    then show ?thesis
      using parts(5) c by (simp add: counts_ok_def q_def)
  next
    case False
    define t where "t = 16 * ((q - 1 - c) div 16) + c"
    have "t mod 16 = c"
      using c by (simp add: t_def)
    moreover have "latest q t"
      using False c div_mult_mod_eq [of "q - 1 - c" 16] mod_less_divisor [of 16 "q - 1 - c"]
      unfolding t_def latest_def by linarith
    ultimately have "remaining_workers (chunks s ! c) = of_nat (card (counted \<tau> (workers s) t))"
      using parts(5) unfolding counts_ok_def q_def by metis
    moreover have "card (counted \<tau> (workers s) t) \<le> su_nworkers u" "su_nworkers u \<le> 31"
      using card_counted [of \<tau> "workers s" t] parts(2) by (auto simp: workers_ok_def)
    ultimately show ?thesis
      by (simp add: unat_of_nat)
  qed
qed

text \<open>No decrement takes a counter below zero.\<close>

lemma counter_positive:
  assumes inv: "ring_inv u \<tau> es s" and i: "i < length (workers s)"
    and pc: "w_pc (workers s ! i) \<in> {WStart, WDec, WDead} \<or> (\<exists>j. w_pc (workers s ! i) \<in> {WLoop j, WDecode j})"
  shows "remaining_workers (chunks s ! w_idx (workers s ! i)) \<noteq> 0"
proof -
  have ic: "in_chunk (workers s ! i)" and nr: "w_pc (workers s ! i) \<noteq> WReaped"
    using pc by (auto simp: in_chunk_def)
  note parts = ring_invD [OF inv] and l = in_chunk_live [OF inv i ic]
  have "i \<in> counted \<tau> (workers s) (\<tau> i)"
    using i l(4) nr by (simp add: counted_def)
  then have "card (counted \<tau> (workers s) (\<tau> i)) \<noteq> 0"
    using finite_counted by auto
  moreover have "card (counted \<tau> (workers s) (\<tau> i)) \<le> 31"
    using card_counted [of \<tau> "workers s" "\<tau> i"] parts(2) by (auto simp: workers_ok_def)
  ultimately show ?thesis
    using parts(5) live_armed [OF l(2)] l(3) by (simp add: counts_ok_def of_nat_u32_eq_0)
qed

section \<open>Order and completeness\<close>

lemma turn_bound: "turns_ok pub s \<Longrightarrow> turn s \<le> length pub + 15"
proof -
  assume "turns_ok pub s"
  then have "turn s \<le> length pub + (if m_pc s = MAdvance then 14 else 15)"
    unfolding turns_ok_def by blast
  also have "\<dots> \<le> length pub + 15"
    by simp
  finally show ?thesis .
qed

lemma processed_prefix:
  assumes inv: "ring_inv u \<tau> es s"
  shows "\<exists>rest. concat (published es) = map fst (processed es) @ rest"
    and "m_pc s = MDone \<Longrightarrow> map fst (processed es) = concat (published es)"
proof -
  let ?pub = "published es" and ?t = "turn s - 16"
  note parts = ring_invD [OF inv]
  have log: "map fst (processed es) = (if turn s < 16 then []
      else concat (take ?t ?pub) @ current_part (m_pc s) (?pub ! ?t))"
    using parts(9) unfolding log_ok_def by (rule conjunct1)
  have t: "?t < length ?pub" if "16 \<le> turn s"
    using turn_bound [OF parts(7)] that by linarith
  have part: "\<exists>r. b = current_part p b @ r" for p and b :: "input_slot list"
  proof (cases "\<exists>i. p = MProcess i")
    case True
    then obtain i where "p = MProcess i" ..
    then show ?thesis
      by (intro exI [of _ "drop i b"]) simp
  qed (cases p, auto)
  show "\<exists>rest. concat ?pub = map fst (processed es) @ rest"
  proof (cases "turn s < 16")
    case False
    obtain r where r: "?pub ! ?t = current_part (m_pc s) (?pub ! ?t) @ r"
      using part by blast
    have "concat ?pub = concat (take ?t ?pub @ ?pub ! ?t # drop (Suc ?t) ?pub)"
      using False t by (intro arg_cong [where f = concat] id_take_nth_drop) simp
    also have "\<dots> = concat (take ?t ?pub) @ ?pub ! ?t @ concat (drop (Suc ?t) ?pub)"
      by simp
    also have "?pub ! ?t @ concat (drop (Suc ?t) ?pub) =
        current_part (m_pc s) (?pub ! ?t) @ r @ concat (drop (Suc ?t) ?pub)"
      using arg_cong [OF r, of "\<lambda>x. x @ concat (drop (Suc ?t) ?pub)"]
      unfolding append_assoc .
    finally show ?thesis
      using False log by (intro exI [of _ "r @ concat (drop (Suc ?t) ?pub)"]) simp
  qed (simp add: log)
  show "map fst (processed es) = concat ?pub" if "m_pc s = MDone"
  proof -
    have T: "turn s = length ?pub + 15" "0 < length ?pub"
      using parts(7) that by (auto simp: turns_ok_def)
    then have "take (Suc ?t) ?pub = ?pub" "?t < length ?pub"
      by simp_all
    then have "?pub = take ?t ?pub @ [?pub ! ?t]"
      using take_Suc_conv_app_nth [of ?t ?pub] by (rule_tac trans [OF sym])
    from arg_cong [OF this, of concat] have "concat ?pub = concat (take ?t ?pub) @ ?pub ! ?t"
      by (simp only: concat_append concat.simps append_Nil2)
    moreover have "map fst (processed es) = concat (take ?t ?pub) @ ?pub ! ?t"
      using log that T by simp
    ultimately show ?thesis
      by (rule trans [OF _ sym, rotated])
  qed
qed

section \<open>Leaving the ring\<close>

text \<open>
  As long as the mutator delivers, every published chunk is full, so no worker finds a count
  that makes it leave.
\<close>

definition exit_inv :: "input_slot list list \<Rightarrow> ring \<Rightarrow> bool" where
  "exit_inv pub s \<longleftrightarrow> (m_exit_idx s = 16 \<longrightarrow>
     (\<forall>i < length (workers s). w_pc (workers s ! i) \<noteq> WExit) \<and>
     (\<forall>c < 16. c < length pub \<longrightarrow> unat (input_count (chunks s ! c)) = 4096) \<and>
     (\<forall>n. m_pc s = MCount n \<longrightarrow> n = 4096) \<and>
     (m_pc s \<in> {MWorkers, MGeneration} \<longrightarrow> unat (input_count (chunks s ! m_idx s)) = 4096))"

lemma upd_worker_simps [simp]:
  "chunks (upd_worker i f s) = chunks s" "m_pc (upd_worker i f s) = m_pc s"
  "m_idx (upd_worker i f s) = m_idx s" "m_exit_idx (upd_worker i f s) = m_exit_idx s"
  "length (workers (upd_worker i f s)) = length (workers s)"
  by (simp_all add: upd_worker_def)

lemma upd_chunk_simps [simp]:
  "workers (upd_chunk c f s) = workers s" "m_pc (upd_chunk c f s) = m_pc s"
  "m_idx (upd_chunk c f s) = m_idx s" "m_exit_idx (upd_chunk c f s) = m_exit_idx s"
  by (simp_all add: upd_chunk_def)

lemma upd_chunk_count:
  "(\<And>ic. input_count (f ic) = input_count ic) \<Longrightarrow>
   input_count (chunks (upd_chunk c f s) ! k) = input_count (chunks s ! k)"
  by (simp add: upd_chunk_def update_same_field)

lemma upd_worker_pc:
  "w_pc (workers (upd_worker i f s) ! k) =
     (if k = i \<and> i < length (workers s) then w_pc (f (workers s ! i)) else w_pc (workers s ! k))"
  by (cases "i < length (workers s)")
    (auto simp: upd_worker_def nth_list_update not_less list_update_beyond)

lemma worker_step_frame:
  assumes "worker_step u i s = Some s'"
  shows "m_exit_idx s' = m_exit_idx s" "m_pc s' = m_pc s" "m_idx s' = m_idx s"
    "length (workers s') = length (workers s)"
    "input_count (chunks s' ! c) = input_count (chunks s ! c)"
    "w_pc (workers s' ! k) = WExit \<Longrightarrow> w_pc (workers s ! k) = WExit \<or>
       k = i \<and> w_pc (workers s ! i) = WCheck \<and>
       unat (input_count (chunks s ! w_idx (workers s ! i))) \<noteq> 4096"
  using assms
  by (cases "w_pc (workers s ! i)";
      force simp: worker_step_def Let_def upd_worker_pc upd_chunk_count const_simps
        split: if_splits prod.splits)+

lemma signal_step_frame:
  assumes "sigchld_handler i s = Some s'"
  shows "m_exit_idx s' = m_exit_idx s" "m_pc s' = m_pc s" "m_idx s' = m_idx s"
    "length (workers s') = length (workers s)"
    "input_count (chunks s' ! c) = input_count (chunks s ! c)"
    "w_pc (workers s' ! k) = WExit \<Longrightarrow> w_pc (workers s ! k) = WExit"
  using assms
  by (auto simp: sigchld_handler_def Let_def upd_worker_pc upd_chunk_count
      split: if_splits option.splits)

lemma upd_chunk_inputs:
  "(\<And>ic. inputs (f ic) = inputs ic) \<Longrightarrow> inputs (chunks (upd_chunk c f s) ! k) = inputs (chunks s ! k)"
  by (simp add: upd_chunk_def update_same_field)

lemma worker_step_inputs:
  "worker_step u i s = Some s' \<Longrightarrow> inputs (chunks s' ! c) = inputs (chunks s ! c)"
  by (cases "w_pc (workers s ! i)")
    (auto simp: worker_step_def Let_def upd_chunk_inputs split: if_splits prod.splits)

lemma signal_step_inputs:
  "sigchld_handler i s = Some s' \<Longrightarrow> inputs (chunks s' ! c) = inputs (chunks s ! c)"
  by (auto simp: sigchld_handler_def Let_def upd_chunk_inputs split: if_splits option.splits)

lemma exit_inv_frame:
  assumes "exit_inv pub s" and "m_exit_idx s' = m_exit_idx s" "m_pc s' = m_pc s" "m_idx s' = m_idx s"
    and "length (workers s') = length (workers s)"
    and "\<And>c. input_count (chunks s' ! c) = input_count (chunks s ! c)"
    and "\<And>k. k < length (workers s) \<Longrightarrow> m_exit_idx s = 16 \<Longrightarrow> w_pc (workers s' ! k) = WExit \<Longrightarrow>
      w_pc (workers s ! k) = WExit"
  shows "exit_inv pub s'"
  using assms unfolding exit_inv_def by metis

lemma worker_exit_inv:
  assumes inv: "ring_inv u \<tau> es s" and ex: "exit_inv (published es) s"
    and i: "i < length (workers s)" and step: "worker_step u i s = Some s'"
  shows "exit_inv (published es) s'"
proof (rule exit_inv_frame [OF ex])
  fix k
  assume k: "k < length (workers s)" "m_exit_idx s = 16" "w_pc (workers s' ! k) = WExit"
  show "w_pc (workers s ! k) = WExit"
  proof (rule ccontr)
    assume "w_pc (workers s ! k) \<noteq> WExit"
    then have *: "w_pc (workers s ! i) = WCheck"
      "unat (input_count (chunks s ! w_idx (workers s ! i))) \<noteq> 4096"
      using worker_step_frame(6) [OF step k(3)] by auto
    note w = worker_okD [OF ring_inv_worker [OF inv i]]
    have "\<tau> i < length (published es)"
      using w(9) *(1) by simp
    then have "\<tau> i mod 16 < length (published es)"
      using mod_less_eq_dividend [of "\<tau> i" 16] by linarith
    then show False
      using ex k(2) *(2) w(3) by (simp add: exit_inv_def)
  qed
qed (use worker_step_frame [OF step] in auto)

lemma main_exit_inv:
  assumes inv: "ring_inv u \<tau> es s" and ex: "exit_inv (published es) s"
    and step: "main_step u s = Some (s', es')"
  shows "exit_inv (published (es @ es')) s'"
proof -
  let ?ic = "chunks s ! m_idx s"
  note parts = ring_invD [OF inv]
  have idx: "m_idx s < 16" "length (chunks s) = 16" "chunk_wf ?ic" "mutator_inv (m_env s)"
      "turn s mod 16 = m_idx s"
    using parts(1) turn_mod by (auto simp: shape_ok_def)
  show ?thesis
  proof (cases "m_pc s")
    case MFill
    then obtain slots count ended e where
      fill: "fill_slots (run_mutator (su_mutator u)) (m_env s) (inputs ?ic) 0 = Some (slots, count, ended, e)"
      and s': "s' = upd_chunk (m_idx s) (\<lambda>ic. ic\<lparr>inputs := slots\<rparr>)
        (s\<lparr>m_env := e, m_exit_idx := if ended then m_idx s else m_exit_idx s, m_pc := MCount count\<rparr>)"
        "es' = []"
      using step by (auto simp: main_step_def Let_def split: Option.bind_splits)
    have "\<not> ended \<Longrightarrow> count = 4096"
      using chosen_mut.fill_slots_total [OF idx(4), of "inputs ?ic" "su_mutator u" 0] idx(3) fill
      by (auto simp: chunk_wf_def const_simps split: if_splits)
    then show ?thesis
      using ex idx(1) MFill by (auto simp: exit_inv_def s' upd_chunk_count)
  next
    case (MCount n)
    then have "unat (of_nat n :: u32) = n"
      using parts(7) by (auto simp: turns_ok_def unat_of_nat)
    then show ?thesis
      using ex step MCount idx(1,2)
      by (auto simp: exit_inv_def main_step_def Let_def upd_chunk_def nth_list_update)
  next
    case MGeneration
    have "c < length (published es) + 1 \<Longrightarrow> c \<noteq> m_idx s \<Longrightarrow> c < 16 \<Longrightarrow> c < length (published es)" for c
      using parts(7) MGeneration idx(5) by (cases "c = turn s") (auto simp: turns_ok_def)
    then show ?thesis
      using ex step MGeneration
      by (auto simp: exit_inv_def main_step_def Let_def upd_chunk_count) (metis)
  next
    case (MScan i r)
    then show ?thesis
      using ex step
      by (auto simp: exit_inv_def main_step_def Let_def upd_chunk_count upd_worker_pc worker_start_def
          split: if_splits)
  next
    case (MProcess i)
    then show ?thesis
      using ex step by (auto simp: exit_inv_def main_step_def Let_def split: if_splits)
  qed (use ex step in \<open>auto simp: exit_inv_def main_step_def Let_def upd_chunk_count split: if_splits\<close>)
qed

interpretation leaving: traced_system "ring_step u" "ring_initial u"
  "\<lambda>es s. (\<exists>\<tau>. ring_inv u \<tau> es s) \<and> exit_inv (published es) s" for u
proof
  fix s
  assume "ring_initial u s"
  then have "\<exists>\<tau>. ring_inv u \<tau> [] s" and "\<exists>wcs e. s = ring_start wcs e"
    using ring_inv_start [of u s] unfolding ring_initial_def by blast+
  then show "(\<exists>\<tau>. ring_inv u \<tau> [] s) \<and> exit_inv (published []) s"
    by (auto simp: ring_start_def exit_inv_def)
next
  fix es s es' s'
  assume inv: "(\<exists>\<tau>. ring_inv u \<tau> es s) \<and> exit_inv (published es) s" and step: "ring_step u s es' s'"
  then obtain \<tau> where \<tau>: "ring_inv u \<tau> es s" and ex: "exit_inv (published es) s"
    by blast
  have N: "length (workers s) = su_nworkers u"
    using \<tau> by (simp add: ring_inv_def workers_ok_def)
  have "exit_inv (published (es @ es')) s'"
    using step
  proof (rule ring_stepE)
    assume "main_step u s = Some (s', es')"
    then show ?thesis
      by (rule main_exit_inv [OF \<tau> ex])
  next
    fix i
    assume "es' = []" "i < su_nworkers u" "worker_step u i s = Some s'"
    then show ?thesis
      using worker_exit_inv [OF \<tau> ex] N by simp
  next
    fix i
    assume *: "es' = []" "i < su_nworkers u" "sigchld_handler i s = Some s'"
    then have "exit_inv (published es) s'"
      using signal_step_frame [OF *(3)] by (intro exit_inv_frame [OF ex]) auto
    then show ?thesis
      using * by simp
  qed
  then show "(\<exists>\<tau>. ring_inv u \<tau> (es @ es') s') \<and> exit_inv (published (es @ es')) s'"
    using ring_step_inv [OF \<tau> step] by blast
qed

section \<open>Progress\<close>

definition can_step :: "fuzz_config \<Rightarrow> ring \<Rightarrow> bool" where
  "can_step u s \<longleftrightarrow> main_step u s \<noteq> None \<or>
     (\<exists>i < su_nworkers u. worker_step u i s \<noteq> None \<or> sigchld_handler i s \<noteq> None)"

lemma can_step_iff: "can_step u s \<longleftrightarrow> (\<exists>es s'. ring_step u s es s')"
  unfolding can_step_def by (auto intro: ring_step.intros elim!: ring_stepE)

lemma main_enabled:
  assumes inv: "ring_inv u \<tau> es s" and pc: "m_pc s \<noteq> MDone"
    and wait: "m_pc s = MWait \<Longrightarrow> remaining_workers (chunks s ! m_idx s) = 0"
  shows "main_step u s \<noteq> None"
proof (cases "m_pc s")
  case MFill
  have "mutator_inv (m_env s)" "chunk_wf (chunks s ! m_idx s)"
    using ring_invD(1) [OF inv] by (auto simp: shape_ok_def)
  then obtain r where "fill_slots (run_mutator (su_mutator u)) (m_env s) (inputs (chunks s ! m_idx s)) 0 =
      Some r"
    using chosen_mut.fill_slots_total [of "m_env s" "inputs (chunks s ! m_idx s)" "su_mutator u" 0]
    by (auto simp: chunk_wf_def)
  then show ?thesis
    using MFill by (cases r) (simp add: main_step_def Let_def)
qed (use pc wait in \<open>auto simp: main_step_def Let_def\<close>)

lemma worker_enabled:
  assumes inv: "ring_inv u \<tau> es s" and i: "i < length (workers s)" "\<tau> i < length (published es)"
    and pc: "w_pc (workers s ! i) \<notin> {WExit, WReaped}"
  shows "worker_step u i s \<noteq> None \<or> sigchld_handler i s \<noteq> None"
proof (cases "w_pc (workers s ! i)")
  case WWait
  note parts = ring_invD [OF inv] and w = worker_okD [OF ring_inv_worker [OF inv i(1)]]
  have "live (m_pc s) (length (published es)) (\<tau> i)"
    using parts i WWait by (intro own_chunk_live) (auto simp: done_with_def)
  from gen_published [OF live_latest [OF this]]
  have "generation (chunks s ! (\<tau> i mod 16)) = w_gen (workers s ! i)"
    using parts(4) w(2) by (simp add: gens_ok_def)
  then show ?thesis
    using WWait w(3) by (simp add: worker_step_def Let_def)
next
  case WDead
  then show ?thesis
    by (simp add: sigchld_handler_def Let_def split: option.split)
qed (use pc in \<open>auto simp: worker_step_def Let_def split: prod.split\<close>)

text \<open>
  If nothing can move, the run is over or a worker has left; while the mutator delivers, no
  worker has.
\<close>

lemma stuck_cases:
  assumes inv: "ring_inv u \<tau> es s" and stuck: "\<not> can_step u s"
  shows "m_pc s = MDone \<or> (\<exists>i < su_nworkers u. w_pc (workers s ! i) = WExit)"
proof (rule ccontr)
  assume "\<not> ?thesis"
  then have pc: "m_pc s \<noteq> MDone" and noexit: "\<forall>i < su_nworkers u. w_pc (workers s ! i) \<noteq> WExit"
    by auto
  note parts = ring_invD [OF inv]
  have N: "length (workers s) = su_nworkers u"
    using parts(2) by (simp add: workers_ok_def)
  have "main_step u s = None"
    using stuck unfolding can_step_def by blast
  then have wait: "m_pc s = MWait" "remaining_workers (chunks s ! m_idx s) \<noteq> 0"
    using main_enabled [OF inv pc] by blast+
  let ?P = "length (published es)" and ?t = "turn s - 16"
  have pub: "?P \<le> turn s" "turn s \<le> ?P + 15"
    using parts(7) wait(1) by (simp_all add: turns_ok_def)
  have idx: "m_idx s < 16" "turn s mod 16 = m_idx s"
    using parts(1) turn_mod by (auto simp: shape_ok_def)
  have T: "16 \<le> turn s"
  proof (rule ccontr)
    assume "\<not> 16 \<le> turn s"
    then have "?P \<le> m_idx s"
      using idx pub(1) by simp
    then show False
      using parts(5) wait idx(1) by (simp add: counts_ok_def armed_def)
  qed
  have "latest ?P ?t" "?t mod 16 = m_idx s"
    using pub T idx(2) by (auto simp: latest_def le_mod_geq)
  then have "counted \<tau> (workers s) ?t \<noteq> {}"
    using parts(5) wait unfolding counts_ok_def armed_def by auto
  then obtain i where i: "i < su_nworkers u" "\<not> done_with \<tau> (workers s) i ?t"
      "\<not> (w_pc (workers s ! i) = WReaped \<and> \<tau> i = ?t)"
    using N by (auto simp: counted_def)
  have "?t < ?P"
    using pub T by linarith
  moreover have le: "\<tau> i \<le> ?t"
    using i(2) by (auto simp: done_with_def)
  moreover have "w_pc (workers s ! i) \<noteq> WReaped"
  proof
    assume r: "w_pc (workers s ! i) = WReaped"
    then have "\<tau> i + 16 < turn s" "\<tau> i < ?P"
      using i(3) le T \<open>?t < ?P\<close> by auto
    then have "done_with \<tau> (workers s) i (\<tau> i)"
      using parts(8) i(1) N by (simp add: cleared_ok_def)
    then show False
      using r by (simp add: done_with_def)
  qed
  ultimately have "worker_step u i s \<noteq> None \<or> sigchld_handler i s \<noteq> None"
    using i(1) N noexit by (intro worker_enabled [OF inv]) auto
  then show False
    using stuck i(1) by (auto simp: can_step_def)
qed

end
