(* ===== verification/Ring_Lapse.thy ===== *)
theory Ring_Lapse
  imports Ring_Progress
begin

text \<open>
  Two runs of the ring. The small one, of one worker on one hexadecimal line, serves as an
  instance. The other never ends although nothing crashes: a worker reads the count of its
  chunk once more after it has signed off; by then the main loop may have refilled the chunk with
  the last, partial batch of inputs, and the worker takes the small count for its own and leaves.
  The run is built for one worker in manual mode with exactly sixteen chunks of input.
\<close>

section \<open>A small run\<close>

text \<open>One worker in manual mode, for any decoder; \<open>demo\<close> has one that succeeds without any text.\<close>

definition demo_with :: "(nat \<Rightarrow> output_slot \<Rightarrow> input_slot \<Rightarrow> bool \<times> output_slot) \<Rightarrow> fuzz_config" where
  "demo_with dec = \<lparr>su_mutator = Manual, su_decode = dec, su_nworkers = 1\<rparr>"

definition textless :: "nat \<Rightarrow> output_slot \<Rightarrow> input_slot \<Rightarrow> bool \<times> output_slot" where
  "textless i r inp = (True, r\<lparr>status := S_SUCCESS, out_len := 0, ndecoded := 0\<rparr>)"

abbreviation demo :: fuzz_config where
  "demo \<equiv> demo_with textless"

lemmas demo_def = demo_with_def textless_def

definition demo_start :: ring where
  "demo_start = ring_start [worker_entry int 0 []]
     (sample_mutator\<lparr>stdin := manual_lines [[0x90]]\<rparr>)"

lemma demo_initial: "ring_initial (demo_with dec) demo_start"
  unfolding ring_initial_def demo_start_def
  by (intro exI conjI) (auto simp: demo_def fresh_config_def worker_entry_def)

lemma run_step:
  "trace_run step s0 es s \<Longrightarrow> step s [] s' \<Longrightarrow> trace_run step s0 es s'"
  using trace_run.more [of step s0 es s "[]" s'] by simp

text \<open>The main loop alone, step by step.\<close>

lemma main_run_step:
  "ring_run u s0 es s \<Longrightarrow> main_step u s = Some (s', es') \<Longrightarrow> ring_run u s0 (es @ es') s'"
  by (blast intro: trace_run.more by_main)

abbreviation main_run :: "fuzz_config \<Rightarrow> ring \<Rightarrow> event list \<Rightarrow> ring \<Rightarrow> bool" where
  "main_run u \<equiv> trace_run (\<lambda>s es s'. main_step u s = Some (s', es))"

lemma main_run_more:
  "main_run u s0 es s \<Longrightarrow> main_step u s = Some (s', es') \<Longrightarrow> main_run u s0 (es @ es') s'"
  by (rule trace_run.more)

lemma main_run_silent:
  "main_run u s0 es s \<Longrightarrow> main_step u s = Some (s', []) \<Longrightarrow> main_run u s0 es s'"
  using main_run_more [of u s0 es s s' "[]"] by simp

lemma main_run_ring:
  assumes "main_run u s es' s'" and "ring_run u s0 es s"
  shows "ring_run u s0 (es @ es') s'"
proof -
  have "ring_run u s es' s'"
    using assms(1) by (induction rule: trace_run.induct) (blast intro: trace_run.intros by_main)+
  then show ?thesis
    using assms(2) by (rule trace_run_trans)
qed

lemma main_run_ring_silent:
  "main_run u s [] s' \<Longrightarrow> ring_run u s0 es s \<Longrightarrow> ring_run u s0 es s'"
  using main_run_ring [of u s "[]" s' s0 es] by simp

lemma demo_run:
  "\<exists>s x. ring_run (demo_with dec) demo_start [Published [x]] s \<and> insn_bytes x = [0x90] \<and> m_pc s = MAdvance \<and>
     m_idx s = 0 \<and> workers s = [start_worker (worker_entry int 0 [])] \<and>
     generation (chunks s ! 0) = 1 \<and> m_gen s = 1 \<and> m_exit_idx s = 0 \<and> length (chunks s) = 16 \<and>
     input_count (chunks s ! 0) = 1 \<and> remaining_workers (chunks s ! 0) = 1 \<and> inputs (chunks s ! 0) ! 0 = x \<and>
     (\<forall>c < 16. 0 < c \<longrightarrow> remaining_workers (chunks s ! c) = 0)"
proof -
  define e where "e = sample_mutator\<lparr>stdin := manual_lines [[0x90]]\<rparr>"
  obtain slots where slots: "fill_slots manual_candidate e (replicate 4096 zero_input_slot) 0 =
      Some (slots, 1, True, e\<lparr>stdin := []\<rparr>)" "map insn_bytes (take 1 slots) = [[0x90]]"
    using fill_slots_manual [of "[[0x90]]" "replicate 4096 zero_input_slot" e 0]
    by (auto simp: e_def input_slot_ok_wf)
  obtain x where x: "take 1 slots = [x]" "insn_bytes x = [0x90]"
    using slots(2) by auto
  define s0 where "s0 = demo_start"
  have c0: "chunks s0 ! 0 = zero_chunk" "length (chunks s0) = 16" "workers s0 = [start_worker (worker_entry int 0 [])]"
    "m_pc s0 = MWait" "m_idx s0 = 0" "m_gen s0 = 1" "m_exit_idx s0 = 16" "m_env s0 = e"
    by (simp_all add: s0_def demo_start_def ring_start_def const_simps e_def)
  have 0: "ring_run (demo_with dec) demo_start [] s0"
    by (simp add: s0_def trace_run.start)
  have 1: "main_step (demo_with dec) s0 = Some (s0\<lparr>m_pc := MScan 0 False\<rparr>, [])"
    by (simp add: main_step_def Let_def c0 zero_chunk_def)
  have 2: "main_step (demo_with dec) (s0\<lparr>m_pc := MScan 0 False\<rparr>) = Some (s0\<lparr>m_pc := MScan 1 False\<rparr>, [])"
    by (simp add: main_step_def Let_def c0 demo_with_def worker_entry_def)
  have 3: "main_step (demo_with dec) (s0\<lparr>m_pc := MScan 1 False\<rparr>) = Some (s0\<lparr>m_pc := MProcess 0\<rparr>, [])"
    by (simp add: main_step_def Let_def c0 demo_with_def)
  have 4: "main_step (demo_with dec) (s0\<lparr>m_pc := MProcess 0\<rparr>) = Some (s0\<lparr>m_pc := MFill\<rparr>, [])"
    by (simp add: main_step_def Let_def c0 const_simps)
  define s1 where "s1 = upd_chunk 0 (\<lambda>ic. ic\<lparr>inputs := slots\<rparr>)
    (s0\<lparr>m_env := e\<lparr>stdin := []\<rparr>, m_exit_idx := 0, m_pc := MCount 1\<rparr>)"
  have 5: "main_step (demo_with dec) (s0\<lparr>m_pc := MFill\<rparr>) = Some (s1, [])"
    using slots(1) by (simp add: main_step_def Let_def c0 demo_with_def zero_chunk_def const_simps s1_def)
  define s2 where "s2 = upd_chunk 0 (\<lambda>ic. ic\<lparr>input_count := 1\<rparr>) (s1\<lparr>m_pc := MWorkers\<rparr>)"
  have 6: "main_step (demo_with dec) s1 = Some (s2, [])"
    by (simp add: main_step_def Let_def s1_def s2_def c0 upd_chunk_def)
  define s3 where "s3 = upd_chunk 0 (\<lambda>ic. ic\<lparr>remaining_workers := 1\<rparr>) (s2\<lparr>m_pc := MGeneration\<rparr>)"
  have 7: "main_step (demo_with dec) s2 = Some (s3, [])"
    by (simp add: main_step_def Let_def s1_def s2_def s3_def c0 upd_chunk_def demo_with_def)
  have "input_count (chunks s3 ! 0) = 1" "inputs (chunks s3 ! 0) = slots" "m_pc s3 = MGeneration"
      "m_idx s3 = 0" "m_gen s3 = 1" "length (chunks s3) = 16" "m_exit_idx s3 = 0"
      "remaining_workers (chunks s3 ! 0) = 1"
      "workers s3 = [start_worker (worker_entry int 0 [])]"
    by (simp_all add: s1_def s2_def s3_def c0 upd_chunk_def)
  moreover have "\<forall>c < 16. 0 < c \<longrightarrow> chunks s3 ! c = zero_chunk"
    by (auto simp: s1_def s2_def s3_def upd_chunk_def s0_def demo_start_def ring_start_def const_simps)
  moreover have "slots ! 0 = x"
    using x(1) by (cases slots) simp_all
  ultimately obtain s4 where 8: "main_step (demo_with dec) s3 = Some (s4, [Published [x]])" "m_pc s4 = MAdvance"
      "m_idx s4 = 0" "workers s4 = [start_worker (worker_entry int 0 [])]"
      "generation (chunks s4 ! 0) = 1" "m_gen s4 = 1" "m_exit_idx s4 = 0" "length (chunks s4) = 16"
      "input_count (chunks s4 ! 0) = 1" "remaining_workers (chunks s4 ! 0) = 1"
      "inputs (chunks s4 ! 0) ! 0 = x" "\<forall>c < 16. 0 < c \<longrightarrow> remaining_workers (chunks s4 ! c) = 0"
    using x(1) by (simp add: main_step_def Let_def upd_chunk_def zero_chunk_def)
  have "ring_run (demo_with dec) demo_start [Published [x]] s4"
    using main_run_step [OF main_run_step [OF main_run_step [OF main_run_step [OF main_run_step
      [OF main_run_step [OF main_run_step [OF main_run_step [OF 0 1] 2] 3] 4] 5] 6] 7] 8(1)]
    by simp
  then show ?thesis
    using x(2) 8(2-12) by blast
qed

text \<open>One more step: the worker finds its generation published and enters the chunk.\<close>

lemma demo_run_entered:
  "\<exists>es s. ring_run demo demo_start es s \<and> m_idx s = 0 \<and> w_pc (workers s ! 0) = WStart \<and>
     w_idx (workers s ! 0) = 0"
proof -
  obtain s x where run: "ring_run demo demo_start [Published [x]] s" "m_pc s = MAdvance" "m_idx s = 0"
      "workers s = [start_worker (worker_entry int 0 [])]" "generation (chunks s ! 0) = 1"
    using demo_run by blast
  have step: "worker_step demo 0 s = Some (upd_worker 0 (\<lambda>w. w\<lparr>w_pc := WStart\<rparr>) s)"
    using run(4,5) by (simp add: worker_step_def Let_def worker_entry_def)
  have "ring_run demo demo_start [Published [x]] (upd_worker 0 (\<lambda>w. w\<lparr>w_pc := WStart\<rparr>) s)"
    by (rule run_step [OF run(1)]) (use step in \<open>auto intro: by_worker simp: demo_def\<close>)
  then show ?thesis
    using run(3,4) by (intro exI [of _ "[Published [x]]"]
        exI [of _ "upd_worker 0 (\<lambda>w. w\<lparr>w_pc := WStart\<rparr>) s"])
      (simp add: upd_worker_def worker_entry_def)
qed

section \<open>Filling the whole ring\<close>

definition lapse_env :: "nat \<Rightarrow> mutator_state" where
  "lapse_env k = sample_mutator\<lparr>stdin := manual_lines (replicate (4096 * k) [0x90])\<rparr>"

definition lapse_worker :: worker where
  "lapse_worker = start_worker (worker_entry int 0 [])"

definition lapse_start :: ring where
  "lapse_start = ring_start [worker_entry int 0 []] (lapse_env 16)"

lemma lapse_initial: "ring_initial demo lapse_start"
  unfolding ring_initial_def lapse_start_def lapse_env_def
  by (intro exI conjI) (auto simp: demo_def fresh_config_def worker_entry_def)

text \<open>The first \<open>k\<close> chunks are published, the worker has not moved.\<close>

definition ring_filled :: "nat \<Rightarrow> ring \<Rightarrow> bool" where
  "ring_filled k s \<longleftrightarrow> workers s = [lapse_worker] \<and> m_pc s = MWait \<and> m_idx s = k mod 16 \<and>
     m_gen s = k div 16 + 1 \<and> m_exit_idx s = 16 \<and> m_env s = lapse_env (16 - k) \<and>
     length (chunks s) = 16 \<and> (\<forall>c < 16. chunk_wf (chunks s ! c)) \<and>
     (\<forall>c < 16. if c < k then input_count (chunks s ! c) = 4096 \<and> remaining_workers (chunks s ! c) = 1 \<and>
        generation (chunks s ! c) = 1 else chunks s ! c = zero_chunk)"

lemma zero_chunk_wf: "chunk_wf zero_chunk"
  by (simp add: chunk_wf_def zero_chunk_def input_slot_ok_wf)

lemma ring_filled_start: "ring_filled 0 lapse_start"
  by (simp add: ring_filled_def lapse_start_def ring_start_def lapse_worker_def const_simps
      zero_chunk_wf [unfolded zero_chunk_def, simplified const_simps])
    (simp add: zero_chunk_def chunk_wf_def input_slot_ok_wf const_simps)

lemma lapse_fill:
  assumes "k < 16" and "chunk_wf ic"
  shows "\<exists>slots. fill_slots manual_candidate (lapse_env (16 - k)) (inputs ic) 0 =
      Some (slots, 4096, False, lapse_env (15 - k)) \<and> length slots = 4096 \<and>
    (\<forall>s \<in> set slots. input_slot_wf s)"
proof -
  define n where "n = 15 - k"
  have k: "16 - k = Suc n" "15 - k = n"
    using assms(1) by (auto simp: n_def)
  have "manual_lines (replicate (4096 * Suc n) [0x90]) =
      manual_lines (replicate 4096 [0x90]) @ manual_lines (replicate (4096 * n) [0x90])"
    by (simp add: manual_lines_def replicate_add)
  then have "stdin (lapse_env (Suc n)) =
      manual_lines (replicate 4096 [0x90]) @ manual_lines (replicate (4096 * n) [0x90])"
    by (simp add: lapse_env_def)
  moreover have "length (replicate 4096 [0x90 :: byte]) = length (inputs ic)"
    using assms(2) by (simp add: chunk_wf_def const_simps)
  moreover have "\<forall>bs \<in> set (replicate 4096 [0x90 :: byte]). 1 \<le> length bs \<and> length bs \<le> 15"
    by simp
  moreover have "\<forall>s \<in> set (inputs ic). input_slot_wf s"
    using assms(2) by (simp add: chunk_wf_def)
  ultimately obtain slots where "fill_slots manual_candidate (lapse_env (Suc n)) (inputs ic) 0 =
      Some (slots, 0 + length (replicate 4096 [0x90 :: byte]), False,
        (lapse_env (Suc n))\<lparr>stdin := manual_lines (replicate (4096 * n) [0x90])\<rparr>)"
      "\<forall>s \<in> set slots. input_slot_ok s" "map insn_bytes slots = replicate 4096 [0x90]"
    using fill_slots_manual_full by blast
  moreover have "length slots = 4096"
    using arg_cong [OF \<open>map insn_bytes slots = replicate 4096 [0x90]\<close>, of length] by simp
  ultimately show ?thesis
    unfolding k by (auto simp: lapse_env_def input_slot_ok_wf)
qed

text \<open>The main loop's steps from the end of its wait to the next one, for a chunk to be refilled.\<close>

lemma lapse_scan:
  assumes "workers s = [w]" and "\<not> sigchld w" and "m_pc s = MWait"
    and "remaining_workers (chunks s ! m_idx s) = 0"
  shows "main_run (demo_with dec) s [] (s\<lparr>m_pc := MProcess 0\<rparr>)"
proof -
  have 1: "main_step (demo_with dec) s = Some (s\<lparr>m_pc := MScan 0 False\<rparr>, [])"
    using assms by (simp add: main_step_def Let_def)
  have 2: "main_step (demo_with dec) (s\<lparr>m_pc := MScan 0 False\<rparr>) = Some (s\<lparr>m_pc := MScan 1 False\<rparr>, [])"
    using assms by (simp add: main_step_def Let_def demo_with_def)
  have 3: "main_step (demo_with dec) (s\<lparr>m_pc := MScan 1 False\<rparr>) = Some (s\<lparr>m_pc := MProcess 0\<rparr>, [])"
    using assms by (simp add: main_step_def Let_def demo_with_def)
  show ?thesis
    by (rule main_run_silent [OF main_run_silent [OF main_run_silent [OF trace_run.start 1] 2] 3])
qed

lemma lapse_refill:
  assumes "m_pc s = MFill" and "m_idx s < length (chunks s)"
    and "fill_slots manual_candidate (m_env s) (inputs (chunks s ! m_idx s)) 0 = Some (slots, n, ended, e)"
  shows "main_run demo s [] (s\<lparr>m_env := e,
      m_exit_idx := if ended then m_idx s else m_exit_idx s,
      chunks := (chunks s)[m_idx s := (chunks s ! m_idx s)\<lparr>inputs := slots, input_count := of_nat n\<rparr>],
      m_pc := MWorkers\<rparr>)"
proof -
  let ?s1 = "upd_chunk (m_idx s) (\<lambda>ic. ic\<lparr>inputs := slots\<rparr>)
    (s\<lparr>m_env := e, m_exit_idx := if ended then m_idx s else m_exit_idx s, m_pc := MCount n\<rparr>)"
  have 1: "main_step demo s = Some (?s1, [])"
    using assms by (simp add: main_step_def Let_def demo_def)
  have 2: "main_step demo ?s1 = Some (upd_chunk (m_idx s) (\<lambda>ic. ic\<lparr>input_count := of_nat n\<rparr>)
      (?s1\<lparr>m_pc := MWorkers\<rparr>), [])"
    by (simp add: main_step_def Let_def upd_chunk_def)
  have eq: "upd_chunk (m_idx s) (\<lambda>ic. ic\<lparr>input_count := of_nat n\<rparr>) (?s1\<lparr>m_pc := MWorkers\<rparr>) =
      s\<lparr>m_env := e, m_exit_idx := if ended then m_idx s else m_exit_idx s,
      chunks := (chunks s)[m_idx s := (chunks s ! m_idx s)\<lparr>inputs := slots, input_count := of_nat n\<rparr>],
      m_pc := MWorkers\<rparr>"
    using assms(2) by (simp add: upd_chunk_def)
  show ?thesis
    using main_run_silent [OF main_run_silent [OF trace_run.start 1] 2] unfolding eq .
qed

text \<open>What a chunk holds for its count, as it is published.\<close>

definition batch :: "input_chunk \<Rightarrow> input_slot list" where
  "batch ic = take (unat (input_count ic)) (inputs ic)"

lemma lapse_publish:
  assumes "m_pc s = MWorkers" and "m_idx s < length (chunks s)"
  shows "main_run demo s [Published (batch (chunks s ! m_idx s))] (s\<lparr>
      chunks := (chunks s)[m_idx s := (chunks s ! m_idx s)\<lparr>remaining_workers := 1,
        generation := of_nat (m_gen s)\<rparr>],
      m_idx := if m_idx s + 1 = 16 then 0 else m_idx s + 1,
      m_gen := if m_idx s + 1 = 16 then m_gen s + 1 else m_gen s,
      m_pc := MWait\<rparr>)"
proof -
  let ?c = "m_idx s"
  let ?s1 = "upd_chunk ?c (\<lambda>ic. ic\<lparr>remaining_workers := 1\<rparr>) (s\<lparr>m_pc := MGeneration\<rparr>)"
  let ?s2 = "upd_chunk ?c (\<lambda>ic. ic\<lparr>generation := of_nat (m_gen s)\<rparr>) (?s1\<lparr>m_pc := MAdvance\<rparr>)"
  have 1: "main_step demo s = Some (?s1, [])"
    using assms by (simp add: main_step_def Let_def demo_def)
  have 2: "main_step demo ?s1 = Some (?s2, [Published (batch (chunks s ! ?c))])"
    using assms(2) by (simp add: main_step_def Let_def upd_chunk_def batch_def)
  have 3: "main_step demo ?s2 = Some (s\<lparr>
      chunks := (chunks s)[?c := (chunks s ! ?c)\<lparr>remaining_workers := 1, generation := of_nat (m_gen s)\<rparr>],
      m_idx := if ?c + 1 = 16 then 0 else ?c + 1, m_gen := if ?c + 1 = 16 then m_gen s + 1 else m_gen s,
      m_pc := MWait\<rparr>, [])"
    using assms(2) by (simp add: main_step_def Let_def upd_chunk_def const_simps)
  show ?thesis
    using main_run_silent [OF main_run_more [OF main_run_silent [OF trace_run.start 1] 2] 3] by simp
qed

lemma lapse_turn:
  assumes "ring_filled k s" and "k < 16"
  shows "\<exists>b s'. main_run demo s [Published b] s' \<and> ring_filled (k + 1) s' \<and> length b = 4096"
proof -
  have s: "workers s = [lapse_worker]" "m_pc s = MWait" "m_idx s = k" "m_gen s = 1"
      "m_exit_idx s = 16" "m_env s = lapse_env (16 - k)" "length (chunks s) = 16"
      "\<forall>c < 16. chunk_wf (chunks s ! c)" "chunks s ! k = zero_chunk"
    and filled: "\<forall>c < 16. if c < k then input_count (chunks s ! c) = 4096 \<and>
        remaining_workers (chunks s ! c) = 1 \<and> generation (chunks s ! c) = 1
      else chunks s ! c = zero_chunk"
    using assms(1,2) by (auto simp: ring_filled_def)
  obtain slots where slots: "fill_slots manual_candidate (m_env s) (inputs (chunks s ! k)) 0 =
      Some (slots, 4096, False, lapse_env (15 - k))" "length slots = 4096" "\<forall>x \<in> set slots. input_slot_wf x"
    using lapse_fill [OF assms(2), of "chunks s ! k"] s(6,8) assms(2) by auto
  have 1: "main_run demo s [] (s\<lparr>m_pc := MProcess 0\<rparr>)"
    using s by (intro lapse_scan) (auto simp: lapse_worker_def worker_entry_def zero_chunk_def)
  have "main_step demo (s\<lparr>m_pc := MProcess 0\<rparr>) = Some (s\<lparr>m_pc := MFill\<rparr>, [])"
    using s assms(2) by (simp add: main_step_def Let_def const_simps)
  with 1 have 2: "main_run demo s [] (s\<lparr>m_pc := MFill\<rparr>)"
    by (rule main_run_silent)
  define s2 where "s2 = s\<lparr>m_env := lapse_env (15 - k), m_exit_idx := 16,
    chunks := (chunks s)[k := (chunks s ! k)\<lparr>inputs := slots, input_count := of_nat 4096\<rparr>],
    m_pc := MWorkers\<rparr>"
  have "main_run demo (s\<lparr>m_pc := MFill\<rparr>) [] s2"
    using lapse_refill [of "s\<lparr>m_pc := MFill\<rparr>" slots 4096 False "lapse_env (15 - k)"] s slots assms(2)
    by (simp add: s2_def)
  from trace_run_trans [OF this 2] have 3: "main_run demo s [] s2"
    by simp
  define s3 where "s3 = s2\<lparr>chunks := (chunks s2)[k := (chunks s2 ! k)\<lparr>remaining_workers := 1,
      generation := of_nat (m_gen s2)\<rparr>],
    m_idx := if k + 1 = 16 then 0 else k + 1, m_gen := if k + 1 = 16 then m_gen s2 + 1 else m_gen s2,
    m_pc := MWait\<rparr>"
  have "m_pc s2 = MWorkers" "m_idx s2 = k" "length (chunks s2) = 16"
    using s by (simp_all add: s2_def)
  then have "main_run demo s2 [Published (batch (chunks s2 ! k))] s3"
    using lapse_publish [of s2] assms(2) unfolding s3_def by (cases "k = 15") simp_all
  from trace_run_trans [OF this 3] have 4: "main_run demo s [Published (batch (chunks s2 ! k))] s3"
    by simp
  have len: "length (batch (chunks s2 ! k)) = 4096"
    using s slots(2) assms(2) by (simp add: batch_def s2_def)
  have c3: "chunks s3 = (chunks s)[k := (chunks s ! k)\<lparr>inputs := slots, input_count := 4096,
      remaining_workers := 1, generation := 1\<rparr>]"
    using s assms(2) by (simp add: s3_def s2_def)
  have "ring_filled (k + 1) s3"
  proof -
    have "chunk_wf (chunks s3 ! c)" if "c < 16" for c
      using s(7,8) slots that assms(2) by (cases "c = k") (auto simp: c3 chunk_wf_def const_simps)
    moreover have "if c < k + 1 then input_count (chunks s3 ! c) = 4096 \<and>
        remaining_workers (chunks s3 ! c) = 1 \<and> generation (chunks s3 ! c) = 1
      else chunks s3 ! c = zero_chunk" if "c < 16" for c
      using s(7) filled that assms(2) by (cases "c = k") (auto simp: c3)
    moreover have "m_idx s3 = (k + 1) mod 16" "m_gen s3 = (k + 1) div 16 + 1"
      using s assms(2) by (auto simp: s3_def s2_def)
    moreover have "workers s3 = [lapse_worker]" "m_pc s3 = MWait" "m_exit_idx s3 = 16"
        "m_env s3 = lapse_env (16 - (k + 1))" "length (chunks s3) = 16"
      using s by (simp_all add: s3_def s2_def)
    ultimately show ?thesis
      unfolding ring_filled_def by blast
  qed
  with 4 len show ?thesis
    by blast
qed

lemma lapse_all_filled:
  "k \<le> 16 \<Longrightarrow> \<exists>es s. ring_run demo lapse_start es s \<and> ring_filled k s \<and> processed es = [] \<and>
    map length (published es) = replicate k 4096"
proof (induction k)
  case 0
  then show ?case
    using ring_filled_start trace_run.start [of "ring_step demo" lapse_start]
    by (intro exI [of _ "[]"] exI [of _ lapse_start]) simp
next
  case (Suc k)
  then obtain es s where run: "ring_run demo lapse_start es s" "ring_filled k s" "processed es = []"
      "map length (published es) = replicate k 4096"
    by auto
  then obtain b s' where "main_run demo s [Published b] s'" "ring_filled (k + 1) s'" "length b = 4096"
    using lapse_turn [of k s] Suc.prems by auto
  then show ?case
    using main_run_ring [OF _ run(1)] run(3,4)
    by (intro exI [of _ "es @ [Published b]"] exI [of _ s']) (simp add: replicate_append_same [symmetric])
qed

section \<open>The worker's first chunk\<close>

lemma worker_run_step:
  "ring_run (demo_with dec) s0 es s \<Longrightarrow> worker_step (demo_with dec) 0 s = Some s' \<Longrightarrow>
   ring_run (demo_with dec) s0 es s'"
  by (rule run_step) (auto intro: by_worker simp: demo_with_def)

definition at_loop :: "nat \<Rightarrow> worker \<Rightarrow> bool" where
  "at_loop j w \<longleftrightarrow> w_pc w = WLoop j \<and> w_idx w = 0 \<and> \<not> sigchld w \<and> length (out_chunks w) = 16"

lemma lapse_loop:
  assumes "workers s = [w0]" and "at_loop 0 w0" and "input_count (chunks s ! 0) = 4096"
    and "ring_run demo s0 es s"
  shows "j \<le> 4096 \<Longrightarrow> \<exists>w. at_loop j w \<and> ring_run demo s0 es (s\<lparr>workers := [w]\<rparr>)"
proof (induction j)
  case 0
  have "s\<lparr>workers := [w0]\<rparr> = s"
    using assms(1) by (metis ring.surjective ring.update_convs(2))
  then show ?case
    using assms(2,4) by (intro exI [of _ w0]) simp
next
  case (Suc j)
  then obtain w where w: "at_loop j w" "ring_run demo s0 es (s\<lparr>workers := [w]\<rparr>)"
    by auto
  obtain w1 where 1: "worker_step demo 0 (s\<lparr>workers := [w]\<rparr>) = Some (s\<lparr>workers := [w1]\<rparr>)"
      "w_pc w1 = WDecode j" "w_idx w1 = 0" "\<not> sigchld w1" "length (out_chunks w1) = 16"
    using w(1) Suc.prems assms(3)
    by (auto simp: at_loop_def worker_step_def Let_def upd_worker_def upd_out_def)
  obtain w2 where 2: "worker_step demo 0 (s\<lparr>workers := [w1]\<rparr>) = Some (s\<lparr>workers := [w2]\<rparr>)"
      "at_loop (Suc j) w2"
    using 1 by (auto simp: at_loop_def worker_step_def Let_def upd_worker_def upd_out_def demo_def)
  show ?case
    using worker_run_step [OF worker_run_step [OF w(2) 1(1)] 2(1)] 2(2) by blast
qed

lemma lapse_signed_off:
  assumes "ring_filled 16 s" and "ring_run demo s0 es s"
  shows "\<exists>w. w_pc w = WCheck \<and> w_idx w = 0 \<and> \<not> sigchld w \<and>
    ring_run demo s0 es (set_counter 0 0 (s\<lparr>workers := [w]\<rparr>))"
proof -
  have s: "workers s = [lapse_worker]" "length (chunks s) = 16" "input_count (chunks s ! 0) = 4096"
      "remaining_workers (chunks s ! 0) = 1" "generation (chunks s ! 0) = 1"
    using assms(1) by (auto simp: ring_filled_def)
  have w: "w_pc lapse_worker = WWait" "w_gen lapse_worker = 1" "w_idx lapse_worker = 0"
      "\<not> sigchld lapse_worker" "out_chunks lapse_worker = replicate 16 zero_output_chunk"
    by (simp_all add: lapse_worker_def worker_entry_def)
  have 1: "worker_step demo 0 s = Some (s\<lparr>workers := [lapse_worker\<lparr>w_pc := WStart\<rparr>]\<rparr>)"
    using s w by (simp add: worker_step_def Let_def upd_worker_def)
  obtain w0 where 2: "worker_step demo 0 (s\<lparr>workers := [lapse_worker\<lparr>w_pc := WStart\<rparr>]\<rparr>) =
      Some (s\<lparr>workers := [w0]\<rparr>)" "at_loop 0 w0"
    using s w by (auto simp: worker_step_def Let_def upd_worker_def upd_out_def at_loop_def
        start_slot_def zero_output_chunk_def)
  have 3: "ring_run demo s0 es (s\<lparr>workers := [w0]\<rparr>)"
    using worker_run_step [OF worker_run_step [OF assms(2) 1] 2(1)] .
  obtain w1 where 4: "at_loop 4096 w1" "ring_run demo s0 es (s\<lparr>workers := [w1]\<rparr>)"
    using lapse_loop [OF _ 2(2) _ 3, of 4096] s(3) by auto
  have 5: "worker_step demo 0 (s\<lparr>workers := [w1]\<rparr>) = Some (s\<lparr>workers := [w1\<lparr>w_pc := WDec\<rparr>]\<rparr>)"
    using 4(1) s by (simp add: at_loop_def worker_step_def Let_def upd_worker_def)
  have 6: "worker_step demo 0 (s\<lparr>workers := [w1\<lparr>w_pc := WDec\<rparr>]\<rparr>) =
      Some (set_counter 0 0 (s\<lparr>workers := [w1\<lparr>w_pc := WCheck\<rparr>]\<rparr>))"
    using 4(1) s by (simp add: at_loop_def worker_step_def Let_def upd_worker_def upd_chunk_def
        set_counter_def)
  show ?thesis
    using worker_run_step [OF worker_run_step [OF 4(2) 5] 6] 4(1)
    by (intro exI [of _ "w1\<lparr>w_pc := WCheck\<rparr>"]) (simp add: at_loop_def)
qed

section \<open>The lapse\<close>

lemma lapse_process:
  assumes "m_pc s = MProcess 0" and "m_gen s > 1" and "unat (input_count (chunks s ! m_idx s)) = n"
  shows "j \<le> n \<Longrightarrow> \<exists>es. main_run demo s es (s\<lparr>m_pc := MProcess j\<rparr>) \<and> length (processed es) = j \<and>
    published es = []"
proof (induction j)
  case 0
  have "s\<lparr>m_pc := MProcess 0\<rparr> = s"
    using assms(1) by (metis ring.surjective ring.update_convs(3))
  then show ?case
    using trace_run.start [of _ s] by (intro exI [of _ "[]"]) simp
next
  case (Suc j)
  then obtain es where es: "main_run demo s es (s\<lparr>m_pc := MProcess j\<rparr>)" "length (processed es) = j"
      "published es = []"
    by auto
  define e where "e = Processed (inputs (chunks s ! m_idx s) ! j)
    (map (\<lambda>w. outputs (out_chunks w ! m_idx s) ! j) (workers s))"
  have "main_step demo (s\<lparr>m_pc := MProcess j\<rparr>) = Some (s\<lparr>m_pc := MProcess (Suc j)\<rparr>, [e])"
    using assms(2,3) Suc.prems by (simp add: main_step_def Let_def e_def)
  from main_run_more [OF es(1) this] show ?case
    using es(2,3) by (intro exI [of _ "es @ [e]"]) (simp add: e_def)
qed

lemma lapse_last_fill:
  "\<exists>slots. fill_slots manual_candidate (lapse_env 0) (inputs ic) 0 = Some (slots, 0, True, lapse_env 0)"
  if "chunk_wf ic"
proof -
  have "lapse_env 0 = (lapse_env 0)\<lparr>stdin := []\<rparr>" "stdin (lapse_env 0) = manual_lines []"
    by (simp_all add: lapse_env_def manual_lines_def)
  moreover have "0 < length (inputs ic)" "\<forall>s \<in> set (inputs ic). input_slot_wf s"
    using that by (auto simp: chunk_wf_def const_simps)
  ultimately show ?thesis
    using fill_slots_manual [of "[]" "inputs ic" "lapse_env 0" 0] by auto
qed

text \<open>
  All sixteen chunks are published and the worker, alone in the ring, has signed off from the
  first. It still has to read the count of that chunk to see whether the inputs have ended.
\<close>

definition signed_off :: "ring \<Rightarrow> bool" where
  "signed_off s \<longleftrightarrow> (\<exists>w. workers s = [w] \<and> w_pc w = WCheck \<and> w_idx w = 0 \<and> \<not> sigchld w) \<and>
     m_pc s = MWait \<and> m_idx s = 0 \<and> m_gen s = 2 \<and> m_exit_idx s = 16 \<and> m_env s = lapse_env 0 \<and>
     length (chunks s) = 16 \<and> chunk_wf (chunks s ! 0) \<and> remaining_workers (chunks s ! 0) = 0 \<and>
     input_count (chunks s ! 0) = 4096 \<and> remaining_workers (chunks s ! 1) = 1"

lemma lapse_reaches:
  "\<exists>es s. ring_run demo lapse_start es s \<and> signed_off s \<and> processed es = [] \<and>
     map length (published es) = replicate 16 4096"
proof -
  obtain es s where 0: "ring_run demo lapse_start es s" "ring_filled 16 s" "processed es = []"
      "map length (published es) = replicate 16 4096"
    using lapse_all_filled [of 16] by auto
  obtain w where w: "w_pc w = WCheck" "w_idx w = 0" "\<not> sigchld w"
      "ring_run demo lapse_start es (set_counter 0 0 (s\<lparr>workers := [w]\<rparr>))"
    using lapse_signed_off [OF 0(2,1)] by blast
  have wf: "chunk_wf (chunks s ! 0)"
    using 0(2) by (simp add: ring_filled_def)
  have "signed_off (set_counter 0 0 (s\<lparr>workers := [w]\<rparr>))"
    using 0(2) w(1-3) wf [unfolded chunk_wf_def]
    by (auto simp: signed_off_def ring_filled_def chunk_wf_def set_counter_def upd_chunk_def)
  then show ?thesis
    using w(4) 0(3,4) by blast
qed

text \<open>The main loop finds the chunk finished, processes it and refills it with nothing.\<close>

lemma lapse_refilled:
  assumes "signed_off s"
  shows "\<exists>es s'. main_run demo s es s' \<and> workers s' = workers s \<and> m_pc s' = MWorkers \<and> m_idx s' = 0 \<and>
    m_gen s' = 2 \<and> length (chunks s') = 16 \<and> input_count (chunks s' ! 0) = 0 \<and>
    chunks s' ! 1 = chunks s ! 1 \<and> length (processed es) = 4096 \<and> published es = []"
proof -
  obtain w where w: "workers s = [w]" "\<not> sigchld w"
    and s: "m_pc s = MWait" "m_idx s = 0" "m_gen s = 2" "m_exit_idx s = 16" "m_env s = lapse_env 0"
      "length (chunks s) = 16" "chunk_wf (chunks s ! 0)" "remaining_workers (chunks s ! 0) = 0"
      "input_count (chunks s ! 0) = 4096"
    using assms by (auto simp: signed_off_def)
  have 1: "main_run demo s [] (s\<lparr>m_pc := MProcess 0\<rparr>)"
    using s w by (intro lapse_scan) auto
  obtain es where "main_run demo (s\<lparr>m_pc := MProcess 0\<rparr>) es (s\<lparr>m_pc := MProcess 4096\<rparr>)"
      "length (processed es) = 4096" "published es = []"
    using lapse_process [of "s\<lparr>m_pc := MProcess 0\<rparr>" 4096 4096] s by auto
  then have 2: "main_run demo s es (s\<lparr>m_pc := MProcess 4096\<rparr>)" "length (processed es) = 4096" "published es = []"
    using trace_run_trans [OF _ 1] by auto
  have "main_step demo (s\<lparr>m_pc := MProcess 4096\<rparr>) = Some (s\<lparr>m_pc := MFill\<rparr>, [])"
    using s by (simp add: main_step_def Let_def const_simps)
  with 2(1) have 3: "main_run demo s es (s\<lparr>m_pc := MFill\<rparr>)"
    by (rule main_run_silent)
  obtain slots where slots: "fill_slots manual_candidate (lapse_env 0) (inputs (chunks s ! 0)) 0 =
      Some (slots, 0, True, lapse_env 0)"
    using lapse_last_fill [OF s(7)] by auto
  define s' where "s' = s\<lparr>m_env := lapse_env 0, m_exit_idx := 0,
    chunks := (chunks s)[0 := (chunks s ! 0)\<lparr>inputs := slots, input_count := 0\<rparr>], m_pc := MWorkers\<rparr>"
  have "main_run demo (s\<lparr>m_pc := MFill\<rparr>) [] s'"
    using lapse_refill [of "s\<lparr>m_pc := MFill\<rparr>" slots 0 True "lapse_env 0"] s slots by (simp add: s'_def)
  from trace_run_trans [OF this 3] have "main_run demo s es s'"
    by simp
  then show ?thesis
    using 2(2,3) s by (intro exI [of _ es] exI [of _ s']) (simp add: s'_def)
qed

text \<open>The worker now finds the small count, and after the empty chunk is published nobody can move.\<close>

lemma lapse_locked:
  assumes "workers s = [w]" and "w_pc w = WCheck" and "w_idx w = 0" and "\<not> sigchld w"
    and "m_pc s = MWorkers" and "m_idx s = 0" and "m_gen s = 2" and "length (chunks s) = 16"
    and "input_count (chunks s ! 0) = 0" and "remaining_workers (chunks s ! 1) = 1"
  shows "\<exists>s1 s2. worker_step demo 0 s = Some s1 \<and> w_pc (workers s1 ! 0) = WExit \<and>
    main_run demo s1 [Published []] s2 \<and> \<not> can_step demo s2 \<and> m_pc s2 = MWait \<and> m_idx s2 = 1 \<and>
    m_gen s2 = 2 \<and> remaining_workers (chunks s2 ! 1) = 1 \<and> workers s2 = workers s1"
proof -
  define s1 where "s1 = s\<lparr>workers := [w\<lparr>w_pc := WExit\<rparr>]\<rparr>"
  have 1: "worker_step demo 0 s = Some s1"
    using assms by (simp add: worker_step_def Let_def s1_def const_simps upd_worker_def)
  define s2 where "s2 = s1\<lparr>chunks := (chunks s1)[0 := (chunks s1 ! 0)\<lparr>remaining_workers := 1,
      generation := of_nat (m_gen s1)\<rparr>], m_idx := 1, m_gen := 2, m_pc := MWait\<rparr>"
  have "m_pc s1 = MWorkers" "m_idx s1 = 0" "length (chunks s1) = 16" "m_gen s1 = 2"
      "input_count (chunks s1 ! 0) = 0"
    using assms by (simp_all add: s1_def)
  then have 2: "main_run demo s1 [Published []] s2"
    using lapse_publish [of s1] by (simp add: s2_def batch_def)
  have 3: "remaining_workers (chunks s2 ! 1) = 1" "workers s2 = [w\<lparr>w_pc := WExit\<rparr>]" "m_pc s2 = MWait"
      "m_idx s2 = 1" "m_gen s2 = 2"
    using assms by (simp_all add: s2_def s1_def)
  then have "\<not> can_step demo s2"
    using assms(4) by (auto simp: can_step_def main_step_def worker_step_def sigchld_handler_def Let_def demo_def)
  then show ?thesis
    using 1 2 3 by (intro exI [of _ s1] exI [of _ s2]) (simp add: s1_def)
qed

lemma lapse_run:
  "\<exists>es s. ring_run demo lapse_start es s \<and> \<not> can_step demo s \<and> m_pc s = MWait \<and> m_idx s = 1 \<and>
     m_gen s = 2 \<and> length (processed es) = 4096"
proof -
  obtain es s where 1: "ring_run demo lapse_start es s" "signed_off s" "processed es = []"
    using lapse_reaches by blast
  obtain es2 s2 where 2: "main_run demo s es2 s2" "workers s2 = workers s" "m_pc s2 = MWorkers"
      "m_idx s2 = 0" "m_gen s2 = 2" "length (chunks s2) = 16" "input_count (chunks s2 ! 0) = 0"
      "chunks s2 ! 1 = chunks s ! 1" "length (processed es2) = 4096"
    using lapse_refilled [OF 1(2)] by blast
  obtain s3 s4 where 3: "worker_step demo 0 s2 = Some s3" "main_run demo s3 [Published []] s4"
      "\<not> can_step demo s4" "m_pc s4 = MWait" "m_idx s4 = 1" "m_gen s4 = 2"
    using lapse_locked [of s2] 1(2) 2 by (auto simp: signed_off_def)
  have "ring_run demo lapse_start ((es @ es2) @ [Published []]) s4"
    using worker_run_step [OF main_run_ring [OF 2(1) 1(1)] 3(1)] by (rule main_run_ring [OF 3(2)])
  then show ?thesis
    using 1(3) 2(9) 3 by (intro exI [of _ "(es @ es2) @ [Published []]"] exI [of _ s4]) simp
qed

end
