(* ===== verification/Ring_Properties.thy ===== *)
theory Ring_Properties
  imports Ring_Lapse
begin

text \<open>
  The properties of the ring of chunks, over all its runs, with their instances at the runs of
  \<open>Ring_Lapse\<close>.
\<close>

section \<open>Properties\<close>

text \<open>C1: Every published input is processed exactly once and in order. At any moment of any run the
  inputs of the processed samples are a prefix of all the inputs made public so far; when the main
  loop has ended they are all of them. No crash, restart or interleaving loses, repeats or
  reorders an input.\<close>

theorem ring_processes_in_order:
  assumes "ring_initial u s0" and "ring_run u s0 es s"
  shows "(\<exists>rest. concat (published es) = map fst (processed es) @ rest) \<and>
    (m_pc s = MDone \<longrightarrow> map fst (processed es) = concat (published es))"
  using ring.run_inv [OF assms(2,1)] processed_prefix by blast

theorem ring_processes_in_order_witness:
  "\<exists>es s. ring_run demo demo_start es s \<and> length (concat (published es)) = 1 \<and>
    (\<exists>rest. concat (published es) = map fst (processed es) @ rest)"
proof -
  obtain s x where run: "ring_run demo demo_start [Published [x]] s"
    using demo_run by blast
  from ring_processes_in_order [OF demo_initial run] run show ?thesis
    by (intro exI [of _ "[Published [x]]"] exI [of _ s]) simp
qed

text \<open>C2: Every processed sample is complete: it has one output slot per worker, and each of them is
  what that worker's \<open>try_decode\<close> left for exactly this input when it started from a slot with its
  lengths reset, marked as a crash where the call did not return. No output of an earlier chunk or
  of another slot is ever processed in its place.\<close>

theorem ring_outputs_complete:
  assumes "ring_initial u s0" and "ring_run u s0 es s" and "(inp, outs) \<in> set (processed es)"
  shows "length outs = su_nworkers u \<and> (\<forall>i < su_nworkers u. \<exists>old r.
    su_decode u i (old\<lparr>out_len := 0, ndecoded := 0\<rparr>) inp = (True, r) \<and> outs ! i = r
    \<or> su_decode u i (old\<lparr>out_len := 0, ndecoded := 0\<rparr>) inp = (False, r) \<and>
      outs ! i = r\<lparr>status := S_CRASH\<rparr>)"
proof -
  obtain \<tau> where "ring_inv u \<tau> es s"
    using ring.run_inv [OF assms(2,1)] by blast
  then have "log_ok u (published es) (processed es) s"
    by (rule ring_invD)
  then have "length outs = su_nworkers u \<and> (\<forall>i < su_nworkers u. decoded u i inp (outs ! i))"
    using assms(3) by (auto simp: log_ok_def)
  then show ?thesis
    unfolding decoded_def cleared_slot_def by blast
qed

theorem ring_outputs_complete_witness:
  "\<exists>es s inp outs. ring_run demo lapse_start es s \<and> (inp, outs) \<in> set (processed es) \<and>
    length outs = 1 \<and> status (hd outs) = S_SUCCESS"
proof -
  obtain es s where run: "ring_run demo lapse_start es s" "length (processed es) = 4096"
    using lapse_run by blast
  then obtain inp outs where mem: "(inp, outs) \<in> set (processed es)"
    by (cases "processed es") auto
  have c: "length outs = 1 \<and> status (outs ! 0) = S_SUCCESS"
    using ring_outputs_complete [OF lapse_initial run(1) mem] by (auto simp: demo_def)
  then have "hd outs = outs ! 0"
    by (cases outs) auto
  then show ?thesis
    using run(1) mem c by (intro exI [of _ es] exI [of _ s] exI [of _ inp] exI [of _ outs]) simp
qed

text \<open>C3: The main loop and the workers never meet in a chunk. While the main loop writes a chunk
  (from the decision to refill it to the store of its generation) and while it reads a chunk's
  inputs and outputs to process them, no worker is between passing its wait for that chunk and
  signing off from it, crashed workers included.\<close>

theorem ring_excludes:
  assumes "ring_initial u s0" and "ring_run u s0 es s" and "i < su_nworkers u"
    and "w_pc (workers s ! i) \<notin> {WWait, WCheck, WExit}" and "w_idx (workers s ! i) = m_idx s"
  shows "m_pc s \<notin> {MFill, MWorkers, MGeneration} \<and> (\<forall>n. m_pc s \<noteq> MCount n) \<and>
    (m_gen s > 1 \<longrightarrow> (\<forall>k. m_pc s \<noteq> MProcess k))"
proof -
  obtain \<tau> where inv: "ring_inv u \<tau> es s"
    using ring.run_inv [OF assms(2,1)] by blast
  then have i: "i < length (workers s)" "in_chunk (workers s ! i)"
    using assms(3,4) by (auto simp: ring_inv_def workers_ok_def in_chunk_def)
  then have "\<not> filling (m_pc s)"
    using filling_exclusion [OF inv _ i] assms(5) by blast
  then show ?thesis
    using processing_exclusion [OF inv _ _ i] assms(5) by auto
qed

theorem ring_excludes_witness:
  "\<exists>es s. ring_run demo demo_start es s \<and> w_pc (workers s ! 0) = WStart \<and> m_pc s \<noteq> MFill"
proof -
  obtain es s where run: "ring_run demo demo_start es s" "m_idx s = 0" "w_pc (workers s ! 0) = WStart"
      "w_idx (workers s ! 0) = 0"
    using demo_run_entered by blast
  show ?thesis
    using ring_excludes [OF demo_initial run(1), of 0] run by (auto simp: demo_def)
qed

text \<open>C30: The counters mean what they should. In every chunk \<open>remaining_workers\<close> is at most the
  number of workers, and a worker that is inside a chunk and has not been taken out by the handler
  is still counted there, so neither its sign-off nor the handler's decrement ever wraps below
  zero.\<close>

theorem ring_counters_never_wrap:
  assumes "ring_initial u s0" and "ring_run u s0 es s"
  shows "(\<forall>c < 16. unat (remaining_workers (chunks s ! c)) \<le> su_nworkers u) \<and>
    (\<forall>i < su_nworkers u. w_pc (workers s ! i) \<notin> {WWait, WCheck, WExit, WReaped} \<longrightarrow>
       remaining_workers (chunks s ! w_idx (workers s ! i)) \<noteq> 0)"
proof -
  obtain \<tau> where inv: "ring_inv u \<tau> es s"
    using ring.run_inv [OF assms(2,1)] by blast
  have "remaining_workers (chunks s ! w_idx (workers s ! i)) \<noteq> 0"
    if "i < su_nworkers u" "w_pc (workers s ! i) \<notin> {WWait, WCheck, WExit, WReaped}" for i
    using that inv
    by (intro counter_positive [OF inv]) (cases "w_pc (workers s ! i)"; auto simp: ring_inv_def workers_ok_def)+
  then show ?thesis
    using counter_range [OF inv] by blast
qed

theorem ring_counters_never_wrap_witness:
  "\<exists>es s. ring_run demo demo_start es s \<and> w_pc (workers s ! 0) = WStart \<and>
    remaining_workers (chunks s ! w_idx (workers s ! 0)) \<noteq> 0"
proof -
  obtain es s where run: "ring_run demo demo_start es s" "w_pc (workers s ! 0) = WStart"
    using demo_run_entered by blast
  show ?thesis
    using ring_counters_never_wrap [OF demo_initial run(1)] run by (auto simp: demo_def)
qed

text \<open>C29: No deadlock while the input lasts. In every reachable state in which the mutator has not
  yet reported its end, some process can take a step; and in any reachable state in which none
  can, the main loop has ended or some worker has already left.\<close>

theorem ring_never_stuck:
  assumes "ring_initial u s0" and "ring_run u s0 es s" and "\<not> (\<exists>es' s'. ring_step u s es' s')"
  shows "m_exit_idx s \<noteq> MISHEGOS_NUM_CHUNKS \<and>
    (m_pc s = MDone \<or> (\<exists>i < su_nworkers u. w_pc (workers s ! i) = WExit))"
proof -
  obtain \<tau> where inv: "ring_inv u \<tau> es s" and ex: "exit_inv (published es) s"
    using leaving.run_inv [OF assms(2,1)] by blast
  have stuck: "m_pc s = MDone \<or> (\<exists>i < su_nworkers u. w_pc (workers s ! i) = WExit)"
    using stuck_cases [OF inv] assms(3) by (simp add: can_step_iff)
  moreover have "m_exit_idx s \<noteq> 16" if "m_pc s = MDone"
    using ring_invD(7) [OF inv] that by (auto simp: turns_ok_def split: if_splits)
  moreover have "m_exit_idx s \<noteq> 16" if "\<exists>i < su_nworkers u. w_pc (workers s ! i) = WExit"
    using ex that inv by (auto simp: exit_inv_def ring_inv_def workers_ok_def)
  ultimately show ?thesis
    by (auto simp: const_simps)
qed

theorem ring_never_stuck_witness:
  "\<exists>es s. ring_run demo lapse_start es s \<and> m_exit_idx s \<noteq> MISHEGOS_NUM_CHUNKS \<and>
    w_pc (workers s ! 0) = WExit"
proof -
  obtain es s where run: "ring_run demo lapse_start es s" "\<not> can_step demo s" "m_pc s = MWait"
    using lapse_run by blast
  then have "m_exit_idx s \<noteq> MISHEGOS_NUM_CHUNKS \<and>
      (m_pc s = MDone \<or> (\<exists>i < su_nworkers demo. w_pc (workers s ! i) = WExit))"
    by (intro ring_never_stuck [OF lapse_initial run(1)]) (simp add: can_step_iff)
  then show ?thesis
    using run by (auto simp: demo_def)
qed

text \<open>C31: The ring can lock up without any crash. One worker, whose calls all return, is given
  exactly sixteen full chunks of manual input. There is a run in which the worker has signed off
  from the first of them, still full, and would go on (its next step leads to the wait for the
  next chunk), but the main loop moves first: it processes the chunk and refills it with nothing.
  The worker's same step, which reads the count of the chunk only now, then takes it out of its
  loop. Once the empty chunk is published no process can take a step: the main loop waits for ever
  for the second chunk, and of the sixteen full chunks only the first has been processed.\<close>

theorem early_exit_locks_up:
  "ring_initial demo lapse_start \<and> su_nworkers demo = 1 \<and> su_mutator demo = Manual \<and>
   stdin (m_env lapse_start) = manual_lines (replicate (16 * 4096) [0x90]) \<and>
   (\<forall>i r inp. fst (su_decode demo i r inp)) \<and>
   (\<exists>es1 s1 es2 s2 s3 es3 s4.
      ring_run demo lapse_start es1 s1 \<and> w_pc (workers s1 ! 0) = WCheck \<and> w_idx (workers s1 ! 0) = 0 \<and>
      input_count (chunks s1 ! 0) = 4096 \<and>
      map_option (\<lambda>s. w_pc (workers s ! 0)) (worker_step demo 0 s1) = Some WWait \<and>
      trace_run (\<lambda>s es s'. main_step demo s = Some (s', es)) s1 es2 s2 \<and>
      w_pc (workers s2 ! 0) = WCheck \<and> input_count (chunks s2 ! 0) = 0 \<and>
      worker_step demo 0 s2 = Some s3 \<and> w_pc (workers s3 ! 0) = WExit \<and>
      trace_run (\<lambda>s es s'. main_step demo s = Some (s', es)) s3 es3 s4 \<and>
      m_pc s4 = MWait \<and> m_idx s4 = 1 \<and> remaining_workers (chunks s4 ! 1) = 1 \<and>
      \<not> (\<exists>es' s'. ring_step demo s4 es' s') \<and>
      map length (published (es1 @ es2 @ es3)) = replicate 16 4096 @ [0] \<and>
      length (processed (es1 @ es2 @ es3)) = 4096)"
proof -
  obtain es1 s1 where 1: "ring_run demo lapse_start es1 s1" "signed_off s1" "processed es1 = []"
      "map length (published es1) = replicate 16 4096"
    using lapse_reaches by blast
  have check: "map_option (\<lambda>s. w_pc (workers s ! 0)) (worker_step demo 0 s1) = Some WWait"
    using 1(2) by (auto simp: signed_off_def worker_step_def Let_def const_simps upd_worker_def)
  obtain es2 s2 where 2: "main_run demo s1 es2 s2" "workers s2 = workers s1" "m_pc s2 = MWorkers"
      "m_idx s2 = 0" "m_gen s2 = 2" "length (chunks s2) = 16" "input_count (chunks s2 ! 0) = 0"
      "chunks s2 ! 1 = chunks s1 ! 1" "length (processed es2) = 4096" "published es2 = []"
    using lapse_refilled [OF 1(2)] by blast
  obtain s3 s4 where 3: "worker_step demo 0 s2 = Some s3" "w_pc (workers s3 ! 0) = WExit"
      "main_run demo s3 [Published []] s4" "\<not> can_step demo s4" "m_pc s4 = MWait" "m_idx s4 = 1"
      "remaining_workers (chunks s4 ! 1) = 1"
    using lapse_locked [of s2] 1(2) 2 by (auto simp: signed_off_def)
  have given: "ring_initial demo lapse_start" "su_nworkers demo = 1" "su_mutator demo = Manual"
      "stdin (m_env lapse_start) = manual_lines (replicate (16 * 4096) [0x90])"
      "\<forall>i r inp. fst (su_decode demo i r inp)"
    using lapse_initial by (simp_all add: demo_def lapse_start_def ring_start_def lapse_env_def)
  have at: "w_pc (workers s1 ! 0) = WCheck" "w_idx (workers s1 ! 0) = 0" "input_count (chunks s1 ! 0) = 4096"
    using 1(2) by (auto simp: signed_off_def)
  have "published (es1 @ es2 @ [Published []]) = published es1 @ [[]]"
      "length (processed (es1 @ es2 @ [Published []])) = 4096"
    using 1(3) 2(9,10) by simp_all
  then show ?thesis
    using given 1(1,4) at check 2(1,2,7) 3 unfolding can_step_iff
    by (intro conjI exI [of _ es1] exI [of _ s1] exI [of _ es2] exI [of _ s2] exI [of _ s3]
      exI [of _ "[Published []]"] exI [of _ s4]) simp_all
qed

end
