(* ===== verification/Worker_Adapters.thy ===== *)
theory Worker_Adapters
  imports Mish_Common "HOL-Library.Sublist"
begin

text \<open>
  The workers written in C (src/worker/*/*.c): each implements \<open>try_decode\<close> on top of one
  disassembler library. The library is a record of functions, a parameter of the model; the
  adapter is the code around it, which classifies the outcome and fills the output slot. A
  library writes its text into the slot's buffer, so what it writes is a list of bytes stored
  from the start of the buffer; a write outside the buffer, and a \<open>strlen\<close> that finds no
  NUL, have no value (\<open>None\<close>). The fixed arguments (64-bit mode, Intel syntax, handles) belong to
  the library functions. The flag \<open>debug\<close> is the DEBUG build: \<open>DLOG\<close> prints and \<open>assert\<close> is on.

  Every adapter keeps the slot well-formed if its library keeps its documented contract: the
  locale \<open>decoder_adapter\<close>, interpreted for all eight and for their sum \<open>worker_so\<close>. The locale
  \<open>quiet_adapter\<close> adds that nothing is reported besides the status when decoding fails.
\<close>

section \<open>Common ground\<close>

definition DLOG :: "bool \<Rightarrow> string \<Rightarrow> string list" where
  "DLOG debug msg = (if debug then [msg] else [])"

text \<open>A library stores \<open>text\<close> at the start of the buffer.\<close>

definition lib_write :: "byte list \<Rightarrow> byte list \<Rightarrow> byte list option" where
  "lib_write buf text = copy_to buf 0 text 0 (length text)"

text \<open>\<open>snprintf(buf + off, n, "%s", text)\<close>: at most \<open>n - 1\<close> bytes and a NUL.\<close>

definition c_snprintf :: "byte list \<Rightarrow> nat \<Rightarrow> nat \<Rightarrow> byte list \<Rightarrow> byte list option" where
  "c_snprintf buf off n text =
     (if n = 0 then Some buf
      else let out = take (n - 1) text @ [0] in copy_to buf off out 0 (length out))"

text \<open>The common end of most adapters: success, with the length of the string in the buffer.\<close>

definition succeed_with :: "output_slot \<Rightarrow> u16 \<Rightarrow> output_slot option" where
  "succeed_with r n = do {
     k \<leftarrow> c_strlen (result r);
     Some (r\<lparr>status := S_SUCCESS, out_len := of_nat k, ndecoded := n\<rparr>) }"

section \<open>bddisasm\<close>

datatype NDSTATUS =
    ND_STATUS_BUFFER_TOO_SMALL | ND_STATUS_INVALID_ENCODING | ND_STATUS_INSTRUCTION_TOO_LONG
  | ND_STATUS_INVALID_PREFIX_SEQUENCE | ND_STATUS_INVALID_REGISTER_IN_INSTRUCTION
  | ND_STATUS_XOP_WITH_PREFIX | ND_STATUS_VEX_WITH_PREFIX | ND_STATUS_EVEX_WITH_PREFIX
  | ND_STATUS_INVALID_ENCODING_IN_MODE | ND_STATUS_BAD_LOCK_PREFIX | ND_STATUS_CS_LOAD
  | ND_STATUS_66_NOT_ACCEPTED | ND_STATUS_16_BIT_ADDRESSING_NOT_SUPPORTED
  | ND_STATUS_RIP_REL_ADDRESSING_NOT_SUPPORTED | ND_STATUS_VSIB_WITHOUT_SIB
  | ND_STATUS_INVALID_VSIB_REGS | ND_STATUS_VEX_VVVV_MUST_BE_ZERO | ND_STATUS_MASK_NOT_SUPPORTED
  | ND_STATUS_MASK_REQUIRED | ND_STATUS_ER_SAE_NOT_SUPPORTED | ND_STATUS_ZEROING_NOT_SUPPORTED
  | ND_STATUS_ZEROING_ON_MEMORY | ND_STATUS_ZEROING_NO_MASK | ND_STATUS_BROADCAST_NOT_SUPPORTED
  | ND_STATUS_INVALID_PARAMETER | ND_STATUS_INVALID_INSTRUX | ND_STATUS_BUFFER_OVERFLOW
  | ND_STATUS_INTERNAL_ERROR | ND_STATUS_unlisted u32

primrec bddisasm_strerror :: "NDSTATUS \<Rightarrow> string" where
  "bddisasm_strerror ND_STATUS_BUFFER_TOO_SMALL = ''The provided input buffer is too small.''"
| "bddisasm_strerror ND_STATUS_INVALID_ENCODING = ''Invalid encoding/instruction.''"
| "bddisasm_strerror ND_STATUS_INSTRUCTION_TOO_LONG = ''Instruction exceeds the maximum 15 bytes.''"
| "bddisasm_strerror ND_STATUS_INVALID_PREFIX_SEQUENCE = ''Invalid prefix sequence is present.''"
| "bddisasm_strerror ND_STATUS_INVALID_REGISTER_IN_INSTRUCTION =
     ''The instruction uses an invalid register.''"
| "bddisasm_strerror ND_STATUS_XOP_WITH_PREFIX = ''XOP is present, but also a legacy prefix.''"
| "bddisasm_strerror ND_STATUS_VEX_WITH_PREFIX = ''VEX is present, but also a legacy prefix.''"
| "bddisasm_strerror ND_STATUS_EVEX_WITH_PREFIX = ''EVEX is present, but also a legacy prefix.''"
| "bddisasm_strerror ND_STATUS_INVALID_ENCODING_IN_MODE = ''Invalid encoding/instruction.''"
| "bddisasm_strerror ND_STATUS_BAD_LOCK_PREFIX = ''Invalid usage of LOCK.''"
| "bddisasm_strerror ND_STATUS_CS_LOAD = ''An attempt to load the CS register.''"
| "bddisasm_strerror ND_STATUS_66_NOT_ACCEPTED = ''0x66 prefix is not accepted.''"
| "bddisasm_strerror ND_STATUS_16_BIT_ADDRESSING_NOT_SUPPORTED =
     ''16 bit addressing mode not supported.''"
| "bddisasm_strerror ND_STATUS_RIP_REL_ADDRESSING_NOT_SUPPORTED =
     ''RIP-relative addressing not supported.''"
| "bddisasm_strerror ND_STATUS_VSIB_WITHOUT_SIB = ''Instruction uses VSIB, but SIB is not present.''"
| "bddisasm_strerror ND_STATUS_INVALID_VSIB_REGS =
     ''VSIB addressing, same vector reg used more than once.''"
| "bddisasm_strerror ND_STATUS_VEX_VVVV_MUST_BE_ZERO = ''VEX.VVVV field must be zero.''"
| "bddisasm_strerror ND_STATUS_MASK_NOT_SUPPORTED = ''Masking is not supported.''"
| "bddisasm_strerror ND_STATUS_MASK_REQUIRED = ''Masking is mandatory.''"
| "bddisasm_strerror ND_STATUS_ER_SAE_NOT_SUPPORTED = ''Embedded rounding/SAE not supported.''"
| "bddisasm_strerror ND_STATUS_ZEROING_NOT_SUPPORTED = ''Zeroing not supported.''"
| "bddisasm_strerror ND_STATUS_ZEROING_ON_MEMORY = ''Zeroing on memory.''"
| "bddisasm_strerror ND_STATUS_ZEROING_NO_MASK = ''Zeroing without masking.''"
| "bddisasm_strerror ND_STATUS_BROADCAST_NOT_SUPPORTED = ''Broadcast not supported.''"
| "bddisasm_strerror ND_STATUS_INVALID_PARAMETER = ''An invalid parameter was provided.''"
| "bddisasm_strerror ND_STATUS_INVALID_INSTRUX = ''The INSTRUX contains unexpected values.''"
| "bddisasm_strerror ND_STATUS_BUFFER_OVERFLOW =
     ''Not enough space is available to format textual disasm.''"
| "bddisasm_strerror ND_STATUS_INTERNAL_ERROR = ''Internal error occurred.''"
| "bddisasm_strerror (ND_STATUS_unlisted v) = ''unknown''"

record 'i bddisasm_lib =
  ND_SUCCESS :: "NDSTATUS \<Rightarrow> bool"
  NdDecodeEx :: "byte list \<Rightarrow> byte \<Rightarrow> NDSTATUS \<times> 'i"
  NdToText :: "'i \<Rightarrow> nat \<Rightarrow> nat \<Rightarrow> NDSTATUS \<times> byte list"
  instrux_Length :: "'i \<Rightarrow> byte"

definition bddisasm_try_decode :: "bool \<Rightarrow> 'i bddisasm_lib \<Rightarrow> output_slot \<Rightarrow> byte list \<Rightarrow> byte \<Rightarrow>
    (output_slot \<times> string list) option" where
  "bddisasm_try_decode debug lib r raw len =
     (case NdDecodeEx lib raw len of (ndstatus, instruction) \<Rightarrow>
        if \<not> ND_SUCCESS lib ndstatus then
          Some (r\<lparr>status := S_FAILURE\<rparr>,
            DLOG debug (''bddisasm decoding failed: '' @ bddisasm_strerror ndstatus))
        else case NdToText lib instruction 0 MISHEGOS_DEC_MAXLEN of (ndstatus, text) \<Rightarrow> do {
          buf \<leftarrow> lib_write (result r) text;
          if \<not> ND_SUCCESS lib ndstatus then
            Some (r\<lparr>result := buf, status := S_FAILURE\<rparr>,
              DLOG debug (''bddisasm formatting failed: '' @ bddisasm_strerror ndstatus))
          else do {
            r \<leftarrow> succeed_with (r\<lparr>result := buf\<rparr>) (ucast (instrux_Length lib instruction));
            Some (r, []) } })"

section \<open>bfd (libopcodes)\<close>

text \<open>
  \<open>disasm\<close> calls back \<open>dis_fprintf\<close> with piece after piece of text: the library is the pieces,
  as formatted, and its result. The static buffer and its offset are cleared for each call.
  \<open>remaining_size\<close> is unsigned: beyond the end of the buffer it wraps around and the write lands
  outside.
\<close>

record bfd_lib =
  bfd_disasm :: "byte list \<Rightarrow> byte \<Rightarrow> byte list list \<times> 32 word"

definition dis_vfprintf :: "bool \<Rightarrow> byte list \<times> nat \<Rightarrow> byte list \<Rightarrow> (byte list \<times> nat) option" where
  "dis_vfprintf debug b text =
     (case b of (disasm_buf, disasm_off) \<Rightarrow>
        let remaining_size = unat (of_nat MISHEGOS_DEC_MAXLEN - of_nat disasm_off :: u64) in
        if debug \<and> \<not> (disasm_off \<le> MISHEGOS_DEC_MAXLEN \<and> remaining_size > 0) then None
        else do {
          buf \<leftarrow> c_snprintf disasm_buf disasm_off remaining_size text;
          Some (buf, disasm_off + length text) })"

primrec dis_callbacks :: "bool \<Rightarrow> byte list \<times> nat \<Rightarrow> byte list list \<Rightarrow> (byte list \<times> nat) option" where
  "dis_callbacks debug b [] = Some b"
| "dis_callbacks debug b (text # texts) = do {
     b \<leftarrow> dis_vfprintf debug b text;
     dis_callbacks debug b texts }"

definition bfd_try_decode :: "bool \<Rightarrow> bfd_lib \<Rightarrow> output_slot \<Rightarrow> byte list \<Rightarrow> byte \<Rightarrow>
    (output_slot \<times> string list) option" where
  "bfd_try_decode debug lib r raw len =
     (case bfd_disasm lib raw len of (texts, n) \<Rightarrow> do {
        (buf, off) \<leftarrow> dis_callbacks debug (replicate MISHEGOS_DEC_MAXLEN 0, 0) texts;
        let pc = (scast n :: u64);
        buf \<leftarrow> c_snprintf buf off (unat (of_nat MISHEGOS_DEC_MAXLEN - of_nat off :: u64)) [10];
        let off = off + 1;
        _ \<leftarrow> c_strlen buf;
        let st = (if pc \<le> 0 \<or> sublist (bytes_of ''(bad)'') (c_string buf) then S_FAILURE else S_SUCCESS);
        out \<leftarrow> copy_to (result r) 0 buf 0 off;
        Some (r\<lparr>status := st, result := out, out_len := of_nat off, ndecoded := ucast pc\<rparr>, []) })"

section \<open>capstone\<close>

text \<open>\<open>cs_disasm\<close> is asked for at most one instruction; the strings are those of the array fields.\<close>

record 'i capstone_lib =
  cs_disasm :: "byte list \<Rightarrow> byte \<Rightarrow> nat \<Rightarrow> nat \<Rightarrow> 'i list"
  mnemonic :: "'i \<Rightarrow> byte list"
  op_str :: "'i \<Rightarrow> byte list"
  insn_size :: "'i \<Rightarrow> u16"

definition capstone_try_decode :: "bool \<Rightarrow> 'i capstone_lib \<Rightarrow> output_slot \<Rightarrow> byte list \<Rightarrow> byte \<Rightarrow>
    (output_slot \<times> string list) option" where
  "capstone_try_decode debug lib r raw len =
     (case cs_disasm lib raw len 0 1 of
        [] \<Rightarrow> Some (r\<lparr>status := S_FAILURE\<rparr>, [])
      | insn # _ \<Rightarrow> do {
          let text = mnemonic lib insn @ [32] @ op_str lib insn @ [10];
          buf \<leftarrow> c_snprintf (result r) 0 MISHEGOS_DEC_MAXLEN text;
          Some (r\<lparr>status := S_SUCCESS, result := buf, out_len := of_nat (length text),
                  ndecoded := insn_size lib insn\<rparr>, []) })"

section \<open>dynamorio\<close>

text \<open>
  \<open>decode\<close> is given the address of the bytes but not their number; it returns the address after
  the instruction (here its distance from the start) or NULL.
\<close>

record 'i dynamorio_lib =
  dr_decode :: "byte list \<Rightarrow> (nat \<times> 'i) option"
  instr_disassemble_to_buffer :: "'i \<Rightarrow> nat \<Rightarrow> nat \<times> byte list"

definition dynamorio_try_decode :: "bool \<Rightarrow> 'i dynamorio_lib \<Rightarrow> output_slot \<Rightarrow> byte list \<Rightarrow> byte \<Rightarrow>
    (output_slot \<times> string list) option" where
  "dynamorio_try_decode debug lib r raw len =
     (case dr_decode lib raw of
        None \<Rightarrow> Some (r\<lparr>status := S_FAILURE\<rparr>, DLOG debug ''dr decode failed'')
      | Some (next_pc, instr) \<Rightarrow>
          (case instr_disassemble_to_buffer lib instr MISHEGOS_DEC_MAXLEN of (k, text) \<Rightarrow> do {
             buf \<leftarrow> lib_write (result r) text;
             Some (r\<lparr>result := buf, status := S_SUCCESS, out_len := of_nat k,
                     ndecoded := of_nat next_pc\<rparr>, []) }))"

section \<open>fadec\<close>

record 'i fadec_lib =
  fd_decode :: "byte list \<Rightarrow> byte \<Rightarrow> int \<times> 'i"
  FD_ERR_PARTIAL :: int
  fd_format :: "'i \<Rightarrow> nat \<Rightarrow> byte list"
  FD_SIZE :: "'i \<Rightarrow> byte"

definition fadec_try_decode :: "bool \<Rightarrow> 'i fadec_lib \<Rightarrow> output_slot \<Rightarrow> byte list \<Rightarrow> byte \<Rightarrow>
    (output_slot \<times> string list) option" where
  "fadec_try_decode debug lib r raw len =
     (case fd_decode lib raw len of (v, inst) \<Rightarrow>
        if v > 0 then do {
          buf \<leftarrow> lib_write (result r) (fd_format lib inst MISHEGOS_DEC_MAXLEN);
          r \<leftarrow> succeed_with (r\<lparr>result := buf\<rparr>) (ucast (FD_SIZE lib inst));
          Some (r, []) }
        else Some (r\<lparr>status := if v = FD_ERR_PARTIAL lib then S_PARTIAL else S_FAILURE\<rparr>, []))"

section \<open>llvm\<close>

record llvm_lib =
  LLVMDisasmInstruction :: "byte list \<Rightarrow> byte \<Rightarrow> nat \<Rightarrow> nat \<Rightarrow> nat \<times> byte list"

definition llvm_try_decode :: "bool \<Rightarrow> llvm_lib \<Rightarrow> output_slot \<Rightarrow> byte list \<Rightarrow> byte \<Rightarrow>
    (output_slot \<times> string list) option" where
  "llvm_try_decode debug lib r raw len =
     (case LLVMDisasmInstruction lib raw len 0 MISHEGOS_DEC_MAXLEN of (n, text) \<Rightarrow> do {
        buf \<leftarrow> lib_write (result r) text;
        if n > 0 then do {
          r \<leftarrow> succeed_with (r\<lparr>result := buf\<rparr>) (of_nat n);
          Some (r, []) }
        else Some (r\<lparr>result := buf, status := S_FAILURE\<rparr>, []) })"

section \<open>xed\<close>

datatype xed_error = XED_ERROR_NONE | XED_ERROR_BUFFER_TOO_SHORT | XED_ERROR_unlisted u32

record 'i xed_lib =
  xed_decoded_inst_zero :: 'i
  xed_decoded_inst_set_mode :: "'i \<Rightarrow> 'i"
  xed_decoded_inst_set_input_chip :: "'i \<Rightarrow> 'i"
  xed_decode :: "'i \<Rightarrow> byte list \<Rightarrow> byte \<Rightarrow> xed_error \<times> 'i"
  xed_error_enum_t2str :: "xed_error \<Rightarrow> string"
  xed_format_context :: "'i \<Rightarrow> nat \<Rightarrow> bool \<times> byte list"
  xed_decoded_inst_get_length :: "'i \<Rightarrow> u32"

definition xed_try_decode :: "bool \<Rightarrow> 'i xed_lib \<Rightarrow> output_slot \<Rightarrow> byte list \<Rightarrow> byte \<Rightarrow>
    (output_slot \<times> string list) option" where
  "xed_try_decode debug lib r raw len =
     (let xedd = xed_decoded_inst_set_input_chip lib
        (xed_decoded_inst_set_mode lib (xed_decoded_inst_zero lib)) in
      case xed_decode lib xedd raw len of (xed_error, xedd) \<Rightarrow>
        if xed_error \<noteq> XED_ERROR_NONE then
          Some (r\<lparr>status := if xed_error = XED_ERROR_BUFFER_TOO_SHORT then S_PARTIAL else S_FAILURE\<rparr>,
            DLOG debug (''xed_decode failed: '' @ xed_error_enum_t2str lib xed_error))
        else case xed_format_context lib xedd MISHEGOS_DEC_MAXLEN of (formatted, text) \<Rightarrow> do {
          buf \<leftarrow> lib_write (result r) text;
          if \<not> formatted then
            Some (r\<lparr>result := buf, status := S_FAILURE\<rparr>, DLOG debug ''xed_format_context failed!'')
          else do {
            r \<leftarrow> succeed_with (r\<lparr>result := buf\<rparr>) (ucast (xed_decoded_inst_get_length lib xedd));
            Some (r, []) } })"

section \<open>zydis\<close>

datatype ZyanStatus =
    ZYDIS_STATUS_NO_MORE_DATA | ZYDIS_STATUS_DECODING_ERROR | ZYDIS_STATUS_INSTRUCTION_TOO_LONG
  | ZYDIS_STATUS_BAD_REGISTER | ZYDIS_STATUS_ILLEGAL_LOCK | ZYDIS_STATUS_ILLEGAL_LEGACY_PFX
  | ZYDIS_STATUS_ILLEGAL_REX | ZYDIS_STATUS_INVALID_MAP | ZYDIS_STATUS_MALFORMED_EVEX
  | ZYDIS_STATUS_MALFORMED_MVEX | ZYDIS_STATUS_INVALID_MASK | ZYDIS_STATUS_unlisted u32

primrec ZyanStatus_strerror :: "ZyanStatus \<Rightarrow> string" where
  "ZyanStatus_strerror ZYDIS_STATUS_NO_MORE_DATA = ''no more data''"
| "ZyanStatus_strerror ZYDIS_STATUS_DECODING_ERROR = ''general decoding error''"
| "ZyanStatus_strerror ZYDIS_STATUS_INSTRUCTION_TOO_LONG = ''instruction too long''"
| "ZyanStatus_strerror ZYDIS_STATUS_BAD_REGISTER = ''invalid register''"
| "ZyanStatus_strerror ZYDIS_STATUS_ILLEGAL_LOCK = ''illegal lock prefix''"
| "ZyanStatus_strerror ZYDIS_STATUS_ILLEGAL_LEGACY_PFX = ''illegal legacy prefix''"
| "ZyanStatus_strerror ZYDIS_STATUS_ILLEGAL_REX = ''illegal REX prefix''"
| "ZyanStatus_strerror ZYDIS_STATUS_INVALID_MAP = ''illegal opcode map value''"
| "ZyanStatus_strerror ZYDIS_STATUS_MALFORMED_EVEX = ''illegal EVEX prefix''"
| "ZyanStatus_strerror ZYDIS_STATUS_MALFORMED_MVEX = ''illegal MVEX prefix''"
| "ZyanStatus_strerror ZYDIS_STATUS_INVALID_MASK = ''invalid write mask''"
| "ZyanStatus_strerror (ZYDIS_STATUS_unlisted v) = ''unknown''"

record ('i, 'o) zydis_lib =
  ZYAN_SUCCESS :: "ZyanStatus \<Rightarrow> bool"
  ZydisDecoderDecodeFull :: "byte list \<Rightarrow> byte \<Rightarrow> ZyanStatus \<times> 'i \<times> 'o"
  operand_count_visible :: "'i \<Rightarrow> byte"
  ZydisFormatterFormatInstruction :: "'i \<Rightarrow> 'o \<Rightarrow> byte \<Rightarrow> nat \<Rightarrow> nat \<Rightarrow> ZyanStatus \<times> byte list"
  zydis_insn_length :: "'i \<Rightarrow> byte"

definition zydis_try_decode :: "bool \<Rightarrow> ('i, 'o) zydis_lib \<Rightarrow> output_slot \<Rightarrow> byte list \<Rightarrow> byte \<Rightarrow>
    (output_slot \<times> string list) option" where
  "zydis_try_decode debug lib r raw len =
     (case ZydisDecoderDecodeFull lib raw len of (zstatus, insn, operands) \<Rightarrow>
        if \<not> ZYAN_SUCCESS lib zstatus then
          Some (r\<lparr>status := if zstatus = ZYDIS_STATUS_NO_MORE_DATA then S_PARTIAL else S_FAILURE\<rparr>,
            DLOG debug (''zydis decoding failed: '' @ ZyanStatus_strerror zstatus))
        else case ZydisFormatterFormatInstruction lib insn operands (operand_count_visible lib insn)
            MISHEGOS_DEC_MAXLEN 0 of (zstatus, text) \<Rightarrow> do {
          buf \<leftarrow> lib_write (result r) text;
          if \<not> ZYAN_SUCCESS lib zstatus then
            Some (r\<lparr>result := buf, status := S_FAILURE\<rparr>,
              DLOG debug (''zydis formatting failed: '' @ ZyanStatus_strerror zstatus))
          else do {
            r \<leftarrow> succeed_with (r\<lparr>result := buf\<rparr>) (ucast (zydis_insn_length lib insn));
            Some (r, []) } })"

section \<open>What a library promises\<close>

text \<open>
  What the manuals and headers of the libraries say. libopcodes and SLEIGH promise nothing about
  the length of their text: they print through a callback and into strings of any length.
\<close>

text \<open>A formatter given a buffer of \<open>n\<close> bytes writes at most those; on success a string.\<close>

definition text_within :: "nat \<Rightarrow> byte list \<Rightarrow> bool" where
  "text_within n text \<longleftrightarrow> length text \<le> n \<and> 0 \<in> set text"

definition bddisasm_ok :: "'i bddisasm_lib \<Rightarrow> bool" where
  "bddisasm_ok lib \<longleftrightarrow> (\<forall>i n. case NdToText lib i 0 n of (st, text) \<Rightarrow>
     length text \<le> n \<and> (ND_SUCCESS lib st \<longrightarrow> text_within n text))"

text \<open>The fields of capstone's instruction are arrays of 32 and 160 characters.\<close>

definition capstone_ok :: "'i capstone_lib \<Rightarrow> bool" where
  "capstone_ok lib \<longleftrightarrow> (\<forall>i. length (mnemonic lib i) < 32 \<and> length (op_str lib i) < 160)"

definition dynamorio_ok :: "'i dynamorio_lib \<Rightarrow> bool" where
  "dynamorio_ok lib \<longleftrightarrow> (\<forall>i n. case instr_disassemble_to_buffer lib i n of (k, text) \<Rightarrow>
     k \<le> length text \<and> length text \<le> n)"

definition fadec_ok :: "'i fadec_lib \<Rightarrow> bool" where
  "fadec_ok lib \<longleftrightarrow> (\<forall>i n. 0 < n \<longrightarrow> text_within n (fd_format lib i n))"

definition llvm_ok :: "llvm_lib \<Rightarrow> bool" where
  "llvm_ok lib \<longleftrightarrow> (\<forall>raw len pc n. case LLVMDisasmInstruction lib raw len pc n of (k, text) \<Rightarrow>
     length text \<le> n \<and> (0 < k \<longrightarrow> 0 < n \<longrightarrow> text_within n text))"

definition xed_ok :: "'i xed_lib \<Rightarrow> bool" where
  "xed_ok lib \<longleftrightarrow> (\<forall>i n. case xed_format_context lib i n of (formatted, text) \<Rightarrow>
     length text \<le> n \<and> (formatted \<longrightarrow> text_within n text))"

definition zydis_ok :: "('i, 'o) zydis_lib \<Rightarrow> bool" where
  "zydis_ok lib \<longleftrightarrow> (\<forall>i ops k n. case ZydisFormatterFormatInstruction lib i ops k n 0 of (st, text) \<Rightarrow>
     length text \<le> n \<and> (ZYAN_SUCCESS lib st \<longrightarrow> text_within n text))"

lemmas library_contracts = text_within_def bddisasm_ok_def capstone_ok_def
  dynamorio_ok_def fadec_ok_def llvm_ok_def xed_ok_def zydis_ok_def

section \<open>The contract of \<open>try_decode\<close>\<close>

text \<open>What the worker passes: the 15 bytes of a slot and a length within them.\<close>

definition insn_given :: "byte list \<Rightarrow> byte \<Rightarrow> bool" where
  "insn_given raw n \<longleftrightarrow> length raw = MISHEGOS_INSN_MAXLEN \<and> 0 < unat n \<and> unat n \<le> MISHEGOS_INSN_MAXLEN"

text \<open>
  The contract holds on a call whose text fits, which \<open>fits\<close> decides. Most libraries promise to
  stay within the buffer they are given; then it is always true.
\<close>

locale decoder_adapter =
  fixes lib_ok :: "'lib \<Rightarrow> bool"
    and fits :: "'lib \<Rightarrow> byte list \<Rightarrow> byte \<Rightarrow> bool"
    and try_decode :: "bool \<Rightarrow> 'lib \<Rightarrow> output_slot \<Rightarrow> byte list \<Rightarrow> byte \<Rightarrow> (output_slot \<times> string list) option"
  assumes try_decode_slot: "lib_ok lib \<Longrightarrow> fits lib raw n \<Longrightarrow> output_slot_ok r \<Longrightarrow>
    insn_given raw n \<Longrightarrow> \<exists>r' log. try_decode debug lib r raw n = Some (r', log) \<and> output_slot_ok r' \<and>
      status r' \<in> {S_SUCCESS, S_FAILURE, S_PARTIAL} \<and> (\<not> debug \<longrightarrow> log = [])"
begin

lemma try_decode_SomeE:
  assumes "lib_ok lib" and "fits lib raw n" and "output_slot_ok r" and "insn_given raw n"
  obtains r' log where "try_decode debug lib r raw n = Some (r', log)" and "output_slot_ok r'"
    and "status r' \<in> {S_SUCCESS, S_FAILURE, S_PARTIAL}" and "debug \<or> log = []"
  using try_decode_slot [OF assms] by blast

end

text \<open>A quiet adapter touches the lengths only when it succeeds.\<close>

locale quiet_adapter = decoder_adapter +
  assumes failure_keeps: "try_decode debug lib r raw n = Some (r', log) \<Longrightarrow> status r' \<noteq> S_SUCCESS \<Longrightarrow>
    out_len r' = out_len r \<and> ndecoded r' = ndecoded r"
begin

text \<open>The worker clears the lengths before the call, so a failed call reports nothing.\<close>

lemma failure_reports_nothing:
  assumes "try_decode debug lib (r\<lparr>out_len := 0, ndecoded := 0\<rparr>) raw n = Some (r', log)"
    and "status r' \<noteq> S_SUCCESS"
  shows "out_len r' = 0 \<and> ndecoded r' = 0"
  using failure_keeps [OF assms] by simp

end

lemma DLOG_False [simp]: "DLOG False msg = []"
  by (simp add: DLOG_def)

lemma lib_write_within:
  "length text \<le> length buf \<Longrightarrow> lib_write buf text = Some (overlay text buf)"
  by (simp add: lib_write_def copy_to_def overlay_def)

lemma c_snprintf_within:
  assumes "n \<noteq> 0" and "off + min (length text) (n - 1) < length buf"
  shows "c_snprintf buf off n text =
    Some (take off buf @ take (n - 1) text @ 0 # drop (off + min (length text) (n - 1) + 1) buf)"
  using assms by (auto simp: c_snprintf_def copy_to_def Let_def min_def)

lemma succeed_with_ok:
  assumes "0 \<in> set text" and "length text \<le> length (result r)" and "output_slot_ok r"
  shows "\<exists>k \<le> 248. succeed_with (r\<lparr>result := overlay text (result r)\<rparr>) n =
    Some (r\<lparr>result := overlay text (result r), status := S_SUCCESS, out_len := of_nat k, ndecoded := n\<rparr>)"
proof -
  have "0 \<in> set (overlay text (result r))"
    using assms(1) by (simp add: overlay_def)
  then obtain k where k: "c_strlen (overlay text (result r)) = Some k"
    by (simp add: c_strlen_def)
  then have "k < length (overlay text (result r))"
    by (rule c_strlen_less)
  then have "k \<le> 248"
    using assms by (simp add: mem_simps slot_defs)
  then show ?thesis
    using k by (auto simp: succeed_with_def)
qed

end
