(* ===== verification/Ghidra_Worker.thy ===== *)
theory Ghidra_Worker
  imports Worker_Adapters
begin

text \<open>
  The Ghidra worker (src/worker/ghidra/ghidra.cc) and the part of the SLEIGH engine that it runs,
  as adapted in src/worker/ghidra/sleighMishegos.cc: the load image over the bytes of one input,
  the single parser context without a cache, and the printing of one instruction. The parse of a
  buffer into a tree and the printing of trees are the SLEIGH library, a parameter; a C++
  exception it throws is an outcome, which leaves the parser context as it is at that moment.
\<close>

section \<open>The load image\<close>

record load_image =
  baseaddr :: u64
  img_length :: u32
  img_data :: "byte list"

definition START_ADDRESS :: u64 where
  "START_ADDRESS = 0"

text \<open>
  One turn of the loop of \<open>loadFill\<close>. The length is an \<open>int4\<close>: \<open>length - 1\<close> is sign-extended
  to the 64 bits of \<open>max\<close>, and the difference is cast back to an \<open>int4\<close> to index the data.
\<close>

definition load_byte :: "load_image \<Rightarrow> u64 \<Rightarrow> byte option" where
  "load_byte img curoff =
     (let max = baseaddr img + scast (img_length img - 1) in
      if curoff < baseaddr img \<or> curoff > max then Some 0
      else let diff = curoff - baseaddr img; i = (ucast diff :: u32) in
        if i <s 0 then None else peek (img_data img) (unat i))"

primrec load_loop :: "load_image \<Rightarrow> u64 \<Rightarrow> nat \<Rightarrow> nat \<Rightarrow> byte list \<Rightarrow> byte list option" where
  "load_loop img start i 0 ptr = Some ptr"
| "load_loop img start i (Suc n) ptr = do {
     b \<leftarrow> load_byte img (start + of_nat i);
     ptr \<leftarrow> poke ptr i b;
     load_loop img start (i + 1) n ptr }"

definition loadFill :: "load_image \<Rightarrow> byte list \<Rightarrow> nat \<Rightarrow> u64 \<Rightarrow> byte list option" where
  "loadFill img ptr n addr = load_loop img addr 0 n ptr"

definition setData :: "byte list \<Rightarrow> byte \<Rightarrow> load_image \<Rightarrow> load_image" where
  "setData ptr sz img = img\<lparr>img_data := ptr, img_length := ucast sz\<rparr>"

section \<open>The engine\<close>

datatype parse_state = uninitialized | disassembly | pcode

text \<open>The states are ordered by how much of the parse is there.\<close>

primrec parse_level :: "parse_state \<Rightarrow> nat" where
  "parse_level uninitialized = 0"
| "parse_level disassembly = 1"
| "parse_level pcode = 2"

record 'tree parser_context =
  pos_addr :: u64
  pos_state :: parse_state
  pos_buffer :: "byte list"
  pos_tree :: 'tree

record 'tree sleigh_lib =
  sleigh_parse :: "byte list \<Rightarrow> u64 \<Rightarrow> 'tree option"
  sleigh_handles :: "'tree \<Rightarrow> 'tree option"
  sleigh_length :: "'tree \<Rightarrow> u32"
  printMnemonic :: "'tree \<Rightarrow> byte list option"
  printBody :: "'tree \<Rightarrow> byte list option"

text \<open>
  What a call into the engine ends with: an error in memory (\<open>None\<close>), or whether it returned
  (\<open>Some\<close>) or threw (\<open>None\<close>), with the parser context it leaves.
\<close>

type_synonym ('a, 'tree) engine_result = "('a option \<times> 'tree parser_context) option"

definition resolve :: "'tree sleigh_lib \<Rightarrow> load_image \<Rightarrow> 'tree parser_context \<Rightarrow> (unit, 'tree) engine_result" where
  "resolve lib img pos = do {
     buf \<leftarrow> loadFill img (pos_buffer pos) 16 (pos_addr pos);
     let pos = pos\<lparr>pos_buffer := buf\<rparr>;
     Some (case sleigh_parse lib buf (pos_addr pos) of
         None \<Rightarrow> (None, pos)
       | Some t \<Rightarrow> (Some (), pos\<lparr>pos_tree := t, pos_state := disassembly\<rparr>)) }"

definition resolveHandles :: "'tree sleigh_lib \<Rightarrow> 'tree parser_context \<Rightarrow> (unit, 'tree) engine_result" where
  "resolveHandles lib pos =
     Some (case sleigh_handles lib (pos_tree pos) of
         None \<Rightarrow> (None, pos)
       | Some t \<Rightarrow> (Some (), pos\<lparr>pos_tree := t, pos_state := pcode\<rparr>))"

definition obtainContext :: "'tree sleigh_lib \<Rightarrow> load_image \<Rightarrow> u64 \<Rightarrow> parse_state \<Rightarrow>
    'tree parser_context \<Rightarrow> (unit, 'tree) engine_result" where
  "obtainContext lib img addr st pos =
     (let pos = pos\<lparr>pos_addr := addr, pos_state := uninitialized\<rparr>; curstate = pos_state pos in
      if parse_level curstate \<ge> parse_level st then Some (Some (), pos)
      else if curstate = uninitialized then do {
        (v, pos) \<leftarrow> resolve lib img pos;
        if v = None then Some (None, pos)
        else if st = disassembly then Some (Some (), pos)
        else resolveHandles lib pos }
      else resolveHandles lib pos)"

definition instructionLength :: "'tree sleigh_lib \<Rightarrow> load_image \<Rightarrow> u64 \<Rightarrow> 'tree parser_context \<Rightarrow>
    (u32, 'tree) engine_result" where
  "instructionLength lib img addr pos = do {
     (v, pos) \<leftarrow> obtainContext lib img addr disassembly pos;
     Some (map_option (\<lambda>_. sleigh_length lib (pos_tree pos)) v, pos) }"

text \<open>
  \<open>printAssembly\<close> hands the two strings to the emitter before it returns the length; here it
  returns all three.
\<close>

definition printAssembly :: "'tree sleigh_lib \<Rightarrow> load_image \<Rightarrow> u64 \<Rightarrow> 'tree parser_context \<Rightarrow>
    (byte list \<times> byte list \<times> u32, 'tree) engine_result" where
  "printAssembly lib img addr pos = do {
     (v, pos) \<leftarrow> obtainContext lib img addr disassembly pos;
     Some (case v of None \<Rightarrow> (None, pos)
       | Some _ \<Rightarrow> (case printMnemonic lib (pos_tree pos) of None \<Rightarrow> (None, pos)
         | Some mons \<Rightarrow> (case printBody lib (pos_tree pos) of None \<Rightarrow> (None, pos)
           | Some body \<Rightarrow> (Some (mons, body, sleigh_length lib (pos_tree pos)), pos)))) }"

section \<open>The worker\<close>

text \<open>\<open>AssemblyMishegos::dump\<close>: the text goes straight to the result.\<close>

definition ghidra_dump :: "output_slot \<Rightarrow> byte list \<Rightarrow> byte list \<Rightarrow> output_slot option" where
  "ghidra_dump r mnem body = do {
     let text = c_string mnem @ [32] @ c_string body @ [10];
     buf \<leftarrow> c_snprintf (result r) 0 MISHEGOS_DEC_MAXLEN text;
     Some (r\<lparr>status := S_SUCCESS, result := buf, out_len := of_nat (length text)\<rparr>) }"

record 'tree ghidra_state =
  g_loader :: load_image
  g_pos :: "'tree parser_context"

definition ghidra_decode :: "'tree sleigh_lib \<Rightarrow> 'tree ghidra_state \<Rightarrow> output_slot \<Rightarrow> byte list \<Rightarrow> byte \<Rightarrow>
    (output_slot \<times> 'tree ghidra_state) option" where
  "ghidra_decode lib g r raw len = do {
     let loader = setData raw len (g_loader g);
     (v, pos) \<leftarrow> printAssembly lib loader START_ADDRESS (g_pos g);
     let g = g\<lparr>g_loader := loader, g_pos := pos\<rparr>;
     case v of
       None \<Rightarrow> Some (r\<lparr>status := S_FAILURE\<rparr>, g)
     | Some (mnem, body, n) \<Rightarrow> do {
         r \<leftarrow> ghidra_dump r mnem body;
         Some (r\<lparr>ndecoded := ucast n\<rparr>, g) } }"

section \<open>What the load image delivers\<close>

lemma sint_small:
  assumes "unat w < 2 ^ 31"
  shows "sint (w :: u32) = int (unat w)"
proof -
  have u: "uint w = int (unat w)"
    by simp
  have "int (unat w) < int (2 ^ 31)"
    using assms by (simp only: of_nat_less_iff)
  then have "uint w < 2 ^ 31"
    unfolding u by (simp only: of_nat_power of_nat_numeral)
  moreover have "- (2 ^ 31) \<le> uint w"
    by (rule order_trans [OF _ uint_ge_0]) simp
  ultimately have "signed_take_bit 31 (uint w) = uint w"
    by (intro signed_take_bit_int_eq_self)
  moreover have "LENGTH(32) - 1 = 31"
    by simp
  ultimately show ?thesis
    unfolding sint_uint u by (simp only: One_nat_def)
qed

lemma scast_small: "unat w < 2 ^ 31 \<Longrightarrow> (scast (w :: u32) :: u64) = of_nat (unat w)"
  by (simp add: scast_eq sint_small)

lemma nonneg_small: "unat w < 2 ^ 31 \<Longrightarrow> \<not> (w :: u32) <s 0"
  by (simp add: word_sless_alt sint_small)

definition window_byte :: "load_image \<Rightarrow> u64 \<Rightarrow> byte" where
  "window_byte img a =
     (if unat (baseaddr img) \<le> unat a \<and> unat a < unat (baseaddr img) + unat (img_length img)
      then img_data img ! (unat a - unat (baseaddr img)) else 0)"

definition image_ok :: "load_image \<Rightarrow> bool" where
  "image_ok img \<longleftrightarrow> 0 < unat (img_length img) \<and> unat (img_length img) < 2 ^ 31 \<and>
     unat (img_length img) \<le> length (img_data img) \<and> unat (baseaddr img) + unat (img_length img) \<le> 2 ^ 64"

lemma load_byte_window:
  assumes "image_ok img"
  shows "load_byte img a = Some (window_byte img a)"
proof -
  let ?b = "unat (baseaddr img)" and ?n = "unat (img_length img)"
  have n: "0 < ?n" "?n < 2 ^ 31" "?n \<le> length (img_data img)" "?b + ?n \<le> 2 ^ 64"
    using assms by (simp_all add: image_ok_def)
  have pred: "unat (img_length img - 1) = ?n - 1"
    using n(1) by (subst unat_sub) (simp_all add: word_le_nat_alt)
  then have sc: "(scast (img_length img - 1) :: u64) = of_nat (?n - 1)"
    using n(2) by (subst scast_small) simp_all
  have unat_pred: "unat (of_nat (?n - 1) :: u64) = ?n - 1"
    using n(2) by (intro unat_of_nat_u64) simp
  have "unat (baseaddr img + of_nat (?n - 1)) = ?b + (?n - 1)"
    using n(1,4) unat_pred by (subst unat_add_lem [THEN iffD1]) simp_all
  then have out: "(a < baseaddr img \<or> a > baseaddr img + scast (img_length img - 1)) \<longleftrightarrow>
      \<not> (?b \<le> unat a \<and> unat a < ?b + ?n)"
    using n(1) unfolding sc word_less_nat_alt by linarith
  show ?thesis
  proof (cases "?b \<le> unat a \<and> unat a < ?b + ?n")
    case True
    then have d: "unat (a - baseaddr img) = unat a - ?b"
      by (intro unat_sub) (simp add: word_le_nat_alt)
    then have "unat (ucast (a - baseaddr img) :: u32) = unat a - ?b"
      using True n(2) unfolding unsigned_ucast_eq by (subst take_bit_nat_eq_self) auto
    moreover from this have "\<not> ucast (a - baseaddr img) <s (0 :: u32)"
      using True n(2) by (intro nonneg_small) (simp, linarith)
    moreover have "unat a - ?b < length (img_data img)"
      using True n(3) by linarith
    ultimately show ?thesis
      using True out by (simp add: load_byte_def Let_def window_byte_def peek_def)
  next
    case False
    then show ?thesis
      using out by (auto simp: load_byte_def Let_def window_byte_def)
  qed
qed

lemma load_loop_window:
  assumes "image_ok img"
  shows "i + n \<le> length ptr \<Longrightarrow> load_loop img start i n ptr =
    Some (take i ptr @ map (\<lambda>j. window_byte img (start + of_nat j)) [i..<i + n] @ drop (i + n) ptr)"
proof (induction n arbitrary: i ptr)
  case 0
  then show ?case by simp
next
  case (Suc n)
  let ?b = "window_byte img (start + of_nat i)"
  have "poke ptr i ?b = Some (ptr[i := ?b])"
    using Suc.prems by (simp add: poke_def)
  moreover have "take (i + 1) (ptr[i := ?b]) = take i ptr @ [?b]"
    using Suc.prems by (simp add: take_Suc_conv_app_nth)
  moreover have "[i..<i + Suc n] = i # [i + 1..<(i + 1) + n]"
    by (simp add: upt_rec)
  ultimately show ?case
    using Suc.IH [of "i + 1" "ptr[i := ?b]"] Suc.prems
    by (simp add: load_byte_window [OF assms])
qed

lemma loadFill_window:
  "image_ok img \<Longrightarrow> n \<le> length ptr \<Longrightarrow>
   loadFill img ptr n addr = Some (map (\<lambda>i. window_byte img (addr + of_nat i)) [0..<n] @ drop n ptr)"
  using load_loop_window [of img 0 n ptr addr] by (simp add: loadFill_def)

text \<open>The 16 bytes the engine parses at address 0: the input, then zeros.\<close>

definition padded_input :: "byte list \<Rightarrow> byte \<Rightarrow> byte list" where
  "padded_input raw len = take (unat len) raw @ replicate (16 - unat len) 0"

lemma loadFill_padded:
  assumes "baseaddr img = 0" and "0 < unat len" and "unat len \<le> length raw" and "unat len \<le> 16"
    and "length ptr = 16"
  shows "loadFill (setData raw len img) ptr 16 START_ADDRESS = Some (padded_input raw len)"
proof -
  have len: "unat (ucast len :: u32) = unat len"
    using assms(4) unfolding unsigned_ucast_eq by (subst take_bit_nat_eq_self) simp_all
  have img: "image_ok (setData raw len img)"
    using assms by (simp add: image_ok_def setData_def len)
  have "window_byte (setData raw len img) (of_nat i) = padded_input raw len ! i" if "i < 16" for i
    using that assms(1,3) unat_of_nat_u64 [of i]
    by (auto simp: window_byte_def setData_def len padded_input_def nth_append)
  then have "map (\<lambda>i. window_byte (setData raw len img) (of_nat i)) [0..<16] = padded_input raw len"
    using assms(3,4) by (intro nth_equalityI) (simp_all add: padded_input_def)
  then show ?thesis
    using assms(5) by (subst loadFill_window [OF img]) (simp_all add: START_ADDRESS_def)
qed

text \<open>A length of zero makes \<open>max\<close> wrap around: every offset is inside the window.\<close>

lemma load_loop_None:
  assumes "load_byte img (start + of_nat j) = None" and "i \<le> j" and "j < i + n"
  shows "load_loop img start i n ptr = None"
  using assms(2,3)
proof (induction n arbitrary: i ptr)
  case 0
  then show ?case by simp
next
  case (Suc n)
  then show ?case
  proof (cases "i = j")
    case True
    then show ?thesis
      using assms(1) by simp
  next
    case False
    then have "load_loop img start (i + 1) n ptr' = None" for ptr'
      using Suc.prems by (intro Suc.IH) simp_all
    then show ?thesis
      by (auto simp: bind_eq_None_conv)
  qed
qed

lemma loadFill_zero_length:
  assumes "baseaddr img = 0" and "length raw = 15"
  shows "loadFill (setData raw 0 img) ptr 16 START_ADDRESS = None"
proof -
  have "load_byte (setData raw 0 img) (START_ADDRESS + of_nat 15) = None"
    using assms
    by (simp add: load_byte_def setData_def START_ADDRESS_def scast_n1 peek_def)
  then show ?thesis
    unfolding loadFill_def by (rule load_loop_None) simp_all
qed

section \<open>One shot\<close>

text \<open>What a call answers, as a function of the padded input alone.\<close>

definition ghidra_outcome :: "'tree sleigh_lib \<Rightarrow> output_slot \<Rightarrow> byte list \<Rightarrow> output_slot option" where
  "ghidra_outcome lib r bytes =
     (case do {
        t \<leftarrow> sleigh_parse lib bytes START_ADDRESS;
        mnem \<leftarrow> printMnemonic lib t;
        body \<leftarrow> printBody lib t;
        Some (mnem, body, sleigh_length lib t) } of
       None \<Rightarrow> Some (r\<lparr>status := S_FAILURE\<rparr>)
     | Some (mnem, body, n) \<Rightarrow> do {
         r \<leftarrow> ghidra_dump r mnem body;
         Some (r\<lparr>ndecoded := ucast n\<rparr>) })"

definition ghidra_inv :: "'tree ghidra_state \<Rightarrow> bool" where
  "ghidra_inv g \<longleftrightarrow> baseaddr (g_loader g) = START_ADDRESS \<and> length (pos_buffer (g_pos g)) = 16"

lemma ghidra_decode_outcome:
  assumes "ghidra_inv g" and "0 < unat len" and "unat len \<le> length raw" and "unat len \<le> 16"
  shows "\<exists>g'. ghidra_inv g' \<and>
    ghidra_decode lib g r raw len = map_option (\<lambda>r. (r, g')) (ghidra_outcome lib r (padded_input raw len))"
proof -
  let ?bytes = "padded_input raw len" and ?img = "setData raw len (g_loader g)"
  let ?pos = "(g_pos g)\<lparr>pos_addr := START_ADDRESS, pos_state := uninitialized, pos_buffer := ?bytes\<rparr>"
  have fill: "loadFill ?img (pos_buffer (g_pos g)) 16 START_ADDRESS = Some ?bytes"
    using assms by (intro loadFill_padded) (simp_all add: ghidra_inv_def START_ADDRESS_def)
  have img: "baseaddr ?img = START_ADDRESS"
    using assms(1) by (simp add: setData_def ghidra_inv_def)
  have bytes: "length ?bytes = 16"
    using assms(3,4) by (simp add: padded_input_def)
  show ?thesis
  proof (cases "sleigh_parse lib ?bytes START_ADDRESS")
    case None
    then show ?thesis
      using fill img bytes
      by (intro exI [of _ "g\<lparr>g_loader := ?img, g_pos := ?pos\<rparr>"])
        (simp add: ghidra_decode_def printAssembly_def obtainContext_def resolve_def ghidra_outcome_def
          ghidra_inv_def Let_def)
  next
    case (Some t)
    then show ?thesis
      using fill img bytes
      by (intro exI [of _ "g\<lparr>g_loader := ?img, g_pos := ?pos\<lparr>pos_tree := t, pos_state := disassembly\<rparr>\<rparr>"])
        (auto simp: ghidra_decode_def printAssembly_def obtainContext_def resolve_def ghidra_outcome_def
          ghidra_inv_def Let_def split: option.splits prod.splits Option.bind_splits)
  qed
qed

end
