(* ===== verification/Adapter_Contracts.thy ===== *)
theory Adapter_Contracts
  imports Ghidra_Worker
begin

text \<open>
  The nine adapters keep the contract of \<open>try_decode\<close>: the interpretations of
  \<open>decoder_adapter\<close> and, except for bfd, of \<open>quiet_adapter\<close>. The sum \<open>worker_so\<close> of the adapters is
  what a worker process has loaded; it keeps the contract as well. Then the properties of single
  adapters.
\<close>

section \<open>bfd's buffer\<close>

lemma remaining_size:
  "off \<le> 248 \<Longrightarrow> unat (248 - of_nat off :: u64) = 248 - off"
  by (subst unat_sub) (simp_all add: word_le_nat_alt unat_of_nat)

text \<open>The buffer while the text fits: what has been printed, then zeros.\<close>

definition text_buf :: "byte list \<Rightarrow> byte list" where
  "text_buf t = t @ replicate (248 - length t) 0"

lemma length_text_buf: "length t \<le> 248 \<Longrightarrow> length (text_buf t) = 248"
  by (simp add: text_buf_def)

lemma c_snprintf_append:
  assumes "length t + length x < 248"
  shows "c_snprintf (text_buf t) (length t) (248 - length t) x = Some (text_buf (t @ x))"
proof -
  have "Suc (248 - length t - Suc (length x)) = 248 - (length t + length x)"
    using assms by simp
  then have "replicate (248 - (length t + length x)) (0 :: byte)
      = 0 # replicate (248 - length t - Suc (length x)) 0"
    by (metis replicate_Suc)
  then show ?thesis
    using assms by (subst c_snprintf_within) (simp_all add: text_buf_def min_def)
qed

lemma dis_vfprintf_fits:
  "length t + length x < 248 \<Longrightarrow>
   dis_vfprintf debug (text_buf t, length t) x = Some (text_buf (t @ x), length (t @ x))"
  by (simp add: dis_vfprintf_def remaining_size c_snprintf_append)

lemma dis_callbacks_fit:
  "length t + length (concat texts) < 248 \<Longrightarrow>
   dis_callbacks debug (text_buf t, length t) texts =
     Some (text_buf (t @ concat texts), length (t @ concat texts))"
proof (induction texts arbitrary: t)
  case Nil
  then show ?case by simp
next
  case (Cons x texts)
  then show ?case
    using Cons.IH [of "t @ x"] dis_vfprintf_fits [of t x debug] by simp
qed

text \<open>The whole adapter on a library that printed at most 247 bytes.\<close>

lemma text_buf_Nil: "text_buf [] = replicate 248 0"
  by (simp add: text_buf_def)

lemma bfd_newline:
  "length t < 247 \<Longrightarrow> c_snprintf (text_buf t) (length t) (248 - length t) [10] = Some (text_buf (t @ [10]))"
  by (rule c_snprintf_append) simp

lemma bfd_newline_lost:
  assumes "length t = 247"
  shows "c_snprintf (text_buf t) (length t) (248 - length t) [10] = Some (text_buf t)"
  using assms by (subst c_snprintf_within) (simp_all add: text_buf_def)

definition bfd_line :: "byte list \<Rightarrow> byte list" where
  "bfd_line t = (if length t < 247 then t @ [10] else t)"

lemma c_string_zeros: "c_string (l @ 0 # rest) = c_string l"
  unfolding c_string_def by (induction l) simp_all

lemma copy_to_prefix:
  assumes "n \<le> length l + 1" and "n \<le> length dst"
  shows "copy_to dst 0 (l @ z # rest) 0 n = Some (overlay (take n (l @ [z])) dst)"
proof -
  have "take n (l @ z # rest) = take n ((l @ [z]) @ rest)"
    by simp
  also have "\<dots> = take n (l @ [z])"
    using assms(1) by (subst take_append) simp
  finally have "take n (l @ z # rest) = take n (l @ [z])" .
  moreover have "min (length l) n + (n - length l) = n"
    by (simp add: min_def)
  ultimately show ?thesis
    using assms by (simp add: copy_to_def overlay_def)
qed

lemma scast_pc_0: "(scast (w :: u32) :: u64) = 0 \<longleftrightarrow> w = 0"
proof
  have "is_up (scast :: u32 \<Rightarrow> u64)"
    by (simp add: is_up)
  then have up: "(scast (scast w :: u64) :: u32) = w"
    by (rule scast_up_scast_id)
  assume "(scast w :: u64) = 0"
  then show "w = 0"
    using up by simp
qed simp

lemma bfd_try_decode_fits:
  assumes "length (result r) = 248" and "bfd_disasm lib raw n = (texts, pc)"
    and "length (concat texts) < 248"
  shows "bfd_try_decode debug lib r raw n = Some (r\<lparr>
    status := if pc = 0 \<or> sublist (bytes_of ''(bad)'') (c_string (bfd_line (concat texts)))
              then S_FAILURE else S_SUCCESS,
    result := overlay (take (length (concat texts) + 1) (bfd_line (concat texts) @ [0])) (result r),
    out_len := of_nat (length (concat texts) + 1), ndecoded := ucast (scast pc :: u64)\<rparr>, [])"
proof -
  define t where "t = concat texts"
  have t: "length t < 248"
    using assms(3) by (simp add: t_def)
  have calls: "dis_callbacks debug (replicate 248 0, 0) texts = Some (text_buf t, length t)"
    using dis_callbacks_fit [of "[]" texts debug] t by (simp add: text_buf_Nil t_def)
  have nl: "c_snprintf (text_buf t) (length t) (248 - length t) [10] = Some (text_buf (bfd_line t))"
    using t bfd_newline_lost [of t] by (cases "length t = 247") (auto simp: bfd_line_def intro: bfd_newline)
  define l where "l = bfd_line t"
  have l: "length l < 248" "length t + 1 \<le> length l + 1"
    using t by (auto simp: l_def bfd_line_def)
  then have "248 - length l = Suc (247 - length l)"
    by linarith
  then have zs: "replicate (248 - length l) (0 :: byte) = 0 # replicate (247 - length l) 0"
    by (simp only: replicate_Suc)
  have buf: "text_buf l = l @ 0 # replicate (247 - length l) 0"
    by (simp only: text_buf_def zs)
  obtain k where "c_strlen (text_buf l) = Some k"
    by (simp add: buf c_strlen_def)
  moreover have "c_string (text_buf l) = c_string l"
    by (simp add: buf c_string_zeros)
  moreover have "copy_to (result r) 0 (text_buf l) 0 (length t + 1) =
      Some (overlay (take (length t + 1) (l @ [0])) (result r))"
    using l t assms(1) copy_to_prefix [of "length t + 1" l "result r" 0] by (simp add: buf)
  ultimately show ?thesis
    using assms(2) t calls nl
    by (simp add: bfd_try_decode_def remaining_size scast_pc_0 t_def [symmetric] l_def [symmetric]
        split: option.split)
qed


section \<open>The contract holds for each adapter\<close>

lemma c_snprintf_whole:
  "length buf = 248 \<Longrightarrow> \<exists>buf'. c_snprintf buf 0 248 out = Some buf' \<and> length buf' = 248"
  by (auto simp: c_snprintf_def copy_to_def)

lemma failed_slot_ok: "output_slot_ok r \<Longrightarrow> output_slot_ok (r\<lparr>status := st\<rparr>)"
  by (simp add: slot_defs)

lemma written_slot_ok:
  "output_slot_ok r \<Longrightarrow> length out \<le> 248 \<Longrightarrow>
   lib_write (result r) out = Some (overlay out (result r)) \<and>
   output_slot_ok (r\<lparr>result := overlay out (result r), status := st\<rparr>)"
  by (simp add: slot_defs lib_write_within mem_simps)

lemma succeeded_slot_ok:
  assumes "output_slot_ok r" and "text_within 248 out"
  shows "\<exists>r'. succeed_with (r\<lparr>result := overlay out (result r)\<rparr>) n = Some r' \<and> output_slot_ok r' \<and>
    status r' = S_SUCCESS"
  using succeed_with_ok [of out r n] assms
  by (auto simp: slot_defs text_within_def mem_simps unat_of_nat)

lemmas adapter_slot_ok = failed_slot_ok written_slot_ok succeeded_slot_ok

lemma succeed_with_status: "succeed_with r n = Some r' \<Longrightarrow> status r' = S_SUCCESS"
  by (auto simp: succeed_with_def split: Option.bind_splits)

interpretation bddisasm: quiet_adapter bddisasm_ok "\<lambda>_ _ _. True" bddisasm_try_decode
proof unfold_locales
  fix lib :: "'i bddisasm_lib" and r raw n debug
  assume lib: "bddisasm_ok lib" and r: "output_slot_ok r"
  obtain st i where dec: "NdDecodeEx lib raw n = (st, i)"
    by (cases "NdDecodeEx lib raw n")
  obtain st2 out where fmt: "NdToText lib i 0 248 = (st2, out)"
    by (cases "NdToText lib i 0 248")
  have within: "length out \<le> 248" "ND_SUCCESS lib st2 \<Longrightarrow> text_within 248 out"
    using lib [unfolded bddisasm_ok_def, rule_format, where n = 248 and i = i] fmt by auto
  show "\<exists>r' log. bddisasm_try_decode debug lib r raw n = Some (r', log) \<and> output_slot_ok r' \<and>
      status r' \<in> {S_SUCCESS, S_FAILURE, S_PARTIAL} \<and> (\<not> debug \<longrightarrow> log = [])"
  proof (cases "ND_SUCCESS lib st \<and> ND_SUCCESS lib st2")
    case True
    then show ?thesis
      using succeeded_slot_ok [OF r within(2), of "ucast (instrux_Length lib i)"] written_slot_ok [OF r within(1)]
      by (auto simp: bddisasm_try_decode_def dec fmt)
  next
    case False
    then show ?thesis
      using written_slot_ok [OF r within(1)] failed_slot_ok [OF r]
      by (auto simp: bddisasm_try_decode_def dec fmt)
  qed
next
  show "out_len r' = out_len r \<and> ndecoded r' = ndecoded r"
    if "bddisasm_try_decode debug lib r raw n = Some (r', log)" and "status r' \<noteq> S_SUCCESS"
    for debug and lib :: "'i bddisasm_lib" and r raw n r' log
    using that by (auto simp: bddisasm_try_decode_def dest: succeed_with_status
        split: prod.splits if_splits Option.bind_splits)
qed


interpretation fadec: quiet_adapter fadec_ok "\<lambda>_ _ _. True" fadec_try_decode
proof unfold_locales
  fix lib :: "'i fadec_lib" and r raw n debug
  assume lib: "fadec_ok lib" and r: "output_slot_ok r"
  obtain v i where dec: "fd_decode lib raw n = (v, i)"
    by (cases "fd_decode lib raw n")
  have "text_within 248 (fd_format lib i 248)"
    using lib by (simp add: fadec_ok_def)
  then show "\<exists>r' log. fadec_try_decode debug lib r raw n = Some (r', log) \<and> output_slot_ok r' \<and>
      status r' \<in> {S_SUCCESS, S_FAILURE, S_PARTIAL} \<and> (\<not> debug \<longrightarrow> log = [])"
    using succeeded_slot_ok [OF r, of "fd_format lib i 248" "ucast (FD_SIZE lib i)"] failed_slot_ok [OF r]
      written_slot_ok [OF r, of "fd_format lib i 248"]
    by (auto simp: fadec_try_decode_def dec text_within_def)
next
  show "out_len r' = out_len r \<and> ndecoded r' = ndecoded r"
    if "fadec_try_decode debug lib r raw n = Some (r', log)" and "status r' \<noteq> S_SUCCESS"
    for debug and lib :: "'i fadec_lib" and r raw n r' log
    using that by (auto simp: fadec_try_decode_def dest: succeed_with_status
        split: prod.splits if_splits Option.bind_splits)
qed

interpretation llvm: quiet_adapter llvm_ok "\<lambda>_ _ _. True" llvm_try_decode
proof unfold_locales
  fix lib r raw n debug
  assume lib: "llvm_ok lib" and r: "output_slot_ok r"
  obtain k out where dec: "LLVMDisasmInstruction lib raw n 0 248 = (k, out)"
    by (cases "LLVMDisasmInstruction lib raw n 0 248")
  have within: "length out \<le> 248" "0 < k \<Longrightarrow> text_within 248 out"
    using lib [unfolded llvm_ok_def, rule_format, where n = 248 and raw = raw and len = n and pc = 0] dec by auto
  show "\<exists>r' log. llvm_try_decode debug lib r raw n = Some (r', log) \<and> output_slot_ok r' \<and>
      status r' \<in> {S_SUCCESS, S_FAILURE, S_PARTIAL} \<and> (\<not> debug \<longrightarrow> log = [])"
    using succeeded_slot_ok [OF r within(2), of "of_nat k"] written_slot_ok [OF r within(1)]
    by (auto simp: llvm_try_decode_def dec)
next
  show "out_len r' = out_len r \<and> ndecoded r' = ndecoded r"
    if "llvm_try_decode debug lib r raw n = Some (r', log)" and "status r' \<noteq> S_SUCCESS"
    for debug lib r raw n r' log
    using that by (auto simp: llvm_try_decode_def dest: succeed_with_status
        split: prod.splits if_splits Option.bind_splits)
qed

interpretation xed: quiet_adapter xed_ok "\<lambda>_ _ _. True" xed_try_decode
proof unfold_locales
  fix lib :: "'i xed_lib" and r raw n debug
  assume lib: "xed_ok lib" and r: "output_slot_ok r"
  define x0 where "x0 = xed_decoded_inst_set_input_chip lib
    (xed_decoded_inst_set_mode lib (xed_decoded_inst_zero lib))"
  obtain e i where dec: "xed_decode lib x0 raw n = (e, i)"
    by (cases "xed_decode lib x0 raw n")
  obtain good out where fmt: "xed_format_context lib i 248 = (good, out)"
    by (cases "xed_format_context lib i 248")
  have within: "length out \<le> 248" "good \<Longrightarrow> text_within 248 out"
    using lib [unfolded xed_ok_def, rule_format, where n = 248 and i = i] fmt by auto
  show "\<exists>r' log. xed_try_decode debug lib r raw n = Some (r', log) \<and> output_slot_ok r' \<and>
      status r' \<in> {S_SUCCESS, S_FAILURE, S_PARTIAL} \<and> (\<not> debug \<longrightarrow> log = [])"
    using succeeded_slot_ok [OF r within(2), of "ucast (xed_decoded_inst_get_length lib i)"]
      written_slot_ok [OF r within(1)] failed_slot_ok [OF r]
    by (auto simp: xed_try_decode_def x0_def [symmetric] dec fmt)
next
  show "out_len r' = out_len r \<and> ndecoded r' = ndecoded r"
    if "xed_try_decode debug lib r raw n = Some (r', log)" and "status r' \<noteq> S_SUCCESS"
    for debug and lib :: "'i xed_lib" and r raw n r' log
    using that by (auto simp: xed_try_decode_def Let_def dest: succeed_with_status
        split: prod.splits if_splits Option.bind_splits)
qed

interpretation zydis: quiet_adapter zydis_ok "\<lambda>_ _ _. True" zydis_try_decode
proof unfold_locales
  fix lib :: "('i, 'o) zydis_lib" and r raw n debug
  assume lib: "zydis_ok lib" and r: "output_slot_ok r"
  obtain st i ops where dec: "ZydisDecoderDecodeFull lib raw n = (st, i, ops)"
    by (cases "ZydisDecoderDecodeFull lib raw n")
  obtain st2 out where fmt:
      "ZydisFormatterFormatInstruction lib i ops (operand_count_visible lib i) 248 0 = (st2, out)"
    by (cases "ZydisFormatterFormatInstruction lib i ops (operand_count_visible lib i) 248 0")
  have within: "length out \<le> 248" "ZYAN_SUCCESS lib st2 \<Longrightarrow> text_within 248 out"
    using lib [unfolded zydis_ok_def, rule_format, where n = 248 and i = i and ops = ops and k = "operand_count_visible lib i"] fmt
    by auto
  show "\<exists>r' log. zydis_try_decode debug lib r raw n = Some (r', log) \<and> output_slot_ok r' \<and>
      status r' \<in> {S_SUCCESS, S_FAILURE, S_PARTIAL} \<and> (\<not> debug \<longrightarrow> log = [])"
    using succeeded_slot_ok [OF r within(2), of "ucast (zydis_insn_length lib i)"]
      written_slot_ok [OF r within(1)] failed_slot_ok [OF r]
    by (auto simp: zydis_try_decode_def dec fmt)
next
  show "out_len r' = out_len r \<and> ndecoded r' = ndecoded r"
    if "zydis_try_decode debug lib r raw n = Some (r', log)" and "status r' \<noteq> S_SUCCESS"
    for debug and lib :: "('i, 'o) zydis_lib" and r raw n r' log
    using that by (auto simp: zydis_try_decode_def dest: succeed_with_status
        split: prod.splits if_splits Option.bind_splits)
qed

interpretation capstone: quiet_adapter capstone_ok "\<lambda>_ _ _. True" capstone_try_decode
proof unfold_locales
  fix lib :: "'i capstone_lib" and r raw n debug
  assume lib: "capstone_ok lib" and r: "output_slot_ok r"
  show "\<exists>r' log. capstone_try_decode debug lib r raw n = Some (r', log) \<and> output_slot_ok r' \<and>
      status r' \<in> {S_SUCCESS, S_FAILURE, S_PARTIAL} \<and> (\<not> debug \<longrightarrow> log = [])"
  proof (cases "cs_disasm lib raw n 0 1")
    case Nil
    then show ?thesis
      using failed_slot_ok [OF r] by (simp add: capstone_try_decode_def)
  next
    case (Cons i rest)
    define out where "out = mnemonic lib i @ [32] @ op_str lib i @ [10]"
    have "length (mnemonic lib i) < 32" "length (op_str lib i) < 160"
      using lib by (simp_all add: capstone_ok_def)
    then have "length out \<le> 192"
      by (simp add: out_def)
    moreover obtain buf where "c_snprintf (result r) 0 248 out = Some buf" "length buf = 248"
      using c_snprintf_whole [of "result r" out] r by (auto simp: slot_defs)
    moreover have "capstone_try_decode debug lib r raw n = do {
        buf \<leftarrow> c_snprintf (result r) 0 248 out;
        Some (r\<lparr>status := S_SUCCESS, result := buf, out_len := of_nat (length out),
                ndecoded := insn_size lib i\<rparr>, []) }"
      by (simp only: capstone_try_decode_def Cons list.case Let_def out_def const_simps)
    ultimately show ?thesis
      using r by (simp add: slot_defs unat_of_nat)
  qed
next
  show "out_len r' = out_len r \<and> ndecoded r' = ndecoded r"
    if "capstone_try_decode debug lib r raw n = Some (r', log)" and "status r' \<noteq> S_SUCCESS"
    for debug and lib :: "'i capstone_lib" and r raw n r' log
    using that by (auto simp: capstone_try_decode_def Let_def split: list.splits Option.bind_splits)
qed

interpretation dynamorio: quiet_adapter dynamorio_ok "\<lambda>_ _ _. True" dynamorio_try_decode
proof unfold_locales
  fix lib :: "'i dynamorio_lib" and r raw n debug
  assume lib: "dynamorio_ok lib" and r: "output_slot_ok r"
  show "\<exists>r' log. dynamorio_try_decode debug lib r raw n = Some (r', log) \<and> output_slot_ok r' \<and>
      status r' \<in> {S_SUCCESS, S_FAILURE, S_PARTIAL} \<and> (\<not> debug \<longrightarrow> log = [])"
  proof (cases "dr_decode lib raw")
    case None
    then show ?thesis
      using failed_slot_ok [OF r] by (simp add: dynamorio_try_decode_def)
  next
    case (Some pc_i)
    obtain pc i where i: "dr_decode lib raw = Some (pc, i)"
      using Some by (cases pc_i) simp
    obtain k out where fmt: "instr_disassemble_to_buffer lib i 248 = (k, out)"
      by (cases "instr_disassemble_to_buffer lib i 248")
    have "k \<le> length out" "length out \<le> 248"
      using lib [unfolded dynamorio_ok_def, rule_format, where n = 248 and i = i] fmt by auto
    then show ?thesis
      using r by (simp add: dynamorio_try_decode_def i fmt lib_write_within slot_defs mem_simps)
  qed
next
  show "out_len r' = out_len r \<and> ndecoded r' = ndecoded r"
    if "dynamorio_try_decode debug lib r raw n = Some (r', log)" and "status r' \<noteq> S_SUCCESS"
    for debug and lib :: "'i dynamorio_lib" and r raw n r' log
    using that by (auto simp: dynamorio_try_decode_def split: option.splits prod.splits Option.bind_splits)
qed

text \<open>
  bfd copies its text and length whatever the outcome, so it is not quiet. Its text comes in
  callbacks, and nothing bounds it; it has to leave room for the terminating NUL.
\<close>

definition bfd_fits :: "bfd_lib \<Rightarrow> byte list \<Rightarrow> byte \<Rightarrow> bool" where
  "bfd_fits lib raw n \<longleftrightarrow> length (concat (fst (bfd_disasm lib raw n))) < MISHEGOS_DEC_MAXLEN"

interpretation bfd: decoder_adapter "\<lambda>_. True" bfd_fits bfd_try_decode
proof unfold_locales
  fix lib r raw n debug
  assume lib: "bfd_fits lib raw n" and r: "output_slot_ok r"
  obtain texts pc where dec: "bfd_disasm lib raw n = (texts, pc)"
    by (cases "bfd_disasm lib raw n")
  have fits: "length (concat texts) < 248"
    using lib dec by (simp add: bfd_fits_def)
  obtain k where k: "k = length (concat texts) + 1" "k \<le> 248"
    using fits by simp
  show "\<exists>r' log. bfd_try_decode debug lib r raw n = Some (r', log) \<and> output_slot_ok r' \<and>
      status r' \<in> {S_SUCCESS, S_FAILURE, S_PARTIAL} \<and> (\<not> debug \<longrightarrow> log = [])"
    using k(2) r bfd_try_decode_fits [OF _ dec fits, of r debug] unfolding k(1) [symmetric]
    by (auto simp: slot_defs length_overlay unat_of_nat)
qed


text \<open>
  Ghidra. The state of its engine is one that earlier calls may have left. The line \<open>dump\<close> prints
  for an input, where the parse and the printing do not throw, is made of strings without a bound.
\<close>

definition ghidra_ok :: "'tree sleigh_lib \<times> 'tree ghidra_state \<Rightarrow> bool" where
  "ghidra_ok lg \<longleftrightarrow> ghidra_inv (snd lg)"

definition ghidra_line :: "'tree sleigh_lib \<Rightarrow> byte list \<Rightarrow> byte \<Rightarrow> byte list option" where
  "ghidra_line lib raw n = do {
     t \<leftarrow> sleigh_parse lib (padded_input raw n) START_ADDRESS;
     mnem \<leftarrow> printMnemonic lib t;
     body \<leftarrow> printBody lib t;
     Some (c_string mnem @ [32] @ c_string body @ [10]) }"

definition ghidra_fits :: "'tree sleigh_lib \<times> 'tree ghidra_state \<Rightarrow> byte list \<Rightarrow> byte \<Rightarrow> bool" where
  "ghidra_fits lg raw n \<longleftrightarrow> (case ghidra_line (fst lg) raw n of
     None \<Rightarrow> True
   | Some line \<Rightarrow> length line \<le> MISHEGOS_DEC_MAXLEN)"

definition ghidra_try_decode :: "bool \<Rightarrow> 'tree sleigh_lib \<times> 'tree ghidra_state \<Rightarrow> output_slot \<Rightarrow>
    byte list \<Rightarrow> byte \<Rightarrow> (output_slot \<times> string list) option" where
  "ghidra_try_decode debug lg r raw n =
     (case lg of (lib, g) \<Rightarrow> map_option (\<lambda>(r, g). (r, [])) (ghidra_decode lib g r raw n))"

text \<open>\<open>dump\<close> stores the length of the whole line, also where \<open>snprintf\<close> has cut the text.\<close>

lemma ghidra_dump_line:
  assumes "output_slot_ok r"
  shows "\<exists>r'. ghidra_dump r mnem body = Some r' \<and> status r' = S_SUCCESS \<and> ndecoded r' = ndecoded r \<and>
    length (result r') = 248 \<and> out_len r' = of_nat (length (c_string mnem @ [32] @ c_string body @ [10]))"
proof -
  define out where "out = c_string mnem @ [32] @ c_string body @ [10]"
  obtain buf where "c_snprintf (result r) 0 248 out = Some buf" "length buf = 248"
    using c_snprintf_whole [of "result r" out] assms(1) by (auto simp: slot_defs)
  moreover have "ghidra_dump r mnem body = do {
      buf \<leftarrow> c_snprintf (result r) 0 248 out;
      Some (r\<lparr>status := S_SUCCESS, result := buf, out_len := of_nat (length out)\<rparr>) }"
    by (simp only: ghidra_dump_def Let_def out_def const_simps)
  ultimately show ?thesis
    using assms(1) unfolding out_def by (simp add: slot_defs)
qed

lemma ghidra_outcome_line:
  assumes "output_slot_ok r"
  shows "\<exists>r'. ghidra_outcome lib r (padded_input raw n) = Some r' \<and> (case ghidra_line lib raw n of
      None \<Rightarrow> r' = r\<lparr>status := S_FAILURE\<rparr>
    | Some line \<Rightarrow> status r' = S_SUCCESS \<and> length (result r') = 248 \<and> out_len r' = of_nat (length line))"
proof (cases "do { t \<leftarrow> sleigh_parse lib (padded_input raw n) START_ADDRESS; mnem \<leftarrow> printMnemonic lib t;
      body \<leftarrow> printBody lib t; Some (mnem, body, sleigh_length lib t) }")
  case None
  moreover from None have "ghidra_line lib raw n = None"
    by (auto simp: ghidra_line_def bind_eq_None_conv)
  ultimately show ?thesis
    by (simp add: ghidra_outcome_def)
next
  case (Some answer)
  then obtain t mnem body k where *: "answer = (mnem, body, k)"
      "sleigh_parse lib (padded_input raw n) START_ADDRESS = Some t" "printMnemonic lib t = Some mnem"
      "printBody lib t = Some body"
    by (auto simp: bind_eq_Some_conv)
  then have "ghidra_line lib raw n = Some (c_string mnem @ [32] @ c_string body @ [10])"
    by (simp add: ghidra_line_def)
  then show ?thesis
    using ghidra_dump_line [OF assms, of mnem body] Some *(1) by (auto simp: ghidra_outcome_def)
qed

lemma ghidra_answers:
  assumes "ghidra_ok lg" and "output_slot_ok r" and "insn_given raw n"
  shows "\<exists>r'. ghidra_try_decode debug lg r raw n = Some (r', []) \<and> (case ghidra_line (fst lg) raw n of
      None \<Rightarrow> r' = r\<lparr>status := S_FAILURE\<rparr>
    | Some line \<Rightarrow> status r' = S_SUCCESS \<and> length (result r') = 248 \<and> out_len r' = of_nat (length line))"
proof -
  obtain lib g where lg: "lg = (lib, g)" "ghidra_inv g"
    using assms(1) by (cases lg) (simp add: ghidra_ok_def)
  obtain g' where "ghidra_decode lib g r raw n =
      map_option (\<lambda>r. (r, g')) (ghidra_outcome lib r (padded_input raw n))"
    using ghidra_decode_outcome [OF lg(2), of n raw lib r] assms(3) by (auto simp: insn_given_def)
  then show ?thesis
    using ghidra_outcome_line [OF assms(2), of lib raw n] by (auto simp: ghidra_try_decode_def lg(1))
qed

interpretation ghidra: quiet_adapter ghidra_ok ghidra_fits ghidra_try_decode
proof unfold_locales
  fix lg :: "'tree sleigh_lib \<times> 'tree ghidra_state" and r raw n debug
  assume ok: "ghidra_ok lg" and fits: "ghidra_fits lg raw n" and r: "output_slot_ok r"
    and given: "insn_given raw n"
  obtain r' where dec: "ghidra_try_decode debug lg r raw n = Some (r', [])"
    and line: "case ghidra_line (fst lg) raw n of None \<Rightarrow> r' = r\<lparr>status := S_FAILURE\<rparr>
      | Some line \<Rightarrow> status r' = S_SUCCESS \<and> length (result r') = 248 \<and> out_len r' = of_nat (length line)"
    using ghidra_answers [OF ok r given] by blast
  have "output_slot_ok r' \<and> status r' \<in> {S_SUCCESS, S_FAILURE}"
    using line fits failed_slot_ok [OF r]
    by (auto simp: ghidra_fits_def slot_defs unat_of_nat split: option.splits)
  then show "\<exists>r' log. ghidra_try_decode debug lg r raw n = Some (r', log) \<and> output_slot_ok r' \<and>
      status r' \<in> {S_SUCCESS, S_FAILURE, S_PARTIAL} \<and> (\<not> debug \<longrightarrow> log = [])"
    using dec by auto
next
  show "out_len r' = out_len r \<and> ndecoded r' = ndecoded r"
    if "ghidra_try_decode debug lg r raw n = Some (r', log)" and "status r' \<noteq> S_SUCCESS"
    for debug and lg :: "'tree sleigh_lib \<times> 'tree ghidra_state" and r raw n r' log
    using that by (auto simp: ghidra_try_decode_def ghidra_decode_def ghidra_dump_def Let_def
        split: prod.splits option.splits Option.bind_splits)
qed


section \<open>The loaded worker\<close>

text \<open>The shared object a worker process has loaded, with its library.\<close>

datatype ('i, 'o) worker_so =
    Bddisasm_so "'i bddisasm_lib" | Bfd_so bfd_lib | Capstone_so "'i capstone_lib"
  | Dynamorio_so "'i dynamorio_lib" | Fadec_so "'i fadec_lib" | Llvm_so llvm_lib
  | Xed_so "'i xed_lib" | Zydis_so "('i, 'o) zydis_lib"
  | Ghidra_so "'i sleigh_lib \<times> 'i ghidra_state"

fun so_ok :: "('i, 'o) worker_so \<Rightarrow> bool" where
  "so_ok (Bddisasm_so lib) \<longleftrightarrow> bddisasm_ok lib"
| "so_ok (Bfd_so lib) \<longleftrightarrow> True"
| "so_ok (Capstone_so lib) \<longleftrightarrow> capstone_ok lib"
| "so_ok (Dynamorio_so lib) \<longleftrightarrow> dynamorio_ok lib"
| "so_ok (Fadec_so lib) \<longleftrightarrow> fadec_ok lib"
| "so_ok (Llvm_so lib) \<longleftrightarrow> llvm_ok lib"
| "so_ok (Xed_so lib) \<longleftrightarrow> xed_ok lib"
| "so_ok (Zydis_so lib) \<longleftrightarrow> zydis_ok lib"
| "so_ok (Ghidra_so lib) \<longleftrightarrow> ghidra_ok lib"

text \<open>Whether the text a call prints fits the slot; only bfd and Ghidra leave it to the library.\<close>

fun so_fits :: "('i, 'o) worker_so \<Rightarrow> byte list \<Rightarrow> byte \<Rightarrow> bool" where
  "so_fits (Bfd_so lib) raw n \<longleftrightarrow> bfd_fits lib raw n"
| "so_fits (Ghidra_so lib) raw n \<longleftrightarrow> ghidra_fits lib raw n"
| "so_fits so raw n \<longleftrightarrow> True"

fun so_try_decode :: "bool \<Rightarrow> ('i, 'o) worker_so \<Rightarrow> output_slot \<Rightarrow> byte list \<Rightarrow> byte \<Rightarrow>
    (output_slot \<times> string list) option" where
  "so_try_decode debug (Bddisasm_so lib) = bddisasm_try_decode debug lib"
| "so_try_decode debug (Bfd_so lib) = bfd_try_decode debug lib"
| "so_try_decode debug (Capstone_so lib) = capstone_try_decode debug lib"
| "so_try_decode debug (Dynamorio_so lib) = dynamorio_try_decode debug lib"
| "so_try_decode debug (Fadec_so lib) = fadec_try_decode debug lib"
| "so_try_decode debug (Llvm_so lib) = llvm_try_decode debug lib"
| "so_try_decode debug (Xed_so lib) = xed_try_decode debug lib"
| "so_try_decode debug (Zydis_so lib) = zydis_try_decode debug lib"
| "so_try_decode debug (Ghidra_so lib) = ghidra_try_decode debug lib"

lemmas adapter_contracts = bddisasm.try_decode_slot bfd.try_decode_slot capstone.try_decode_slot
  dynamorio.try_decode_slot fadec.try_decode_slot llvm.try_decode_slot xed.try_decode_slot
  zydis.try_decode_slot ghidra.try_decode_slot

lemmas quiet_failures = bddisasm.failure_keeps capstone.failure_keeps dynamorio.failure_keeps
  fadec.failure_keeps llvm.failure_keeps xed.failure_keeps zydis.failure_keeps ghidra.failure_keeps

interpretation so: decoder_adapter so_ok so_fits so_try_decode
proof unfold_locales
  show "\<exists>r' log. so_try_decode debug lib r raw n = Some (r', log) \<and> output_slot_ok r' \<and>
      status r' \<in> {S_SUCCESS, S_FAILURE, S_PARTIAL} \<and> (\<not> debug \<longrightarrow> log = [])"
    if "so_ok lib" and "so_fits lib raw n" and "output_slot_ok r" and "insn_given raw n"
    for lib :: "('i, 'o) worker_so" and r raw n debug
    using that by (cases lib) (simp_all only: so_ok.simps so_fits.simps so_try_decode.simps adapter_contracts)
qed

text \<open>Whatever the library does, a result array stays an array of 248 bytes.\<close>

lemma lib_write_length: "lib_write buf out = Some buf' \<Longrightarrow> length buf' = length buf"
  by (simp add: lib_write_def copy_to_length)

lemma c_snprintf_length: "c_snprintf buf off n out = Some buf' \<Longrightarrow> length buf' = length buf"
  by (auto simp: c_snprintf_def Let_def dest: copy_to_length split: if_splits)

lemma succeed_with_result: "succeed_with r n = Some r' \<Longrightarrow> result r' = result r"
  by (auto simp: succeed_with_def split: Option.bind_splits)

lemma so_keeps_result_array:
  assumes "so_try_decode debug so r raw n = Some (r', log)"
  shows "length (result r') = length (result r)"
proof -
  note kept = lib_write_length c_snprintf_length succeed_with_result copy_to_length
  show ?thesis
  proof (cases so)
    case (Ghidra_so lib)
    then show ?thesis
      using assms by (auto simp: ghidra_try_decode_def ghidra_decode_def ghidra_dump_def Let_def dest: kept
        split: prod.splits option.splits Option.bind_splits)
  qed (use assms in \<open>auto simp: bddisasm_try_decode_def bfd_try_decode_def capstone_try_decode_def
      dynamorio_try_decode_def fadec_try_decode_def llvm_try_decode_def xed_try_decode_def
      zydis_try_decode_def Let_def dest!: kept
      split: prod.splits if_splits option.splits list.splits Option.bind_splits\<close>)
qed


text \<open>Which adapters report a partial instruction, and which are silent in failure.\<close>

lemmas try_decode_defs = bddisasm_try_decode_def bfd_try_decode_def capstone_try_decode_def
  dynamorio_try_decode_def fadec_try_decode_def llvm_try_decode_def xed_try_decode_def
  zydis_try_decode_def ghidra_try_decode_def ghidra_decode_def ghidra_dump_def

lemma so_partial:
  assumes "so_try_decode debug so r raw n = Some (r', log)" and "status r' = S_PARTIAL"
  shows "(\<exists>l. so = Fadec_so l) \<or> (\<exists>l. so = Xed_so l) \<or> (\<exists>l. so = Zydis_so l)"
  using assms
  by (cases so) (auto simp: try_decode_defs Let_def dest!: succeed_with_status
    split: prod.splits if_splits option.splits list.splits Option.bind_splits)

lemma so_failure_keeps:
  assumes "so_try_decode debug so r raw n = Some (r', log)" and "status r' \<noteq> S_SUCCESS"
  shows "(\<exists>l. so = Bfd_so l) \<or> out_len r' = out_len r \<and> ndecoded r' = ndecoded r"
  using assms by (cases so) (auto dest: quiet_failures)

text \<open>bfd's offset counts all the text, whether it fitted or not.\<close>

lemma dis_callbacks_off:
  "dis_callbacks debug (buf, off) texts = Some (buf', off') \<Longrightarrow> off' = off + length (concat texts)"
proof (induction texts arbitrary: buf off)
  case Nil
  then show ?case by simp
next
  case (Cons x texts)
  obtain b where "dis_callbacks debug (b, off + length x) texts = Some (buf', off')"
    using Cons.prems by (auto simp: dis_vfprintf_def Let_def split: if_splits Option.bind_splits)
  from Cons.IH [OF this] show ?case
    by simp
qed

lemma bfd_try_decode_overflows:
  assumes "length (result r) = 248" and "bfd_disasm lib raw n = (texts, pc)"
    and "248 \<le> length (concat texts)"
  shows "bfd_try_decode debug lib r raw n = None"
proof (cases "dis_callbacks debug (replicate 248 0, 0) texts")
  case None
  then show ?thesis
    using assms(2) by (simp add: bfd_try_decode_def)
next
  case (Some b)
  then obtain buf where "dis_callbacks debug (replicate 248 0, 0) texts = Some (buf, length (concat texts))"
    using dis_callbacks_off by (cases b) fastforce
  moreover have "copy_to (result r) 0 buf' 0 (length (concat texts) + 1) = None" for buf'
    using assms(1,3) by (simp add: copy_to_def)
  ultimately show ?thesis
    using assms(2) by (simp add: bfd_try_decode_def bind_eq_None_conv Let_def)
qed

text \<open>What the two unbounded workers do with a text that does not fit.\<close>

lemma so_overflows:
  assumes "so_ok so" and "output_slot_ok r" and "insn_given raw n" and "\<not> so_fits so raw n"
  shows "(\<exists>lib. so = Bfd_so lib) \<and> so_try_decode debug so r raw n = None \<or>
    (\<exists>lg r' line. so = Ghidra_so lg \<and> ghidra_line (fst lg) raw n = Some line \<and> 248 < length line \<and>
       so_try_decode debug so r raw n = Some (r', []) \<and> status r' = S_SUCCESS \<and>
       out_len r' = of_nat (length line))"
proof (cases so)
  case (Bfd_so lib)
  obtain texts pc where dec: "bfd_disasm lib raw n = (texts, pc)"
    by (cases "bfd_disasm lib raw n")
  then have "248 \<le> length (concat texts)"
    using assms(4) Bfd_so by (simp add: bfd_fits_def)
  then show ?thesis
    using bfd_try_decode_overflows [OF _ dec, of r debug] assms(2) Bfd_so by (simp add: slot_defs)
next
  case (Ghidra_so lg)
  obtain line where "ghidra_line (fst lg) raw n = Some line" "248 < length line"
    using assms(4) Ghidra_so by (auto simp: ghidra_fits_def split: option.splits)
  then show ?thesis
    using ghidra_answers [of lg r raw n debug] assms(1-3) Ghidra_so by auto
qed (use assms(4) in simp_all)

end
