(* ===== verification/Ring_Adapters.thy ===== *)
theory Ring_Adapters
  imports Ring_Progress Adapter_Contracts
begin

text \<open>
  The ring run with the workers of src/worker: the decoders of a run are the adapters, each with
  its library, and every sample the main loop processes then consists of a well-formed input and
  well-formed outputs. A second invariant of the ring says that only well-formed inputs are made
  public.
\<close>

section \<open>Published inputs are well-formed\<close>

definition pub_inv :: "input_slot list list \<Rightarrow> ring \<Rightarrow> bool" where
  "pub_inv pub s \<longleftrightarrow> (\<forall>b \<in> set pub. \<forall>x \<in> set b. input_slot_ok x) \<and>
     (\<forall>n. m_pc s = MCount n \<longrightarrow> (\<forall>x \<in> set (take n (inputs (chunks s ! m_idx s))). input_slot_ok x)) \<and>
     (m_pc s \<in> {MWorkers, MGeneration} \<longrightarrow>
        (\<forall>x \<in> set (take (unat (input_count (chunks s ! m_idx s))) (inputs (chunks s ! m_idx s))).
           input_slot_ok x))"

lemma pub_inv_frame:
  assumes "pub_inv pub s" and "m_pc s' = m_pc s" "m_idx s' = m_idx s"
    and "\<And>c. input_count (chunks s' ! c) = input_count (chunks s ! c)"
    and "\<And>c. inputs (chunks s' ! c) = inputs (chunks s ! c)"
  shows "pub_inv pub s'"
  using assms by (simp add: pub_inv_def)

lemma main_pub_inv:
  assumes inv: "ring_inv u \<tau> es s" and pub: "pub_inv (published es) s"
    and step: "main_step u s = Some (s', es')"
  shows "pub_inv (published (es @ es')) s'"
proof -
  let ?ic = "chunks s ! m_idx s"
  note parts = ring_invD [OF inv]
  have idx: "m_idx s < 16" "length (chunks s) = 16" "chunk_wf ?ic" "mutator_inv (m_env s)"
    using parts(1) by (auto simp: shape_ok_def)
  show ?thesis
  proof (cases "m_pc s")
    case MFill
    then obtain slots count ended e where
      fill: "fill_slots (run_mutator (su_mutator u)) (m_env s) (inputs ?ic) 0 = Some (slots, count, ended, e)"
      and s': "s' = upd_chunk (m_idx s) (\<lambda>ic. ic\<lparr>inputs := slots\<rparr>)
        (s\<lparr>m_env := e, m_exit_idx := if ended then m_idx s else m_exit_idx s, m_pc := MCount count\<rparr>)"
        "es' = []"
      using step by (auto simp: main_step_def Let_def split: Option.bind_splits)
    have "\<forall>x \<in> set (take count slots). input_slot_ok x"
      using chosen_mut.fill_slots_total [OF idx(4), of "inputs ?ic" "su_mutator u" 0] idx(3) fill
      by (auto simp: chunk_wf_def)
    then show ?thesis
      using pub idx(1,2) by (auto simp: pub_inv_def s' upd_chunk_def)
  next
    case (MCount n)
    then have "unat (of_nat n :: u32) = n"
      using parts(7) by (auto simp: turns_ok_def unat_of_nat)
    then show ?thesis
      using pub step MCount idx(1,2)
      by (auto simp: pub_inv_def main_step_def Let_def upd_chunk_def)
  next
    case (MScan i r)
    then show ?thesis
      using pub step by (auto simp: pub_inv_def main_step_def Let_def split: if_splits)
  next
    case (MProcess i)
    then show ?thesis
      using pub step by (auto simp: pub_inv_def main_step_def Let_def split: if_splits)
  qed (use pub step in \<open>auto simp: pub_inv_def main_step_def Let_def upd_chunk_count upd_chunk_inputs
      split: if_splits\<close>)
qed

interpretation publishing: traced_system "ring_step u" "ring_initial u"
  "\<lambda>es s. (\<exists>\<tau>. ring_inv u \<tau> es s) \<and> pub_inv (published es) s" for u
proof
  fix s
  assume "ring_initial u s"
  then have "\<exists>\<tau>. ring_inv u \<tau> [] s" and "\<exists>wcs e. s = ring_start wcs e"
    using ring_inv_start [of u s] unfolding ring_initial_def by blast+
  then show "(\<exists>\<tau>. ring_inv u \<tau> [] s) \<and> pub_inv (published []) s"
    by (auto simp: ring_start_def pub_inv_def)
next
  fix es s es' s'
  assume inv: "(\<exists>\<tau>. ring_inv u \<tau> es s) \<and> pub_inv (published es) s" and step: "ring_step u s es' s'"
  then obtain \<tau> where \<tau>: "ring_inv u \<tau> es s" and pub: "pub_inv (published es) s"
    by blast
  have "pub_inv (published (es @ es')) s'"
    using step
  proof (rule ring_stepE)
    assume "main_step u s = Some (s', es')"
    then show ?thesis
      by (rule main_pub_inv [OF \<tau> pub])
  next
    fix i
    assume *: "es' = []" "worker_step u i s = Some s'"
    then have "pub_inv (published es) s'"
      using worker_step_frame [OF *(2)] worker_step_inputs [OF *(2)] by (intro pub_inv_frame [OF pub])
    then show ?thesis
      using * by simp
  next
    fix i
    assume *: "es' = []" "sigchld_handler i s = Some s'"
    then have "pub_inv (published es) s'"
      using signal_step_frame [OF *(2)] signal_step_inputs [OF *(2)] by (intro pub_inv_frame [OF pub])
    then show ?thesis
      using * by simp
  qed
  then show "(\<exists>\<tau>. ring_inv u \<tau> (es @ es') s') \<and> pub_inv (published (es @ es')) s'"
    using ring_step_inv [OF \<tau> step] by blast
qed

section \<open>Workers with adapters\<close>

text \<open>
  The call of \<open>try_decode\<close> in \<open>worker\<close>. Where \<open>crash\<close> has a value, the library brings the
  process down and the value is what the slot holds then; an access outside a buffer does so as
  well in the model. The slot stays an array of 248 bytes, but nothing else is said of it.
\<close>

definition worker_call :: "bool \<Rightarrow> ('i, 'o) worker_so \<Rightarrow> (input_slot \<Rightarrow> output_slot option) \<Rightarrow>
    output_slot \<Rightarrow> input_slot \<Rightarrow> bool \<times> output_slot" where
  "worker_call debug so crash r inp =
     (case crash inp of
        Some left \<Rightarrow> (False, left)
      | None \<Rightarrow> (case so_try_decode debug so r (raw_insn inp) (in_len inp) of
          Some (r', log) \<Rightarrow> (True, r')
        | None \<Rightarrow> (False, r)))"

definition adapters_run :: "bool \<Rightarrow> (nat \<Rightarrow> ('i, 'o) worker_so) \<Rightarrow>
    (nat \<Rightarrow> input_slot \<Rightarrow> output_slot option) \<Rightarrow> fuzz_config \<Rightarrow> bool" where
  "adapters_run debug sos crash u \<longleftrightarrow>
     su_decode u = (\<lambda>i. worker_call debug (sos i) (crash i)) \<and> (\<forall>i. so_ok (sos i)) \<and>
     (\<forall>i inp left. crash i inp = Some left \<longrightarrow> output_slot_wf left)"

text \<open>
  That the answers to an input fit their slots, worker by worker: a call that returns has printed
  a text that fits, and a call that crashes has left a length within the slot.
\<close>

definition answers_fit :: "(nat \<Rightarrow> ('i, 'o) worker_so) \<Rightarrow> (nat \<Rightarrow> input_slot \<Rightarrow> output_slot option) \<Rightarrow>
    nat \<Rightarrow> input_slot \<Rightarrow> bool" where
  "answers_fit sos crash n inp \<longleftrightarrow> (\<forall>i < n. case crash i inp of
     None \<Rightarrow> so_fits (sos i) (raw_insn inp) (in_len inp)
   | Some left \<Rightarrow> unat (out_len left) \<le> MISHEGOS_DEC_MAXLEN)"

lemma adapters_decoder_wf:
  assumes "adapters_run debug sos crash u"
  shows "decoder_wf u"
  unfolding decoder_wf_def
proof (intro allI impI)
  fix i r inp
  assume r: "output_slot_wf r"
  have "output_slot_wf left" if "crash i inp = Some left" for left
    using assms that by (auto simp: adapters_run_def slot_defs)
  moreover have "output_slot_wf r'"
    if "so_try_decode debug (sos i) r (raw_insn inp) (in_len inp) = Some (r', log)" for r' log
    using so_keeps_result_array [OF that] r by (simp add: slot_defs)
  ultimately show "output_slot_wf (snd (su_decode u i r inp))"
    using assms r by (auto simp: adapters_run_def worker_call_def split: option.split)
qed

lemma adapters_decoded_ok:
  assumes "adapters_run debug sos crash u" and "decoded u i inp r" and "input_slot_ok inp"
    and "in_len inp \<noteq> 0" and "answers_fit sos crash n inp" and "i < n"
  shows "output_slot_ok r"
proof -
  have given: "insn_given (raw_insn inp) (in_len inp)"
    using assms(3,4) by (auto simp: insn_given_def slot_defs unat_gt_0)
  obtain old r' where old: "slot_kept u old" and dec: "r = r' \<or> r = r'\<lparr>status := S_CRASH\<rparr>"
      "r' = snd (su_decode u i (cleared_slot old) inp)"
    using assms(2) by (auto simp: decoded_def)
  have "output_slot_ok (cleared_slot old)"
    using old adapters_decoder_wf [OF assms(1)] by (simp add: slot_kept_def slot_defs cleared_slot_def)
  moreover have "so_ok (sos i)"
    using assms(1) by (simp add: adapters_run_def)
  ultimately have returns: "\<exists>v log. so_try_decode debug (sos i) (cleared_slot old) (raw_insn inp) (in_len inp) =
      Some (v, log) \<and> output_slot_ok v" if "so_fits (sos i) (raw_insn inp) (in_len inp)"
    using so.try_decode_SomeE given that by metis
  have "output_slot_ok r'"
  proof (cases "crash i inp")
    case None
    then have "so_fits (sos i) (raw_insn inp) (in_len inp)"
      using assms(5,6) by (auto simp: answers_fit_def split: option.splits)
    then show ?thesis
      using assms(1) dec(2) None returns by (auto simp: adapters_run_def worker_call_def)
  next
    case (Some left)
    then have "output_slot_wf left \<and> unat (out_len left) \<le> MISHEGOS_DEC_MAXLEN"
      using assms(1,5,6) by (auto simp: answers_fit_def adapters_run_def split: option.splits)
    then show ?thesis
      using assms(1) dec(2) Some by (simp add: adapters_run_def worker_call_def slot_defs)
  qed
  then show ?thesis
    using dec(1) failed_slot_ok by blast
qed

text \<open>
  Every processed sample is well-formed, provided no empty input has been published and the
  answers to the published inputs fit.
\<close>

lemma adapters_samples_ok:
  assumes "ring_initial u s0" and "ring_run u s0 es s" and "adapters_run debug sos crash u"
    and "\<forall>x \<in> set (concat (published es)). in_len x \<noteq> 0 \<and> answers_fit sos crash (su_nworkers u) x"
  shows "\<forall>(inp, outs) \<in> set (processed es). input_slot_ok inp \<and> length outs = su_nworkers u \<and>
    (\<forall>r \<in> set outs. output_slot_ok r)"
proof (clarify)
  fix inp outs
  assume mem: "(inp, outs) \<in> set (processed es)"
  obtain \<tau> where inv: "ring_inv u \<tau> es s" and pub: "pub_inv (published es) s"
    using publishing.run_inv [OF assms(2,1)] by blast
  obtain rest where "concat (published es) = map fst (processed es) @ rest"
    using processed_prefix(1) [OF inv] by blast
  moreover have "inp \<in> set (map fst (processed es))"
    using mem by force
  ultimately have "inp \<in> set (concat (published es))"
    by (simp only: set_append Un_iff simp_thms)
  then have inp: "input_slot_ok inp" "in_len inp \<noteq> 0" "answers_fit sos crash (su_nworkers u) inp"
    using pub assms(4) by (auto simp: pub_inv_def)
  have outs: "length outs = su_nworkers u" "\<forall>i < su_nworkers u. decoded u i inp (outs ! i)"
    using ring_invD(9) [OF inv] mem by (auto simp: log_ok_def)
  have "output_slot_ok r" if r: "r \<in> set outs" for r
  proof -
    obtain i where "i < length outs" "r = outs ! i"
      using r by (auto simp: in_set_conv_nth)
    then show ?thesis
      using outs by (intro adapters_decoded_ok [OF assms(3) _ inp, of i]) simp_all
  qed
  then show "input_slot_ok inp \<and> length outs = su_nworkers u \<and> (\<forall>r \<in> set outs. output_slot_ok r)"
    using inp(1) outs(1) by blast
qed

end
