(* ===== verification/Ring_Leaving.thy ===== *)
theory Ring_Leaving
  imports Ring_Progress
begin

text \<open>
  The end of a run of the ring. The last chunk that is published is the only one that is not full,
  and no worker goes on past it, so when the main loop has ended every worker has signed off from
  the last chunk and is about to leave or has left.
\<close>

section \<open>Waiting for a chunk that never comes\<close>

definition waits_for :: "nat \<Rightarrow> worker \<Rightarrow> bool" where
  "waits_for q w \<longleftrightarrow> w_pc w = WWait \<and> w_idx w = q mod 16 \<and> w_gen w = of_nat (q div 16 + 1)"

definition last_inv :: "input_slot list list \<Rightarrow> ring \<Rightarrow> bool" where
  "last_inv pub s \<longleftrightarrow> (m_exit_idx s \<noteq> 16 \<longrightarrow>
     (\<forall>n. m_pc s = MCount n \<longrightarrow> n < 4096) \<and>
     (m_pc s \<in> {MWorkers, MGeneration} \<longrightarrow> unat (input_count (chunks s ! m_idx s)) < 4096) \<and>
     (\<not> filling (m_pc s) \<longrightarrow> length (last pub) < 4096 \<and>
        (\<forall>i < length (workers s). \<not> waits_for (length pub) (workers s ! i))))"

text \<open>
  The position of a worker determines its turn: the generation counter has 32 bits, but no worker
  is more than two rounds behind.
\<close>

lemma turn_close:
  assumes inv: "ring_inv u \<tau> es s" and i: "i < length (workers s)"
  shows "length (published es) \<le> \<tau> i + 18"
proof (rule ccontr)
  assume far: "\<not> ?thesis"
  note parts = ring_invD [OF inv]
  have "length (published es) \<le> turn s + 1"
    using parts(7) by (auto simp: turns_ok_def split: if_splits)
  then have "\<tau> i < length (published es)" "\<tau> i + 16 < turn s"
    using far by simp_all
  then have "done_with \<tau> (workers s) i (\<tau> i + 0)" "done_with \<tau> (workers s) i (\<tau> i + 1)" if "\<tau> i + 1 + 16 < turn s"
    using parts(8) i far that by (auto simp: cleared_ok_def)
  moreover have "\<tau> i + 1 + 16 < turn s"
    using far \<open>length (published es) \<le> turn s + 1\<close> by simp
  ultimately show False
    by (simp add: done_with_def)
qed

lemma same_position:
  assumes inv: "ring_inv u \<tau> es s" and i: "i < length (workers s)"
    and t: "t \<le> length (published es)" "length (published es) \<le> t + 18"
    and pos: "t mod 16 = length (published es) mod 16"
      "(of_nat (t div 16 + 1) :: u32) = of_nat (length (published es) div 16 + 1)"
  shows "t = length (published es)"
proof -
  define q where "q = length (published es)"
  have "t div 16 \<le> q div 16" "q div 16 \<le> (t + 18) div 16"
    using t by (simp_all add: q_def div_le_mono)
  moreover have "(t + 18) div 16 \<le> t div 16 + 2"
    by simp
  ultimately obtain k where k: "q div 16 = t div 16 + k" "k \<le> 2"
    by (metis le_Suc_ex add_le_cancel_left order_trans)
  then have "(of_nat k :: u32) = 0"
    using pos(2) by (simp add: q_def [symmetric])
  then have "k = 0"
    using k(2) of_nat_u32_eq_0 [of k] by simp
  then show ?thesis
    using k(1) pos(1) unfolding q_def by (metis add_0_right mult_div_mod_eq)
qed

lemma waits_for_turn:
  assumes inv: "ring_inv u \<tau> es s" and i: "i < length (workers s)"
    and w: "waits_for (length (published es)) (workers s ! i)"
  shows "\<tau> i = length (published es)"
  using same_position [OF inv i _ turn_close [OF inv i]] worker_okD(2-4) [OF ring_inv_worker [OF inv i]] w
  by (simp add: waits_for_def)

section \<open>The steps\<close>

lemma last_inv_frame:
  assumes "last_inv pub s" and "m_exit_idx s' = m_exit_idx s" "m_pc s' = m_pc s" "m_idx s' = m_idx s"
    and "length (workers s') = length (workers s)"
    and "\<And>c. input_count (chunks s' ! c) = input_count (chunks s ! c)"
    and "\<And>k. k < length (workers s) \<Longrightarrow> m_exit_idx s \<noteq> 16 \<Longrightarrow> \<not> filling (m_pc s) \<Longrightarrow>
      waits_for (length pub) (workers s' ! k) \<Longrightarrow> waits_for (length pub) (workers s ! k)"
  shows "last_inv pub s'"
  using assms unfolding last_inv_def by metis

lemma worker_step_other: "worker_step u i s = Some s' \<Longrightarrow> k \<noteq> i \<Longrightarrow> workers s' ! k = workers s ! k"
  by (auto simp: worker_step_def Let_def upd_worker_def upd_chunk_def split: worker_pc.splits if_splits prod.splits)

text \<open>A worker comes to wait only by passing a full chunk.\<close>

lemma worker_step_waits:
  assumes "worker_step u i s = Some s'" and "i < length (workers s)" and "w_pc (workers s' ! i) = WWait"
  shows "w_pc (workers s ! i) = WCheck" and "unat (input_count (chunks s ! w_idx (workers s ! i))) = 4096"
    and "w_idx (workers s ! i) < 16 \<Longrightarrow> w_idx (workers s' ! i) = (w_idx (workers s ! i) + 1) mod 16"
    and "w_gen (workers s' ! i) =
      (if w_idx (workers s ! i) + 1 = 16 then w_gen (workers s ! i) + 1 else w_gen (workers s ! i))"
  using assms
  by (auto simp: worker_step_def Let_def upd_worker_def upd_chunk_def const_simps
      split: worker_pc.splits if_splits prod.splits)

lemma worker_last_inv:
  assumes inv: "ring_inv u \<tau> es s" and last: "last_inv (published es) s"
    and i: "i < length (workers s)" and step: "worker_step u i s = Some s'"
  shows "last_inv (published es) s'"
proof (rule last_inv_frame [OF last])
  fix k
  assume k: "k < length (workers s)" "m_exit_idx s \<noteq> 16" "\<not> filling (m_pc s)"
    and waits: "waits_for (length (published es)) (workers s' ! k)"
  show "waits_for (length (published es)) (workers s ! k)"
  proof (cases "k = i")
    case True
    note w = worker_okD [OF ring_inv_worker [OF inv i]]
    let ?pub = "published es" and ?t = "\<tau> i"
    have wait: "w_pc (workers s' ! i) = WWait"
      using waits True by (simp add: waits_for_def)
    note st = worker_step_waits [OF step i wait]
    have t: "?t < length ?pub"
      using w(9) st(1) by simp
    have "w_idx (workers s' ! i) = (?t + 1) mod 16" "w_gen (workers s' ! i) = of_nat ((?t + 1) div 16 + 1)"
      using st(3,4) w(2,3) mod_Suc [of ?t 16] div_Suc [of ?t 16] by (auto split: if_splits)
    then have "?t + 1 = length ?pub"
      using waits True t turn_close [OF inv i] by (intro same_position [OF inv i]) (simp_all add: waits_for_def)
    then have "?pub \<noteq> []" "length ?pub - 1 = ?t"
      by auto
    then have "?pub ! ?t = last ?pub" "length (last ?pub) < 4096"
      using last k(2,3) by (simp_all add: last_inv_def last_conv_nth)
    moreover have "live (m_pc s) (length ?pub) ?t"
      using ring_invD(7,8) [OF inv] i t st(1) k(3) by (simp add: live_def latest_def \<open>?t + 1 = length ?pub\<close> [symmetric])
    then have "unat (input_count (chunks s ! (?t mod 16))) = length (?pub ! ?t)"
      using ring_invD(3) [OF inv] by (simp add: contents_ok_def)
    ultimately show ?thesis
      using st(2) w(3) by simp
  next
    case False
    then show ?thesis
      using waits worker_step_other [OF step False] by simp
  qed
qed (use worker_step_frame [OF step] in auto)

lemma signal_last_inv:
  assumes last: "last_inv pub s" and step: "sigchld_handler i s = Some s'"
  shows "last_inv pub s'"
proof (rule last_inv_frame [OF last])
  fix k
  assume "waits_for (length pub) (workers s' ! k)"
  moreover have "w_pc (workers s' ! k) = WReaped \<or> workers s' ! k = workers s ! k"
    using step by (cases "i < length (workers s)"; cases "k = i")
      (auto simp: sigchld_handler_def Let_def upd_worker_def upd_chunk_def not_less list_update_beyond
        split: if_splits option.splits)
  ultimately show "waits_for (length pub) (workers s ! k)"
    by (auto simp: waits_for_def)
qed (use signal_step_frame [OF step] in auto)

text \<open>The steps of the main loop.\<close>

lemma fill_step_count:
  assumes inv: "ring_inv u \<tau> es s"
    and fill: "fill_slots (run_mutator (su_mutator u)) (m_env s) (inputs (chunks s ! m_idx s)) 0 =
      Some (slots, count, ended, e)"
  shows "ended \<Longrightarrow> count < 4096"
proof -
  have "mutator_inv (m_env s)" "chunk_wf (chunks s ! m_idx s)"
    using ring_invD(1) [OF inv] by (auto simp: shape_ok_def)
  then show "ended \<Longrightarrow> count < 4096"
    using chosen_mut.fill_slots_total [of "m_env s" "inputs (chunks s ! m_idx s)" "su_mutator u" 0] fill
    by (auto simp: chunk_wf_def const_simps split: if_splits)
qed

lemma publish_last_inv:
  assumes inv: "ring_inv u \<tau> es s" and last: "last_inv (published es) s" and pc: "m_pc s = MGeneration"
    and step: "main_step u s = Some (s', es')"
  shows "last_inv (published (es @ es')) s'"
proof -
  let ?ic = "chunks s ! m_idx s"
  have s': "es' = [Published (take (unat (input_count ?ic)) (inputs ?ic))]" "workers s' = workers s"
      "m_pc s' = MAdvance" "m_exit_idx s' = m_exit_idx s"
    using step pc by (auto simp: main_step_def Let_def)
  have inv': "ring_inv u \<tau> (es @ es') s'"
    using main_step_inv [OF inv step] .
  have "\<not> waits_for (length (published (es @ es'))) (workers s' ! i)" if i: "i < length (workers s')" for i
  proof
    assume "waits_for (length (published (es @ es'))) (workers s' ! i)"
    then have "\<tau> i = length (published es) + 1"
      using waits_for_turn [OF inv' i] s'(1) by simp
    then show False
      using worker_okD(4) [OF ring_inv_worker [OF inv]] i s'(2) by fastforce
  qed
  then show ?thesis
    using last pc s' by (auto simp: last_inv_def)
qed

lemma restart_last_inv:
  assumes inv: "ring_inv u \<tau> es s" and last: "last_inv (published es) s" and pc: "m_pc s = MScan i r"
    and step: "main_step u s = Some (s', es')"
  shows "last_inv (published (es @ es')) s'"
proof -
  have s': "es' = []" "m_exit_idx s' = m_exit_idx s" "\<not> filling (m_pc s')" "\<And>n. m_pc s' \<noteq> MCount n"
      "length (workers s') = length (workers s)"
    using step pc by (auto simp: main_step_def Let_def upd_worker_def upd_chunk_def split: if_splits)
  have "\<not> waits_for (length (published es)) (workers s' ! k)"
    if k: "k < length (workers s')" and exit: "m_exit_idx s \<noteq> 16" for k
  proof
    assume waits: "waits_for (length (published es)) (workers s' ! k)"
    have "workers s' ! k = workers s ! k \<or> sigchld (workers s ! k)"
      using step pc by (cases "k = i") (auto simp: main_step_def Let_def upd_worker_def upd_chunk_def split: if_splits)
    moreover have "\<not> waits_for (length (published es)) (workers s ! k)"
      using last exit pc k s'(5) by (simp add: last_inv_def)
    ultimately have "w_pc (workers s ! k) = WReaped"
      using waits worker_okD(5) [OF ring_inv_worker [OF inv]] k s'(5) by force
    then have "\<tau> k < length (published es)"
      using worker_okD(9) [OF ring_inv_worker [OF inv]] k s'(5) by simp
    moreover have "\<tau> k = length (published es)"
      using waits_for_turn [of u \<tau> "es @ es'" s' k] main_step_inv [OF inv step] k waits s'(1) by simp
    ultimately show False
      by simp
  qed
  then show ?thesis
    using last pc s' by (auto simp: last_inv_def)
qed

lemma main_last_inv:
  assumes inv: "ring_inv u \<tau> es s" and last: "last_inv (published es) s"
    and step: "main_step u s = Some (s', es')"
  shows "last_inv (published (es @ es')) s'"
proof -
  have idx: "m_idx s < 16" "length (chunks s) = 16"
    using ring_invD(1) [OF inv] by (auto simp: shape_ok_def)
  show ?thesis
  proof (cases "m_pc s")
    case MFill
    have "m_exit_idx s = 16"
      using ring_invD(7) [OF inv] MFill by (simp add: turns_ok_def)
    then show ?thesis
      using fill_step_count [OF inv] step MFill idx
      by (auto simp: last_inv_def main_step_def Let_def split: Option.bind_splits if_splits)
  next
    case (MCount n)
    then have "unat (of_nat n :: u32) = n"
      using ring_invD(7) [OF inv] by (auto simp: turns_ok_def unat_of_nat)
    then show ?thesis
      using last step MCount idx
      by (auto simp: last_inv_def main_step_def Let_def upd_chunk_def nth_list_update)
  next
    case MGeneration
    then show ?thesis
      by (rule publish_last_inv [OF inv last _ step])
  next
    case (MScan i r)
    then show ?thesis
      by (rule restart_last_inv [OF inv last _ step])
  qed (use last step in \<open>auto simp: last_inv_def main_step_def Let_def upd_chunk_count split: if_splits\<close>)
qed

section \<open>Every worker has signed off when the main loop has ended\<close>

interpretation ending: traced_system "ring_step u" "ring_initial u"
  "\<lambda>es s. (\<exists>\<tau>. ring_inv u \<tau> es s) \<and> last_inv (published es) s" for u
proof
  show "(\<exists>\<tau>. ring_inv u \<tau> [] s) \<and> last_inv (published []) s" if "ring_initial u s" for s
    using ring_inv_start [OF that] that by (auto simp: ring_initial_def ring_start_def last_inv_def const_simps)
next
  fix es s es' s'
  assume inv: "(\<exists>\<tau>. ring_inv u \<tau> es s) \<and> last_inv (published es) s" and step: "ring_step u s es' s'"
  then obtain \<tau> where \<tau>: "ring_inv u \<tau> es s" and last: "last_inv (published es) s"
    by blast
  have N: "length (workers s) = su_nworkers u"
    using \<tau> by (simp add: ring_inv_def workers_ok_def)
  have "last_inv (published (es @ es')) s'"
    using step main_last_inv [OF \<tau> last] worker_last_inv [OF \<tau> last] signal_last_inv [OF last] N
    by (auto elim!: ring_stepE)
  then show "(\<exists>\<tau>. ring_inv u \<tau> (es @ es') s') \<and> last_inv (published (es @ es')) s'"
    using ring_step_inv [OF \<tau> step] by blast
qed

lemma done_workers_leave:
  assumes "ring_initial u s0" and "ring_run u s0 es s" and "m_pc s = MDone" and "i < su_nworkers u"
  shows "w_pc (workers s ! i) = WExit \<or>
    w_pc (workers s ! i) = WCheck \<and> unat (input_count (chunks s ! w_idx (workers s ! i))) \<noteq> 4096"
proof -
  obtain \<tau> where inv: "ring_inv u \<tau> es s" and last: "last_inv (published es) s"
    using ending.run_inv [OF assms(2,1)] by blast
  let ?pub = "published es" and ?w = "workers s ! i"
  note parts = ring_invD [OF inv]
  have i: "i < length (workers s)"
    using parts(2) assms(4) by (simp add: workers_ok_def)
  note w = worker_okD [OF ring_inv_worker [OF inv i]]
  have fin: "turn s = length ?pub + 15" "0 < length ?pub" "m_exit_idx s \<noteq> 16"
    using parts(7) assms(3) by (auto simp: turns_ok_def split: if_splits)
  have done_last: "done_with \<tau> (workers s) i (length ?pub - 1)"
    using parts(8) assms(3) i fin by (simp add: cleared_ok_def)
  have "\<tau> i \<noteq> length ?pub"
  proof
    assume t: "\<tau> i = length ?pub"
    then have "waits_for (length ?pub) ?w"
      using w(2,3,9) by (auto simp: waits_for_def)
    then show False
      using last fin(3) i assms(3) by (simp add: last_inv_def)
  qed
  then have t: "\<tau> i = length ?pub - 1" and pc: "finished_pc (w_pc ?w)"
    using done_last w(4) by (auto simp: done_with_def)
  have "live (m_pc s) (length ?pub) (\<tau> i)"
    using t fin(2) assms(3) by (simp add: live_def latest_def)
  then have "unat (input_count (chunks s ! (\<tau> i mod 16))) = length (last ?pub)"
    using parts(3) t fin(2) by (simp add: contents_ok_def last_conv_nth)
  moreover have "length (last ?pub) < 4096"
    using last fin(3) assms(3) by (simp add: last_inv_def)
  ultimately show ?thesis
    using pc w(3) by (auto simp: finished_pc_def)
qed

end
