(* ===== verification/Ring_Complete.thy ===== *)
theory Ring_Complete
  imports Ring_Lapse
begin

text \<open>
  A complete run of the ring: one hexadecimal line in manual mode, one worker. The line's
  instruction is published in the first chunk, the main loop goes round the ring without
  filling further chunks, the worker decodes the instruction and leaves, and the main loop
  processes the sample and ends.
\<close>

lemma skip_chunk:
  assumes "workers s = [w]" and "\<not> sigchld w" and "m_pc s = MAdvance" and "m_idx s = k" and "k < 15"
    and "m_gen s = 1" and "m_exit_idx s = 0" and "remaining_workers (chunks s ! (k + 1)) = 0"
    and "ring_run (demo_with dec) s0 es s"
  shows "ring_run (demo_with dec) s0 es (s\<lparr>m_idx := k + 1\<rparr>)"
proof -
  let ?s1 = "s\<lparr>m_idx := k + 1, m_pc := MWait\<rparr>"
  have 1: "main_step (demo_with dec) s = Some (?s1, [])"
    using assms by (simp add: main_step_def Let_def const_simps)
  have 2: "ring_run (demo_with dec) s0 es ?s1"
    using main_run_step [OF assms(9) 1] by simp
  have 3: "ring_run (demo_with dec) s0 es (?s1\<lparr>m_pc := MProcess 0\<rparr>)"
    using assms by (intro main_run_ring_silent [OF lapse_scan 2]) auto
  have 4: "main_step (demo_with dec) (?s1\<lparr>m_pc := MProcess 0\<rparr>) = Some (s\<lparr>m_idx := k + 1\<rparr>, [])"
    using assms by (simp add: main_step_def Let_def const_simps)
  show ?thesis
    using main_run_step [OF 3 4] by simp
qed

lemma skip_chunks:
  assumes "workers s = [w]" and "\<not> sigchld w" and "m_pc s = MAdvance" and "m_idx s = 0"
    and "m_gen s = 1" and "m_exit_idx s = 0" and "\<forall>c < 16. 0 < c \<longrightarrow> remaining_workers (chunks s ! c) = 0"
    and "ring_run (demo_with dec) s0 es s"
  shows "k < 16 \<Longrightarrow> ring_run (demo_with dec) s0 es (s\<lparr>m_idx := k\<rparr>)"
proof (induction k)
  case 0
  have "s\<lparr>m_idx := 0\<rparr> = s"
    using assms(4) by (cases s) simp
  then show ?case
    using assms(8) by simp
next
  case (Suc k)
  then show ?case
    using assms skip_chunk [of "s\<lparr>m_idx := k\<rparr>" w k dec s0 es] by simp
qed

lemma worker_once:
  assumes "workers s = [start_worker (worker_entry int 0 [])]" and "length (chunks s) = 16"
    and "generation (chunks s ! 0) = 1" and "input_count (chunks s ! 0) = 1"
    and "remaining_workers (chunks s ! 0) = 1" and "ring_run (demo_with dec) s0 es s"
    and "dec 0 zero_output_slot (inputs (chunks s ! 0) ! 0) = (True, r)"
  shows "\<exists>w. w_pc w = WExit \<and> \<not> sigchld w \<and> outputs (out_chunks w ! 0) ! 0 = r \<and>
    ring_run (demo_with dec) s0 es (set_counter 0 0 (s\<lparr>workers := [w]\<rparr>))"
proof -
  let ?w = "start_worker (worker_entry int 0 [])"
  have w: "w_pc ?w = WWait" "w_gen ?w = 1" "w_idx ?w = 0" "\<not> sigchld ?w"
      "out_chunks ?w = replicate 16 zero_output_chunk"
    by (simp_all add: worker_entry_def)
  have 1: "worker_step (demo_with dec) 0 s = Some (s\<lparr>workers := [?w\<lparr>w_pc := WStart\<rparr>]\<rparr>)"
    using assms w by (simp add: worker_step_def Let_def upd_worker_def)
  obtain w0 where 2: "worker_step (demo_with dec) 0 (s\<lparr>workers := [?w\<lparr>w_pc := WStart\<rparr>]\<rparr>) = Some (s\<lparr>workers := [w0]\<rparr>)"
      "at_loop 0 w0" "outputs (out_chunks w0 ! 0) = replicate 4096 zero_output_slot"
    using assms w by (auto simp: worker_step_def Let_def upd_worker_def upd_out_def at_loop_def
        start_slot_def zero_output_chunk_def const_simps)
  obtain w1 where 3: "worker_step (demo_with dec) 0 (s\<lparr>workers := [w0]\<rparr>) = Some (s\<lparr>workers := [w1]\<rparr>)"
      "w_pc w1 = WDecode 0" "w_idx w1 = 0" "\<not> sigchld w1" "length (out_chunks w1) = 16"
      "outputs (out_chunks w1 ! 0) ! 0 = zero_output_slot" "length (outputs (out_chunks w1 ! 0)) = 4096"
    using 2(2,3) assms(4) by (auto simp: at_loop_def worker_step_def Let_def upd_worker_def upd_out_def
        put_output_def zero_output_slot_def)
  obtain w2 where 4: "worker_step (demo_with dec) 0 (s\<lparr>workers := [w1]\<rparr>) = Some (s\<lparr>workers := [w2]\<rparr>)"
      "at_loop 1 w2" "outputs (out_chunks w2 ! 0) ! 0 = r"
    using 3(2-7) assms(7) by (auto simp: at_loop_def worker_step_def Let_def upd_worker_def upd_out_def
        put_output_def demo_with_def zero_output_slot_def)
  have 5: "worker_step (demo_with dec) 0 (s\<lparr>workers := [w2]\<rparr>) = Some (s\<lparr>workers := [w2\<lparr>w_pc := WDec\<rparr>]\<rparr>)"
    using 4(2) assms(4) by (simp add: at_loop_def worker_step_def Let_def upd_worker_def)
  have 6: "worker_step (demo_with dec) 0 (s\<lparr>workers := [w2\<lparr>w_pc := WDec\<rparr>]\<rparr>) =
      Some (set_counter 0 0 (s\<lparr>workers := [w2\<lparr>w_pc := WCheck\<rparr>]\<rparr>))"
    using 4(2) assms(5) by (simp add: at_loop_def worker_step_def Let_def upd_worker_def upd_chunk_def
        set_counter_def)
  have 7: "worker_step (demo_with dec) 0 (set_counter 0 0 (s\<lparr>workers := [w2\<lparr>w_pc := WCheck\<rparr>]\<rparr>)) =
      Some (set_counter 0 0 (s\<lparr>workers := [w2\<lparr>w_pc := WExit\<rparr>]\<rparr>))"
    using 4(2) assms(4) by (simp add: at_loop_def worker_step_def Let_def upd_worker_def const_simps
        set_counter_def upd_chunk_def update_same_field)
  show ?thesis
    using worker_run_step [OF worker_run_step [OF worker_run_step [OF worker_run_step [OF worker_run_step
      [OF worker_run_step [OF worker_run_step [OF assms(6) 1] 2(1)] 3(1)] 4(1)] 5] 6] 7] 4(2,3)
    by (intro exI [of _ "w2\<lparr>w_pc := WExit\<rparr>"]) (simp add: at_loop_def)
qed

lemma complete_run_with:
  assumes "\<And>x. insn_bytes x = [0x90] \<Longrightarrow> dec 0 zero_output_slot x = (True, r x)"
  shows "\<exists>s x. ring_run (demo_with dec) demo_start [Published [x], Processed x [r x]] s \<and>
    insn_bytes x = [0x90] \<and> m_pc s = MDone"
proof -
  obtain s x where run: "ring_run (demo_with dec) demo_start [Published [x]] s" and x: "insn_bytes x = [0x90]"
    and s: "m_pc s = MAdvance" "m_idx s = 0" "workers s = [start_worker (worker_entry int 0 [])]"
      "generation (chunks s ! 0) = 1" "m_gen s = 1" "m_exit_idx s = 0" "length (chunks s) = 16"
      "input_count (chunks s ! 0) = 1" "remaining_workers (chunks s ! 0) = 1" "inputs (chunks s ! 0) ! 0 = x"
      "\<forall>c < 16. 0 < c \<longrightarrow> remaining_workers (chunks s ! c) = 0"
    using demo_run by blast
  have 1: "ring_run (demo_with dec) demo_start [Published [x]] (s\<lparr>m_idx := 15\<rparr>)"
    using s run by (intro skip_chunks) (auto simp: worker_entry_def)
  obtain w where w: "w_pc w = WExit" "\<not> sigchld w" "outputs (out_chunks w ! 0) ! 0 = r x"
    and 2: "ring_run (demo_with dec) demo_start [Published [x]] (set_counter 0 0 (s\<lparr>m_idx := 15, workers := [w]\<rparr>))"
    using worker_once [of "s\<lparr>m_idx := 15\<rparr>" dec demo_start "[Published [x]]" "r x"] s 1 assms [OF x]
    by auto
  define s1 where "s1 = (set_counter 0 0 (s\<lparr>m_idx := 15, workers := [w]\<rparr>))\<lparr>m_idx := 0, m_gen := 2, m_pc := MWait\<rparr>"
  have s1: "workers s1 = [w]" "m_pc s1 = MWait" "m_idx s1 = 0" "m_gen s1 = 2" "m_exit_idx s1 = 0"
      "remaining_workers (chunks s1 ! 0) = 0" "input_count (chunks s1 ! 0) = 1" "inputs (chunks s1 ! 0) ! 0 = x"
    using s by (simp_all add: s1_def set_counter_def upd_chunk_def)
  have 3: "main_step (demo_with dec) (set_counter 0 0 (s\<lparr>m_idx := 15, workers := [w]\<rparr>)) = Some (s1, [])"
    using s by (simp add: main_step_def Let_def const_simps s1_def)
  have "ring_run (demo_with dec) demo_start [Published [x]] s1"
    using main_run_step [OF 2 3] by simp
  then have 4: "ring_run (demo_with dec) demo_start [Published [x]] (s1\<lparr>m_pc := MProcess 0\<rparr>)"
    using s1 w(2) by (intro main_run_ring_silent [OF lapse_scan]) auto
  have 5: "main_step (demo_with dec) (s1\<lparr>m_pc := MProcess 0\<rparr>) = Some (s1\<lparr>m_pc := MProcess 1\<rparr>, [Processed x [r x]])"
    using s1 w(3) by (simp add: main_step_def Let_def)
  have 6: "main_step (demo_with dec) (s1\<lparr>m_pc := MProcess 1\<rparr>) = Some (s1\<lparr>m_pc := MDone\<rparr>, [])"
    using s1 by (simp add: main_step_def Let_def)
  show ?thesis
    using main_run_step [OF main_run_step [OF 4 5] 6] x by (intro exI conjI) auto
qed

lemma complete_run:
  "\<exists>s x. ring_run demo demo_start
       [Published [x], Processed x [zero_output_slot\<lparr>status := S_SUCCESS\<rparr>]] s \<and>
     insn_bytes x = [0x90] \<and> m_pc s = MDone"
  by (rule complete_run_with) (simp add: textless_def zero_output_slot_def)

end
