(* ===== verification/Thread_Mode.thy ===== *)
theory Thread_Mode
  imports Ring_Leaving Ring_Complete
begin

text \<open>
  Thread mode (\<open>-t\<close>, src/mishegos/mishegos.c): the workers are threads of the fuzzer. There is no
  signal handler and no restart, the main loop does not look for crashed workers, a crash in a
  decoder ends the whole program, and after its last chunk the main loop joins the workers. Every
  run of this mode is a run of the ring of \<open>Chunk_Ring\<close>, so what holds there holds here.
\<close>

section \<open>Steps\<close>

record thread_state =
  t_ring :: ring
  t_joined :: nat
  t_dead :: bool

definition thread_main_step :: "fuzz_config \<Rightarrow> thread_state \<Rightarrow> (thread_state \<times> event list) option" where
  "thread_main_step u t =
     (let s = t_ring t in
      case m_pc s of
        MWait \<Rightarrow>
          if remaining_workers (chunks s ! m_idx s) = 0
          then Some (t\<lparr>t_ring := s\<lparr>m_pc := MProcess 0\<rparr>\<rparr>, []) else None
      | MDone \<Rightarrow>
          if t_joined t < su_nworkers u \<and> w_pc (workers s ! t_joined t) = WExit
          then Some (t\<lparr>t_joined := t_joined t + 1\<rparr>, []) else None
      | _ \<Rightarrow> do { (s, es) \<leftarrow> main_step u s; Some (t\<lparr>t_ring := s\<rparr>, es) })"

definition thread_worker_step :: "fuzz_config \<Rightarrow> nat \<Rightarrow> thread_state \<Rightarrow> thread_state option" where
  "thread_worker_step u i t = do {
     s \<leftarrow> worker_step u i (t_ring t);
     Some (t\<lparr>t_ring := s, t_dead := (w_pc (workers s ! i) = WDead)\<rparr>) }"

inductive thread_step :: "fuzz_config \<Rightarrow> thread_state \<Rightarrow> event list \<Rightarrow> thread_state \<Rightarrow> bool" for u where
  thread_main: "\<not> t_dead t \<Longrightarrow> thread_main_step u t = Some (t', es) \<Longrightarrow> thread_step u t es t'"
| thread_worker: "\<not> t_dead t \<Longrightarrow> i < su_nworkers u \<Longrightarrow> thread_worker_step u i t = Some t' \<Longrightarrow>
    thread_step u t [] t'"

inductive_cases thread_stepE: "thread_step u t es t'"

definition thread_start :: "worker_config list \<Rightarrow> mutator_state \<Rightarrow> thread_state" where
  "thread_start wcs e = \<lparr>t_ring = ring_start wcs e, t_joined = 0, t_dead = False\<rparr>"

section \<open>Simulation by the ring\<close>

text \<open>Nothing in a thread-mode state asks for a restart, and the joined workers have left.\<close>

definition thread_ok :: "fuzz_config \<Rightarrow> thread_state \<Rightarrow> bool" where
  "thread_ok u t \<longleftrightarrow> length (workers (t_ring t)) = su_nworkers u \<and>
     (\<forall>i < su_nworkers u. \<not> sigchld (workers (t_ring t) ! i)) \<and>
     (\<forall>i r. m_pc (t_ring t) \<noteq> MScan i r) \<and>
     (\<forall>i < t_joined t. w_pc (workers (t_ring t) ! i) = WExit) \<and> t_joined t \<le> su_nworkers u"

lemma one_step: "thread_step u s es s' \<Longrightarrow> trace_run (thread_step u) s es s'"
    "ring_step u r es r' \<Longrightarrow> trace_run (ring_step u) r es r'"
  using trace_run.more [OF trace_run.start, of "thread_step u" s es s']
    trace_run.more [OF trace_run.start, of "ring_step u" r es r'] by simp_all

text \<open>The scan for crashed workers passes over workers that need no restart.\<close>

lemma scan_passes:
  assumes "\<forall>i < su_nworkers u. \<not> sigchld (workers s ! i)" and "k \<le> su_nworkers u"
  shows "trace_run (ring_step u) (s\<lparr>m_pc := MScan 0 False\<rparr>) [] (s\<lparr>m_pc := MScan k False\<rparr>)"
  using assms(2)
proof (induction k)
  case 0
  then show ?case
    by (simp add: trace_run.start)
next
  case (Suc k)
  have "main_step u (s\<lparr>m_pc := MScan k False\<rparr>) = Some (s\<lparr>m_pc := MScan (Suc k) False\<rparr>, [])"
    using Suc.prems assms(1) by (simp add: main_step_def Let_def)
  then have "ring_step u (s\<lparr>m_pc := MScan k False\<rparr>) [] (s\<lparr>m_pc := MScan (Suc k) False\<rparr>)"
    by (rule by_main)
  then show ?case
    using trace_run.more [OF Suc.IH] Suc.prems by fastforce
qed

lemma wait_and_scan:
  assumes "\<forall>i < su_nworkers u. \<not> sigchld (workers s ! i)" and "m_pc s = MWait"
    and "remaining_workers (chunks s ! m_idx s) = 0"
  shows "trace_run (ring_step u) s [] (s\<lparr>m_pc := MProcess 0\<rparr>)"
proof -
  have "ring_step u s [] (s\<lparr>m_pc := MScan 0 False\<rparr>)"
    using assms(2,3) by (intro by_main) (simp add: main_step_def Let_def)
  then have "trace_run (ring_step u) s [] (s\<lparr>m_pc := MScan 0 False\<rparr>)"
    by (rule one_step(2))
  then have "trace_run (ring_step u) s [] (s\<lparr>m_pc := MScan (su_nworkers u) False\<rparr>)"
    using trace_run_trans [OF scan_passes [OF assms(1), of "su_nworkers u"]] by fastforce
  moreover have "ring_step u (s\<lparr>m_pc := MScan (su_nworkers u) False\<rparr>) [] (s\<lparr>m_pc := MProcess 0\<rparr>)"
    by (intro by_main) (simp add: main_step_def Let_def)
  ultimately show ?thesis
    using trace_run.more by fastforce
qed

lemma worker_step_sigchld:
  assumes "worker_step u i s = Some s'"
  shows "sigchld (workers s' ! k) = sigchld (workers s ! k)"
proof -
  have "sigchld (workers (upd_worker i f s) ! k) = sigchld (workers s ! k)"
    if "\<And>w. sigchld (f w) = sigchld w" for f and s
    using that by (cases "i < length (workers s)") (auto simp: upd_worker_def nth_list_update not_less list_update_beyond)
  then show ?thesis
    using assms by (auto simp: worker_step_def upd_out_def Let_def split: worker_pc.splits if_splits prod.splits)
qed

lemma worker_step_exited:
  assumes "worker_step u i s = Some s'" and "w_pc (workers s ! k) = WExit"
  shows "w_pc (workers s' ! k) = WExit"
proof -
  have "k \<noteq> i"
    using assms by (auto simp: worker_step_def Let_def)
  then have "w_pc (workers (upd_worker i f s) ! k) = w_pc (workers s ! k)" for f and s
    by (simp add: upd_worker_def)
  then show ?thesis
    using assms by (auto simp: worker_step_def Let_def split: worker_pc.splits if_splits prod.splits)
qed

lemma main_step_frame:
  assumes "main_step u s = Some (s', es)" and "\<And>i r. m_pc s \<noteq> MScan i r" and "m_pc s \<noteq> MWait"
  shows "workers s' = workers s" and "m_pc s' \<noteq> MScan i r"
  using assms by (auto simp: main_step_def Let_def split: main_pc.splits if_splits Option.bind_splits)

lemma thread_step_simulated:
  assumes ok: "thread_ok u t" and step: "thread_step u t es t'"
  shows "trace_run (ring_step u) (t_ring t) es (t_ring t') \<and> thread_ok u t'"
  using step
proof (rule thread_stepE)
  assume main: "thread_main_step u t = Some (t', es)"
  show ?thesis
  proof (cases "m_pc (t_ring t) \<in> {MWait, MDone}")
    case True
    then show ?thesis
      using main ok wait_and_scan [of u "t_ring t"]
      by (auto simp: thread_main_step_def thread_ok_def Let_def less_Suc_eq trace_run.start split: if_splits)
  next
    case False
    then obtain s where s: "main_step u (t_ring t) = Some (s, es)" "t' = t\<lparr>t_ring := s\<rparr>"
      using main ok by (auto simp: thread_main_step_def thread_ok_def Let_def split: main_pc.splits Option.bind_splits)
    have "trace_run (ring_step u) (t_ring t) es s"
      by (intro one_step(2) by_main s)
    then show ?thesis
      using ok s(2) False main_step_frame [OF s(1)] by (auto simp: thread_ok_def)
  qed
next
  fix i
  assume *: "es = []" "i < su_nworkers u" "thread_worker_step u i t = Some t'"
  then obtain s where s: "worker_step u i (t_ring t) = Some s" "t_ring t' = s" "t_joined t' = t_joined t"
    by (auto simp: thread_worker_step_def split: Option.bind_splits)
  have "trace_run (ring_step u) (t_ring t) [] s"
    by (intro one_step(2) by_worker [OF *(2) s(1)])
  then show ?thesis
    using ok * s worker_step_sigchld [OF s(1)] worker_step_exited [OF s(1)] worker_step_frame(2,4) [OF s(1)]
    by (auto simp: thread_ok_def)
qed

definition thread_initial :: "fuzz_config \<Rightarrow> thread_state \<Rightarrow> bool" where
  "thread_initial u t \<longleftrightarrow> ring_initial u (t_ring t) \<and> t_joined t = 0 \<and> \<not> t_dead t"

lemma thread_initial_ok: "thread_initial u t \<Longrightarrow> thread_ok u t"
  by (auto simp: thread_initial_def ring_initial_def thread_ok_def ring_start_def fresh_config_def)

interpretation threads: traced_system "thread_step u" "\<lambda>t. t = t0 \<and> thread_initial u t0"
    "\<lambda>es t. ring_run u (t_ring t0) es (t_ring t) \<and> thread_ok u t" for u t0
proof
  show "ring_run u (t_ring t0) [] (t_ring t) \<and> thread_ok u t" if "t = t0 \<and> thread_initial u t0" for t
    using that thread_initial_ok by (auto intro: trace_run.start)
  show "ring_run u (t_ring t0) (es @ es') (t_ring t') \<and> thread_ok u t'"
    if inv: "ring_run u (t_ring t0) es (t_ring t) \<and> thread_ok u t" and step: "thread_step u t es' t'" for es t es' t'
  proof -
    have "trace_run (ring_step u) (t_ring t) es' (t_ring t') \<and> thread_ok u t'"
      by (rule thread_step_simulated [OF conjunct2 [OF inv] step])
    then show ?thesis
      using trace_run_trans [OF _ conjunct1 [OF inv]] by auto
  qed
qed

lemma thread_run_ring:
  assumes "thread_initial u t0" and "trace_run (thread_step u) t0 es t"
  shows "ring_run u (t_ring t0) es (t_ring t)" and "thread_ok u t" and "ring_initial u (t_ring t0)"
  using threads.run_inv [OF assms(2), of t0] assms(1) by (simp_all add: thread_initial_def)

section \<open>Joining ends\<close>

text \<open>A worker that has signed off from the last chunk leaves with its next step.\<close>

lemma leave_step:
  assumes "w_pc (workers s ! i) = WCheck" and "unat (input_count (chunks s ! w_idx (workers s ! i))) \<noteq> 4096"
  shows "worker_step u i s = Some (upd_worker i (\<lambda>w. w\<lparr>w_pc := WExit\<rparr>) s)"
  using assms by (simp add: worker_step_def Let_def const_simps)

text \<open>Once the next worker has left, it is joined; otherwise it leaves first.\<close>

lemma join_one:
  assumes init: "thread_initial u t0" and run: "trace_run (thread_step u) t0 es t" and alive: "\<not> t_dead t"
    and pc: "m_pc (t_ring t) = MDone" and more: "t_joined t < su_nworkers u"
  shows "\<exists>t'. trace_run (thread_step u) t [] t' \<and> \<not> t_dead t' \<and> m_pc (t_ring t') = MDone \<and>
    t_joined t' = t_joined t + 1"
proof -
  let ?s = "t_ring t" and ?i = "t_joined t"
  have join: "thread_step u t' [] (t'\<lparr>t_joined := t_joined t' + 1\<rparr>)"
    if "\<not> t_dead t'" "m_pc (t_ring t') = MDone" "t_joined t' < su_nworkers u"
      "w_pc (workers (t_ring t') ! t_joined t') = WExit" for t'
    using that by (intro thread_main) (simp_all add: thread_main_step_def Let_def)
  have len: "?i < length (workers ?s)"
    using thread_run_ring(2) [OF init run] more by (simp add: thread_ok_def)
  consider "w_pc (workers ?s ! ?i) = WExit"
    | "w_pc (workers ?s ! ?i) = WCheck" "unat (input_count (chunks ?s ! w_idx (workers ?s ! ?i))) \<noteq> 4096"
    using done_workers_leave [OF thread_run_ring(3) [OF init run] thread_run_ring(1) [OF init run] pc more] by blast
  then show ?thesis
  proof cases
    case 1
    then show ?thesis
      using join [OF alive pc more 1, THEN one_step(1)] alive pc
      by (intro exI [of _ "t\<lparr>t_joined := ?i + 1\<rparr>"]) simp
  next
    case 2
    let ?t = "t\<lparr>t_ring := upd_worker ?i (\<lambda>w. w\<lparr>w_pc := WExit\<rparr>) ?s, t_dead := False\<rparr>"
    have "thread_worker_step u ?i t = Some ?t"
      using leave_step [OF 2] len by (simp add: thread_worker_step_def upd_worker_pc)
    then have "thread_step u t [] ?t"
      by (rule thread_worker [OF alive more])
    moreover have "thread_step u ?t [] (?t\<lparr>t_joined := ?i + 1\<rparr>)"
      using join [of ?t] pc more len by (simp add: upd_worker_pc)
    ultimately have "trace_run (thread_step u) t [] (?t\<lparr>t_joined := ?i + 1\<rparr>)"
      using run_step [OF one_step(1)] by blast
    then show ?thesis
      using pc by (intro exI [of _ "?t\<lparr>t_joined := ?i + 1\<rparr>"]) simp
  qed
qed

lemma join_all:
  assumes "thread_initial u t0" and "trace_run (thread_step u) t0 es t" and "\<not> t_dead t"
    and "m_pc (t_ring t) = MDone" and "t_joined t + k = su_nworkers u"
  shows "\<exists>t'. trace_run (thread_step u) t [] t' \<and> m_pc (t_ring t') = MDone \<and> t_joined t' = su_nworkers u"
  using assms(2-5)
proof (induction k arbitrary: t)
  case 0
  then show ?case
    using trace_run.start by fastforce
next
  case (Suc k)
  obtain t1 where t1: "trace_run (thread_step u) t [] t1" "\<not> t_dead t1" "m_pc (t_ring t1) = MDone"
      "t_joined t1 = t_joined t + 1"
    using join_one [OF assms(1) Suc.prems(1-3)] Suc.prems(4) by auto
  have "trace_run (thread_step u) t0 es t1"
    using trace_run_trans [OF t1(1) Suc.prems(1)] by simp
  then obtain t' where "trace_run (thread_step u) t1 [] t'" "m_pc (t_ring t') = MDone" "t_joined t' = su_nworkers u"
    using Suc.IH [of t1] t1 Suc.prems(4) by auto
  then show ?case
    using trace_run_trans [OF _ t1(1)] by fastforce
qed

section \<open>Runs without crashes are runs in thread mode\<close>

definition crash_free :: "fuzz_config \<Rightarrow> bool" where
  "crash_free u \<longleftrightarrow> (\<forall>i r inp. fst (su_decode u i r inp))"

text \<open>
  While the main loop of process mode looks for crashed workers, that of thread mode is already
  past the wait.
\<close>

definition scanned :: "ring \<Rightarrow> ring" where
  "scanned s = (case m_pc s of MScan i r \<Rightarrow> s\<lparr>m_pc := MProcess 0\<rparr> | _ \<Rightarrow> s)"

definition crash_free_match :: "fuzz_config \<Rightarrow> ring \<Rightarrow> thread_state \<Rightarrow> bool" where
  "crash_free_match u s t \<longleftrightarrow> t_ring t = scanned s \<and> \<not> t_dead t \<and> length (workers s) = su_nworkers u \<and>
     (\<forall>i < su_nworkers u. \<not> sigchld (workers s ! i) \<and> w_pc (workers s ! i) \<noteq> WDead) \<and>
     (\<forall>i r. m_pc s = MScan i r \<longrightarrow> \<not> r)"

lemma worker_step_pc:
  "worker_step u i (s\<lparr>m_pc := p\<rparr>) = map_option (\<lambda>s. s\<lparr>m_pc := p\<rparr>) (worker_step u i s)"
  by (simp add: worker_step_def Let_def upd_worker_def upd_chunk_def split: worker_pc.split prod.split)

lemma crash_free_alive:
  assumes "crash_free u" and "worker_step u i s = Some s'" and "w_pc (workers s ! k) \<noteq> WDead"
  shows "w_pc (workers s' ! k) \<noteq> WDead"
proof (cases "k = i \<and> i < length (workers s)")
  case True
  have "fst (su_decode u i r inp)" for r inp
    using assms(1) by (simp add: crash_free_def)
  then show ?thesis
    using assms(2) True
    by (auto simp: worker_step_def Let_def upd_worker_pc upd_out_def split: worker_pc.splits if_splits prod.splits)
      (metis fst_conv)+
next
  case False
  then show ?thesis
    using assms(2,3)
    by (auto simp: worker_step_def Let_def upd_worker_pc split: worker_pc.splits if_splits prod.splits)
qed

lemma crash_free_step:
  assumes free: "crash_free u" and match: "crash_free_match u s t" and step: "ring_step u s es s'"
  shows "\<exists>t'. trace_run (thread_step u) t es t' \<and> crash_free_match u s' t'"
  using step
proof (rule ring_stepE)
  assume main: "main_step u s = Some (s', es)"
  consider (wait) "m_pc s = MWait" | (scan) i where "m_pc s = MScan i False"
    | (other) "m_pc s \<noteq> MWait" "\<And>i r. m_pc s \<noteq> MScan i r" "m_pc s \<noteq> MDone"
    using match main by (cases "m_pc s") (auto simp: crash_free_match_def main_step_def Let_def)
  then show ?thesis
  proof cases
    case wait
    then have "thread_step u t [] (t\<lparr>t_ring := scanned s'\<rparr>)" "es = []" "crash_free_match u s' (t\<lparr>t_ring := scanned s'\<rparr>)"
      using match main
      by (auto simp: crash_free_match_def main_step_def thread_main_step_def scanned_def Let_def
          intro!: thread_main split: if_splits)
    then show ?thesis
      using one_step(1) by fastforce
  next
    case scan
    then have es: "es = []" and "s' = s\<lparr>m_pc := MScan (i + 1) False\<rparr> \<or> s' = s\<lparr>m_pc := MProcess 0\<rparr>"
      using match main by (auto simp: crash_free_match_def main_step_def Let_def split: if_splits)
    then have "crash_free_match u s' t"
      using match scan by (elim disjE) (simp_all add: crash_free_match_def scanned_def)
    then show ?thesis
      using es trace_run.start [of "thread_step u" t] by blast
  next
    case other
    have s: "t_ring t = s"
      using match other(2) by (auto simp: crash_free_match_def scanned_def split: main_pc.splits)
    have new: "m_pc s' \<noteq> MScan i r" "workers s' = workers s" for i r
      using main_step_frame [OF main other(2,1)] by auto
    have "thread_main_step u t = Some (t\<lparr>t_ring := s'\<rparr>, es)"
      using other main s by (cases "m_pc s") (auto simp: thread_main_step_def Let_def)
    then have "thread_step u t es (t\<lparr>t_ring := s'\<rparr>)"
      using match by (intro thread_main) (simp add: crash_free_match_def)
    moreover have "crash_free_match u s' (t\<lparr>t_ring := s'\<rparr>)"
      using match new by (auto simp: crash_free_match_def scanned_def split: main_pc.splits)
    ultimately show ?thesis
      using one_step(1) by fastforce
  qed
next
  fix i
  assume *: "es = []" "i < su_nworkers u" "worker_step u i s = Some s'"
  note alive = crash_free_alive [OF free *(3)] and frame = worker_step_frame(2,4) [OF *(3)]
  have "worker_step u i (t_ring t) = Some (scanned s')"
    using match *(3) frame(1) worker_step_pc [of u i "MProcess 0" s]
    by (auto simp: crash_free_match_def scanned_def split: main_pc.split)
  moreover have "w_pc (workers (scanned s') ! i) \<noteq> WDead"
    using alive match *(2) by (simp add: crash_free_match_def scanned_def split: main_pc.split)
  ultimately have "thread_step u t [] (t\<lparr>t_ring := scanned s', t_dead := False\<rparr>)"
    using match *(2) by (intro thread_worker [of _ i]) (simp_all add: thread_worker_step_def crash_free_match_def)
  moreover have "crash_free_match u s' (t\<lparr>t_ring := scanned s', t_dead := False\<rparr>)"
    using match alive frame worker_step_sigchld [OF *(3)] by (auto simp: crash_free_match_def)
  ultimately show ?thesis
    using *(1) one_step(1) by fastforce
next
  fix i
  assume "i < su_nworkers u" "sigchld_handler i s = Some s'"
  then show ?thesis
    using match by (auto simp: crash_free_match_def sigchld_handler_def Let_def split: if_splits)
qed

lemma crash_free_run_threads:
  assumes "ring_run u s0 es s" and "crash_free u" and "crash_free_match u s0 t0"
  shows "\<exists>t. trace_run (thread_step u) t0 es t \<and> crash_free_match u s t"
  using assms(1)
proof (induction rule: trace_run.induct)
  case start
  then show ?case
    using assms(3) trace_run.start by fastforce
next
  case (more es s es' s')
  then obtain t where t: "trace_run (thread_step u) t0 es t" "crash_free_match u s t"
    by blast
  obtain t' where "trace_run (thread_step u) t es' t'" "crash_free_match u s' t'"
    using crash_free_step [OF assms(2) t(2) more(2)] by blast
  then show ?case
    using trace_run_trans [OF _ t(1)] by blast
qed

section \<open>Properties\<close>

text \<open>C12: Thread mode is process mode without crashes, and it ends. Every run in thread mode shows the
  events of a run of the ring that leads to the same shared memory and the same positions of all
  workers. When its main loop has ended and nothing has crashed, joining the workers cannot block:
  it can always be completed, without further output, and then every published input has been
  processed, exactly once and in order, and every worker has left.\<close>

theorem thread_mode_refines:
  assumes "thread_initial u t0" and "trace_run (thread_step u) t0 es t"
  shows "ring_run u (t_ring t0) es (t_ring t) \<and>
    (m_pc (t_ring t) = MDone \<and> \<not> t_dead t \<longrightarrow>
       map fst (processed es) = concat (published es) \<and>
       (\<exists>t'. trace_run (thread_step u) t [] t' \<and> m_pc (t_ring t') = MDone \<and> t_joined t' = su_nworkers u \<and>
         (\<forall>i < su_nworkers u. w_pc (workers (t_ring t') ! i) = WExit)))"
proof -
  note run = thread_run_ring [OF assms]
  obtain \<tau> where inv: "ring_inv u \<tau> es (t_ring t)"
    using ring.run_inv [OF run(1,3)] by blast
  have "\<exists>t'. trace_run (thread_step u) t [] t' \<and> m_pc (t_ring t') = MDone \<and> t_joined t' = su_nworkers u \<and>
      (\<forall>i < su_nworkers u. w_pc (workers (t_ring t') ! i) = WExit)"
    if pc: "m_pc (t_ring t) = MDone" and alive: "\<not> t_dead t"
  proof -
    obtain k where "t_joined t + k = su_nworkers u"
      using run(2) by (auto simp: thread_ok_def le_iff_add)
    then obtain t' where t': "trace_run (thread_step u) t [] t'" "m_pc (t_ring t') = MDone" "t_joined t' = su_nworkers u"
      using join_all [OF assms alive pc] by blast
    have "thread_ok u t'"
      using thread_run_ring(2) [OF assms(1) trace_run_trans [OF t'(1) assms(2)]] .
    then show ?thesis
      using t' by (intro exI [of _ t']) (simp add: thread_ok_def)
  qed
  then show ?thesis
    using run(1) processed_prefix(2) [OF inv] by blast
qed

text \<open>The instance: the complete run of one worker on one instruction, with threads.\<close>

definition demo_threads :: thread_state where
  "demo_threads = \<lparr>t_ring = demo_start, t_joined = 0, t_dead = False\<rparr>"

theorem thread_mode_refines_witness:
  "\<exists>es t t'. trace_run (thread_step demo) demo_threads es t \<and> m_pc (t_ring t) = MDone \<and> length (processed es) = 1 \<and>
    trace_run (thread_step demo) t [] t' \<and> t_joined t' = 1"
proof -
  have init: "thread_initial demo demo_threads"
    using demo_initial by (simp add: thread_initial_def demo_threads_def)
  have free: "crash_free demo"
    by (simp add: crash_free_def demo_def)
  have "crash_free_match demo demo_start demo_threads"
    by (auto simp: crash_free_match_def demo_threads_def demo_start_def ring_start_def scanned_def demo_def worker_entry_def)
  then obtain x r s t where "ring_run demo demo_start [Published [x], Processed x [r]] s" "m_pc s = MDone"
    and t: "trace_run (thread_step demo) demo_threads [Published [x], Processed x [r]] t" "crash_free_match demo s t"
    using complete_run crash_free_run_threads [OF _ free] by blast
  then have "m_pc (t_ring t) = MDone" "\<not> t_dead t"
    by (simp_all add: crash_free_match_def scanned_def)
  moreover from this obtain t' where "trace_run (thread_step demo) t [] t'" "t_joined t' = su_nworkers demo"
    using thread_mode_refines [OF init t(1)] by blast
  ultimately show ?thesis
    using t(1) by (intro exI [of _ "[Published [x], Processed x [r]]"] exI [of _ t] exI [of _ t'])
      (simp add: demo_def)
qed

end
