(* ===== verification/Futex_Wait.thy ===== *)
theory Futex_Wait
  imports Prelude
begin

text \<open>
  Waiting for a shared counter (src/mishegos/mishegos.c: \<open>mish_atomic_wait_for\<close>,
  \<open>mish_atomic_notify\<close> and the atomic operations around them, with futexes), as a state machine
  at the granularity of the atomic accesses to the value and to the count of waiters and of the
  futex system calls. The ring (\<open>Chunk_Ring\<close>) treats a wait as a step that is enabled when the
  value is there; what is shown here is what entitles it to, and on which hosts: no wake-up is
  lost as long as the load of the count of waiters in \<open>mish_atomic_notify\<close> is performed after the
  change it follows. The code does not ask for that, since its accesses to the count are relaxed.
  On x86 it holds (atomic stores and read-modify-writes are locked instructions, which later
  loads do not overtake); on hosts such as arm64 the load may be performed first. The flag
  \<open>early\<close> of the step relation says whether the host does so.

  The other relaxed accesses are those of the waiter, before and after a system call of its own,
  which orders them with the kernel's comparison of the value. A decrement that is performed
  late leaves the count too high for a while, which costs a wake-up call and loses none.
\<close>

section \<open>One counter and the threads that use it\<close>

text \<open>A waiter in \<open>mish_atomic_wait_for\<close>; \<open>old\<close> is the value of its last load.\<close>

datatype waiter_pc =
    Spin nat | Count_In u32 | Futex_Wait_Call u32 | Asleep u32 | Count_Out | Waited

record waiter =
  wt_target :: u32
  wt_pc :: waiter_pc

text \<open>
  A thread that changes the value: \<open>mish_atomic_store\<close>, or \<open>mish_atomic_fetch_add\<close> of -1, which is
  followed by \<open>mish_atomic_notify\<close> when the worker was the last one; the same without a
  notification from the signal handler, whose signal interrupts the sleep of the thread it runs in.
\<close>

datatype change = Store_Notify u32 | Dec_Notify_Last | Dec_In_Handler

text \<open>\<open>Loaded_Early\<close>: whether there are waiters has been read, the change is still to be made.\<close>

datatype notifier_pc =
    Changing change | Loaded_Early change bool | Load_Waiters | Wake_Call | Notified

primrec change_of :: "notifier_pc \<Rightarrow> change option" where
  "change_of (Changing ch) = Some ch"
| "change_of (Loaded_Early ch found) = Some ch"
| "change_of Load_Waiters = None"
| "change_of Wake_Call = None"
| "change_of Notified = None"

record futex_state =
  fx_val :: u32
  fx_waiters :: u32
  fx_threads :: "waiter list"
  fx_notifiers :: "notifier_pc list"

definition set_waiter :: "nat \<Rightarrow> waiter_pc \<Rightarrow> futex_state \<Rightarrow> futex_state" where
  "set_waiter i p s = s\<lparr>fx_threads := (fx_threads s)[i := (fx_threads s ! i)\<lparr>wt_pc := p\<rparr>]\<rparr>"

text \<open>
  \<open>mish_futex_wait\<close> sleeps only if the value is still the one loaded; after 10000 loads of a
  wrong value every further one is followed by a system call. The sleep ends by a wake-up (a step
  of the notifier), or for no reason the program sees (\<open>spurious\<close>), in \<open>Count_Out\<close>.
\<close>

definition waiter_step :: "nat \<Rightarrow> futex_state \<Rightarrow> futex_state option" where
  "waiter_step i s =
     (let w = fx_threads s ! i in
      case wt_pc w of
        Spin cnt \<Rightarrow>
          let old = fx_val s in
          if old = wt_target w then Some (set_waiter i Waited s)
          else if cnt + 1 > 10000 then Some (set_waiter i (Count_In old) s)
          else Some (set_waiter i (Spin (cnt + 1)) s)
      | Count_In old \<Rightarrow>
          Some (set_waiter i (Futex_Wait_Call old) (s\<lparr>fx_waiters := fx_waiters s + 1\<rparr>))
      | Futex_Wait_Call old \<Rightarrow>
          if fx_val s = old then Some (set_waiter i (Asleep old) s)
          else Some (set_waiter i Count_Out s)
      | Asleep old \<Rightarrow> None
      | Count_Out \<Rightarrow> Some (set_waiter i (Spin 10000) (s\<lparr>fx_waiters := fx_waiters s - 1\<rparr>))
      | Waited \<Rightarrow> None)"

definition wake_waiter :: "waiter \<Rightarrow> waiter" where
  "wake_waiter w = (case wt_pc w of Asleep old \<Rightarrow> w\<lparr>wt_pc := Count_Out\<rparr> | _ \<Rightarrow> w)"

text \<open>A signal restarts the system call, which checks the value again.\<close>

definition restart_call :: "waiter \<Rightarrow> waiter" where
  "restart_call w = (case wt_pc w of Asleep old \<Rightarrow> w\<lparr>wt_pc := Futex_Wait_Call old\<rparr> | _ \<Rightarrow> w)"

definition set_notifier :: "nat \<Rightarrow> notifier_pc \<Rightarrow> futex_state \<Rightarrow> futex_state" where
  "set_notifier j p s = s\<lparr>fx_notifiers := (fx_notifiers s)[j := p]\<rparr>"

definition notifier_step :: "nat \<Rightarrow> futex_state \<Rightarrow> futex_state option" where
  "notifier_step j s =
     (case fx_notifiers s ! j of
        Changing (Store_Notify v) \<Rightarrow> Some (set_notifier j Load_Waiters (s\<lparr>fx_val := v\<rparr>))
      | Changing Dec_Notify_Last \<Rightarrow>
          Some (set_notifier j (if fx_val s = 1 then Load_Waiters else Notified)
            (s\<lparr>fx_val := fx_val s - 1\<rparr>))
      | Changing Dec_In_Handler \<Rightarrow>
          Some (set_notifier j Notified
            (s\<lparr>fx_val := fx_val s - 1, fx_threads := map restart_call (fx_threads s)\<rparr>))
      | Loaded_Early (Store_Notify v) found \<Rightarrow>
          Some (set_notifier j (if found then Wake_Call else Notified) (s\<lparr>fx_val := v\<rparr>))
      | Loaded_Early Dec_Notify_Last found \<Rightarrow>
          Some (set_notifier j (if fx_val s = 1 \<and> found then Wake_Call else Notified)
            (s\<lparr>fx_val := fx_val s - 1\<rparr>))
      | Loaded_Early Dec_In_Handler found \<Rightarrow> None
      | Load_Waiters \<Rightarrow>
          Some (set_notifier j (if fx_waiters s \<noteq> 0 then Wake_Call else Notified) s)
      | Wake_Call \<Rightarrow>
          Some (set_notifier j Notified (s\<lparr>fx_threads := map wake_waiter (fx_threads s)\<rparr>))
      | Notified \<Rightarrow> None)"

text \<open>On a host with \<open>early\<close> loads, a thread that notifies may read the count before its change.\<close>

inductive futex_step :: "bool \<Rightarrow> futex_state \<Rightarrow> unit list \<Rightarrow> futex_state \<Rightarrow> bool" for early where
  waiter: "i < length (fx_threads s) \<Longrightarrow> waiter_step i s = Some s' \<Longrightarrow> futex_step early s [] s'"
| notifier: "j < length (fx_notifiers s) \<Longrightarrow> notifier_step j s = Some s' \<Longrightarrow> futex_step early s [] s'"
| early_load: "early \<Longrightarrow> j < length (fx_notifiers s) \<Longrightarrow> fx_notifiers s ! j = Changing ch \<Longrightarrow>
    ch \<noteq> Dec_In_Handler \<Longrightarrow>
    futex_step early s [] (set_notifier j (Loaded_Early ch (fx_waiters s \<noteq> 0)) s)"
| spurious: "i < length (fx_threads s) \<Longrightarrow> wt_pc (fx_threads s ! i) = Asleep old \<Longrightarrow>
    futex_step early s [] (set_waiter i Count_Out s)"

inductive_cases futex_stepE: "futex_step early s es s'"

text \<open>
  How the program uses its two counters: workers wait for any value of \<open>generation\<close>, which
  only \<open>main\<close> stores; \<open>main\<close> alone waits for \<open>remaining_workers\<close> to become 0, which workers and
  the handler decrement.
\<close>

definition generation_use :: "futex_state \<Rightarrow> bool" where
  "generation_use s \<longleftrightarrow> (\<forall>j < length (fx_notifiers s). \<forall>ch. change_of (fx_notifiers s ! j) = Some ch \<longrightarrow>
     (\<exists>v. ch = Store_Notify v))"

definition none_early :: "futex_state \<Rightarrow> bool" where
  "none_early s \<longleftrightarrow> (\<forall>j < length (fx_notifiers s). \<forall>ch found. fx_notifiers s ! j \<noteq> Loaded_Early ch found)"

definition remaining_use :: "futex_state \<Rightarrow> bool" where
  "remaining_use s \<longleftrightarrow> (\<forall>w \<in> set (fx_threads s). wt_target w = 0)"

definition futex_initial :: "futex_state \<Rightarrow> bool" where
  "futex_initial s \<longleftrightarrow> fx_waiters s = 0 \<and> length (fx_threads s) < 2 ^ 32 \<and>
     (\<forall>w \<in> set (fx_threads s). \<exists>cnt. wt_pc w = Spin cnt) \<and> none_early s \<and>
     (generation_use s \<or> remaining_use s)"

text \<open>
  A run is an episode of waiting: notifications of earlier changes may still be under way when it
  starts. Between two waits for \<open>remaining_workers\<close> the main loop itself stores the number of
  workers and undoes the handler's decrement, with no other thread waiting: that only chooses the
  state the next episode starts in.
\<close>

text \<open>A waiter running alone.\<close>

primrec waiter_run :: "nat \<Rightarrow> nat \<Rightarrow> futex_state \<Rightarrow> futex_state option" where
  "waiter_run i 0 s = Some s"
| "waiter_run i (Suc n) s = do { s \<leftarrow> waiter_step i s; waiter_run i n s }"

section \<open>The invariant\<close>

fun inside :: "waiter_pc \<Rightarrow> bool" where
  "inside (Futex_Wait_Call old) = True" | "inside (Asleep old) = True" | "inside Count_Out = True"
| "inside _ = False"

fun seen :: "waiter_pc \<Rightarrow> u32 option" where
  "seen (Count_In old) = Some old" | "seen (Futex_Wait_Call old) = Some old"
| "seen (Asleep old) = Some old" | "seen _ = None"

definition pending :: "futex_state \<Rightarrow> bool" where
  "pending s \<longleftrightarrow> Load_Waiters \<in> set (fx_notifiers s) \<or> Wake_Call \<in> set (fx_notifiers s)"

definition no_oversleep :: "futex_state \<Rightarrow> bool" where
  "no_oversleep s \<longleftrightarrow> (\<forall>w \<in> set (fx_threads s). \<forall>old. wt_pc w = Asleep old \<longrightarrow> fx_val s = wt_target w \<longrightarrow>
     pending s)"

definition futex_inv :: "bool \<Rightarrow> futex_state \<Rightarrow> bool" where
  "futex_inv early s \<longleftrightarrow> fx_waiters s = of_nat (length (filter (\<lambda>w. inside (wt_pc w)) (fx_threads s))) \<and>
     length (fx_threads s) < 2 ^ 32 \<and>
     (\<forall>w \<in> set (fx_threads s). seen (wt_pc w) \<noteq> Some (wt_target w)) \<and>
     (early \<or> none_early s \<and> no_oversleep s) \<and> (generation_use s \<or> remaining_use s)"

lemma futex_inv_start: "futex_initial s \<Longrightarrow> futex_inv early s"
proof -
  assume init: "futex_initial s"
  then have "filter (\<lambda>w. inside (wt_pc w)) (fx_threads s) = []"
    by (auto simp: futex_initial_def filter_empty_conv)
  then show ?thesis
    using init by (force simp: futex_initial_def futex_inv_def no_oversleep_def)
qed

text \<open>Changing one waiter changes the count of those inside by at most one.\<close>

lemma length_filter_update:
  "i < length xs \<Longrightarrow> length (filter P (xs[i := x])) + (if P (xs ! i) then 1 else 0) =
     length (filter P xs) + (if P x then 1 else 0)"
proof (induction xs arbitrary: i)
  case Nil
  then show ?case by simp
next
  case (Cons y xs)
  then show ?case
  proof (cases i)
    case (Suc j)
    then show ?thesis
      using Cons.IH [of j] Cons.prems by (simp split: if_splits)
  qed simp
qed

lemma set_waiter_simps [simp]:
  "fx_val (set_waiter i p s) = fx_val s" "fx_waiters (set_waiter i p s) = fx_waiters s"
  "fx_notifiers (set_waiter i p s) = fx_notifiers s"
  "length (fx_threads (set_waiter i p s)) = length (fx_threads s)"
  "generation_use (set_waiter i p s) = generation_use s" "pending (set_waiter i p s) = pending s"
  "none_early (set_waiter i p s) = none_early s"
  by (simp_all add: set_waiter_def generation_use_def pending_def none_early_def)

lemma set_waiter_members:
  assumes "i < length (fx_threads s)" and "w \<in> set (fx_threads (set_waiter i p s))"
  shows "w = (fx_threads s ! i)\<lparr>wt_pc := p\<rparr> \<or> w \<in> set (fx_threads s)"
  using assms set_update_subset_insert by (fastforce simp: set_waiter_def)

lemma set_waiter_remaining:
  "i < length (fx_threads s) \<Longrightarrow> remaining_use s \<Longrightarrow> remaining_use (set_waiter i p s)"
  unfolding remaining_use_def
proof
  fix w
  assume i: "i < length (fx_threads s)" and all: "\<forall>w \<in> set (fx_threads s). wt_target w = 0"
    and w: "w \<in> set (fx_threads (set_waiter i p s))"
  have "fx_threads s ! i \<in> set (fx_threads s)"
    using i by simp
  then show "wt_target w = 0"
    using set_waiter_members [OF i w] all by auto
qed

text \<open>A step of a waiter to \<open>p\<close>, with the count of waiters following whether it is inside.\<close>

lemma waiter_change_inv:
  assumes inv: "futex_inv early s" and i: "i < length (fx_threads s)"
    and p: "seen p \<noteq> Some (wt_target (fx_threads s ! i))"
      "\<And>old. p = Asleep old \<Longrightarrow> fx_val s \<noteq> wt_target (fx_threads s ! i)"
    and n: "n = fx_waiters s + (if inside p then 1 else 0)
      - (if inside (wt_pc (fx_threads s ! i)) then 1 else 0)"
  shows "futex_inv early (set_waiter i p (s\<lparr>fx_waiters := n\<rparr>))"
proof -
  let ?s = "set_waiter i p (s\<lparr>fx_waiters := n\<rparr>)" and ?P = "\<lambda>w. inside (wt_pc w)"
  have mem: "w = (fx_threads s ! i)\<lparr>wt_pc := p\<rparr> \<or> w \<in> set (fx_threads s)" if "w \<in> set (fx_threads ?s)" for w
    using set_waiter_members [of i "s\<lparr>fx_waiters := n\<rparr>" w p] that i by simp
  define k m where "k = length (filter ?P (fx_threads ?s))" and "m = length (filter ?P (fx_threads s))"
  define x y :: nat where "x = (if ?P (fx_threads s ! i) then 1 else 0)" and "y = (if inside p then 1 else 0)"
  have "k + x = m + y"
    using length_filter_update [OF i, of ?P "(fx_threads s ! i)\<lparr>wt_pc := p\<rparr>"]
    by (simp add: set_waiter_def k_def m_def x_def y_def)
  then have "(of_nat k :: u32) + of_nat x = of_nat m + of_nat y"
    by (metis of_nat_add)
  moreover have "n = of_nat m + of_nat y - of_nat x"
    using inv n by (simp add: futex_inv_def m_def x_def y_def)
  ultimately have "n = of_nat k"
    by (metis add_diff_cancel_right')
  then have "fx_waiters ?s = of_nat (length (filter ?P (fx_threads ?s)))"
    by (simp add: k_def)
  moreover have "no_oversleep ?s" if "no_oversleep s"
    unfolding no_oversleep_def
  proof (intro ballI allI impI)
    fix w old
    assume w: "w \<in> set (fx_threads ?s)" "wt_pc w = Asleep old" "fx_val ?s = wt_target w"
    then have "w \<in> set (fx_threads s)"
      using mem p(2) by force
    then show "pending ?s"
      using that w by (auto simp: no_oversleep_def pending_def)
  qed
  moreover have "none_early ?s = none_early s"
    by (simp add: none_early_def)
  moreover have "generation_use ?s \<or> remaining_use ?s"
    using inv set_waiter_remaining [of i "s\<lparr>fx_waiters := n\<rparr>" p] i
    by (auto simp: futex_inv_def generation_use_def remaining_use_def)
  ultimately show ?thesis
    using inv mem p(1) by (fastforce simp: futex_inv_def)
qed

lemma waiter_step_inv:
  assumes inv: "futex_inv early s" and i: "i < length (fx_threads s)" and step: "waiter_step i s = Some s'"
  shows "futex_inv early s'"
proof -
  let ?w = "fx_threads s ! i"
  have same: "s\<lparr>fx_waiters := fx_waiters s\<rparr> = s"
    by simp
  have seen: "seen (wt_pc ?w) \<noteq> Some (wt_target ?w)"
    using inv i by (simp add: futex_inv_def)
  show ?thesis
  proof (cases "wt_pc ?w")
    case (Spin cnt)
    then show ?thesis
      using step waiter_change_inv [OF inv i, of Waited "fx_waiters s"]
        waiter_change_inv [OF inv i, of "Spin (cnt + 1)" "fx_waiters s"]
        waiter_change_inv [OF inv i, of "Count_In (fx_val s)" "fx_waiters s"]
      by (auto simp: waiter_step_def Let_def same split: if_splits)
  next
    case (Count_In old)
    then show ?thesis
      using step seen waiter_change_inv [OF inv i, of "Futex_Wait_Call old" "fx_waiters s + 1"]
      by (auto simp: waiter_step_def Let_def)
  next
    case (Futex_Wait_Call old)
    then show ?thesis
      using step seen waiter_change_inv [OF inv i, of "Asleep old" "fx_waiters s"]
        waiter_change_inv [OF inv i, of Count_Out "fx_waiters s"]
      by (auto simp: waiter_step_def Let_def same split: if_splits)
  next
    case Count_Out
    then show ?thesis
      using step waiter_change_inv [OF inv i, of "Spin 10000" "fx_waiters s - 1"]
      by (auto simp: waiter_step_def Let_def)
  qed (use step in \<open>simp_all add: waiter_step_def Let_def\<close>)
qed

text \<open>A sleeper is woken or interrupted without any change to the count.\<close>

lemma woken_inside: "inside (wt_pc (wake_waiter w)) = inside (wt_pc w)" "inside (wt_pc (restart_call w)) = inside (wt_pc w)"
  by (cases "wt_pc w"; simp add: wake_waiter_def restart_call_def)+

lemma woken_target: "wt_target (wake_waiter w) = wt_target w" "wt_target (restart_call w) = wt_target w"
  by (simp_all add: wake_waiter_def restart_call_def split: waiter_pc.split)

lemma woken_awake: "wt_pc (wake_waiter w) \<noteq> Asleep old" "wt_pc (restart_call w) \<noteq> Asleep old"
  by (simp_all add: wake_waiter_def restart_call_def split: waiter_pc.split)

lemma woken_seen:
  "seen (wt_pc w) \<noteq> Some t \<Longrightarrow> seen (wt_pc (wake_waiter w)) \<noteq> Some t"
  "seen (wt_pc w) \<noteq> Some t \<Longrightarrow> seen (wt_pc (restart_call w)) \<noteq> Some t"
  by (cases "wt_pc w"; simp add: wake_waiter_def restart_call_def)+

lemma filter_woken [simp]:
  "length (filter ((\<lambda>w. inside (wt_pc w)) \<circ> wake_waiter) ws) = length (filter (\<lambda>w. inside (wt_pc w)) ws)"
  "length (filter ((\<lambda>w. inside (wt_pc w)) \<circ> restart_call) ws) = length (filter (\<lambda>w. inside (wt_pc w)) ws)"
  by (simp_all add: comp_def woken_inside)

lemma set_notifier_simps [simp]:
  "fx_val (set_notifier j p s) = fx_val s" "fx_waiters (set_notifier j p s) = fx_waiters s"
  "fx_threads (set_notifier j p s) = fx_threads s" "remaining_use (set_notifier j p s) = remaining_use s"
  "length (fx_notifiers (set_notifier j p s)) = length (fx_notifiers s)"
  by (simp_all add: set_notifier_def remaining_use_def)

lemma generation_use_notifier:
  "generation_use s \<Longrightarrow> change_of p \<in> {None, change_of (fx_notifiers s ! j)} \<Longrightarrow>
   generation_use (set_notifier j p (s\<lparr>fx_val := v, fx_threads := ws\<rparr>))"
  by (cases "j < length (fx_notifiers s)")
    (auto simp: generation_use_def set_notifier_def nth_list_update split: if_splits)

text \<open>The parts of the invariant that do not speak of sleepers follow for every step of a notifier.\<close>

lemma notifier_inv:
  assumes inv: "futex_inv early s" and ws: "ws \<in> {fx_threads s, map wake_waiter (fx_threads s), map restart_call (fx_threads s)}"
    and p: "change_of p \<in> {None, change_of (fx_notifiers s ! j)}"
    and sleep: "early \<or> change_of p = None \<and> no_oversleep (set_notifier j p (s\<lparr>fx_val := v, fx_threads := ws\<rparr>))"
  shows "futex_inv early (set_notifier j p (s\<lparr>fx_val := v, fx_threads := ws\<rparr>))"
proof -
  have "length (filter (\<lambda>w. inside (wt_pc w)) ws) = length (filter (\<lambda>w. inside (wt_pc w)) (fx_threads s))"
    "length ws = length (fx_threads s)" "\<forall>w \<in> set ws. seen (wt_pc w) \<noteq> Some (wt_target w)"
    "remaining_use s \<Longrightarrow> \<forall>w \<in> set ws. wt_target w = 0"
    using ws inv by (auto simp: futex_inv_def filter_map woken_target woken_seen remaining_use_def)
  moreover have "none_early (set_notifier j p (s\<lparr>fx_val := v, fx_threads := ws\<rparr>))"
    if "none_early s" and "change_of p = None"
    using that by (cases "j < length (fx_notifiers s)")
      (auto simp: none_early_def set_notifier_def nth_list_update)
  ultimately show ?thesis
    using inv sleep generation_use_notifier [where s = s and p = p and j = j and v = v and ws = ws] p
    by (auto simp: futex_inv_def remaining_use_def)
qed

lemma sleeper_counted:
  assumes "futex_inv early s" and "w \<in> set (fx_threads s)" and "wt_pc w = Asleep old"
  shows "fx_waiters s \<noteq> 0"
proof -
  let ?k = "length (filter (\<lambda>w. inside (wt_pc w)) (fx_threads s))"
  have "?k \<noteq> 0"
    using assms(2,3) by (simp add: filter_empty_conv) (metis inside.simps(2))
  moreover have "?k < 2 ^ 32"
    using assms(1) length_filter_le [of "\<lambda>w. inside (wt_pc w)" "fx_threads s"]
    unfolding futex_inv_def by (meson le_less_trans)
  then have "unat (of_nat ?k :: u32) = ?k"
    by (rule unat_of_nat_u32)
  ultimately show ?thesis
    using assms(1) by (auto simp: futex_inv_def)
qed

lemma notifier_step_inv:
  assumes inv: "futex_inv early s" and j: "j < length (fx_notifiers s)" and step: "notifier_step j s = Some s'"
  shows "futex_inv early s'"
proof -
  have same: "s\<lparr>fx_val := fx_val s, fx_threads := fx_threads s\<rparr> = s"
    "s\<lparr>fx_val := v, fx_threads := fx_threads s\<rparr> = s\<lparr>fx_val := v\<rparr>"
    "s\<lparr>fx_val := fx_val s, fx_threads := ws\<rparr> = s\<lparr>fx_threads := ws\<rparr>" for v ws
    by simp_all
  have load: "no_oversleep (set_notifier j Load_Waiters (s\<lparr>fx_val := v\<rparr>))"
    "no_oversleep (set_notifier j Wake_Call s)" for v
    using j set_update_memI [OF j] by (auto simp: no_oversleep_def pending_def set_notifier_def)
  show ?thesis
  proof (cases "fx_notifiers s ! j")
    case (Changing ch)
    show ?thesis
    proof (cases ch)
      case (Store_Notify v)
      then show ?thesis
        using step Changing load(1) [of v] notifier_inv [OF inv, of "fx_threads s" Load_Waiters j v]
        by (auto simp: notifier_step_def same)
    next
      case Dec_Notify_Last
      then have "remaining_use s"
        using inv j Changing unfolding futex_inv_def generation_use_def by fastforce
      then have "no_oversleep (set_notifier j Notified (s\<lparr>fx_val := fx_val s - 1\<rparr>))" if "fx_val s \<noteq> 1"
        using that by (simp add: no_oversleep_def remaining_use_def)
      then show ?thesis
        using step Changing Dec_Notify_Last load(1) [of "fx_val s - 1"]
          notifier_inv [OF inv, of "fx_threads s" Load_Waiters j "fx_val s - 1"]
          notifier_inv [OF inv, of "fx_threads s" Notified j "fx_val s - 1"]
        by (auto simp: notifier_step_def same split: if_splits)
    next
      case Dec_In_Handler
      have "no_oversleep (set_notifier j Notified
          (s\<lparr>fx_val := fx_val s - 1, fx_threads := map restart_call (fx_threads s)\<rparr>))"
        by (auto simp: no_oversleep_def woken_awake)
      then show ?thesis
        using step Changing Dec_In_Handler
          notifier_inv [OF inv, of "map restart_call (fx_threads s)" Notified j "fx_val s - 1"]
        by (auto simp: notifier_step_def)
    qed
  next
    case (Loaded_Early ch found)
    have early: "early"
      using inv j Loaded_Early by (auto simp: futex_inv_def none_early_def)
    show ?thesis
    proof (cases ch)
      case (Store_Notify v)
      then show ?thesis
        using step Loaded_Early early notifier_inv [OF inv, of "fx_threads s" Wake_Call j v]
          notifier_inv [OF inv, of "fx_threads s" Notified j v]
        by (auto simp: notifier_step_def same split: if_splits)
    next
      case Dec_Notify_Last
      then show ?thesis
        using step Loaded_Early early notifier_inv [OF inv, of "fx_threads s" Wake_Call j "fx_val s - 1"]
          notifier_inv [OF inv, of "fx_threads s" Notified j "fx_val s - 1"]
        by (auto simp: notifier_step_def same split: if_splits)
    qed (use step Loaded_Early in \<open>simp add: notifier_step_def\<close>)
  next
    case Load_Waiters
    have "no_oversleep (set_notifier j Notified s)" if "fx_waiters s = 0"
      using that sleeper_counted [OF inv] by (auto simp: no_oversleep_def)
    then show ?thesis
      using step Load_Waiters load(2) notifier_inv [OF inv, of "fx_threads s" Wake_Call j "fx_val s"]
        notifier_inv [OF inv, of "fx_threads s" Notified j "fx_val s"]
      by (auto simp: notifier_step_def same split: if_splits)
  next
    case Wake_Call
    have "no_oversleep (set_notifier j Notified (s\<lparr>fx_threads := map wake_waiter (fx_threads s)\<rparr>))"
      by (auto simp: no_oversleep_def woken_awake)
    then show ?thesis
      using step Wake_Call notifier_inv [OF inv, of "map wake_waiter (fx_threads s)" Notified j "fx_val s"]
      by (simp add: notifier_step_def same)
  next
    case Notified
    then show ?thesis
      using step by (simp add: notifier_step_def)
  qed
qed

lemma early_load_inv:
  assumes "futex_inv early s" and "early" and "fx_notifiers s ! j = Changing ch"
  shows "futex_inv early (set_notifier j (Loaded_Early ch found) s)"
  using notifier_inv [OF assms(1), of "fx_threads s" "Loaded_Early ch found" j "fx_val s"] assms(2,3) by simp

interpretation futex: traced_system "futex_step early" futex_initial "\<lambda>es. futex_inv early" for early
proof
  show "futex_inv early s" if "futex_initial s" for s
    using that by (rule futex_inv_start)
  fix s es' s'
  assume inv: "futex_inv early s" and step: "futex_step early s es' s'"
  from step show "futex_inv early s'"
  proof (rule futex_stepE)
    fix j ch
    assume "early" and "fx_notifiers s ! j = Changing ch"
      and "s' = set_notifier j (Loaded_Early ch (fx_waiters s \<noteq> 0)) s"
    then show ?thesis
      using early_load_inv [OF inv] by blast
  next
    fix i old
    assume i: "s' = set_waiter i Count_Out s" "i < length (fx_threads s)" "wt_pc (fx_threads s ! i) = Asleep old"
    then show ?thesis
      using waiter_change_inv [OF inv i(2), of Count_Out "fx_waiters s"] by simp
  qed (use inv waiter_step_inv notifier_step_inv in blast)+
qed

section \<open>Waiting ends\<close>

lemma set_waiter_nth: "i < length (fx_threads s) \<Longrightarrow>
    fx_threads (set_waiter i p s) ! i = (fx_threads s ! i)\<lparr>wt_pc := p\<rparr>"
  by (simp add: set_waiter_def)

text \<open>While the target is there, the own steps of a waiter that is awake lead out of the wait.\<close>

lemma spin_ends:
  assumes "i < length (fx_threads s)" and "wt_pc (fx_threads s ! i) = Spin cnt"
    and "fx_val s = wt_target (fx_threads s ! i)"
  shows "\<exists>s'. waiter_run i 1 s = Some s' \<and> wt_pc (fx_threads s' ! i) = Waited"
  using assms by (simp add: waiter_step_def Let_def set_waiter_nth)

lemma count_out_ends:
  assumes "i < length (fx_threads s)" and "wt_pc (fx_threads s ! i) = Count_Out"
    and "fx_val s = wt_target (fx_threads s ! i)"
  shows "\<exists>s'. waiter_run i 2 s = Some s' \<and> wt_pc (fx_threads s' ! i) = Waited"
  using assms by (simp add: numeral_2_eq_2 waiter_step_def Let_def set_waiter_nth)

lemma call_ends:
  assumes "i < length (fx_threads s)" and "wt_pc (fx_threads s ! i) = Futex_Wait_Call old"
    and "fx_val s = wt_target (fx_threads s ! i)" and "old \<noteq> wt_target (fx_threads s ! i)"
  shows "\<exists>s'. waiter_run i 3 s = Some s' \<and> wt_pc (fx_threads s' ! i) = Waited"
  using assms by (simp add: numeral_3_eq_3 waiter_step_def Let_def set_waiter_nth)

lemma count_in_ends:
  assumes "i < length (fx_threads s)" and "wt_pc (fx_threads s ! i) = Count_In old"
    and "fx_val s = wt_target (fx_threads s ! i)" and "old \<noteq> wt_target (fx_threads s ! i)"
  shows "\<exists>s'. waiter_run i 4 s = Some s' \<and> wt_pc (fx_threads s' ! i) = Waited"
proof -
  let ?s1 = "set_waiter i (Futex_Wait_Call old) (s\<lparr>fx_waiters := fx_waiters s + 1\<rparr>)"
  have "waiter_step i s = Some ?s1"
    using assms(2) by (simp add: waiter_step_def Let_def)
  moreover obtain s' where "waiter_run i 3 ?s1 = Some s'" "wt_pc (fx_threads s' ! i) = Waited"
    using call_ends [of i ?s1 old] assms by (auto simp: set_waiter_nth)
  ultimately show ?thesis
    by (simp add: eval_nat_numeral)
qed

text \<open>A waiter whose value is there is asleep, or its own steps lead out of the wait.\<close>

lemma awake_returns:
  assumes "futex_inv early s" and "i < length (fx_threads s)" and "fx_val s = wt_target (fx_threads s ! i)"
    and "\<not> (\<exists>old. wt_pc (fx_threads s ! i) = Asleep old)"
  shows "\<exists>n \<le> 4. \<exists>s'. waiter_run i n s = Some s' \<and> wt_pc (fx_threads s' ! i) = Waited"
proof -
  have seen: "seen (wt_pc (fx_threads s ! i)) \<noteq> Some (wt_target (fx_threads s ! i))"
    using assms(1,2) by (simp add: futex_inv_def)
  show ?thesis
  proof (cases "wt_pc (fx_threads s ! i)")
    case (Spin cnt)
    then show ?thesis
      using spin_ends [OF assms(2)] assms(3) by (intro exI [of _ 1]) simp
  next
    case (Count_In old)
    then show ?thesis
      using count_in_ends [OF assms(2)] assms(3) seen by (intro exI [of _ 4]) simp
  next
    case (Futex_Wait_Call old)
    then show ?thesis
      using call_ends [OF assms(2)] assms(3) seen by (intro exI [of _ 3]) simp
  next
    case (Asleep old)
    then show ?thesis
      using assms(4) by blast
  next
    case Count_Out
    then show ?thesis
      using count_out_ends [OF assms(2)] assms(3) by (intro exI [of _ 2]) simp
  next
    case Waited
    then show ?thesis
      by (intro exI [of _ 0]) simp
  qed
qed

section \<open>A lost wake-up\<close>

text \<open>A waiter about to count itself in when the store comes.\<close>

definition late_store :: futex_state where
  "late_store = \<lparr>fx_val = 0, fx_waiters = 0, fx_threads = [\<lparr>wt_target = 1, wt_pc = Spin 10000\<rparr>],
     fx_notifiers = [Changing (Store_Notify 1)]\<rparr>"

lemma late_store_initial: "futex_initial late_store"
  by (auto simp: futex_initial_def generation_use_def none_early_def late_store_def)

lemma silent_more:
  "trace_run (futex_step early) s0 [] s \<Longrightarrow> futex_step early s [] s' \<Longrightarrow> trace_run (futex_step early) s0 [] s'"
  using trace_run.more [of "futex_step early" s0 "[]" s "[]" s'] by simp

text \<open>The store is announced to nobody, because the count was read while it was still 0.\<close>

definition slept_through :: futex_state where
  "slept_through = \<lparr>fx_val = 1, fx_waiters = 1, fx_threads = [\<lparr>wt_target = 1, wt_pc = Asleep 0\<rparr>],
     fx_notifiers = [Notified]\<rparr>"

lemma lost_wake_up: "trace_run (futex_step True) late_store [] slept_through"
proof -
  let ?s1 = "late_store\<lparr>fx_notifiers := [Loaded_Early (Store_Notify 1) False]\<rparr>"
  let ?s2 = "?s1\<lparr>fx_threads := [\<lparr>wt_target = 1, wt_pc = Count_In 0\<rparr>]\<rparr>"
  let ?s3 = "?s1\<lparr>fx_waiters := 1, fx_threads := [\<lparr>wt_target = 1, wt_pc = Futex_Wait_Call 0\<rparr>]\<rparr>"
  let ?s4 = "?s1\<lparr>fx_waiters := 1, fx_threads := [\<lparr>wt_target = 1, wt_pc = Asleep 0\<rparr>]\<rparr>"
  have 1: "futex_step True late_store [] ?s1"
    using futex_step.early_load [of True 0 late_store "Store_Notify 1"]
    by (simp add: late_store_def set_notifier_def)
  have 2: "futex_step True ?s1 [] ?s2"
    by (rule futex_step.waiter [of 0]) (simp_all add: late_store_def waiter_step_def Let_def set_waiter_def)
  have 3: "futex_step True ?s2 [] ?s3"
    by (rule futex_step.waiter [of 0]) (simp_all add: late_store_def waiter_step_def Let_def set_waiter_def)
  have 4: "futex_step True ?s3 [] ?s4"
    by (rule futex_step.waiter [of 0]) (simp_all add: late_store_def waiter_step_def Let_def set_waiter_def)
  have 5: "futex_step True ?s4 [] slept_through"
    by (rule futex_step.notifier [of 0]) (simp_all add: late_store_def slept_through_def notifier_step_def set_notifier_def)
  show ?thesis
    by (rule silent_more [OF silent_more [OF silent_more [OF silent_more [OF silent_more
      [OF trace_run.start 1] 2] 3] 4] 5])
qed

lemma slept_through_ends:
  "futex_step early slept_through es s \<longleftrightarrow> es = [] \<and> s = set_waiter 0 Count_Out slept_through"
  (is "?step \<longleftrightarrow> ?spurious")
proof
  assume ?step
  then show ?spurious
    by (rule futex_stepE) (simp_all add: slept_through_def waiter_step_def notifier_step_def)
next
  assume ?spurious
  then show ?step
    using futex_step.spurious [of 0 slept_through 0 early] by (simp add: slept_through_def)
qed

section \<open>The property\<close>

text \<open>C8: Wake-ups are not lost where the load of the count of waiters in \<open>mish_atomic_notify\<close> is
  performed after the change it follows (\<open>early\<close> is false, as on x86). However the spinning, counting
  and sleeping of the waiters interleaves with the changes and notifications: if a waiter's value is
  there and no notification is under way, the waiter is not asleep and returns from
  \<open>mish_atomic_wait_for\<close> within four steps of its own. The code itself asks for relaxed accesses to
  the count; where the load may be performed before the change (\<open>early\<close> is true, as on arm64) the
  same holds for a waiter that is awake, but a wake-up can be lost: there is a run after which the
  value is there, the notifier has finished, the waiter sleeps, and nothing but a spurious
  wake-up can ever happen.\<close>

theorem futex_wait_returns:
  assumes "futex_initial s0" and "trace_run (futex_step early) s0 es s"
    and "Load_Waiters \<notin> set (fx_notifiers s)" and "Wake_Call \<notin> set (fx_notifiers s)"
    and "i < length (fx_threads s)" and "fx_val s = wt_target (fx_threads s ! i)"
  shows "((\<exists>n \<le> 4. \<exists>s'. waiter_run i n s = Some s' \<and> wt_pc (fx_threads s' ! i) = Waited) \<or>
      early \<and> (\<exists>old. wt_pc (fx_threads s ! i) = Asleep old)) \<and>
    (\<exists>lost. trace_run (futex_step True) late_store [] lost \<and> fx_val lost = wt_target (fx_threads lost ! 0) \<and>
      wt_pc (fx_threads lost ! 0) = Asleep 0 \<and> fx_notifiers lost = [Notified] \<and>
      (\<forall>es' s'. futex_step True lost es' s' = (es' = [] \<and> s' = set_waiter 0 Count_Out lost)))"
proof
  have inv: "futex_inv early s"
    using futex.run_inv [OF assms(2,1)] .
  show "(\<exists>n \<le> 4. \<exists>s'. waiter_run i n s = Some s' \<and> wt_pc (fx_threads s' ! i) = Waited) \<or>
      early \<and> (\<exists>old. wt_pc (fx_threads s ! i) = Asleep old)"
  proof (cases "\<exists>old. wt_pc (fx_threads s ! i) = Asleep old")
    case True
    then have "early"
      using inv assms(3-6) unfolding futex_inv_def no_oversleep_def pending_def by (meson nth_mem)
    then show ?thesis
      using True by blast
  next
    case False
    then show ?thesis
      using awake_returns [OF inv assms(5,6)] by blast
  qed
  show "\<exists>lost. trace_run (futex_step True) late_store [] lost \<and> fx_val lost = wt_target (fx_threads lost ! 0) \<and>
      wt_pc (fx_threads lost ! 0) = Asleep 0 \<and> fx_notifiers lost = [Notified] \<and>
      (\<forall>es' s'. futex_step True lost es' s' = (es' = [] \<and> s' = set_waiter 0 Count_Out lost))"
    using lost_wake_up slept_through_ends [of True]
    by (intro exI [of _ slept_through]) (simp add: slept_through_def)
qed

theorem futex_wait_returns_witness:
  "\<exists>es s n s'. trace_run (futex_step False) late_store es s \<and> wt_pc (fx_threads s ! 0) = Count_In 0 \<and>
     waiter_run 0 n s = Some s' \<and> wt_pc (fx_threads s' ! 0) = Waited"
proof -
  let ?s1 = "late_store\<lparr>fx_threads := [\<lparr>wt_target = 1, wt_pc = Count_In 0\<rparr>]\<rparr>"
  let ?s2 = "?s1\<lparr>fx_val := 1, fx_notifiers := [Load_Waiters]\<rparr>" and ?s3 = "?s1\<lparr>fx_val := 1, fx_notifiers := [Notified]\<rparr>"
  have 1: "futex_step False late_store [] ?s1"
    by (rule futex_step.waiter [of 0]) (simp_all add: late_store_def waiter_step_def Let_def set_waiter_def)
  have 2: "futex_step False ?s1 [] ?s2"
    by (rule futex_step.notifier [of 0]) (simp_all add: late_store_def notifier_step_def set_notifier_def)
  have 3: "futex_step False ?s2 [] ?s3"
    by (rule futex_step.notifier [of 0]) (simp_all add: late_store_def notifier_step_def set_notifier_def)
  have run: "trace_run (futex_step False) late_store [] ?s3"
    by (rule silent_more [OF silent_more [OF silent_more [OF trace_run.start 1] 2] 3])
  have "\<exists>n \<le> 4. \<exists>s'. waiter_run 0 n ?s3 = Some s' \<and> wt_pc (fx_threads s' ! 0) = Waited"
    using futex_wait_returns [OF late_store_initial run, of 0] by (simp add: late_store_def)
  then show ?thesis
    using run by (intro exI [of _ "[]"] exI [of _ ?s3]) fastforce
qed

end
