(* ===== verification/Cohort_Output.thy ===== *)
theory Cohort_Output
  imports Mish_Common
begin

text \<open>
  The output side of src/mishegos/mishegos.c: which samples are kept (\<open>process\<close> and the two
  filters of the command line) and the bytes \<open>write_output\<close> sends to the stream for a kept
  sample. The stream is the list of bytes written; a failing \<open>fwrite\<close>, which ends the
  program, is not modelled. A record whose length field points outside the result buffer
  would read past the slot and has no value here (\<open>None\<close>).
\<close>

section \<open>Filters\<close>

record filter_config =
  filter_min_success :: int
  filter_max_success :: int
  filter_ndecoded_same :: bool

definition default_filter :: filter_config where
  "default_filter = \<lparr>filter_min_success = 1, filter_max_success = int MISHEGOS_MAX_NWORKERS,
     filter_ndecoded_same = False\<rparr>"

text \<open>Negative bounds are counted from the number of workers, once it is known.\<close>

definition resolve_filter :: "nat \<Rightarrow> filter_config \<Rightarrow> filter_config" where
  "resolve_filter nworkers cfg =
     (let cfg = (if filter_min_success cfg < 0
                 then cfg\<lparr>filter_min_success := filter_min_success cfg + int nworkers + 1\<rparr>
                 else cfg)
      in if filter_max_success cfg < 0
         then cfg\<lparr>filter_max_success := filter_max_success cfg + int nworkers + 1\<rparr>
         else cfg)"

text \<open>
  The counting loop of \<open>process\<close>: the number of successes, whether the successful workers
  agree on \<open>ndecoded\<close>, and the first successful \<open>ndecoded\<close> (\<open>-1\<close> before there is one).
\<close>

fun tally :: "output_slot list \<Rightarrow> int \<Rightarrow> bool \<Rightarrow> int \<Rightarrow> int \<times> bool \<times> int" where
  "tally [] num_success ndecoded_same last_ndecoded = (num_success, ndecoded_same, last_ndecoded)"
| "tally (r # rs) num_success ndecoded_same last_ndecoded =
     (let num_success = num_success + (if status r = S_SUCCESS then 1 else 0) in
      if status r = S_SUCCESS then
        if last_ndecoded = -1 then tally rs num_success ndecoded_same (uint (ndecoded r))
        else if last_ndecoded \<noteq> uint (ndecoded r) then tally rs num_success False last_ndecoded
        else tally rs num_success ndecoded_same last_ndecoded
      else tally rs num_success ndecoded_same last_ndecoded)"

definition keep_sample :: "filter_config \<Rightarrow> output_slot list \<Rightarrow> bool" where
  "keep_sample cfg outs =
     (case tally outs 0 True (-1) of (num_success, ndecoded_same, _) \<Rightarrow>
        num_success \<ge> filter_min_success cfg \<and> num_success \<le> filter_max_success cfg
        \<or> filter_ndecoded_same cfg \<and> \<not> ndecoded_same)"

section \<open>Writing a sample\<close>

text \<open>
  \<open>write_output(output, sizeof( *output) - MISHEGOS_DEC_MAXLEN + output->len)\<close>, after the
  length-prefixed name of the worker's shared object.
\<close>

definition write_record :: "byte list \<Rightarrow> output_slot \<Rightarrow> byte list option" where
  "write_record soname r =
     (let n = 256 - MISHEGOS_DEC_MAXLEN + unat (out_len r) in
      if n \<le> length (output_slot_bytes r)
      then Some (le_enc 8 (of_nat (length soname) :: u64) @ soname @ take n (output_slot_bytes r))
      else None)"

fun write_records :: "byte list list \<Rightarrow> output_slot list \<Rightarrow> byte list option" where
  "write_records (so # sos) (r # rs) = do {
     b \<leftarrow> write_record so r;
     bs \<leftarrow> write_records sos rs;
     Some (b @ bs) }"
| "write_records _ _ = Some []"

definition write_sample ::
  "byte list list \<Rightarrow> input_slot \<Rightarrow> output_slot list \<Rightarrow> byte list option" where
  "write_sample sonames input outs = do {
     recs \<leftarrow> write_records sonames outs;
     Some (le_enc 4 (of_nat (length sonames) :: u32) @ input_slot_bytes input @ recs) }"

definition process ::
  "filter_config \<Rightarrow> byte list list \<Rightarrow> input_slot \<Rightarrow> output_slot list \<Rightarrow> byte list option" where
  "process cfg sonames input outs =
     (if keep_sample cfg outs then write_sample sonames input outs else Some [])"

section \<open>What the filters select\<close>

text \<open>The loop, as the three questions it answers about the list of outputs.\<close>

definition successes :: "output_slot list \<Rightarrow> output_slot list" where
  "successes outs = filter (\<lambda>r. status r = S_SUCCESS) outs"

definition ndecoded_agree :: "output_slot list \<Rightarrow> bool" where
  "ndecoded_agree outs \<longleftrightarrow>
     (\<forall>r \<in> set (successes outs). \<forall>s \<in> set (successes outs). ndecoded r = ndecoded s)"

lemma tally_running:
  "l \<noteq> -1 \<Longrightarrow> tally outs n same l =
     (n + int (length (successes outs)),
      same \<and> (\<forall>r \<in> set (successes outs). uint (ndecoded r) = l), l)"
  by (induction outs arbitrary: n same) (auto simp: successes_def Let_def)

lemma tally_start:
  "tally outs n True (-1) =
     (n + int (length (successes outs)), ndecoded_agree outs,
      if successes outs = [] then -1 else uint (ndecoded (hd (successes outs))))"
proof (induction outs arbitrary: n)
  case Nil
  then show ?case by (simp add: successes_def ndecoded_agree_def)
next
  case (Cons r rs)
  show ?case
  proof (cases "status r = S_SUCCESS")
    case True
    have "ndecoded_agree (r # rs) \<longleftrightarrow>
        (\<forall>s \<in> set (successes rs). uint (ndecoded s) = uint (ndecoded r))"
      using True by (auto simp: ndecoded_agree_def successes_def) (metis word_uint_eq_iff)+
    moreover have "uint (ndecoded r) \<noteq> -1"
      by (metis uint_ge_0 neg_0_le_iff_le not_one_le_zero)
    ultimately show ?thesis
      using True by (simp add: tally_running successes_def)
  next
    case False
    then show ?thesis
      using Cons by (simp add: successes_def ndecoded_agree_def)
  qed
qed

lemma keep_sample_iff:
  "keep_sample cfg outs \<longleftrightarrow>
     filter_min_success cfg \<le> int (length (successes outs)) \<and>
     int (length (successes outs)) \<le> filter_max_success cfg
   \<or> filter_ndecoded_same cfg \<and> \<not> ndecoded_agree outs"
  by (simp add: keep_sample_def tally_start)

lemma length_successes_le: "length (successes outs) \<le> length outs"
  by (simp add: successes_def)

lemma all_successes_iff:
  "length (successes outs) = length outs \<longleftrightarrow> (\<forall>r \<in> set outs. status r = S_SUCCESS)"
  by (auto simp: successes_def dest: length_filter_less)

section \<open>What is written\<close>

lemma output_slot_bytes_prefix:
  "output_slot_wf r \<Longrightarrow> k \<le> 248 \<Longrightarrow> take (8 + k) (output_slot_bytes r) =
     le_enc 4 (status_code (status r)) @ le_enc 2 (ndecoded r) @ le_enc 2 (out_len r)
       @ take k (result r)"
  by (simp add: output_slot_bytes_def)

lemma write_record_ok:
  assumes "output_slot_ok r"
  shows "write_record soname r = Some (
     le_enc 8 (of_nat (length soname) :: u64) @ soname @
     le_enc 4 (status_code (status r)) @ le_enc 2 (ndecoded r) @ le_enc 2 (out_len r) @
     take (unat (out_len r)) (result r))"
  using assms output_slot_bytes_prefix [of r "unat (out_len r)"]
  by (simp add: write_record_def output_slot_size slot_defs)

lemma write_records_ok:
  "\<forall>r \<in> set outs. output_slot_ok r \<Longrightarrow>
   write_records sonames outs = Some (concat (map2 (\<lambda>so r. the (write_record so r)) sonames outs))"
  by (induction sonames outs rule: write_records.induct) (auto simp: write_record_ok)

section \<open>Properties\<close>

text \<open>A sample is written exactly when the number of workers that report success lies between
  the two bounds, or when differing lengths are wanted and two successful workers disagree on
  \<open>ndecoded\<close>; what is not kept writes nothing.\<close>

theorem process_keeps:
  "process cfg sonames input outs =
    (if filter_min_success cfg \<le> int (length (filter (\<lambda>r. status r = S_SUCCESS) outs)) \<and>
        int (length (filter (\<lambda>r. status r = S_SUCCESS) outs)) \<le> filter_max_success cfg
      \<or> filter_ndecoded_same cfg \<and>
        (\<exists>r \<in> set outs. \<exists>s \<in> set outs. status r = S_SUCCESS \<and> status s = S_SUCCESS \<and>
           ndecoded r \<noteq> ndecoded s)
     then write_sample sonames input outs else Some [])"
proof -
  have "\<not> ndecoded_agree outs \<longleftrightarrow> (\<exists>r \<in> set outs. \<exists>s \<in> set outs. status r = S_SUCCESS \<and>
      status s = S_SUCCESS \<and> ndecoded r \<noteq> ndecoded s)"
    by (auto simp: ndecoded_agree_def successes_def)
  then show ?thesis
    by (simp add: process_def keep_sample_iff successes_def)
qed

theorem process_keeps_witness:
  "process default_filter [] zero_input_slot [] = Some []"
  by (simp add: process_keeps default_filter_def)

text \<open>A kept sample is written as the number of workers (4 bytes), the 16 bytes of the input
  slot and, per worker, the length of its name (8 bytes), the name, the status (4 bytes), the
  decoded length and the length of the result (2 bytes each) and exactly that many bytes of the
  result, all little-endian; no write reaches past a slot.\<close>

theorem written_sample_layout:
  assumes "length sonames = length outs" and "\<forall>r \<in> set outs. output_slot_ok r"
  shows "write_sample sonames input outs = Some (
    le_enc 4 (of_nat (length outs) :: u32) @ in_len input # raw_insn input @
    concat (map2 (\<lambda>so r. le_enc 8 (of_nat (length so) :: u64) @ so @
      le_enc 4 (status_code (status r)) @ le_enc 2 (ndecoded r) @ le_enc 2 (out_len r) @
      take (unat (out_len r)) (result r)) sonames outs))"
proof -
  have *: "map2 (\<lambda>so r. the (write_record so r)) sonames outs = map2 (\<lambda>so r.
      le_enc 8 (of_nat (length so) :: u64) @ so @ le_enc 4 (status_code (status r)) @
      le_enc 2 (ndecoded r) @ le_enc 2 (out_len r) @ take (unat (out_len r)) (result r)) sonames outs"
    using assms by (auto simp: write_record_ok dest!: set_zip_rightD)
  show ?thesis
    unfolding write_sample_def write_records_ok [OF assms(2)] *
    using assms(1) by (simp add: input_slot_bytes_def)
qed

theorem written_sample_layout_witness:
  "write_sample [[97]] zero_input_slot [zero_output_slot] = Some (
    le_enc 4 (1 :: u32) @ 0 # replicate 15 0 @ le_enc 8 (1 :: u64) @ [97] @
    le_enc 4 (0 :: u32) @ le_enc 2 (0 :: u16) @ le_enc 2 (0 :: u16))"
  using written_sample_layout [of "[[97]]" "[zero_output_slot]" zero_input_slot]
  by (simp add: zero_input_slot_def zero_output_slot_def slot_defs)

text \<open>A negative bound counts from the number of workers: -1 stands for all workers, -2 for all
  but one, and non-negative bounds are kept; the default keeps what at least one worker accepts.\<close>

theorem negative_bounds_count_from_workers:
  "filter_max_success (resolve_filter n (cfg\<lparr>filter_max_success := - 1 - int k\<rparr>)) = int n - int k \<and>
   filter_min_success (resolve_filter n (cfg\<lparr>filter_min_success := - 1 - int k\<rparr>)) = int n - int k \<and>
   filter_max_success (resolve_filter n (cfg\<lparr>filter_max_success := int k\<rparr>)) = int k \<and>
   resolve_filter n default_filter = default_filter"
  by (simp add: resolve_filter_def default_filter_def Let_def)

end
