(* ===== verification/Converter_Input.thy ===== *)
theory Converter_Input
  imports Cohort_Output
begin

text \<open>
  The input side of src/mish2jsonl/mish2jsonl.c: the binary stream is read back into cohorts.
  The static variables \<open>results\<close> and \<open>m_finished_parsing\<close> and the unread part of the file are
  the record \<open>conv_state\<close>. \<open>fread\<close> stores what it gets, so a short read leaves a variable
  partly overwritten; memory from \<open>malloc\<close> is indeterminate and is taken from the field
  \<open>malloc_junk\<close>. Allocation succeeds; the one computed size that can wrap,
  \<open>string_length + 1\<close>, is checked.
\<close>

record m_string =
  ms_len :: u64
  ms_string :: "byte list"

record worker_output =
  wo_status :: u32
  wo_ndecoded :: u16
  wo_workerno :: u32
  wo_workerso :: m_string
  wo_result :: m_string

record cohort_results =
  cr_nworkers :: u32
  cr_input :: input_slot
  cr_outputs :: "worker_output list"

record conv_state =
  results :: cohort_results
  m_finished_parsing :: bool
  unread :: "byte list"
  malloc_junk :: "nat \<Rightarrow> worker_output"

section \<open>Reading bytes\<close>

text \<open>
  \<open>fread(dest, sz, n, file)\<close>: the bytes obtained overwrite the front of the destination
  and the result is the number of complete items.
\<close>

definition fread :: "byte list \<Rightarrow> nat \<Rightarrow> nat \<Rightarrow> byte list \<Rightarrow> nat \<times> byte list \<times> byte list" where
  "fread dest sz n f =
     (let got = take (sz * n) f in
      (if sz = 0 then 0 else length got div sz, overlay got dest, drop (sz * n) f))"

definition m_fread :: "byte list \<Rightarrow> nat \<Rightarrow> nat \<Rightarrow> conv_state \<Rightarrow> byte list \<times> conv_state" where
  "m_fread dest sz n st =
     (case fread dest sz n (unread st) of (rd, dest', f') \<Rightarrow>
        let st = st\<lparr>unread := f'\<rparr> in
        (dest', if rd = 0 \<and> sz * n \<noteq> 0 then st\<lparr>m_finished_parsing := True\<rparr> else st))"

text \<open>
  \<open>read_string\<close>: a little-endian length of \<open>len_size\<close> bytes, then the characters, into a
  zeroed buffer with one byte more.
\<close>

definition read_string :: "nat \<Rightarrow> conv_state \<Rightarrow> (m_string \<times> conv_state) option" where
  "read_string len_size st =
     (let string_length = (0 :: u64);
          (raw, st) = m_fread (le_enc 8 string_length) len_size 1 st;
          string_length = (le_dec raw :: u64)
      in if string_length + 1 = 0 then None
         else
           let input = replicate (unat (string_length + 1)) 0;
               (input, st) = m_fread input 1 (unat string_length) st
           in Some (\<lparr>ms_len = string_length, ms_string = input\<rparr>, st))"

text \<open>The body of the loop of \<open>read_next\<close>, on the \<open>i\<close>-th element of the allocated array.\<close>

definition read_output :: "worker_output \<Rightarrow> conv_state \<Rightarrow> (worker_output \<times> conv_state) option" where
  "read_output w st = do {
     (so, st) \<leftarrow> read_string 8 st;
     let (raw, st) = m_fread (le_enc 4 (wo_status w)) 4 1 st;
     let w = w\<lparr>wo_workerso := so, wo_status := le_dec raw\<rparr>;
     let (raw, st) = m_fread (le_enc 2 (wo_ndecoded w)) 2 1 st;
     let w = w\<lparr>wo_ndecoded := le_dec raw\<rparr>;
     (res, st) \<leftarrow> read_string 2 st;
     Some (w\<lparr>wo_result := res\<rparr>, st) }"

fun read_each :: "('d \<Rightarrow> conv_state \<Rightarrow> ('r \<times> conv_state) option) \<Rightarrow> 'd list \<Rightarrow> conv_state \<Rightarrow>
    ('r list \<times> conv_state) option" where
  "read_each rd [] st = Some ([], st)"
| "read_each rd (d # ds) st = do {
     (r, st) \<leftarrow> rd d st;
     (rs, st) \<leftarrow> read_each rd ds st;
     Some (r # rs, st) }"

definition read_input_slot :: "input_slot \<Rightarrow> conv_state \<Rightarrow> input_slot \<times> conv_state" where
  "read_input_slot s st =
     (let (raw, st) = m_fread (input_slot_bytes s) 16 1 st
      in (\<lparr>in_len = hd raw, raw_insn = tl raw\<rparr>, st))"

definition read_next :: "conv_state \<Rightarrow> (bool \<times> conv_state) option" where
  "read_next st = do {
     let (_, raw, f) = fread (le_enc 4 (cr_nworkers (results st))) 4 1 (unread st);
     let st = st\<lparr>unread := f\<rparr>;
     let nworkers = (le_dec raw :: u32);
     let outputs = map (malloc_junk st) [0..<unat nworkers];
     let (input, st) = read_input_slot (cr_input (results st)) st;
     (outputs, st) \<leftarrow> read_each read_output outputs st;
     let st = st\<lparr>results := \<lparr>cr_nworkers = nworkers, cr_input = input, cr_outputs = outputs\<rparr>\<rparr>;
     Some (\<not> m_finished_parsing st, st) }"

section \<open>Reading what is there\<close>

text \<open>A read that finds all its bytes delivers exactly them and leaves the flag alone.\<close>

lemma m_fread_full [le_simps]:
  assumes "unread st = bs @ rest" and "length bs = sz * n" and "length dest = sz * n"
    and "sz \<noteq> 0"
  shows "m_fread dest sz n st = (bs, st\<lparr>unread := rest\<rparr>)"
  using assms by (auto simp: m_fread_def fread_def overlay_def Let_def)

lemma m_fread_prefix:
  assumes "unread st = bs @ rest" and "length bs = sz * n" and "sz * n \<le> length dest"
    and "sz \<noteq> 0"
  shows "m_fread dest sz n st = (bs @ drop (sz * n) dest, st\<lparr>unread := rest\<rparr>)"
  using assms by (auto simp: m_fread_def fread_def overlay_def Let_def)

text \<open>Files only get shorter, and a read that leaves the parser running got something.\<close>

lemma m_fread_file: "length (unread (snd (m_fread d s t st))) \<le> length (unread st)"
  by (simp add: m_fread_def fread_def Let_def)

lemma m_fread_finished: "m_finished_parsing st \<Longrightarrow> m_finished_parsing (snd (m_fread d s t st))"
  by (simp add: m_fread_def fread_def Let_def)

lemma m_fread_progress:
  "\<not> m_finished_parsing (snd (m_fread d s t st)) \<Longrightarrow> s * t \<noteq> 0 \<Longrightarrow>
   length (unread (snd (m_fread d s t st))) < length (unread st)"
  by (cases "unread st") (auto simp: m_fread_def fread_def Let_def split: if_splits)


section \<open>The contract of a reader\<close>

text \<open>
  A reader takes the old contents \<open>d\<close> of its destination. \<open>field_reader\<close>: at a stream that
  starts with the image \<open>wr v\<close> of an acceptable value it consumes exactly that image, yields
  \<open>view d v\<close> and changes nothing else. \<open>frugal_reader\<close>: on any stream it consumes, never
  clears the end flag and does not touch the rest of the state.
\<close>

locale field_reader =
  fixes rd :: "'d \<Rightarrow> conv_state \<Rightarrow> ('r \<times> conv_state) option"
    and wr :: "'v \<Rightarrow> byte list"
    and ok :: "'v \<Rightarrow> bool"
    and view :: "'d \<Rightarrow> 'v \<Rightarrow> 'r"
  assumes reads: "ok v \<Longrightarrow> unread st = wr v @ rest \<Longrightarrow>
    rd d st = Some (view d v, st\<lparr>unread := rest\<rparr>)"
begin

lemma reads_each:
  "\<forall>v \<in> set vs. ok v \<Longrightarrow> length ds = length vs \<Longrightarrow> unread st = concat (map wr vs) @ rest \<Longrightarrow>
   read_each rd ds st = Some (map2 view ds vs, st\<lparr>unread := rest\<rparr>)"
proof (induction vs arbitrary: ds st)
  case Nil
  then show ?case by simp
next
  case (Cons v vs)
  then obtain d ds' where ds: "ds = d # ds'"
    by (cases ds) auto
  have "rd d st = Some (view d v, st\<lparr>unread := concat (map wr vs) @ rest\<rparr>)"
    using Cons.prems by (intro reads) auto
  with Cons show ?case
    by (simp add: ds)
qed

end

definition consumes :: "conv_state \<Rightarrow> conv_state \<Rightarrow> bool" where
  "consumes st st' \<longleftrightarrow> (\<exists>n b. (m_finished_parsing st \<longrightarrow> b) \<and>
     st' = st\<lparr>unread := drop n (unread st), m_finished_parsing := b\<rparr>)"

lemma consumes_refl [intro]: "consumes st st"
  unfolding consumes_def by (intro exI [of _ 0] exI [of _ "m_finished_parsing st"]) simp

lemma consumes_trans [trans]: "consumes st st' \<Longrightarrow> consumes st' st'' \<Longrightarrow> consumes st st''"
  unfolding consumes_def by (force simp: drop_drop)

lemma consumes_shorter: "consumes st st' \<Longrightarrow> length (unread st') \<le> length (unread st)"
  by (auto simp: consumes_def)

lemma consumes_finished: "consumes st st' \<Longrightarrow> m_finished_parsing st \<Longrightarrow> m_finished_parsing st'"
  by (auto simp: consumes_def)

lemma m_fread_consumes: "consumes st (snd (m_fread d s t st))"
  unfolding consumes_def
  by (intro exI [of _ "s * t"] exI [of _ "m_finished_parsing (snd (m_fread d s t st))"])
    (simp add: m_fread_def fread_def Let_def)

locale frugal_reader =
  fixes rd :: "'d \<Rightarrow> conv_state \<Rightarrow> ('r \<times> conv_state) option"
  assumes frugal: "rd d st = Some (r, st') \<Longrightarrow> consumes st st'"
begin

lemma each_frugal: "read_each rd ds st = Some (rs, st') \<Longrightarrow> consumes st st'"
proof (induction ds arbitrary: st rs)
  case (Cons d ds)
  then obtain r rs' st1 where "rd d st = Some (r, st1)" "read_each rd ds st1 = Some (rs', st')"
    by (auto split: Option.bind_splits)
  then show ?case
    using frugal Cons.IH consumes_trans by blast
qed auto

end

section \<open>The readers meet their contracts\<close>

text \<open>A string as \<open>write_output\<close> sends it: its length in \<open>n\<close> bytes and its characters.\<close>

definition string_image :: "nat \<Rightarrow> byte list \<Rightarrow> byte list" where
  "string_image n s = le_enc n (of_nat (length s) :: u64) @ s"

definition string_view :: "byte list \<Rightarrow> m_string" where
  "string_view s = \<lparr>ms_len = of_nat (length s), ms_string = s @ [0]\<rparr>"

lemma le_dec_zeros: "le_dec (bs @ replicate n 0) = (le_dec bs :: 'a::len word)"
proof (induction bs)
  case Nil
  show ?case by (induction n) auto
qed auto

lemma le_enc_zero: "le_enc n (0 :: 'a::len word) = replicate n 0"
  by (induction n) auto

lemma read_string_reads:
  assumes n: "0 < n" "n \<le> 8" "length s < 256 ^ n" "length s < 2 ^ 64 - 1"
    and st: "unread st = string_image n s @ rest"
  shows "read_string n st = Some (string_view s, st\<lparr>unread := rest\<rparr>)"
proof -
  define w :: u64 where "w = of_nat (length s)"
  have w: "unat w = length s"
    using n(4) by (simp add: w_def unat_of_nat)
  then have w1: "unat (w + 1) = length s + 1"
    using n(4) by (simp add: unat_word_ariths)
  have "m_fread (le_enc 8 (0 :: u64)) n 1 st =
      (le_enc n w @ replicate (8 - n) 0, st\<lparr>unread := s @ rest\<rparr>)"
    using st n by (subst m_fread_prefix [of _ "le_enc n w"])
      (auto simp: string_image_def w_def le_enc_zero)
  moreover have "le_dec (le_enc n w @ replicate (8 - n) 0) = w"
    using n(3) w by (simp add: le_dec_zeros le_dec_le_enc_take word_unat_eq_iff unsigned_take_bit_eq
        take_bit_nat_eq_self power_mult)
  moreover have "m_fread (replicate (unat (w + 1)) 0) 1 (unat w) (st\<lparr>unread := s @ rest\<rparr>) =
      (s @ [0], st\<lparr>unread := rest\<rparr>)"
    using w w1 drop_replicate [of "length s" "Suc (length s)" "0 :: byte"]
    by (subst m_fread_prefix [of _ s]) auto
  moreover have "w + 1 \<noteq> 0"
    using w1 by auto
  ultimately show ?thesis
    by (simp add: read_string_def string_view_def w_def)
qed

text \<open>A record: the worker's name and the header and used part of its output slot.\<close>

definition record_ok :: "byte list \<times> output_slot \<Rightarrow> bool" where
  "record_ok v \<longleftrightarrow> (case v of (so, r) \<Rightarrow> length so < 2 ^ 64 - 1 \<and> output_slot_ok r)"

definition record_image :: "byte list \<times> output_slot \<Rightarrow> byte list" where
  "record_image v = (case v of (so, r) \<Rightarrow>
     string_image 8 so @ le_enc 4 (status_code (status r)) @ le_enc 2 (ndecoded r) @
     string_image 2 (take (unat (out_len r)) (result r)))"

definition record_view :: "worker_output \<Rightarrow> byte list \<times> output_slot \<Rightarrow> worker_output" where
  "record_view w v = (case v of (so, r) \<Rightarrow>
     w\<lparr>wo_workerso := string_view so, wo_status := status_code (status r),
       wo_ndecoded := ndecoded r,
       wo_result := string_view (take (unat (out_len r)) (result r))\<rparr>)"

lemma read_string8_reads: "length s < 2 ^ 64 - 1 \<Longrightarrow> unread st = string_image 8 s @ rest \<Longrightarrow>
    read_string 8 st = Some (string_view s, st\<lparr>unread := rest\<rparr>)"
  by (rule read_string_reads) auto

lemma read_string2_reads: "length s < 65536 \<Longrightarrow> unread st = string_image 2 s @ rest \<Longrightarrow>
    read_string 2 st = Some (string_view s, st\<lparr>unread := rest\<rparr>)"
  by (rule read_string_reads) auto

lemma read_output_reads:
  assumes "record_ok v" and "unread st = record_image v @ rest"
  shows "read_output w st = Some (record_view w v, st\<lparr>unread := rest\<rparr>)"
proof -
  obtain so r where v: "v = (so, r)" by fastforce
  define res where "res = take (unat (out_len r)) (result r)"
  have ok: "length so < 2 ^ 64 - 1" "output_slot_ok r"
    using assms v by (auto simp: record_ok_def)
  then have res: "length res < 65536"
    by (simp add: res_def slot_defs)
  define tl3 where "tl3 = string_image 2 res @ rest"
  define tl2 where "tl2 = le_enc 2 (ndecoded r) @ tl3"
  define tl1 where "tl1 = le_enc 4 (status_code (status r)) @ tl2"
  have st: "unread st = string_image 8 so @ tl1"
    using assms(2) by (simp add: v record_image_def tl1_def tl2_def tl3_def res_def)
  have 1: "read_string 8 st = Some (string_view so, st\<lparr>unread := tl1\<rparr>)"
    using ok(1) st by (rule read_string8_reads)
  have 2: "m_fread (le_enc 4 (wo_status w)) 4 (Suc 0) (st\<lparr>unread := tl1\<rparr>) =
      (le_enc 4 (status_code (status r)), st\<lparr>unread := tl2\<rparr>)"
    by (subst m_fread_full [of _ "le_enc 4 (status_code (status r))" tl2]) (simp_all add: tl1_def)
  have 3: "m_fread (le_enc 2 n) 2 (Suc 0) (st\<lparr>unread := tl2\<rparr>) =
      (le_enc 2 (ndecoded r), st\<lparr>unread := tl3\<rparr>)" for n :: u16
    by (subst m_fread_full [of _ "le_enc 2 (ndecoded r)" tl3]) (simp_all add: tl2_def)
  have 4: "read_string 2 (st\<lparr>unread := tl3\<rparr>) = Some (string_view res, st\<lparr>unread := rest\<rparr>)"
    using read_string2_reads [OF res, of "st\<lparr>unread := tl3\<rparr>" rest] by (simp add: tl3_def)
  show ?thesis
    by (simp add: read_output_def 1 2 3 4 le_simps v record_view_def res_def)
qed

interpretation soname_field: field_reader "\<lambda>d. read_string 8" "string_image 8"
    "\<lambda>s. length s < 2 ^ 64 - 1" "\<lambda>d. string_view"
  by unfold_locales (rule read_string8_reads)

interpretation result_field: field_reader "\<lambda>d. read_string 2" "string_image 2"
    "\<lambda>s. length s < 65536" "\<lambda>d. string_view"
  by unfold_locales (rule read_string2_reads)

interpretation record_field: field_reader read_output record_image record_ok record_view
  by unfold_locales (rule read_output_reads)

text \<open>The record the fuzzer writes is the image the converter accepts.\<close>

lemma string_image_u16:
  "length s = unat (n :: u16) \<Longrightarrow> string_image 2 s = le_enc 2 n @ s"
proof -
  assume "length s = unat n"
  then have "(of_nat (length s) :: u64) = ucast n"
    by simp
  moreover have "le_enc 2 (ucast n :: u64) = le_enc 2 n"
    by (simp add: numeral_2_eq_2) (auto intro!: bit_word_eqI simp: bit_ucast_iff bit_drop_bit_eq)
  ultimately show ?thesis
    by (simp only: string_image_def)
qed

lemma write_record_image:
  assumes "output_slot_ok r"
  shows "write_record so r = Some (record_image (so, r))"
proof -
  have "length (take (unat (out_len r)) (result r)) = unat (out_len r)"
    using assms by (simp add: slot_defs)
  from string_image_u16 [OF this] show ?thesis
    by (simp add: write_record_ok [OF assms] record_image_def string_image_def [of 8])
qed

lemma read_string_frugal: "read_string n st = Some (r, st') \<Longrightarrow> consumes st st'"
proof (simp add: read_string_def Let_def case_prod_beta split: if_splits, elim conjE)
  define st1 where "st1 = snd (m_fread (le_enc 8 (0 :: u64)) n 1 st)"
  fix d and t :: nat
  assume "snd (m_fread d (Suc 0) t (snd (m_fread (le_enc 8 (0 :: u64)) n (Suc 0) st))) = st'"
  then have "consumes st1 st'"
    using m_fread_consumes [of st1 d "Suc 0" t] by (simp add: st1_def)
  moreover have "consumes st st1"
    unfolding st1_def by (rule m_fread_consumes)
  ultimately show "consumes st st'"
    by (rule consumes_trans [rotated])
qed

interpretation string_frugal: frugal_reader "\<lambda>d. read_string n" for n
  by unfold_locales (rule read_string_frugal)

lemma read_output_frugal: "read_output w st = Some (r, st') \<Longrightarrow> consumes st st'"
proof -
  assume "read_output w st = Some (r, st')"
  then obtain so st1 res where 1: "read_string 8 st = Some (so, st1)"
    and 2: "read_string 2 (snd (m_fread (le_enc 2 (wo_ndecoded w)) 2 1
        (snd (m_fread (le_enc 4 (wo_status w)) 4 1 st1)))) = Some (res, st')"
    by (auto simp: read_output_def Let_def case_prod_beta split: Option.bind_splits)
  show ?thesis
    using string_frugal.frugal [OF 1] string_frugal.frugal [OF 2] m_fread_consumes
    by (meson consumes_trans)
qed

interpretation output_frugal: frugal_reader read_output
  by unfold_locales (rule read_output_frugal)

section \<open>Cohorts\<close>

type_synonym cohort = "input_slot \<times> (byte list \<times> output_slot) list"

definition cohort_ok :: "cohort \<Rightarrow> bool" where
  "cohort_ok c \<longleftrightarrow> (case c of (input, recs) \<Rightarrow>
     input_slot_wf input \<and> length recs < 2 ^ 32 \<and> (\<forall>v \<in> set recs. record_ok v))"

definition cohort_image :: "cohort \<Rightarrow> byte list" where
  "cohort_image c = (case c of (input, recs) \<Rightarrow>
     le_enc 4 (of_nat (length recs) :: u32) @ input_slot_bytes input @
     concat (map record_image recs))"

text \<open>What the converter holds after reading the cohort; \<open>junk\<close> is what the array held before.\<close>

definition cohort_view :: "(nat \<Rightarrow> worker_output) \<Rightarrow> cohort \<Rightarrow> cohort_results" where
  "cohort_view junk c = (case c of (input, recs) \<Rightarrow>
     \<lparr>cr_nworkers = of_nat (length recs), cr_input = input,
      cr_outputs = map2 record_view (map junk [0..<length recs]) recs\<rparr>)"

definition sample_cohort :: "byte list list \<Rightarrow> input_slot \<Rightarrow> output_slot list \<Rightarrow> cohort" where
  "sample_cohort sonames input outs = (input, zip sonames outs)"

lemma write_records_image:
  "length sonames = length outs \<Longrightarrow> \<forall>r \<in> set outs. output_slot_ok r \<Longrightarrow>
   write_records sonames outs = Some (concat (map record_image (zip sonames outs)))"
  by (induction sonames outs rule: list_induct2) (auto simp: write_record_image)

lemma write_sample_image:
  "length sonames = length outs \<Longrightarrow> \<forall>r \<in> set outs. output_slot_ok r \<Longrightarrow>
   write_sample sonames input outs = Some (cohort_image (sample_cohort sonames input outs))"
  by (simp add: write_sample_def write_records_image cohort_image_def sample_cohort_def)

lemma read_input_slot_reads:
  assumes "input_slot_wf s" and "input_slot_wf old" and "unread st = input_slot_bytes s @ rest"
  shows "read_input_slot old st = (s, st\<lparr>unread := rest\<rparr>)"
proof -
  have "m_fread (input_slot_bytes old) 16 1 st = (input_slot_bytes s, st\<lparr>unread := rest\<rparr>)"
    using assms input_slot_size by (intro m_fread_full) auto
  then show ?thesis
    by (simp add: read_input_slot_def input_slot_bytes_def)
qed

definition conv_wf :: "conv_state \<Rightarrow> bool" where
  "conv_wf st \<longleftrightarrow> input_slot_wf (cr_input (results st))"

lemma length_cohort_image: "4 \<le> length (cohort_image c)"
  by (simp add: cohort_image_def split: prod.splits)

lemma read_next_reads:
  assumes ok: "cohort_ok c" and wf: "conv_wf st" and st: "unread st = cohort_image c @ rest"
  shows "read_next st = Some (\<not> m_finished_parsing st,
    st\<lparr>unread := rest, results := cohort_view (malloc_junk st) c\<rparr>)"
proof -
  obtain input recs where c: "c = (input, recs)" by fastforce
  define n :: u32 where "n = of_nat (length recs)"
  define body where "body = concat (map record_image recs) @ rest"
  have n: "unat n = length recs"
    using ok c by (simp add: cohort_ok_def n_def unat_of_nat)
  have 1: "fread (le_enc 4 m) 4 1 (unread st) = (1, le_enc 4 n, input_slot_bytes input @ body)"
    for m :: u32
    using st by (simp add: c cohort_image_def fread_def n_def body_def overlay_def)
  have 2: "read_input_slot (cr_input (results st)) (st\<lparr>unread := input_slot_bytes input @ body\<rparr>) =
      (input, st\<lparr>unread := body\<rparr>)"
    using ok wf by (subst read_input_slot_reads [of input _ _ body])
      (auto simp: c cohort_ok_def conv_wf_def)
  have 3: "read_each read_output (map (malloc_junk st) [0..<unat n]) (st\<lparr>unread := body\<rparr>) =
      Some (map2 record_view (map (malloc_junk st) [0..<unat n]) recs, st\<lparr>unread := rest\<rparr>)"
    using record_field.reads_each [of recs _ "st\<lparr>unread := body\<rparr>" rest] ok n
    by (auto simp: c cohort_ok_def body_def)
  show ?thesis
    using 3 by (simp add: read_next_def 1 [unfolded One_nat_def] 2 le_simps c cohort_view_def n)
      (simp add: n_def)
qed

text \<open>Whatever the stream holds, a call that goes on has consumed at least one byte.\<close>

lemma read_next_consumes:
  assumes "read_next st = Some (b, st')"
  shows "length (unread st') \<le> length (unread st)"
    and "b \<Longrightarrow> length (unread st') < length (unread st)"
    and "b \<longleftrightarrow> \<not> m_finished_parsing st'" and "malloc_junk st' = malloc_junk st"
    and "conv_wf st \<Longrightarrow> conv_wf st'"
proof -
  define st0 where "st0 = st\<lparr>unread := drop 4 (unread st)\<rparr>"
  define raw where "raw = input_slot_bytes (cr_input (results st))"
  define st1 where "st1 = snd (m_fread raw 16 1 st0)"
  define n where
    "n = (le_dec (overlay (take 4 (unread st)) (le_enc 4 (cr_nworkers (results st)))) :: u32)"
  define ds where "ds = map (malloc_junk st) [0..<unat n]"
  define inp where
    "inp = \<lparr>in_len = hd (fst (m_fread raw 16 1 st0)), raw_insn = tl (fst (m_fread raw 16 1 st0))\<rparr>"
  have unfold: "read_next st = do {
      (outs, st2) \<leftarrow> read_each read_output ds st1;
      Some (\<not> m_finished_parsing st2,
        st2\<lparr>results := \<lparr>cr_nworkers = n, cr_input = inp, cr_outputs = outs\<rparr>\<rparr>) }"
    by (simp add: read_next_def fread_def Let_def case_prod_beta read_input_slot_def st0_def
        st1_def raw_def n_def ds_def inp_def)
  obtain outs st2 where each: "read_each read_output ds st1 = Some (outs, st2)"
    using assms unfold by (cases "read_each read_output ds st1") auto
  have b: "b \<longleftrightarrow> \<not> m_finished_parsing st2"
    and st': "st' = st2\<lparr>results := \<lparr>cr_nworkers = n, cr_input = inp, cr_outputs = outs\<rparr>\<rparr>"
    using assms unfold each by auto
  have c1: "consumes st0 st1"
    by (simp add: st1_def m_fread_consumes)
  have c2: "consumes st1 st2"
    using output_frugal.each_frugal [OF each] .
  have le0: "length (unread st0) \<le> length (unread st)"
    by (simp add: st0_def)
  show "length (unread st') \<le> length (unread st)"
    using consumes_shorter [OF c1] consumes_shorter [OF c2] le0 by (simp add: st')
  show "length (unread st') < length (unread st)" if b
  proof -
    have "\<not> m_finished_parsing st1"
      using that b consumes_finished [OF c2] by auto
    then have "length (unread st1) < length (unread st0)"
      unfolding st1_def by (rule m_fread_progress) simp
    then show ?thesis
      using consumes_shorter [OF c2] le0 by (simp add: st')
  qed
  show "b \<longleftrightarrow> \<not> m_finished_parsing st'"
    using b by (simp add: st')
  show "malloc_junk st' = malloc_junk st"
    using c1 c2 by (auto simp: st' consumes_def st0_def)
  show "conv_wf st'" if "conv_wf st"
  proof -
    have "length raw = 16"
      using that input_slot_size by (simp add: raw_def conv_wf_def)
    then have "length (fst (m_fread raw 16 1 st0)) = 16"
      by (simp add: m_fread_def fread_def Let_def overlay_def)
    then show ?thesis
      by (simp add: st' inp_def conv_wf_def slot_defs)
  qed
qed

text \<open>At the end of the stream the call reports the end, whatever it left in \<open>results\<close>.\<close>

lemma read_string_empty:
  "unread st = [] \<Longrightarrow> 0 < n \<Longrightarrow> read_string n st =
     Some (\<lparr>ms_len = 0, ms_string = [0]\<rparr>, st\<lparr>m_finished_parsing := True\<rparr>)"
  by (simp add: read_string_def m_fread_def fread_def overlay_def Let_def le_simps)

lemma read_output_empty:
  assumes "unread st = []"
  shows "\<exists>r. read_output w st = Some (r, st\<lparr>m_finished_parsing := True\<rparr>)"
  using assms
  by (simp add: read_output_def read_string_empty m_fread_def fread_def Let_def)

lemma read_each_empty:
  assumes "unread st = []" and "m_finished_parsing st"
  shows "\<exists>rs. read_each read_output ds st = Some (rs, st)"
  using assms
proof (induction ds)
  case (Cons d ds)
  obtain r where "read_output d st = Some (r, st)"
    using read_output_empty [OF assms(1), of d] assms(2) by auto
  with Cons show ?case
    by auto
qed auto

lemma read_next_eof:
  assumes "unread st = []"
  shows "\<exists>st'. read_next st = Some (False, st')"
proof -
  define st1 where "st1 = st\<lparr>unread := [], m_finished_parsing := True\<rparr>"
  obtain outs where "read_each read_output (map (malloc_junk st)
      [0..<unat (cr_nworkers (results st))]) st1 = Some (outs, st1)"
    using read_each_empty [of st1] by (auto simp: st1_def)
  then show ?thesis
    using assms
    by (simp add: read_next_def fread_def Let_def read_input_slot_def m_fread_def st1_def mem_simps
        le_simps)
qed

section \<open>Properties\<close>

definition sample_conv :: conv_state where
  "sample_conv = \<lparr>results = \<lparr>cr_nworkers = 3, cr_input = zero_input_slot, cr_outputs = []\<rparr>,
     m_finished_parsing = False, unread = [],
     malloc_junk = (\<lambda>i. \<lparr>wo_status = 9, wo_ndecoded = 9, wo_workerno = of_nat i,
       wo_workerso = \<lparr>ms_len = 0, ms_string = []\<rparr>, wo_result = \<lparr>ms_len = 0, ms_string = []\<rparr>\<rparr>)\<rparr>"

lemma sample_conv_wf [simp]: "conv_wf (sample_conv\<lparr>unread := x\<rparr>)" "conv_wf sample_conv"
  by (simp_all add: conv_wf_def sample_conv_def input_slot_ok_wf [OF zero_slots_ok(1)])

text \<open>C4: The converter reads back what the fuzzer wrote. On a stream that starts with a written
  sample, \<open>read_next\<close> consumes exactly the sample and holds its number of workers, its input slot
  byte by byte and, per worker, the name, the status, the decoded length and the used part of the
  result, both strings terminated by a NUL; only \<open>workerno\<close> is what the allocated memory
  contained.\<close>

theorem converter_reads_fuzzer_output:
  assumes "length sonames = length outs" and "length outs \<le> MISHEGOS_MAX_NWORKERS"
    and "\<forall>r \<in> set outs. output_slot_ok r" and "\<forall>so \<in> set sonames. length so < 2 ^ 64 - 1"
    and "input_slot_wf input" and "input_slot_wf (cr_input (results st))"
    and "write_sample sonames input outs = Some bytes" and "unread st = bytes @ rest"
  shows "read_next st = Some (\<not> m_finished_parsing st, st\<lparr>unread := rest, results :=
    \<lparr>cr_nworkers = of_nat (length outs), cr_input = input,
     cr_outputs = map (\<lambda>i.
       \<lparr>wo_status = status_code (status (outs ! i)), wo_ndecoded = ndecoded (outs ! i),
        wo_workerno = wo_workerno (malloc_junk st i),
        wo_workerso = \<lparr>ms_len = of_nat (length (sonames ! i)), ms_string = sonames ! i @ [0]\<rparr>,
        wo_result = \<lparr>ms_len = of_nat (unat (out_len (outs ! i))),
          ms_string = take (unat (out_len (outs ! i))) (result (outs ! i)) @ [0]\<rparr>\<rparr>)
       [0..<length outs]\<rparr>\<rparr>)"
proof -
  let ?c = "sample_cohort sonames input outs"
  have ok: "cohort_ok ?c"
    using assms(1-5)
    by (auto simp: cohort_ok_def sample_cohort_def record_ok_def dest: set_zip_leftD set_zip_rightD)
  have "bytes = cohort_image ?c"
    using assms(7) write_sample_image [OF assms(1,3)] by simp
  then have "read_next st = Some (\<not> m_finished_parsing st,
      st\<lparr>unread := rest, results := cohort_view (malloc_junk st) ?c\<rparr>)"
    using ok assms(6,8) by (intro read_next_reads) (auto simp: conv_wf_def)
  moreover have "cr_outputs (cohort_view (malloc_junk st) ?c) = map (\<lambda>i.
       \<lparr>wo_status = status_code (status (outs ! i)), wo_ndecoded = ndecoded (outs ! i),
        wo_workerno = wo_workerno (malloc_junk st i),
        wo_workerso = \<lparr>ms_len = of_nat (length (sonames ! i)), ms_string = sonames ! i @ [0]\<rparr>,
        wo_result = \<lparr>ms_len = of_nat (unat (out_len (outs ! i))),
          ms_string = take (unat (out_len (outs ! i))) (result (outs ! i)) @ [0]\<rparr>\<rparr>)
       [0..<length outs]" (is "?v = ?w")
  proof (rule nth_equalityI)
    fix i
    assume "i < length ?v"
    then have i: "i < length outs"
      using assms(1) by (simp add: cohort_view_def sample_cohort_def)
    then have "unat (out_len (outs ! i)) \<le> length (result (outs ! i))"
      using assms(3) by (auto simp: slot_defs)
    then show "?v ! i = ?w ! i"
      using i assms(1) by (cases "malloc_junk st i")
        (simp add: cohort_view_def sample_cohort_def record_view_def string_view_def min_absorb2)
  qed (use assms(1) in \<open>simp add: cohort_view_def sample_cohort_def\<close>)
  ultimately show ?thesis
    using assms(1) by (simp add: cohort_view_def sample_cohort_def)
qed

theorem converter_reads_fuzzer_output_witness:
  "\<exists>st. read_next (sample_conv\<lparr>unread := the (write_sample [[97]] zero_input_slot [zero_output_slot]) @ [1]\<rparr>) =
     Some (True, st) \<and> unread st = [1] \<and> wo_workerso (hd (cr_outputs (results st))) = \<lparr>ms_len = 1, ms_string = [97, 0]\<rparr>"
proof -
  have w: "write_sample [[97]] zero_input_slot [zero_output_slot] =
      Some (the (write_sample [[97]] zero_input_slot [zero_output_slot]))"
    by (simp add: write_sample_image)
  show ?thesis
    using converter_reads_fuzzer_output [of "[[97]]" "[zero_output_slot]" zero_input_slot
        "sample_conv\<lparr>unread := the (write_sample [[97]] zero_input_slot [zero_output_slot]) @ [1]\<rparr>", OF _ _ _ _ _ _ w]
      sample_conv_wf(1) unfolding conv_wf_def
    by (simp add: input_slot_ok_wf) (simp add: sample_conv_def)
qed

text \<open>Reading makes progress. Whatever the stream holds, a call of \<open>read_next\<close> that does not
  report the end leaves a strictly shorter stream, no call makes it longer, and at the end of the
  stream the call reports the end, whatever the previous cohort left in \<open>results\<close>. So the loops
  over cohorts end.\<close>

theorem read_next_progress:
  assumes "read_next st = Some (go, st')"
  shows "length (unread st') \<le> length (unread st) \<and>
    (go \<longrightarrow> length (unread st') < length (unread st)) \<and> (unread st = [] \<longrightarrow> \<not> go)"
  using read_next_consumes(1,2) [OF assms] read_next_eof [of st] assms by auto

theorem read_next_progress_witness:
  "\<exists>st'. read_next sample_conv = Some (False, st') \<and> length (unread st') \<le> 0"
proof -
  obtain go st' where "read_next sample_conv = Some (go, st')"
    using read_next_eof [of sample_conv] by (auto simp: sample_conv_def)
  then show ?thesis
    using read_next_progress [of sample_conv go st'] by (auto simp: sample_conv_def)
qed

end
