(* ===== verification/Converter_Json.thy ===== *)
theory Converter_Json
  imports Converter_Input Manual_Input
begin

text \<open>
  The output side of src/mish2jsonl/mish2jsonl.c: cohorts as JSON. Buffers are arrays with
  checked writes, so \<open>json_escape_string\<close> and \<open>m_cohort_print_json\<close> return \<open>Some\<close> exactly when
  they stay inside the memory they allocate. What is printed is returned as bytes.
\<close>

section \<open>Status names\<close>

definition status2str :: "u32 \<Rightarrow> string" where
  "status2str s =
     (if s = status_code S_NONE then ''none''
      else if s = status_code S_SUCCESS then ''success''
      else if s = status_code S_FAILURE then ''failure''
      else if s = status_code S_CRASH then ''crash''
      else if s = status_code S_PARTIAL then ''partial''
      else ''unknown'')"

lemma status2str_inject: "status2str (status_code s) = status2str (status_code t) \<longleftrightarrow> s = t"
  by (cases s; cases t) (simp_all add: status2str_def)

section \<open>Escaping\<close>

text \<open>\<open>sprintf(out, "\\u%04x", c)\<close> also stores the terminating NUL, one byte further.\<close>

definition u_escape :: "byte \<Rightarrow> byte list" where
  "u_escape c = bytes_of [CHR 0x5C, CHR ''u''] @
     [hex_char (unat c div 4096 mod 16), hex_char (unat c div 256 mod 16),
      hex_char (unat c div 16 mod 16), hex_char (unat c mod 16)]"

definition put_at :: "byte list \<Rightarrow> nat \<Rightarrow> byte list \<Rightarrow> byte list option" where
  "put_at output out bs = copy_to output out bs 0 (length bs)"

definition escape_put :: "byte \<Rightarrow> byte list \<Rightarrow> nat \<Rightarrow> (byte list \<times> nat) option" where
  "escape_put c output out =
     (let two = (\<lambda>b. do { output \<leftarrow> put_at output out [92, b]; Some (output, out + 2) }) in
      if c = 34 then two 34
      else if c = 92 then two 92
      else if c = 10 then two 110
      else if c = 13 then two 114
      else if c = 9 then two 116
      else if c = 8 then two 98
      else if c = 12 then two 102
      else if c < 0x20 then do {
        output \<leftarrow> put_at output out (u_escape c @ [0]);
        Some (output, out + 6) }
      else do {
        output \<leftarrow> put_at output out [c];
        Some (output, out + 1) })"

fun json_escape_loop :: "byte list \<Rightarrow> byte list \<Rightarrow> nat \<Rightarrow> (byte list \<times> nat) option" where
  "json_escape_loop [] output out = Some (output, out)"
| "json_escape_loop (c # cs) output out = do {
     (output, out) \<leftarrow> escape_put c output out;
     json_escape_loop cs output out }"

definition json_escape_string :: "(nat \<Rightarrow> byte) \<Rightarrow> byte list \<Rightarrow> byte list option" where
  "json_escape_string junk input = do {
     input_len \<leftarrow> c_strlen input;
     let output = map junk [0..<input_len * 6 + 1];
     (output, out) \<leftarrow> json_escape_loop (c_string input) output 0;
     poke output out 0 }"

section \<open>Printing\<close>

fun dec_digits :: "nat \<Rightarrow> byte list" where
  "dec_digits n = (if n < 10 then [of_nat (48 + n)] else dec_digits (n div 10) @ [of_nat (48 + n mod 10)])"

declare dec_digits.simps [simp del]

fun hexbuf_loop :: "nat \<Rightarrow> nat \<Rightarrow> byte list \<Rightarrow> byte list \<Rightarrow> byte list option" where
  "hexbuf_loop 0 i raw hexbuf = Some hexbuf"
| "hexbuf_loop (Suc k) i raw hexbuf = do {
     b \<leftarrow> peek raw i;
     hexbuf \<leftarrow> poke hexbuf (i * 2) (hex_char (unat b div 0x10));
     hexbuf \<leftarrow> poke hexbuf (i * 2 + 1) (hex_char (unat b mod 0x10));
     hexbuf_loop k (i + 1) raw hexbuf }"

definition print_hex :: "(nat \<Rightarrow> byte) \<Rightarrow> input_slot \<Rightarrow> byte list option" where
  "print_hex junk inp = do {
     let hexbuf = map junk [0..<MISHEGOS_INSN_MAXLEN * 2 + 1];
     hexbuf \<leftarrow> hexbuf_loop (unat (in_len inp)) 0 (raw_insn inp) hexbuf;
     hexbuf \<leftarrow> poke hexbuf (unat (in_len inp) * 2) 0;
     Some (c_string hexbuf) }"

definition print_output :: "(nat \<Rightarrow> byte) \<Rightarrow> worker_output \<Rightarrow> byte list option" where
  "print_output junk w = do {
     escaped_result \<leftarrow> json_escape_string junk (ms_string (wo_result w));
     Some (bytes_of ''{ \"status\": { \"value\": '' @ dec_digits (unat (wo_status w)) @
       bytes_of '', \"name\": \"'' @ bytes_of (status2str (wo_status w)) @
       bytes_of ''\" }, \"ndecoded\": '' @ dec_digits (unat (wo_ndecoded w)) @
       bytes_of '', \"workerno\": '' @ dec_digits (unat (wo_workerno w)) @
       bytes_of '', \"worker_so\": \"'' @ c_string (ms_string (wo_workerso w)) @
       bytes_of ''\",\"len\": '' @ dec_digits (unat (ms_len (wo_result w))) @
       bytes_of '', \"result\": \"'' @ c_string escaped_result @ bytes_of ''\" }'') }"

fun print_outputs :: "(nat \<Rightarrow> byte) \<Rightarrow> nat \<Rightarrow> worker_output list \<Rightarrow> byte list option" where
  "print_outputs junk i [] = Some []"
| "print_outputs junk i (w # ws) = do {
     b \<leftarrow> print_output junk w;
     bs \<leftarrow> print_outputs junk (i + 1) ws;
     Some ((if i \<noteq> 0 then bytes_of '','' else []) @ b @ bs) }"

definition m_cohort_print_json :: "(nat \<Rightarrow> byte) \<Rightarrow> cohort_results \<Rightarrow> byte list option" where
  "m_cohort_print_json junk r = do {
     hex \<leftarrow> print_hex junk (cr_input r);
     outs \<leftarrow> print_outputs junk 0 (cr_outputs r);
     Some (bytes_of ''{ \"nworkers\": '' @ dec_digits (unat (cr_nworkers r)) @
       bytes_of '', \"input\": \"'' @ hex @ bytes_of ''\", \"outputs\": ['' @ outs @
       bytes_of '']}'') }"

text \<open>The two main loops; each turn that goes on has shortened the unread stream.\<close>

function print_jsonl_loop ::
  "(nat \<Rightarrow> byte) \<Rightarrow> conv_state \<Rightarrow> (byte list \<times> conv_state) option" where
  "print_jsonl_loop junk st =
     (case read_next st of
        None \<Rightarrow> None
      | Some (False, st') \<Rightarrow> Some ([], st')
      | Some (True, st') \<Rightarrow> do {
          b \<leftarrow> m_cohort_print_json junk (results st');
          (bs, st') \<leftarrow> print_jsonl_loop junk st';
          Some (b @ [10] @ bs, st') })"
  by auto
termination
  by (relation "measure (\<lambda>(_, st). length (unread st))") (auto dest: read_next_consumes(2))

function print_json_loop ::
  "(nat \<Rightarrow> byte) \<Rightarrow> bool \<Rightarrow> conv_state \<Rightarrow> (byte list \<times> conv_state) option" where
  "print_json_loop junk is_first st =
     (case read_next st of
        None \<Rightarrow> None
      | Some (False, st') \<Rightarrow> Some ([], st')
      | Some (True, st') \<Rightarrow>
          if \<not> m_finished_parsing st' then do {
            b \<leftarrow> m_cohort_print_json junk (results st');
            (bs, st') \<leftarrow> print_json_loop junk False st';
            Some ((if \<not> is_first then bytes_of '','' else []) @ b @ [10] @ bs, st') }
          else print_json_loop junk is_first st')"
  by auto
termination
  by (relation "measure (\<lambda>(_, _, st). length (unread st))") (auto dest: read_next_consumes(2))

declare print_jsonl_loop.simps [simp del] print_json_loop.simps [simp del]

definition m_print_results_jsonl :: "(nat \<Rightarrow> byte) \<Rightarrow> conv_state \<Rightarrow> (byte list \<times> conv_state) option" where
  "m_print_results_jsonl junk st = print_jsonl_loop junk (st\<lparr>m_finished_parsing := False\<rparr>)"

definition m_print_results_json :: "(nat \<Rightarrow> byte) \<Rightarrow> conv_state \<Rightarrow> (byte list \<times> conv_state) option" where
  "m_print_results_json junk st = do {
     (bs, st) \<leftarrow> print_json_loop junk True (st\<lparr>m_finished_parsing := False\<rparr>);
     Some (bytes_of ''['' @ bs @ bytes_of '']'', st) }"

section \<open>The program\<close>

text \<open>
  \<open>main\<close>: the options \<open>getopt\<close> returns (\<open>Conv_other\<close> is anything it rejects), the input from the
  one argument or, with none or several, from stdin, which is the unread part of \<open>st\<close>.
\<close>

datatype conv_option = Conv_h | Conv_n | Conv_other

datatype conv_exit = Conv_Usage int | Conv_Open_Failed | Conv_Printed "byte list"

fun conv_options :: "conv_option list \<Rightarrow> bool \<Rightarrow> int + bool" where
  "conv_options [] jsonl = Inr jsonl"
| "conv_options (Conv_h # rs) jsonl = Inl 0"
| "conv_options (Conv_n # rs) jsonl = conv_options rs False"
| "conv_options (Conv_other # rs) jsonl = Inl 1"

definition conv_main :: "(nat \<Rightarrow> byte) \<Rightarrow> (byte list \<Rightarrow> byte list option) \<Rightarrow> conv_option list \<Rightarrow>
    byte list list \<Rightarrow> conv_state \<Rightarrow> conv_exit option" where
  "conv_main junk fopen rs args st =
     (case conv_options rs True of
        Inl code \<Rightarrow> Some (Conv_Usage code)
      | Inr jsonl \<Rightarrow>
     (case (if length args \<noteq> 1 then Some (unread st) else fopen (hd args)) of
        None \<Rightarrow> Some Conv_Open_Failed
      | Some input \<Rightarrow> do {
          (output, st) \<leftarrow>
            (if jsonl then m_print_results_jsonl junk (st\<lparr>unread := input\<rparr>)
             else m_print_results_json junk (st\<lparr>unread := input\<rparr>));
          Some (Conv_Printed output) }))"

section \<open>Escaping is exact\<close>

text \<open>What one character becomes, and the reader of a JSON string body up to its closing quote.\<close>

definition escape_seq :: "byte \<Rightarrow> byte list" where
  "escape_seq c =
     (if c = 34 then [92, 34] else if c = 92 then [92, 92] else if c = 10 then [92, 110]
      else if c = 13 then [92, 114] else if c = 9 then [92, 116] else if c = 8 then [92, 98]
      else if c = 12 then [92, 102] else if c < 0x20 then u_escape c else [c])"

definition escaped :: "byte list \<Rightarrow> byte list" where
  "escaped s = concat (map escape_seq s)"

fun simple_escape :: "byte \<Rightarrow> byte option" where
  "simple_escape c =
     (if c = 34 then Some 34 else if c = 92 then Some 92 else if c = 110 then Some 10
      else if c = 114 then Some 13 else if c = 116 then Some 9 else if c = 98 then Some 8
      else if c = 102 then Some 12 else None)"

text \<open>
  The four hexadecimal digits of an escape are a code point. The strings here are bytes, so a code
  point above 255 is none of theirs.
\<close>

definition json_hex_digit :: "byte \<Rightarrow> nat option" where
  "json_hex_digit c =
     (if 48 \<le> c \<and> c \<le> 57 then Some (unat c - 48)
      else if 97 \<le> c \<and> c \<le> 102 then Some (unat c - 87)
      else if 65 \<le> c \<and> c \<le> 70 then Some (unat c - 55) else None)"

definition json_code_point :: "byte \<Rightarrow> byte \<Rightarrow> byte \<Rightarrow> byte \<Rightarrow> byte option" where
  "json_code_point a b c d = do {
     a \<leftarrow> json_hex_digit a;
     b \<leftarrow> json_hex_digit b;
     c \<leftarrow> json_hex_digit c;
     d \<leftarrow> json_hex_digit d;
     let v = ((a * 16 + b) * 16 + c) * 16 + d;
     if v < 256 then Some (of_nat v) else None }"

fun scan_string :: "byte list \<Rightarrow> (byte list \<times> byte list) option" where
  "scan_string [] = None"
| "scan_string (c # cs) =
     (if c = 34 then Some ([], cs)
      else if c < 0x20 then None
      else if c \<noteq> 92 then do { (s, rest) \<leftarrow> scan_string cs; Some (c # s, rest) }
      else case cs of
        [] \<Rightarrow> None
      | e # cs' \<Rightarrow>
          if e = 117 then
            (case cs' of
               h1 # h2 # h3 # h4 # cs'' \<Rightarrow> do {
                 b \<leftarrow> json_code_point h1 h2 h3 h4;
                 (s, rest) \<leftarrow> scan_string cs'';
                 Some (b # s, rest) }
             | _ \<Rightarrow> None)
          else do {
            b \<leftarrow> simple_escape e;
            (s, rest) \<leftarrow> scan_string cs';
            Some (b # s, rest) })"

lemma u_escape_eq:
  "u_escape c = [92, 117, 48, 48, hex_char (unat c div 16), hex_char (unat c mod 16)]"
proof -
  have "unat c < 256"
    using unsigned_less [of c] by simp
  then have "unat c div 4096 = 0" "unat c div 256 = 0" "unat c div 16 mod 16 = unat c div 16"
    by simp_all
  then show ?thesis
    by (simp add: u_escape_def bytes_of_def hex_char_def)
qed

lemma length_escape_seq: "1 \<le> length (escape_seq c)" "length (escape_seq c) \<le> 6"
  by (simp_all add: escape_seq_def u_escape_eq)

lemma length_escaped: "length (escaped s) \<le> 6 * length s"
  by (induction s) (auto simp: escaped_def intro: add_mono length_escape_seq(2))

lemma json_hex_digit_char: "n < 16 \<Longrightarrow> json_hex_digit (hex_char n) = Some n"
proof -
  have "\<forall>n \<in> set [0..<16]. json_hex_digit (hex_char n) = Some n"
    by code_simp
  then show "n < 16 \<Longrightarrow> ?thesis" by simp
qed

lemma json_code_point_u:
  "json_code_point 48 48 (hex_char (unat c div 16)) (hex_char (unat c mod 16)) = Some c"
proof -
  have c: "unat c < 256"
    using unsigned_less [of c] by simp
  then have "json_hex_digit (hex_char (unat c div 16)) = Some (unat c div 16)"
      "json_hex_digit (hex_char (unat c mod 16)) = Some (unat c mod 16)"
    by (simp_all add: json_hex_digit_char div_less_iff_less_mult)
  moreover have "json_hex_digit 48 = Some 0"
    by (simp add: json_hex_digit_def)
  ultimately show ?thesis
    using c by (simp add: json_code_point_def Let_def)
qed

lemma scan_string_escaped: "scan_string (escaped s @ 34 # rest) = Some (s, rest)"
  by (induction s)
    (auto simp: escaped_def escape_seq_def u_escape_eq json_code_point_u)

lemma escaped_no_nul: "0 \<notin> set s \<Longrightarrow> 0 \<notin> set (escaped s)"
proof -
  have "unat c div 16 < 16" for c :: byte
    using unsigned_less [of c] by (simp add: div_less_iff_less_mult)
  then have "c \<noteq> 0 \<Longrightarrow> 0 \<notin> set (escape_seq c)" for c
    using hex_char_printable [of "unat c div 16"] hex_char_printable [of "unat c mod 16"]
    by (auto simp: escape_seq_def u_escape_eq)
  then show "0 \<notin> set s \<Longrightarrow> ?thesis"
    by (induction s) (auto simp: escaped_def)
qed

text \<open>
  The writes stay inside a buffer with six bytes for every character left and one more: that
  one is needed by the NUL \<open>sprintf\<close> stores.
\<close>

lemma put_at_overlay:
  "length bs + length x \<le> length old \<Longrightarrow>
   put_at (overlay bs old) (length bs) x = Some (overlay (bs @ x) old)"
  using copy_to_overlay [of bs "length x" old 0 x] by (simp add: put_at_def)

lemma overlay_shift:
  "length bs + 1 \<le> length old \<Longrightarrow>
   \<exists>old'. overlay (bs @ [x]) old = overlay bs old' \<and> length old' = length old"
  by (intro exI [of _ "overlay (bs @ [x]) old"])
    (auto simp: overlay_def)

lemma escape_put_seq:
  assumes "length bs + 7 \<le> length old"
  shows "\<exists>old'. escape_put c (overlay bs old) (length bs) =
    Some (overlay (bs @ escape_seq c) old', length (bs @ escape_seq c)) \<and> length old' = length old"
proof (cases "c \<notin> {34, 92, 10, 13, 9, 8, 12} \<and> c < 0x20")
  case True
  then have "escape_put c (overlay bs old) (length bs) =
      Some (overlay ((bs @ u_escape c) @ [0]) old, length bs + 6)" and "escape_seq c = u_escape c"
    using assms by (auto simp: escape_put_def put_at_overlay escape_seq_def u_escape_eq)
  moreover obtain old' where
    "overlay ((bs @ u_escape c) @ [0]) old = overlay (bs @ u_escape c) old'"
    "length old' = length old"
    using overlay_shift [of "bs @ u_escape c" old 0] assms by (auto simp: u_escape_eq)
  ultimately show ?thesis
    by (auto simp: u_escape_eq)
next
  case False
  then show ?thesis
    using assms by (auto simp: escape_put_def Let_def put_at_overlay escape_seq_def)
qed

lemma json_escape_loop_escaped:
  "length bs + 6 * length cs + 1 \<le> length old \<Longrightarrow>
   \<exists>old'. json_escape_loop cs (overlay bs old) (length bs) =
     Some (overlay (bs @ escaped cs) old', length (bs @ escaped cs)) \<and> length old' = length old"
proof (induction cs arbitrary: bs old)
  case Nil
  then show ?case
    by (auto simp: escaped_def)
next
  case (Cons c cs)
  then obtain old1 where 1: "escape_put c (overlay bs old) (length bs) =
      Some (overlay (bs @ escape_seq c) old1, length (bs @ escape_seq c))" "length old1 = length old"
    using escape_put_seq [of bs old c] by auto
  have "length (bs @ escape_seq c) + 6 * length cs + 1 \<le> length old1"
    using Cons.prems 1(2) length_escape_seq(2) [of c] by simp
  from Cons.IH [OF this] show ?case
    using 1 by (auto simp: escaped_def)
qed

lemma json_escape_string_escaped:
  assumes "0 \<in> set input"
  shows "\<exists>out. json_escape_string junk input = Some out \<and> c_string out = escaped (c_string input) \<and>
    length out = 6 * length (c_string input) + 1"
proof -
  define s where "s = c_string input"
  define old where "old = map junk [0..<length s * 6 + 1]"
  obtain old' where 1: "json_escape_loop s old 0 = Some (overlay (escaped s) old', length (escaped s))"
    and len: "length old' = length s * 6 + 1"
    using json_escape_loop_escaped [of "[]" s old] by (auto simp: old_def mem_simps)
  have "length (escaped s) < length old'"
    using length_escaped [of s] len by simp
  then have 2: "poke (overlay (escaped s) old') (length (escaped s)) 0 =
      Some (overlay (escaped s @ [0]) old')"
    by (rule poke_overlay)
  have "c_string (overlay (escaped s @ [0]) old') = escaped s"
    using escaped_no_nul [of s] c_string_no_nul [of input]
    by (simp add: overlay_def s_def c_string_terminated)
  moreover have "length (overlay (escaped s @ [0]) old') = 6 * length s + 1"
    using len length_escaped [of s] by (simp add: length_overlay)
  ultimately show ?thesis
    using assms 1 2
    by (simp add: json_escape_string_def c_strlen_def s_def old_def del: upt_Suc)
qed

section \<open>The instruction in hexadecimal\<close>

lemma hex_of_bytes_snoc: "hex_of_bytes (bs @ [b]) =
    hex_of_bytes bs @ [hex_char (unat b div 16), hex_char (unat b mod 16)]"
  by (simp add: hex_of_bytes_def hex_of_byte_def)

lemma poke_overlay_at:
  "i = length bs \<Longrightarrow> length bs < length old \<Longrightarrow>
   poke (overlay bs old) i x = Some (overlay (bs @ [x]) old)"
  by (simp add: poke_overlay)

lemma hexbuf_loop_hex:
  "i + k \<le> length raw \<Longrightarrow> 2 * (i + k) \<le> length old \<Longrightarrow>
   hexbuf_loop k i raw (overlay (hex_of_bytes (take i raw)) old) =
     Some (overlay (hex_of_bytes (take (i + k) raw)) old)"
proof (induction k arbitrary: i)
  case (Suc k)
  have "hex_of_bytes (take (Suc i) raw) = (hex_of_bytes (take i raw) @
      [hex_char (unat (raw ! i) div 16)]) @ [hex_char (unat (raw ! i) mod 16)]"
    using Suc.prems by (simp add: take_Suc_conv_app_nth hex_of_bytes_snoc)
  moreover have "length (hex_of_bytes (take i raw)) = i * 2"
    using Suc.prems by (simp add: length_hex_of_bytes)
  ultimately show ?case
    using Suc.prems Suc.IH [of "Suc i"] by (simp add: peek_def poke_overlay_at)
qed simp

lemma print_hex_ok:
  assumes "input_slot_ok inp"
  shows "print_hex junk inp = Some (hex_of_bytes (insn_bytes inp))"
proof -
  define old where "old = map junk [0..<31]"
  define n where "n = unat (in_len inp)"
  have n: "n \<le> 15" "length (raw_insn inp) = 15"
    using assms by (auto simp: slot_defs n_def)
  have 1: "hexbuf_loop n 0 (raw_insn inp) old =
      Some (overlay (hex_of_bytes (insn_bytes inp)) old)"
    using hexbuf_loop_hex [of 0 n "raw_insn inp" old] n
    by (simp add: old_def insn_bytes_def n_def hex_of_bytes_def mem_simps)
  have len: "length (hex_of_bytes (insn_bytes inp)) = n * 2"
    using length_insn_bytes [OF assms] by (simp add: length_hex_of_bytes n_def)
  have 2: "poke (overlay (hex_of_bytes (insn_bytes inp)) old) (n * 2) 0 =
      Some (overlay (hex_of_bytes (insn_bytes inp) @ [0]) old)"
    using n len by (intro poke_overlay_at) (auto simp: old_def)
  show ?thesis
    using 1 2 hex_of_bytes_no_nul [of "insn_bytes inp"]
    by (simp add: print_hex_def n_def old_def overlay_def c_string_terminated del: upt_Suc)
qed

lemma hexbuf_loop_short:
  "i \<le> length raw \<Longrightarrow> length raw < i + k \<Longrightarrow> hexbuf_loop k i raw buf = None"
proof (induction k arbitrary: i buf)
  case (Suc k)
  then show ?case
    by (cases "i < length raw") (auto simp: peek_def poke_def)
qed simp

lemma print_hex_overrun:
  "input_slot_wf inp \<Longrightarrow> 15 < unat (in_len inp) \<Longrightarrow> print_hex junk inp = None"
  by (simp add: print_hex_def hexbuf_loop_short slot_defs)

section \<open>What a cohort prints\<close>

text \<open>\<open>separated sep xs\<close>: the pieces with \<open>sep\<close> in front of every one but the first.\<close>

fun separated :: "byte list \<Rightarrow> byte list list \<Rightarrow> byte list list" where
  "separated sep [] = []"
| "separated sep (x # xs) = x # map ((@) sep) xs"

definition output_json :: "worker_output \<Rightarrow> byte list" where
  "output_json w =
     bytes_of ''{ \"status\": { \"value\": '' @ dec_digits (unat (wo_status w)) @
       bytes_of '', \"name\": \"'' @ bytes_of (status2str (wo_status w)) @
       bytes_of ''\" }, \"ndecoded\": '' @ dec_digits (unat (wo_ndecoded w)) @
       bytes_of '', \"workerno\": '' @ dec_digits (unat (wo_workerno w)) @
       bytes_of '', \"worker_so\": \"'' @ c_string (ms_string (wo_workerso w)) @
       bytes_of ''\",\"len\": '' @ dec_digits (unat (ms_len (wo_result w))) @
       bytes_of '', \"result\": \"'' @ escaped (c_string (ms_string (wo_result w))) @
       bytes_of ''\" }''"

definition cohort_json :: "cohort_results \<Rightarrow> byte list" where
  "cohort_json r =
     bytes_of ''{ \"nworkers\": '' @ dec_digits (unat (cr_nworkers r)) @
       bytes_of '', \"input\": \"'' @ hex_of_bytes (insn_bytes (cr_input r)) @
       bytes_of ''\", \"outputs\": ['' @
       concat (separated (bytes_of '','') (map output_json (cr_outputs r))) @ bytes_of '']}''"

lemma print_output_json:
  "0 \<in> set (ms_string (wo_result w)) \<Longrightarrow> print_output junk w = Some (output_json w)"
  using json_escape_string_escaped [of "ms_string (wo_result w)" junk]
  by (auto simp: print_output_def output_json_def)

lemma print_outputs_json:
  "\<forall>w \<in> set ws. 0 \<in> set (ms_string (wo_result w)) \<Longrightarrow> print_outputs junk i ws =
    Some (concat (if i = 0 then separated (bytes_of '','') (map output_json ws)
                  else map ((@) (bytes_of '','') \<circ> output_json) ws))"
  by (induction junk i ws rule: print_outputs.induct) (auto simp: print_output_json)

lemma m_cohort_print_json_ok:
  "input_slot_ok (cr_input r) \<Longrightarrow> \<forall>w \<in> set (cr_outputs r). 0 \<in> set (ms_string (wo_result w)) \<Longrightarrow>
   m_cohort_print_json junk r = Some (cohort_json r)"
  by (simp add: m_cohort_print_json_def print_hex_ok print_outputs_json cohort_json_def)

lemma cohort_view_printable:
  "cohort_ok c \<Longrightarrow> w \<in> set (cr_outputs (cohort_view j c)) \<Longrightarrow> 0 \<in> set (ms_string (wo_result w))"
  by (auto simp: cohort_view_def record_view_def string_view_def split: prod.splits dest!: set_zip_rightD
      elim!: in_set_zipE)

lemma cohort_view_prints:
  "cohort_ok c \<Longrightarrow> input_slot_ok (fst c) \<Longrightarrow>
   m_cohort_print_json junk (cohort_view j c) = Some (cohort_json (cohort_view j c))"
  using cohort_view_printable
  by (intro m_cohort_print_json_ok) (auto simp: cohort_view_def split: prod.splits)

section \<open>A whole stream\<close>

lemma print_jsonl_loop_stream:
  assumes "\<forall>c \<in> set cs. cohort_ok c \<and> input_slot_ok (fst c)"
    and "conv_wf st" and "\<not> m_finished_parsing st" and "unread st = concat (map cohort_image cs)"
  shows "\<exists>st'. print_jsonl_loop junk st =
    Some (concat (map (\<lambda>c. cohort_json (cohort_view (malloc_junk st) c) @ [10]) cs), st')"
  using assms
proof (induction cs arbitrary: st)
  case Nil
  then obtain st' where "read_next st = Some (False, st')"
    using read_next_eof [of st] by auto
  then show ?case
    by (subst print_jsonl_loop.simps) simp
next
  case (Cons c cs)
  define st1 where "st1 = st\<lparr>unread := concat (map cohort_image cs),
    results := cohort_view (malloc_junk st) c\<rparr>"
  have 1: "read_next st = Some (True, st1)"
    using read_next_reads [of c st "concat (map cohort_image cs)"] Cons.prems
    by (simp add: st1_def)
  have 2: "conv_wf st1" "\<not> m_finished_parsing st1"
    using Cons.prems read_next_consumes(5) [OF 1] by (auto simp: st1_def)
  obtain st' where "print_jsonl_loop junk st1 =
      Some (concat (map (\<lambda>c. cohort_json (cohort_view (malloc_junk st) c) @ [10]) cs), st')"
    using Cons.IH [of st1] Cons.prems(1) 2 by (auto simp: st1_def)
  moreover have "m_cohort_print_json junk (results st1) =
      Some (cohort_json (cohort_view (malloc_junk st) c))"
    using cohort_view_prints [of c] Cons.prems(1) by (simp add: st1_def)
  ultimately show ?case
    by (subst print_jsonl_loop.simps) (simp add: 1)
qed

lemma print_json_loop_stream:
  assumes "\<forall>c \<in> set cs. cohort_ok c \<and> input_slot_ok (fst c)"
    and "conv_wf st" and "\<not> m_finished_parsing st" and "unread st = concat (map cohort_image cs)"
  shows "\<exists>st'. print_json_loop junk first st =
    Some (concat (let items = map (\<lambda>c. cohort_json (cohort_view (malloc_junk st) c) @ [10]) cs in
      if first then separated (bytes_of '','') items else map ((@) (bytes_of '','')) items), st')"
  using assms
proof (induction cs arbitrary: st first)
  case Nil
  then obtain st' where "read_next st = Some (False, st')"
    using read_next_eof [of st] by auto
  then show ?case
    by (subst print_json_loop.simps) simp
next
  case (Cons c cs)
  define st1 where "st1 = st\<lparr>unread := concat (map cohort_image cs),
    results := cohort_view (malloc_junk st) c\<rparr>"
  have 1: "read_next st = Some (True, st1)"
    using read_next_reads [of c st "concat (map cohort_image cs)"] Cons.prems
    by (simp add: st1_def)
  have 2: "conv_wf st1" "\<not> m_finished_parsing st1"
    using Cons.prems read_next_consumes(5) [OF 1] by (auto simp: st1_def)
  obtain st' where "print_json_loop junk False st1 = Some (concat (map ((@) (bytes_of '',''))
      (map (\<lambda>c. cohort_json (cohort_view (malloc_junk st) c) @ [10]) cs)), st')"
    using Cons.IH [of st1 False] Cons.prems(1) 2 by (auto simp: st1_def Let_def)
  moreover have "m_cohort_print_json junk (results st1) =
      Some (cohort_json (cohort_view (malloc_junk st) c))"
    using cohort_view_prints [of c] Cons.prems(1) by (simp add: st1_def)
  ultimately show ?case
    using 2 by (subst print_json_loop.simps) (auto simp: 1 Let_def)
qed

section \<open>Properties\<close>

text \<open>C32: Escaping stays inside its buffer and is exact. On every terminated string the allocation of
  six bytes per character and one more suffices, the extra NUL that \<open>sprintf\<close> writes included, and
  a JSON reader that scans the result up to the closing quote gets back exactly the characters
  before the terminator, whatever follows.\<close>

theorem escape_is_exact:
  assumes "0 \<in> set input"
  shows "\<exists>out. json_escape_string junk input = Some out \<and>
    length out = 6 * length (c_string input) + 1 \<and>
    scan_string (c_string out @ 34 # rest) = Some (c_string input, rest)"
  using json_escape_string_escaped [OF assms, of junk] scan_string_escaped by auto

theorem escape_is_exact_witness:
  "\<exists>out. json_escape_string (\<lambda>_. 0xff) [34, 1, 65, 92, 0, 7] = Some out \<and>
    length out = 25 \<and> scan_string (c_string out @ 34 # [44]) = Some ([34, 1, 65, 92], [44])"
proof -
  have "c_string [34, 1, 65, 92, 0, 7] = [34, 1, 65, 92]"
    by code_simp
  then show ?thesis
    using escape_is_exact [of "[34, 1, 65, 92, 0, 7]" "\<lambda>_. 0xff" "[44]"] by simp
qed

text \<open>The hexadecimal buffer of 31 bytes holds the input exactly when the recorded length is at
  most 15; then what is printed is two lower-case digits per instruction byte, otherwise the loop
  runs out of its buffers.\<close>

theorem hexbuf_bounds:
  assumes "input_slot_wf inp"
  shows "print_hex junk inp =
    (if unat (in_len inp) \<le> MISHEGOS_INSN_MAXLEN then Some (hex_of_bytes (insn_bytes inp)) else None)"
  using print_hex_ok [of inp junk] print_hex_overrun [of inp junk] assms by (auto simp: slot_defs)

theorem hexbuf_bounds_witness:
  "print_hex (\<lambda>_. 7) (zero_input_slot\<lparr>in_len := 1\<rparr>) = Some (hex_of_bytes [0]) \<and>
   print_hex (\<lambda>_. 7) (zero_input_slot\<lparr>in_len := 16\<rparr>) = None"
  using hexbuf_bounds [of "zero_input_slot\<lparr>in_len := 1\<rparr>" "\<lambda>_. 7"]
    hexbuf_bounds [of "zero_input_slot\<lparr>in_len := 16\<rparr>" "\<lambda>_. 7"]
  by (simp add: slot_defs zero_input_slot_def insn_bytes_def)

text \<open>The whole conversion to JSON lines ends on every stream of written cohorts and prints one
  line per cohort, in order: the object with the number of workers, the input in hexadecimal and
  one output object per worker with status value and name, decoded length, length and the escaped
  result.\<close>

theorem jsonl_prints_every_cohort:
  assumes "\<forall>c \<in> set cs. cohort_ok c \<and> input_slot_ok (fst c)"
    and "conv_wf st" and "unread st = concat (map cohort_image cs)"
  shows "\<exists>st'. m_print_results_jsonl junk st =
    Some (concat (map (\<lambda>c. cohort_json (cohort_view (malloc_junk st) c) @ [10]) cs), st')"
proof -
  let ?st = "st\<lparr>m_finished_parsing := False\<rparr>"
  have "\<exists>st'. print_jsonl_loop junk ?st =
      Some (concat (map (\<lambda>c. cohort_json (cohort_view (malloc_junk ?st) c) @ [10]) cs), st')"
    using assms by (intro print_jsonl_loop_stream) (auto simp: conv_wf_def)
  then show ?thesis
    by (simp add: m_print_results_jsonl_def)
qed

theorem jsonl_prints_every_cohort_witness:
  "\<exists>st' line. m_print_results_jsonl (\<lambda>_. 7)
     (sample_conv\<lparr>unread := concat (map cohort_image [(zero_input_slot, [([97], zero_output_slot)])])\<rparr>) =
     Some (line @ [10], st')"
  using jsonl_prints_every_cohort [of "[(zero_input_slot, [([97], zero_output_slot)])]"
      "sample_conv\<lparr>unread := concat (map cohort_image [(zero_input_slot, [([97], zero_output_slot)])])\<rparr>"
      "\<lambda>_. 7"]
  by (auto simp: cohort_ok_def record_ok_def input_slot_ok_wf)

text \<open>With \<open>-n\<close> the same objects come as one JSON array: an opening bracket, the objects with a
  comma in front of every one but the first, a closing bracket.\<close>

theorem json_prints_an_array:
  assumes "\<forall>c \<in> set cs. cohort_ok c \<and> input_slot_ok (fst c)"
    and "conv_wf st" and "unread st = concat (map cohort_image cs)"
  shows "\<exists>st'. m_print_results_json junk st = Some (bytes_of ''['' @
      concat (separated (bytes_of '','')
        (map (\<lambda>c. cohort_json (cohort_view (malloc_junk st) c) @ [10]) cs)) @ bytes_of '']'', st')"
proof -
  let ?st = "st\<lparr>m_finished_parsing := False\<rparr>"
  have "\<exists>st'. print_json_loop junk True ?st = Some (concat
      (let items = map (\<lambda>c. cohort_json (cohort_view (malloc_junk ?st) c) @ [10]) cs in
       if True then separated (bytes_of '','') items else map ((@) (bytes_of '','')) items), st')"
    using assms by (intro print_json_loop_stream) (auto simp: conv_wf_def)
  then show ?thesis
    by (auto simp: m_print_results_json_def Let_def)
qed

theorem json_prints_an_array_witness:
  "\<exists>st'. m_print_results_json (\<lambda>_. 7) sample_conv = Some (bytes_of ''[]'', st')"
  using json_prints_an_array [of "[]" sample_conv "\<lambda>_. 7"]
  by (simp add: sample_conv_def conv_wf_def input_slot_ok_wf bytes_of_def)

end
