(* ===== verification/Command_Line.thy ===== *)
theory Command_Line
  imports Worker_Config Converter_Json
begin

text \<open>
  The command line of the fuzzer (the option loop of \<open>main\<close> in src/mishegos/mishegos.c): the options
  that \<open>getopt\<close> returns are folded into the settings, \<open>-s\<close> with \<open>strtol\<close>. A C string is the list
  of its bytes without the NUL.
\<close>

section \<open>\<open>strtol\<close> with base 0\<close>

definition c_isspace :: "byte \<Rightarrow> bool" where
  "c_isspace c \<longleftrightarrow> c = 32 \<or> 9 \<le> c \<and> c \<le> 13"

definition digit_value :: "byte \<Rightarrow> nat option" where
  "digit_value c =
     (if 48 \<le> c \<and> c \<le> 57 then Some (unat c - 48)
      else if 97 \<le> c \<and> c \<le> 122 then Some (unat c - 87)
      else if 65 \<le> c \<and> c \<le> 90 then Some (unat c - 55)
      else None)"

definition is_digit :: "nat \<Rightarrow> byte \<Rightarrow> bool" where
  "is_digit base c \<longleftrightarrow> (case digit_value c of None \<Rightarrow> False | Some d \<Rightarrow> d < base)"

definition digits_value :: "nat \<Rightarrow> byte list \<Rightarrow> nat" where
  "digits_value base ds = foldl (\<lambda>v c. v * base + the (digit_value c)) 0 ds"

text \<open>The base a number's prefix chooses, and what of the number is left to read.\<close>

definition number_base :: "byte list \<Rightarrow> nat \<times> byte list" where
  "number_base s =
     (case s of
        z # x # c # rest \<Rightarrow>
          if z = 48 \<and> (x = 120 \<or> x = 88) \<and> is_digit 16 c then (16, c # rest)
          else (if z = 48 then 8 else 10, s)
      | z # rest \<Rightarrow> (if z = 48 then 8 else 10, s)
      | [] \<Rightarrow> (10, s))"

definition clamp_long :: "int \<Rightarrow> int" where
  "clamp_long v = (if v < - (2 ^ 63) then - (2 ^ 63) else if v > 2 ^ 63 - 1 then 2 ^ 63 - 1 else v)"

definition c_strtol :: "byte list \<Rightarrow> int \<times> byte list" where
  "c_strtol s =
     (let t = dropWhile c_isspace s;
          neg = (t \<noteq> [] \<and> hd t = 45);
          t = (if t \<noteq> [] \<and> (hd t = 45 \<or> hd t = 43) then tl t else t);
          (base, t) = number_base t;
          ds = takeWhile (is_digit base) t;
          v = int (digits_value base ds)
      in if ds = [] then (0, s)
         else (clamp_long (if neg then - v else v), drop (length ds) t))"

section \<open>The options\<close>

text \<open>What \<open>getopt\<close> returns, in order; \<open>Opt_other\<close> is \<open>-h\<close> or anything it rejects.\<close>

datatype getopt_result = Opt_t | Opt_m string | Opt_s "byte list" | Opt_n | Opt_other

datatype option_error = Usage_Error | Bad_Success_Range | Worker_File_Expected

record options =
  opt_thread_mode :: bool
  opt_mutator_name :: "string option"
  opt_filter :: filter_config

definition default_options :: options where
  "default_options = \<lparr>opt_thread_mode = False, opt_mutator_name = None, opt_filter = default_filter\<rparr>"

text \<open>A \<open>long\<close> assigned to an \<open>int\<close>.\<close>

definition to_c_int :: "int \<Rightarrow> int" where
  "to_c_int v = signed_take_bit 31 v"

definition success_range :: "byte list \<Rightarrow> filter_config \<Rightarrow> option_error + filter_config" where
  "success_range optarg cfg =
     (let (v, rest) = c_strtol optarg;
          cfg = cfg\<lparr>filter_min_success := to_c_int v\<rparr>;
          (cfg, rest) =
            (if rest \<noteq> [] \<and> hd rest = 58 then
               (let (v, rest) = c_strtol (tl rest) in (cfg\<lparr>filter_max_success := to_c_int v\<rparr>, rest))
             else (cfg, rest))
      in if rest \<noteq> [] then Inl Bad_Success_Range else Inr cfg)"

fun parse_options :: "getopt_result list \<Rightarrow> options \<Rightarrow> option_error + options" where
  "parse_options [] opts = Inr opts"
| "parse_options (Opt_t # rs) opts = parse_options rs (opts\<lparr>opt_thread_mode := True\<rparr>)"
| "parse_options (Opt_m name # rs) opts = parse_options rs (opts\<lparr>opt_mutator_name := Some name\<rparr>)"
| "parse_options (Opt_s arg # rs) opts =
     (case success_range arg (opt_filter opts) of
        Inl e \<Rightarrow> Inl e
      | Inr cfg \<Rightarrow> parse_options rs (opts\<lparr>opt_filter := cfg\<rparr>))"
| "parse_options (Opt_n # rs) opts =
     parse_options rs (opts\<lparr>opt_filter := (opt_filter opts)\<lparr>filter_ndecoded_same := True\<rparr>\<rparr>)"
| "parse_options (Opt_other # rs) opts = Inl Usage_Error"

text \<open>After the loop exactly one argument must be left: the worker file.\<close>

definition main_options :: "getopt_result list \<Rightarrow> byte list list \<Rightarrow> option_error + options \<times> byte list" where
  "main_options rs args =
     (case parse_options rs default_options of
        Inl e \<Rightarrow> Inl e
      | Inr opts \<Rightarrow> (case args of [wfile] \<Rightarrow> Inr (opts, wfile) | _ \<Rightarrow> Inl Worker_File_Expected))"

section \<open>Start-up\<close>

text \<open>
  The rest of \<open>main\<close> before its loop: the signal handler, which thread mode does without, the mutator,
  the worker file, the bounds of the filter, which are resolved with the number of workers. Whether
  \<open>sigaction\<close> succeeds, opening a file, \<open>access\<close> and \<open>fork\<close> are the operating system.
\<close>

datatype start_error =
  Option_Error option_error | Sigaction_Error | Mutator_Error string | Open_Error "byte list" | Worker_Error "byte list"

record start_state =
  thread_mode :: bool
  start_mutator :: mutator_kind
  start_env :: mutator_state
  start_workers :: "worker_config list"
  start_filter :: filter_config

definition main_start :: "rng \<Rightarrow> mutator_state \<Rightarrow> bool \<Rightarrow> (byte list \<Rightarrow> byte list option) \<Rightarrow> (byte list \<Rightarrow> bool) \<Rightarrow>
    (nat \<Rightarrow> int) \<Rightarrow> getopt_result list \<Rightarrow> byte list list \<Rightarrow> start_error + start_state" where
  "main_start seed e sigaction fopen access fork rs args =
     (case main_options rs args of
        Inl err \<Rightarrow> Inl (Option_Error err)
      | Inr (opts, wfile) \<Rightarrow>
     if \<not> opt_thread_mode opts \<and> \<not> sigaction then Inl Sigaction_Error else
     (case mutator_create seed (opt_mutator_name opts) e of
        (Inl msg, e) \<Rightarrow> Inl (Mutator_Error msg)
      | (Inr kind, e) \<Rightarrow>
     (case fopen wfile of
        None \<Rightarrow> Inl (Open_Error wfile)
      | Some content \<Rightarrow>
     (case load_workers access fork [] content of
        Inl line \<Rightarrow> Inl (Worker_Error line)
      | Inr workers \<Rightarrow>
          Inr \<lparr>thread_mode = opt_thread_mode opts, start_mutator = kind, start_env = e,
            start_workers = workers,
            start_filter = resolve_filter (length workers) (opt_filter opts)\<rparr>))))"

section \<open>Reading back decimal numbers\<close>

text \<open>A number as a user writes it, or \<open>printf\<close> with \<open>%d\<close>.\<close>

definition int_text :: "int \<Rightarrow> byte list" where
  "int_text z = (if z < 0 then 45 # dec_digits (nat (- z)) else dec_digits (nat z))"

definition decimal_char :: "byte \<Rightarrow> bool" where
  "decimal_char c \<longleftrightarrow> 48 \<le> c \<and> c \<le> 57"

lemma decimal_digit:
  "d < 10 \<Longrightarrow> decimal_char (of_nat (48 + d)) \<and> digit_value (of_nat (48 + d)) = Some d"
proof -
  assume "d < 10"
  then have "d \<in> {0, 1, 2, 3, 4, 5, 6, 7, 8, 9}"
    by auto
  then show ?thesis
    by (auto simp: decimal_char_def digit_value_def)
qed

lemma decimal_char_digit:
  "decimal_char c \<Longrightarrow> is_digit 10 c \<and> \<not> c_isspace c \<and> c \<noteq> 45 \<and> c \<noteq> 43 \<and> c \<noteq> 120 \<and> c \<noteq> 88"
proof -
  assume c: "decimal_char c"
  then have "48 \<le> unat c" "unat c \<le> 57"
    by (simp_all add: decimal_char_def word_le_nat_alt)
  then show ?thesis
    by (auto simp: is_digit_def digit_value_def c_isspace_def word_le_nat_alt)
qed

lemma dec_digits_chars: "c \<in> set (dec_digits n) \<Longrightarrow> decimal_char c"
proof (induction n rule: dec_digits.induct)
  case (1 n)
  then show ?case
    using decimal_digit [of n] decimal_digit [of "n mod 10"]
    by (subst (asm) dec_digits.simps) (auto split: if_splits)
qed

lemma dec_digits_not_Nil [simp]: "dec_digits n \<noteq> []"
  by (subst dec_digits.simps) simp

lemma hd_dec_digits: "n \<noteq> 0 \<Longrightarrow> hd (dec_digits n) \<noteq> 48"
proof (induction n rule: dec_digits.induct)
  case (1 n)
  show ?case
  proof (cases "n < 10")
    case True
    then have "n \<in> {1, 2, 3, 4, 5, 6, 7, 8, 9}"
      using 1 by auto
    then show ?thesis
      by (subst dec_digits.simps) auto
  next
    case False
    then show ?thesis
      using 1 by (subst dec_digits.simps) simp
  qed
qed

lemma digits_value_append:
  "digits_value b (xs @ [c]) = digits_value b xs * b + the (digit_value c)"
  by (simp add: digits_value_def)

lemma digits_value_dec_digits: "digits_value 10 (dec_digits n) = n"
proof (induction n rule: dec_digits.induct)
  case (1 n)
  show ?case
  proof (cases "n < 10")
    case True
    then show ?thesis
      using decimal_digit [of n] by (subst dec_digits.simps) (simp add: digits_value_def)
  next
    case False
    then show ?thesis
      using 1 decimal_digit [of "n mod 10"] by (subst dec_digits.simps) (simp add: digits_value_append)
  qed
qed

text \<open>The number ends at the end of the argument or at the colon.\<close>

definition bound_ends :: "byte list \<Rightarrow> bool" where
  "bound_ends rest \<longleftrightarrow> rest = [] \<or> hd rest = 58"

lemma colon_no_digit [simp]: "\<not> is_digit b 58" "\<not> c_isspace 58"
  by (simp_all add: is_digit_def digit_value_def c_isspace_def)

lemma number_base_other: "s \<noteq> [] \<Longrightarrow> hd s \<noteq> 48 \<Longrightarrow> number_base s = (10, s)"
  by (auto simp: number_base_def split: list.split)

lemma number_base_dec_digits:
  assumes "bound_ends rest"
  shows "\<exists>b. number_base (dec_digits n @ rest) = (b, dec_digits n @ rest) \<and>
    takeWhile (is_digit b) (dec_digits n @ rest) = dec_digits n \<and> digits_value b (dec_digits n) = n"
proof (cases "n = 0")
  case True
  then show ?thesis
    using assms
    by (cases rest; cases "tl rest")
      (auto simp: dec_digits.simps [of 0] number_base_def bound_ends_def is_digit_def digit_value_def digits_value_def)
next
  case False
  have "hd (dec_digits n @ rest) \<noteq> 48"
    using hd_dec_digits [OF False] by simp
  then have "number_base (dec_digits n @ rest) = (10, dec_digits n @ rest)"
    using number_base_other [of "dec_digits n @ rest"] by simp
  moreover have "takeWhile (is_digit 10) (dec_digits n @ rest) = dec_digits n"
  proof -
    have "\<forall>c \<in> set (dec_digits n). is_digit 10 c"
      using dec_digits_chars decimal_char_digit by blast
    then show ?thesis
      using assms by (cases rest) (auto simp: bound_ends_def takeWhile_append)
  qed
  ultimately show ?thesis
    using digits_value_dec_digits by auto
qed

lemma strtol_digits:
  assumes "bound_ends rest"
  shows "c_strtol (dec_digits n @ rest) = (clamp_long (int n), rest)"
    and "c_strtol (45 # dec_digits n @ rest) = (clamp_long (- int n), rest)"
proof -
  obtain c cs where cs: "dec_digits n = c # cs"
    by (cases "dec_digits n") auto
  have "decimal_char c"
    using dec_digits_chars [of c n] cs by simp
  note c = decimal_char_digit [OF this]
  obtain b where b: "number_base (dec_digits n @ rest) = (b, dec_digits n @ rest)"
      "takeWhile (is_digit b) (dec_digits n @ rest) = dec_digits n" "digits_value b (dec_digits n) = n"
    using number_base_dec_digits [OF assms] by blast
  show "c_strtol (dec_digits n @ rest) = (clamp_long (int n), rest)"
    using b c by (simp add: c_strtol_def Let_def cs)
  show "c_strtol (45 # dec_digits n @ rest) = (clamp_long (- int n), rest)"
    using b c by (simp add: c_strtol_def Let_def cs c_isspace_def)
qed

definition c_int :: "int \<Rightarrow> bool" where
  "c_int z \<longleftrightarrow> - (2 ^ 31) \<le> z \<and> z < 2 ^ 31"

lemma to_c_int_id: "c_int z \<Longrightarrow> to_c_int z = z"
  by (simp add: c_int_def to_c_int_def signed_take_bit_int_eq_self)

lemma strtol_int_text:
  "c_int z \<Longrightarrow> bound_ends rest \<Longrightarrow> c_strtol (int_text z @ rest) = (z, rest)"
  using strtol_digits [of rest "nat z"] strtol_digits [of rest "nat (- z)"]
  by (auto simp: int_text_def c_int_def clamp_long_def)

text \<open>Without a digit nothing is read, and the value is 0.\<close>

lemma strtol_none: "s = [] \<or> hd s = 58 \<Longrightarrow> c_strtol s = (0, s)"
  by (cases s; cases "tl s"; cases "tl (tl s)") (auto simp: c_strtol_def number_base_def Let_def)

lemma success_range_two:
  "c_int a \<Longrightarrow> c_int b \<Longrightarrow> success_range (int_text a @ 58 # int_text b) cfg =
     Inr (cfg\<lparr>filter_min_success := a, filter_max_success := b\<rparr>)"
  using strtol_int_text [of a "58 # int_text b"] strtol_int_text [of b "[]"]
  by (simp add: success_range_def bound_ends_def Let_def to_c_int_id)

lemma success_range_one:
  "c_int a \<Longrightarrow> success_range (int_text a) cfg = Inr (cfg\<lparr>filter_min_success := a\<rparr>)"
  using strtol_int_text [of a "[]"] by (simp add: success_range_def bound_ends_def Let_def to_c_int_id)

lemma success_range_open:
  "c_int a \<Longrightarrow> success_range (int_text a @ [58]) cfg =
     Inr (cfg\<lparr>filter_min_success := a, filter_max_success := 0\<rparr>)"
  using strtol_int_text [of a "[58]"] strtol_none [of "[]"] to_c_int_id [of 0]
  by (simp add: success_range_def bound_ends_def Let_def to_c_int_id c_int_def)

section \<open>Options in sequence\<close>

lemma parse_options_append:
  "parse_options (rs @ rs') opts =
     (case parse_options rs opts of Inl e \<Rightarrow> Inl e | Inr opts \<Rightarrow> parse_options rs' opts)"
  by (induction rs opts rule: parse_options.induct) (simp_all split: sum.split)

text \<open>A bound relative to the number of workers.\<close>

definition bound_for :: "nat \<Rightarrow> int \<Rightarrow> int" where
  "bound_for n z = (if z < 0 then int n + 1 + z else z)"

lemma resolve_filter_bounds:
  "resolve_filter n cfg = cfg\<lparr>filter_min_success := bound_for n (filter_min_success cfg),
     filter_max_success := bound_for n (filter_max_success cfg)\<rparr>"
  by (simp add: resolve_filter_def bound_for_def Let_def)

section \<open>Properties\<close>

text \<open>C9: What the command line selects. After any accepted options, \<open>-s min:max\<close> with decimal bounds
  of 32 bits, an installed signal handler (process mode), a readable worker file and a known mutator, the program starts with exactly the
  workers the file lists, and keeps a sample exactly if its number of successes is between the
  bounds, each counted from the number of workers plus one if it is negative, or if \<open>-n\<close> was
  given and the decoded lengths differ. With \<open>-s min:\<close> the missing bound is accepted as 0; with
  \<open>-s min\<close> the upper bound of the earlier options stays.\<close>

theorem command_line_selects:
  assumes "parse_options rs default_options = Inr opts" and "c_int a" and "c_int b"
    and "mutator_create seed (opt_mutator_name opts) e = (Inr kind, e')"
    and "opt_thread_mode opts \<or> sigaction"
    and "fopen wfile = Some content" and "load_workers access fork [] content = Inr ws"
    and "(arg, lo, hi) \<in> {(int_text a @ 58 # int_text b, a, b), (int_text a @ [58], a, 0),
      (int_text a, a, filter_max_success (opt_filter opts))}"
  shows "\<exists>st. main_start seed e sigaction fopen access fork (rs @ [Opt_s arg]) [wfile] = Inr st \<and>
    thread_mode st = opt_thread_mode opts \<and> start_mutator st = kind \<and> start_workers st = ws \<and>
    (\<forall>outs. keep_sample (start_filter st) outs \<longleftrightarrow>
       bound_for (length ws) lo \<le> int (length (successes outs)) \<and>
       int (length (successes outs)) \<le> bound_for (length ws) hi
     \<or> filter_ndecoded_same (opt_filter opts) \<and> \<not> ndecoded_agree outs)"
proof -
  have "success_range arg (opt_filter opts) =
      Inr ((opt_filter opts)\<lparr>filter_min_success := lo, filter_max_success := hi\<rparr>)"
    using assms(8) success_range_two [OF assms(2,3)] success_range_open [OF assms(2)]
      success_range_one [OF assms(2)] by auto
  then show ?thesis
    using assms(1,4-7)
    by (auto simp: main_start_def main_options_def parse_options_append resolve_filter_bounds keep_sample_iff)
qed

theorem command_line_selects_witness:
  "\<exists>st. main_start (rng_state sample_mutator) sample_mutator True (\<lambda>p. Some [97, 10]) (\<lambda>_. True) int
      [Opt_n, Opt_m ''havoc'', Opt_s [45, 50, 58, 51]] [[119]] = Inr st \<and> start_mutator st = Havoc \<and>
    (\<forall>outs. keep_sample (start_filter st) outs \<longleftrightarrow>
      length (successes outs) \<le> 3 \<or> \<not> ndecoded_agree outs)"
proof -
  let ?opts = "default_options\<lparr>opt_mutator_name := Some ''havoc'',
    opt_filter := default_filter\<lparr>filter_ndecoded_same := True\<rparr>\<rparr>"
  have 1: "int_text (- 2) = [45, 50]" "int_text 3 = [51]"
    by (simp_all add: int_text_def dec_digits.simps)
  have 2: "load_workers (\<lambda>_. True) int [] [97, 10] = Inr [worker_entry int 0 [97]]"
    by (simp add: load_workers.simps getline_def hit_feof_def chomp_eq)
  have 3: "parse_options [Opt_n, Opt_m ''havoc''] default_options = Inr ?opts"
    by (simp add: default_options_def)
  have 4: "mutator_create (rng_state sample_mutator) (opt_mutator_name ?opts) sample_mutator = (Inr Havoc, sample_mutator)"
    by (simp add: mutator_create_def)
  have "\<exists>st. main_start (rng_state sample_mutator) sample_mutator True (\<lambda>p. Some [97, 10]) (\<lambda>_. True) int
      ([Opt_n, Opt_m ''havoc''] @ [Opt_s [45, 50, 58, 51]]) [[119]] = Inr st \<and>
      thread_mode st = opt_thread_mode ?opts \<and> start_mutator st = Havoc \<and> start_workers st = [worker_entry int 0 [97]] \<and>
      (\<forall>outs. keep_sample (start_filter st) outs \<longleftrightarrow>
         bound_for (length [worker_entry int 0 [97]]) (- 2) \<le> int (length (successes outs)) \<and>
         int (length (successes outs)) \<le> bound_for (length [worker_entry int 0 [97]]) 3
       \<or> filter_ndecoded_same (opt_filter ?opts) \<and> \<not> ndecoded_agree outs)"
    using 1 by (intro command_line_selects [where a = "- 2" and b = 3, OF 3 _ _ 4 _ _ 2]) (simp_all add: c_int_def)
  then show ?thesis
    by (fastforce simp: bound_for_def)
qed

end
