(* ===== verification/Adapter_Properties.thy ===== *)
theory Adapter_Properties
  imports Adapter_Contracts
begin

text \<open>
  The properties of the worker adapters and of the Ghidra worker, with a small library that
  meets its contract as their common instance.
\<close>

section \<open>An instance\<close>

definition nop_llvm :: llvm_lib where
  "nop_llvm = \<lparr>LLVMDisasmInstruction = \<lambda>raw len pc n.
     if n \<ge> 4 \<and> hd raw = 0x90 then (1, bytes_of ''nop'' @ [0]) else (0, [])\<rparr>"

lemma nop_llvm_ok: "llvm_ok nop_llvm"
  by (auto simp: llvm_ok_def nop_llvm_def text_within_def)

definition nop_sleigh :: "nat sleigh_lib" where
  "nop_sleigh = \<lparr>sleigh_parse = \<lambda>buf addr. if hd buf = 0x90 then Some 1 else None,
     sleigh_handles = Some, sleigh_length = of_nat,
     printMnemonic = \<lambda>t. Some (bytes_of ''NOP''), printBody = \<lambda>t. Some []\<rparr>"

text \<open>A body of 298 characters, which does not fit.\<close>

definition long_sleigh :: "nat sleigh_lib" where
  "long_sleigh = nop_sleigh\<lparr>printMnemonic := \<lambda>t. Some [65], printBody := \<lambda>t. Some (replicate 298 65)\<rparr>"

definition nop_ghidra :: "nat ghidra_state" where
  "nop_ghidra = \<lparr>g_loader = \<lparr>baseaddr = START_ADDRESS, img_length = 0, img_data = []\<rparr>,
     g_pos = \<lparr>pos_addr = 0, pos_state = uninitialized, pos_buffer = replicate 16 0, pos_tree = 0\<rparr>\<rparr>"

lemma nop_ghidra_inv: "ghidra_inv nop_ghidra"
  by (simp add: ghidra_inv_def nop_ghidra_def)

definition nop_insn :: "byte list" where
  "nop_insn = 0x90 # replicate 14 0"

lemma nop_given: "insn_given nop_insn 1"
  by (simp add: insn_given_def nop_insn_def)

lemma long_line: "ghidra_line long_sleigh nop_insn 1 = Some (65 # 32 # replicate 298 65 @ [10])"
proof -
  have "c_string (replicate 298 65) = replicate 298 65"
    by (simp add: c_string_def takeWhile_eq_all_conv)
  moreover have "sleigh_parse nop_sleigh (padded_input nop_insn 1) START_ADDRESS = Some 1"
    by (simp add: nop_sleigh_def padded_input_def nop_insn_def)
  ultimately show ?thesis
    by (simp add: ghidra_line_def long_sleigh_def c_string_def)
qed

section \<open>Properties\<close>

text \<open>C13: Every worker written in C or C++ keeps the contract of \<open>try_decode\<close> as far as its library
  lets it. On any instruction of 1 to 15 bytes, from any slot with a length within its buffer: when
  the text fits the buffer, the call returns, makes no access outside its buffers, leaves a slot
  whose length fits its buffer and reports success, failure or a partial instruction, the latter
  only from fadec, xed and zydis; except for bfd, a call that does not succeed leaves both lengths
  as it found them. For seven of the nine workers the text always fits, because the library keeps
  to the size it is given (or, for capstone, has fields of fixed size). For the other two nothing
  guarantees it, and the contract fails when it does not: bfd then leaves its buffers, and Ghidra
  reports success with the full length of the line, whatever has been cut.\<close>

theorem adapters_keep_slots:
  assumes "so_ok so" and "output_slot_ok r" and "insn_given raw n"
  shows "if so_fits so raw n
    then \<exists>r' log. so_try_decode debug so r raw n = Some (r', log) \<and> output_slot_ok r' \<and>
      status r' \<in> {S_SUCCESS, S_FAILURE, S_PARTIAL} \<and>
      (status r' = S_PARTIAL \<longrightarrow>
         (\<exists>l. so = Fadec_so l) \<or> (\<exists>l. so = Xed_so l) \<or> (\<exists>l. so = Zydis_so l)) \<and>
      (status r' \<noteq> S_SUCCESS \<longrightarrow>
         (\<exists>l. so = Bfd_so l) \<or> out_len r' = out_len r \<and> ndecoded r' = ndecoded r)
    else (\<exists>lib. so = Bfd_so lib \<and> 248 \<le> length (concat (fst (bfd_disasm lib raw n)))) \<and>
        so_try_decode debug so r raw n = None \<or>
      (\<exists>lib g r' line. so = Ghidra_so (lib, g) \<and> ghidra_line lib raw n = Some line \<and> 248 < length line \<and>
         so_try_decode debug so r raw n = Some (r', []) \<and> status r' = S_SUCCESS \<and>
         out_len r' = of_nat (length line))"
proof (cases "so_fits so raw n")
  case True
  obtain r' log where dec: "so_try_decode debug so r raw n = Some (r', log)" "output_slot_ok r'"
      "status r' \<in> {S_SUCCESS, S_FAILURE, S_PARTIAL}"
    using so.try_decode_SomeE [OF assms(1) True assms(2,3)] by metis
  moreover have "(\<exists>l. so = Fadec_so l) \<or> (\<exists>l. so = Xed_so l) \<or> (\<exists>l. so = Zydis_so l)"
    if "status r' = S_PARTIAL"
    using dec(1) that by (rule so_partial)
  moreover have "(\<exists>l. so = Bfd_so l) \<or> out_len r' = out_len r \<and> ndecoded r' = ndecoded r"
    if "status r' \<noteq> S_SUCCESS"
    using dec(1) that by (rule so_failure_keeps)
  ultimately show ?thesis
    unfolding if_P [OF True] by blast
next
  case False
  then show ?thesis
    using so_overflows [OF assms False, of debug] unfolding if_not_P [OF False] by (auto simp: bfd_fits_def)
qed

theorem adapters_keep_slots_witness:
  "(\<exists>r' log. so_try_decode False (Llvm_so nop_llvm :: (unit, unit) worker_so) zero_output_slot nop_insn 1 =
      Some (r', log) \<and> output_slot_ok r') \<and>
   (\<exists>r'. so_try_decode False (Ghidra_so (long_sleigh, nop_ghidra) :: (nat, unit) worker_so) zero_output_slot
      nop_insn 1 = Some (r', []) \<and> status r' = S_SUCCESS \<and> out_len r' = 301)"
proof
  show "\<exists>r' log. so_try_decode False (Llvm_so nop_llvm :: (unit, unit) worker_so) zero_output_slot nop_insn 1 =
      Some (r', log) \<and> output_slot_ok r'"
    using adapters_keep_slots [of "Llvm_so nop_llvm :: (unit, unit) worker_so" zero_output_slot nop_insn 1 False]
      nop_llvm_ok nop_given by auto
  let ?so = "Ghidra_so (long_sleigh, nop_ghidra) :: (nat, unit) worker_so"
  have "so_ok ?so" "\<not> so_fits ?so nop_insn 1"
    using nop_ghidra_inv by (simp_all add: ghidra_ok_def ghidra_fits_def long_line)
  then show "\<exists>r'. so_try_decode False ?so zero_output_slot nop_insn 1 = Some (r', []) \<and>
      status r' = S_SUCCESS \<and> out_len r' = 301"
    using adapters_keep_slots [of ?so zero_output_slot nop_insn 1 False] nop_given by (auto simp: long_line)
qed

text \<open>C16: The bounds of bfd's line buffer, exactly. Text of up to 246 bytes becomes a line; at 247
  bytes the newline is lost to the terminating NUL, which is counted in its place; from 248 bytes
  on the adapter leaves its buffers. What is beyond the reported length keeps its old bytes.\<close>

theorem bfd_line_bounds:
  assumes "output_slot_wf r" and "bfd_disasm lib raw n = (texts, pc)"
  shows "if length (concat texts) < 248
    then \<exists>r'. bfd_try_decode debug lib r raw n = Some (r', []) \<and>
      unat (out_len r') = length (concat texts) + 1 \<and>
      result r' = overlay (concat texts @ [if length (concat texts) < 247 then 10 else 0]) (result r)
    else bfd_try_decode debug lib r raw n = None"
proof -
  have r: "length (result r) = 248"
    using assms(1) by (simp add: slot_defs)
  let ?t = "concat texts"
  show ?thesis
  proof (cases "length ?t < 248")
    case True
    then have "take (length ?t + 1) (bfd_line ?t @ [0]) = ?t @ [if length ?t < 247 then 10 else 0]"
      by (simp add: bfd_line_def)
    moreover have "unat (of_nat (length ?t + 1) :: u16) = length ?t + 1"
      using True by (intro unat_of_nat_u16) simp
    ultimately show ?thesis
      using bfd_try_decode_fits [OF r assms(2) True, of debug] unfolding if_P [OF True]
      by (intro exI conjI) (assumption | simp)+
  next
    case False
    then show ?thesis
      using bfd_try_decode_overflows [OF r assms(2)] by simp
  qed
qed

theorem bfd_line_bounds_witness:
  "\<exists>r'. bfd_try_decode False \<lparr>bfd_disasm = \<lambda>raw n. ([bytes_of ''nop''], 1)\<rparr> zero_output_slot nop_insn 1 =
     Some (r', []) \<and> unat (out_len r') = 4"
  using bfd_line_bounds [of zero_output_slot "\<lparr>bfd_disasm = \<lambda>raw n. ([bytes_of ''nop''], 1)\<rparr>"
      nop_insn 1 "[bytes_of ''nop'']" 1 False]
  by (auto simp: slot_defs zero_output_slot_def)

text \<open>C17: bfd takes an error for success. The result of libopcodes is stored in an unsigned variable,
  so its error value -1 is not \<open>\<le> 0\<close>: when the library reports an error without printing
  anything, the slot says success, an empty line and 65535 decoded bytes.\<close>

theorem bfd_error_is_success:
  assumes "output_slot_wf r" and "bfd_disasm lib raw n = ([], - 1)"
  shows "bfd_try_decode debug lib r raw n = Some (r\<lparr>status := S_SUCCESS, result := overlay [10] (result r),
    out_len := 1, ndecoded := 65535\<rparr>, [])"
proof -
  have "length (result r) = 248"
    using assms(1) by (simp add: slot_defs)
  moreover have "ucast (- 1 :: u64) = (- 1 :: u16)"
    by (rule bit_word_eqI) (simp add: bit_simps)
  then have "ucast (scast (- 1 :: u32) :: u64) = (65535 :: u16)"
    by (simp add: scast_n1)
  moreover have "c_string (bfd_line []) = [10]"
    by (simp add: bfd_line_def c_string_def)
  moreover have "\<not> sublist (bytes_of ''(bad)'') [10]"
    by (auto simp: sublist_def bytes_of_def Cons_eq_append_conv append_eq_Cons_conv)
  ultimately show ?thesis
    using bfd_try_decode_fits [of r lib raw n "[]" "- 1" debug] assms(2)
    by (simp add: bfd_line_def)
qed

theorem bfd_error_is_success_witness:
  "\<exists>r'. bfd_try_decode False \<lparr>bfd_disasm = \<lambda>raw n. ([], - 1)\<rparr> zero_output_slot nop_insn 1 =
     Some (r', []) \<and> status r' = S_SUCCESS"
  using bfd_error_is_success [of zero_output_slot "\<lparr>bfd_disasm = \<lambda>raw n. ([], - 1)\<rparr>" nop_insn 1 False]
  by (auto simp: slot_defs zero_output_slot_def)


text \<open>What Ghidra's load image delivers. Any range of addresses is filled with the bytes of the
  image's window where it overlaps the window and with zeros elsewhere, across the wrap-around of
  64-bit addresses; what lies behind the requested range keeps its contents, and no byte outside
  the window's data is read.\<close>

theorem load_image_window:
  assumes "0 < unat (img_length img)" and "unat (img_length img) < 2 ^ 31"
    and "unat (img_length img) \<le> length (img_data img)"
    and "unat (baseaddr img) + unat (img_length img) \<le> 2 ^ 64" and "n \<le> length ptr"
  shows "\<exists>buf. loadFill img ptr n addr = Some buf \<and> length buf = length ptr \<and> drop n buf = drop n ptr \<and>
    (\<forall>i < n. buf ! i =
      (let a = (unat addr + i) mod 2 ^ 64; b = unat (baseaddr img) in
       if b \<le> a \<and> a < b + unat (img_length img) then img_data img ! (a - b) else 0))"
proof -
  have "image_ok img"
    using assms(1-4) by (simp add: image_ok_def)
  then have "loadFill img ptr n addr =
      Some (map (\<lambda>i. window_byte img (addr + of_nat i)) [0..<n] @ drop n ptr)"
    using assms(5) by (rule loadFill_window)
  moreover have "unat (addr + of_nat i) = (unat addr + i) mod 2 ^ 64" for i
    by (simp add: unat_word_ariths unat_of_nat mod_simps)
  ultimately show ?thesis
    using assms(5) by (simp add: nth_append window_byte_def Let_def)
qed

theorem load_image_window_witness:
  "\<exists>buf. loadFill \<lparr>baseaddr = 0, img_length = 2, img_data = [0x0f, 0x0b]\<rparr> (replicate 4 7) 3 1 = Some buf \<and>
     buf ! 0 = 0x0b \<and> buf ! 1 = 0 \<and> drop 3 buf = [7]"
proof -
  let ?img = "\<lparr>baseaddr = 0, img_length = 2, img_data = [0x0f, 0x0b]\<rparr>"
  obtain buf where "loadFill ?img (replicate 4 7) 3 1 = Some buf" "drop 3 buf = drop 3 (replicate 4 7)"
      "\<forall>i < 3. buf ! i = (let a = (unat (1 :: u64) + i) mod 2 ^ 64; b = unat (baseaddr ?img) in
         if b \<le> a \<and> a < b + unat (img_length ?img) then img_data ?img ! (a - b) else 0)"
    using load_image_window [of ?img 3 "replicate 4 7" 1] by auto
  then show ?thesis
    by (intro exI [of _ buf]) simp
qed

text \<open>C14: Ghidra answers for the input alone. Two calls on instructions of 1 to 15 bytes, from any two
  states earlier calls may have left (failed ones included), give the same slot whenever the inputs
  agree up to trailing zeros:
  nothing of an earlier instruction or of the bytes behind the given length is seen, and an
  instruction that is cut off is decoded as if zeros followed.\<close>

theorem ghidra_answers_for_input:
  assumes "ghidra_inv g" and "ghidra_inv g'" and "insn_given raw n" and "insn_given raw' n'"
    and "take (unat n) raw @ replicate (16 - unat n) 0 = take (unat n') raw' @ replicate (16 - unat n') 0"
  shows "\<exists>answer h h'. ghidra_inv h \<and> ghidra_inv h' \<and>
    ghidra_decode lib g r raw n = map_option (\<lambda>r. (r, h)) answer \<and>
    ghidra_decode lib g' r raw' n' = map_option (\<lambda>r. (r, h')) answer"
proof -
  have "padded_input raw n = padded_input raw' n'"
    using assms(5) by (simp add: padded_input_def)
  then show ?thesis
    using ghidra_decode_outcome [OF assms(1), of n raw lib r] ghidra_decode_outcome [OF assms(2), of n' raw' lib r]
      assms(3,4) by (auto simp: insn_given_def)
qed

theorem ghidra_answers_for_input_witness:
  "\<exists>answer h h'. ghidra_decode nop_sleigh nop_ghidra zero_output_slot nop_insn 1 = map_option (\<lambda>r. (r, h)) answer \<and>
     ghidra_decode nop_sleigh (nop_ghidra\<lparr>g_pos := (g_pos nop_ghidra)\<lparr>pos_tree := 9\<rparr>\<rparr>) zero_output_slot
       nop_insn 15 = map_option (\<lambda>r. (r, h')) answer"
proof -
  let ?g = "nop_ghidra\<lparr>g_pos := (g_pos nop_ghidra)\<lparr>pos_tree := 9\<rparr>\<rparr>"
  have "ghidra_inv ?g"
    using nop_ghidra_inv by (simp add: ghidra_inv_def)
  moreover have "insn_given nop_insn 15"
    by (simp add: insn_given_def nop_insn_def)
  moreover have "take (unat (1 :: byte)) nop_insn @ replicate (16 - unat (1 :: byte)) 0 =
      take (unat (15 :: byte)) nop_insn @ replicate (16 - unat (15 :: byte)) 0"
    by (simp add: nop_insn_def) (simp add: numeral_eq_Suc)
  ultimately show ?thesis
    using ghidra_answers_for_input [OF nop_ghidra_inv _ nop_given, of ?g nop_insn 15 nop_sleigh zero_output_slot]
    by blast
qed

end
