(* ===== verification/Pcode_Cacher.thy ===== *)
theory Pcode_Cacher
  imports Prelude
begin

text \<open>
  The p-code cacher of the SLEIGH engine (src/worker/ghidra/sleighMishegos.hh and
  sleighMishegos.cc: \<open>PcodeCacher\<close>): a pool of varnodes that is moved when it grows, the
  operations issued for one instruction, which refer to the pool by pointers, and the labels and
  the references to them that are patched at the end. A pointer is the number of an allocation
  and an index; an access through a pointer into an allocation that was freed, or past the end of
  one, is undefined in C++ and has no value here (\<open>None\<close>), and so has a difference of pointers into
  different allocations. Address spaces are a type parameter.
\<close>

section \<open>Varnodes, operations, the cacher\<close>

record 'sp varnode =
  vn_space :: 'sp
  vn_offset :: u64
  vn_size :: u32

datatype vptr = VPtr (vblock: nat) (vindex: nat)

definition vptr_add :: "vptr \<Rightarrow> nat \<Rightarrow> vptr" where
  "vptr_add p k = VPtr (vblock p) (vindex p + k)"

record pcode_data =
  pd_opc :: nat
  pd_outvar :: "vptr option"
  pd_invar :: "vptr option"
  pd_isize :: nat

record relative_record =
  dataptr :: vptr
  calling_index :: u64

text \<open>
  \<open>poolstart\<close> is the allocation \<open>pool_id\<close>, \<open>curpool\<close> and \<open>endpool\<close> are the indices \<open>curpool\<close> and
  \<open>length pool\<close> in it. \<open>issued\<close> is a vector with a capacity: an insertion beyond it moves the
  vector, which is then the allocation \<open>issued_id + 1\<close>.
\<close>

record 'sp pcode_cacher =
  pool_id :: nat
  pool :: "'sp varnode list"
  curpool :: nat
  issued_id :: nat
  issued_cap :: nat
  issued :: "pcode_data list"
  label_refs :: "relative_record list"
  labels :: "u64 list"

text \<open>The constructor; the contents of new memory are indeterminate.\<close>

definition new_cacher :: "(nat \<Rightarrow> 'sp varnode) \<Rightarrow> 'sp pcode_cacher" where
  "new_cacher junk = \<lparr>pool_id = 0, pool = map junk [0..<600], curpool = 0, issued_id = 0,
     issued_cap = 0, issued = [], label_refs = [], labels = []\<rparr>"

section \<open>Access through pointers\<close>

definition read_vn :: "'sp pcode_cacher \<Rightarrow> vptr \<Rightarrow> 'sp varnode option" where
  "read_vn s p = (if vblock p = pool_id s then peek (pool s) (vindex p) else None)"

definition write_vn :: "vptr \<Rightarrow> 'sp varnode \<Rightarrow> 'sp pcode_cacher \<Rightarrow> 'sp pcode_cacher option" where
  "write_vn p v s =
     (if vblock p = pool_id s then do {
        pl \<leftarrow> poke (pool s) (vindex p) v;
        Some (s\<lparr>pool := pl\<rparr>) }
      else None)"

text \<open>A pointer to an element of \<open>issued\<close>.\<close>

datatype optr = OPtr (oblock: nat) (oindex: nat)

definition read_op :: "'sp pcode_cacher \<Rightarrow> optr \<Rightarrow> pcode_data option" where
  "read_op s p = (if oblock p = issued_id s then peek (issued s) (oindex p) else None)"

definition write_op :: "optr \<Rightarrow> pcode_data \<Rightarrow> 'sp pcode_cacher \<Rightarrow> 'sp pcode_cacher option" where
  "write_op p d s =
     (if oblock p = issued_id s then do {
        ops \<leftarrow> poke (issued s) (oindex p) d;
        Some (s\<lparr>issued := ops\<rparr>) }
      else None)"

section \<open>Allocation\<close>

text \<open>\<open>newpool + (p - poolstart)\<close>, for a pointer that may be null.\<close>

definition relocate :: "'sp pcode_cacher \<Rightarrow> vptr \<Rightarrow> vptr option" where
  "relocate s p = (if vblock p = pool_id s then Some (VPtr (pool_id s + 1) (vindex p)) else None)"

definition relocate_opt :: "'sp pcode_cacher \<Rightarrow> vptr option \<Rightarrow> vptr option option" where
  "relocate_opt s po = (case po of None \<Rightarrow> Some None | Some p \<Rightarrow> map_option Some (relocate s p))"

definition relocate_op :: "'sp pcode_cacher \<Rightarrow> pcode_data \<Rightarrow> pcode_data option" where
  "relocate_op s d = do {
     outvar \<leftarrow> relocate_opt s (pd_outvar d);
     invar \<leftarrow> relocate_opt s (pd_invar d);
     Some (d\<lparr>pd_outvar := outvar, pd_invar := invar\<rparr>) }"

definition relocate_ref :: "'sp pcode_cacher \<Rightarrow> relative_record \<Rightarrow> relative_record option" where
  "relocate_ref s r = do { p \<leftarrow> relocate s (dataptr r); Some (r\<lparr>dataptr := p\<rparr>) }"

text \<open>The sizes are \<open>uint4\<close>.\<close>

definition expandPool :: "(nat \<Rightarrow> 'sp varnode) \<Rightarrow> u32 \<Rightarrow> 'sp pcode_cacher \<Rightarrow>
    (vptr \<times> 'sp pcode_cacher) option" where
  "expandPool junk sz s =
     (let curmax = (of_nat (length (pool s)) :: u32); cursize = (of_nat (curpool s) :: u32) in
      if cursize + sz \<le> curmax then Some (VPtr (pool_id s) (curpool s), s)
      else
        let increase = (cursize + sz) - curmax;
            increase = (if increase < 100 then 100 else increase);
            newsize = curmax + increase;
            newpool = map junk [0..<unat newsize]
        in do {
          newpool \<leftarrow> copy_to newpool 0 (pool s) 0 (unat cursize);
          ops \<leftarrow> those (map (relocate_op s) (issued s));
          refs \<leftarrow> those (map (relocate_ref s) (label_refs s));
          Some (VPtr (pool_id s + 1) (unat cursize),
            s\<lparr>pool_id := pool_id s + 1, pool := newpool, curpool := unat (cursize + sz),
              issued := ops, label_refs := refs\<rparr>) })"

definition allocateVarnodes :: "(nat \<Rightarrow> 'sp varnode) \<Rightarrow> u32 \<Rightarrow> 'sp pcode_cacher \<Rightarrow>
    (vptr \<times> 'sp pcode_cacher) option" where
  "allocateVarnodes junk sz s =
     (let newptr = curpool s + unat sz in
      if newptr \<le> length (pool s) then Some (VPtr (pool_id s) (curpool s), s\<lparr>curpool := newptr\<rparr>)
      else expandPool junk sz s)"

text \<open>\<open>grow\<close> is the growth policy of the vector: the new capacity for a size.\<close>

definition allocateInstruction :: "(nat \<Rightarrow> nat) \<Rightarrow> 'sp pcode_cacher \<Rightarrow> optr \<times> 'sp pcode_cacher" where
  "allocateInstruction grow s =
     (let n = length (issued s);
          s = (if n < issued_cap s then s else s\<lparr>issued_id := issued_id s + 1, issued_cap := grow (n + 1)\<rparr>)
      in (OPtr (issued_id s) n,
          s\<lparr>issued := issued s @ [\<lparr>pd_opc = 0, pd_outvar = None, pd_invar = None, pd_isize = 0\<rparr>]\<rparr>))"

section \<open>Labels\<close>

definition addLabelRef :: "vptr \<Rightarrow> 'sp pcode_cacher \<Rightarrow> 'sp pcode_cacher" where
  "addLabelRef ptr s =
     s\<lparr>label_refs := label_refs s @ [\<lparr>dataptr = ptr, calling_index = of_nat (length (issued s))\<rparr>]\<rparr>"

definition no_label :: u64 where
  "no_label = 0xbadbeef"

definition addLabel :: "u32 \<Rightarrow> 'sp pcode_cacher \<Rightarrow> 'sp pcode_cacher" where
  "addLabel ident s =
     (let padded = labels s @ replicate (unat ident + 1 - length (labels s)) no_label
      in s\<lparr>labels := padded[unat ident := of_nat (length (issued s))]\<rparr>)"

definition clear :: "'sp pcode_cacher \<Rightarrow> 'sp pcode_cacher" where
  "clear s = s\<lparr>curpool := 0, issued := [], label_refs := [], labels := []\<rparr>"

text \<open>
  \<open>resolveRelatives\<close>: an undefined label is the exception \<open>LowlevelError\<close> (\<open>None\<close> inside); the
  label number is the 64-bit offset cut to 32 bits. \<open>calc_mask\<close> is the mask of a size in bytes.
\<close>

fun resolve_refs :: "(u32 \<Rightarrow> u64) \<Rightarrow> relative_record list \<Rightarrow> 'sp pcode_cacher \<Rightarrow>
    (unit option \<times> 'sp pcode_cacher) option" where
  "resolve_refs calc_mask [] s = Some (Some (), s)"
| "resolve_refs calc_mask (r # rs) s = do {
     v \<leftarrow> read_vn s (dataptr r);
     let ident = (ucast (vn_offset v) :: u32);
     if unat ident \<ge> length (labels s) \<or> labels s ! unat ident = no_label then Some (None, s)
     else do {
       let res = (labels s ! unat ident - calling_index r) AND calc_mask (vn_size v);
       s \<leftarrow> write_vn (dataptr r) (v\<lparr>vn_offset := res\<rparr>) s;
       resolve_refs calc_mask rs s } }"

definition resolveRelatives :: "(u32 \<Rightarrow> u64) \<Rightarrow> 'sp pcode_cacher \<Rightarrow>
    (unit option \<times> 'sp pcode_cacher) option" where
  "resolveRelatives calc_mask s = resolve_refs calc_mask (label_refs s) s"

section \<open>Emission\<close>

text \<open>
  What the emitter finds behind the pointers it is given: the operation, the output varnode unless
  the pointer is null, and the array of inputs.
\<close>

type_synonym 'sp emitted = "nat \<times> 'sp varnode option \<times> 'sp varnode list"

definition read_vns :: "'sp pcode_cacher \<Rightarrow> vptr option \<Rightarrow> nat \<Rightarrow> 'sp varnode list option" where
  "read_vns s po n =
     (case po of None \<Rightarrow> if n = 0 then Some [] else None
      | Some p \<Rightarrow> those (map (\<lambda>k. read_vn s (vptr_add p k)) [0..<n]))"

definition emit_op :: "'sp pcode_cacher \<Rightarrow> pcode_data \<Rightarrow> 'sp emitted option" where
  "emit_op s d = do {
     out \<leftarrow> (case pd_outvar d of None \<Rightarrow> Some None | Some p \<Rightarrow> map_option Some (read_vn s p));
     ins \<leftarrow> read_vns s (pd_invar d) (pd_isize d);
     Some (pd_opc d, out, ins) }"

definition emit :: "'sp pcode_cacher \<Rightarrow> 'sp emitted list option" where
  "emit s = those (map (emit_op s) (issued s))"

section \<open>The cacher's invariant\<close>

text \<open>
  Everything the cacher keeps refers to the allocated part of its current pool. \<open>vp_ok s p k\<close>: the
  \<open>k\<close> varnodes from \<open>p\<close> on are there.
\<close>

definition vp_ok :: "'sp pcode_cacher \<Rightarrow> vptr \<Rightarrow> nat \<Rightarrow> bool" where
  "vp_ok s p k \<longleftrightarrow> vblock p = pool_id s \<and> vindex p + k \<le> curpool s"

definition op_ok :: "'sp pcode_cacher \<Rightarrow> pcode_data \<Rightarrow> bool" where
  "op_ok s d \<longleftrightarrow> (\<forall>p. pd_outvar d = Some p \<longrightarrow> vp_ok s p 1) \<and>
     (case pd_invar d of None \<Rightarrow> True | Some p \<Rightarrow> vp_ok s p (pd_isize d))"

definition cacher_wf :: "'sp pcode_cacher \<Rightarrow> bool" where
  "cacher_wf s \<longleftrightarrow> curpool s \<le> length (pool s) \<and> length (pool s) < 2 ^ 32 \<and>
     (\<forall>d \<in> set (issued s). op_ok s d) \<and> (\<forall>r \<in> set (label_refs s). vp_ok s (dataptr r) 1)"

text \<open>What the cacher stands for: the code to emit, the references with their varnodes, the labels.\<close>

definition ref_view :: "'sp pcode_cacher \<Rightarrow> relative_record \<Rightarrow> ('sp varnode \<times> u64) option" where
  "ref_view s r = map_option (\<lambda>v. (v, calling_index r)) (read_vn s (dataptr r))"

definition cacher_view :: "'sp pcode_cacher \<Rightarrow>
    'sp emitted list option \<times> ('sp varnode \<times> u64) list option \<times> u64 list" where
  "cacher_view s = (emit s, those (map (ref_view s) (label_refs s)), labels s)"

lemma those_map_Some: "(\<And>x. x \<in> set xs \<Longrightarrow> f x = Some (g x)) \<Longrightarrow> those (map f xs) = Some (map g xs)"
  by (induction xs) auto

lemma those_map_cong: "(\<And>x. x \<in> set xs \<Longrightarrow> f x = g x) \<Longrightarrow> those (map f xs) = those (map g xs)"
  by (metis map_cong)

section \<open>Moving the pool\<close>

definition move_ptr :: "nat \<Rightarrow> vptr \<Rightarrow> vptr" where
  "move_ptr b p = VPtr b (vindex p)"

definition move_op :: "nat \<Rightarrow> pcode_data \<Rightarrow> pcode_data" where
  "move_op b d = d\<lparr>pd_outvar := map_option (move_ptr b) (pd_outvar d),
     pd_invar := map_option (move_ptr b) (pd_invar d)\<rparr>"

definition move_ref :: "nat \<Rightarrow> relative_record \<Rightarrow> relative_record" where
  "move_ref b r = r\<lparr>dataptr := move_ptr b (dataptr r)\<rparr>"

lemma relocate_op_ok: "op_ok s d \<Longrightarrow> relocate_op s d = Some (move_op (pool_id s + 1) d)"
  by (auto simp: op_ok_def vp_ok_def relocate_op_def relocate_opt_def relocate_def move_op_def
      move_ptr_def split: option.splits)

lemma relocate_ref_ok: "vp_ok s (dataptr r) 1 \<Longrightarrow> relocate_ref s r = Some (move_ref (pool_id s + 1) r)"
  by (simp add: vp_ok_def relocate_ref_def relocate_def move_ref_def move_ptr_def)

text \<open>
  \<open>t\<close> holds what \<open>s\<close> holds, in a pool that agrees on the allocated part.
\<close>

definition moved :: "'sp pcode_cacher \<Rightarrow> 'sp pcode_cacher \<Rightarrow> bool" where
  "moved s t \<longleftrightarrow> take (curpool s) (pool t) = take (curpool s) (pool s) \<and> curpool s \<le> curpool t \<and>
     curpool t \<le> length (pool t) \<and> issued t = map (move_op (pool_id t)) (issued s) \<and>
     label_refs t = map (move_ref (pool_id t)) (label_refs s) \<and> labels t = labels s"

lemma moved_nth: "moved s t \<Longrightarrow> i < curpool s \<Longrightarrow> curpool s \<le> length (pool s) \<Longrightarrow> pool t ! i = pool s ! i"
  unfolding moved_def by (metis nth_take)

lemma moved_read:
  "moved s t \<Longrightarrow> cacher_wf s \<Longrightarrow> vblock p = pool_id s \<Longrightarrow> vindex p < curpool s \<Longrightarrow>
   read_vn t (move_ptr (pool_id t) p) = read_vn s p"
  using moved_nth [of s t "vindex p"]
  by (auto simp: read_vn_def peek_def move_ptr_def moved_def cacher_wf_def)

lemma moved_emit_op:
  assumes "moved s t" and "cacher_wf s" and "op_ok s d"
  shows "emit_op t (move_op (pool_id t) d) = emit_op s d"
proof -
  have "read_vns t (map_option (move_ptr (pool_id t)) (pd_invar d)) (pd_isize d) = read_vns s (pd_invar d) (pd_isize d)"
  proof (cases "pd_invar d")
    case (Some p)
    have "read_vn t (vptr_add (move_ptr (pool_id t) p) k) = read_vn s (vptr_add p k)" if "k < pd_isize d" for k
      using moved_read [OF assms(1,2), of "vptr_add p k"] assms(3) that Some
      by (auto simp: op_ok_def vp_ok_def vptr_add_def move_ptr_def)
    then show ?thesis
      by (auto simp: read_vns_def Some intro: those_map_cong)
  qed (simp add: read_vns_def)
  moreover have "read_vn t (move_ptr (pool_id t) p) = read_vn s p" if "pd_outvar d = Some p" for p
    using moved_read [OF assms(1,2), of p] assms(3) that by (auto simp: op_ok_def vp_ok_def)
  ultimately show ?thesis
    by (auto simp: emit_op_def move_op_def split: option.split)
qed

lemma moved_view:
  assumes "moved s t" and "cacher_wf s"
  shows "cacher_view t = cacher_view s"
proof -
  have "emit t = emit s"
    using assms moved_emit_op [OF assms]
    by (auto simp: emit_def moved_def cacher_wf_def intro: those_map_cong)
  moreover have "ref_view t (move_ref (pool_id t) r) = ref_view s r" if "r \<in> set (label_refs s)" for r
    using moved_read [OF assms, of "dataptr r"] assms(2) that
    by (simp add: ref_view_def move_ref_def cacher_wf_def vp_ok_def Suc_le_eq)
  ultimately show ?thesis
    using assms(1) by (auto simp: cacher_view_def moved_def intro: those_map_cong)
qed

lemma moved_wf:
  assumes "moved s t" and "cacher_wf s" and "length (pool t) < 2 ^ 32"
  shows "cacher_wf t"
proof -
  have "vp_ok t (move_ptr (pool_id t) p) k" if "vp_ok s p k" for p k
    using that assms(1) by (auto simp: vp_ok_def move_ptr_def moved_def)
  then show ?thesis
    using assms by (auto simp: cacher_wf_def moved_def op_ok_def move_op_def move_ref_def split: option.splits)
qed

text \<open>Allocation, with or without an expansion of the pool.\<close>

lemma move_ptr_here: "vblock p = b \<Longrightarrow> move_ptr b p = p"
  by (cases p) (simp add: move_ptr_def)

lemma move_here [simp]: "cacher_wf s \<Longrightarrow> map (move_op (pool_id s)) (issued s) = issued s"
    "cacher_wf s \<Longrightarrow> map (move_ref (pool_id s)) (label_refs s) = label_refs s"
proof -
  assume wf: "cacher_wf s"
  have "move_op (pool_id s) d = d" if "op_ok s d" for d
    using that by (cases d; cases "pd_outvar d"; cases "pd_invar d")
      (auto simp: op_ok_def vp_ok_def move_op_def move_ptr_here)
  then show "map (move_op (pool_id s)) (issued s) = issued s"
    using wf by (auto simp: cacher_wf_def intro: map_idI)
  have "move_ref (pool_id s) r = r" if "vp_ok s (dataptr r) 1" for r
    using that by (cases r) (auto simp: vp_ok_def move_ref_def move_ptr_here)
  then show "map (move_ref (pool_id s)) (label_refs s) = label_refs s"
    using wf by (auto simp: cacher_wf_def intro: map_idI)
qed

lemma allocate_room:
  "cacher_wf s \<Longrightarrow> curpool s + unat sz \<le> length (pool s) \<Longrightarrow>
   allocateVarnodes junk sz s = Some (VPtr (pool_id s) (curpool s), s\<lparr>curpool := curpool s + unat sz\<rparr>) \<and>
   moved s (s\<lparr>curpool := curpool s + unat sz\<rparr>)"
  by (simp add: allocateVarnodes_def moved_def)

lemma allocate_expand:
  assumes wf: "cacher_wf s" and "\<not> curpool s + unat sz \<le> length (pool s)"
    and fits: "curpool s + unat sz < 2 ^ 32" "length (pool s) + 100 < 2 ^ 32"
  shows "\<exists>t. allocateVarnodes junk sz s = Some (VPtr (pool_id s + 1) (curpool s), t) \<and> moved s t \<and>
    pool_id t = pool_id s + 1 \<and> curpool t = curpool s + unat sz \<and> length (pool t) < 2 ^ 32 \<and>
    issued_id t = issued_id s \<and> issued_cap t = issued_cap s"
proof -
  let ?cm = "of_nat (length (pool s)) :: u32" and ?cs = "of_nat (curpool s) :: u32"
  have le: "curpool s \<le> length (pool s)"
    using wf by (simp add: cacher_wf_def)
  have cs: "unat ?cs = curpool s" "unat ?cm = length (pool s)"
    using fits by (simp_all add: unat_of_nat)
  have sum: "unat (?cs + sz) = curpool s + unat sz"
    using fits(1) cs by (subst unat_add_lem [THEN iffD1]) simp_all
  have big: "\<not> ?cs + sz \<le> ?cm"
    using assms(2) by (simp add: word_le_nat_alt sum cs)
  define inc :: u32 where "inc = (if ?cs + sz - ?cm < 100 then 100 else ?cs + sz - ?cm)"
  have diff: "unat (?cs + sz - ?cm) = curpool s + unat sz - length (pool s)"
    using big by (subst unat_sub) (simp_all add: sum cs word_le_nat_alt)
  have inc: "unat inc = max 100 (curpool s + unat sz - length (pool s))"
    using diff by (auto simp: inc_def word_less_nat_alt)
  have size: "unat (?cm + inc) = length (pool s) + unat inc"
    using fits inc cs by (subst unat_add_lem [THEN iffD1]) auto
  let ?new = "take (curpool s) (pool s) @ drop (curpool s) (map junk [0..<unat (?cm + inc)])"
  let ?t = "s\<lparr>pool_id := pool_id s + 1, pool := ?new, curpool := curpool s + unat sz,
    issued := map (move_op (pool_id s + 1)) (issued s),
    label_refs := map (move_ref (pool_id s + 1)) (label_refs s)\<rparr>"
  have copy: "copy_to (map junk [0..<unat (?cm + inc)]) 0 (pool s) 0 (curpool s) = Some ?new"
    using le size by (simp add: copy_to_def)
  have ops: "those (map (relocate_op s) (issued s)) = Some (map (move_op (pool_id s + 1)) (issued s))"
    using wf relocate_op_ok by (intro those_map_Some) (auto simp: cacher_wf_def)
  have refs: "those (map (relocate_ref s) (label_refs s)) = Some (map (move_ref (pool_id s + 1)) (label_refs s))"
    using wf relocate_ref_ok by (intro those_map_Some) (auto simp: cacher_wf_def)
  have "allocateVarnodes junk sz s = Some (VPtr (pool_id s + 1) (curpool s), ?t)"
    using assms(2) big by (simp add: allocateVarnodes_def expandPool_def Let_def cs sum copy ops refs inc_def [symmetric])
  moreover have "moved s ?t" "length (pool ?t) < 2 ^ 32"
    using le fits inc size assms(2) by (auto simp: moved_def)
  ultimately show ?thesis
    by (intro exI [of _ ?t]) simp
qed

section \<open>Resolving relative branches\<close>

text \<open>The value a reference is patched with.\<close>

definition patched :: "(u32 \<Rightarrow> u64) \<Rightarrow> u64 list \<Rightarrow> u64 \<Rightarrow> 'sp varnode \<Rightarrow> 'sp varnode" where
  "patched calc_mask lbs calling v =
     v\<lparr>vn_offset := (lbs ! unat (ucast (vn_offset v) :: u32) - calling) AND calc_mask (vn_size v)\<rparr>"

definition label_defined :: "u64 list \<Rightarrow> 'sp varnode \<Rightarrow> bool" where
  "label_defined lbs v \<longleftrightarrow> (let i = unat (ucast (vn_offset v) :: u32) in i < length lbs \<and> lbs ! i \<noteq> no_label)"

lemma read_vn_pool:
  "cacher_wf s \<Longrightarrow> vp_ok s p 1 \<Longrightarrow> read_vn s p = Some (pool s ! vindex p)"
  by (simp add: cacher_wf_def vp_ok_def read_vn_def peek_def)

lemma resolve_refs_Cons:
  assumes "cacher_wf s" and "vp_ok s (dataptr r) 1"
  shows "resolve_refs calc_mask (r # rs) s =
    (let v = pool s ! vindex (dataptr r) in
     if label_defined (labels s) v then resolve_refs calc_mask rs
       (s\<lparr>pool := (pool s)[vindex (dataptr r) := patched calc_mask (labels s) (calling_index r) v]\<rparr>)
     else Some (None, s))"
  using assms
  by (auto simp: Let_def label_defined_def patched_def read_vn_pool write_vn_def poke_def vp_ok_def cacher_wf_def)

lemma cacher_wf_pool:
  "cacher_wf s \<Longrightarrow> length pl = length (pool s) \<Longrightarrow> cacher_wf (s\<lparr>pool := pl\<rparr>)"
  by (auto simp: cacher_wf_def op_ok_def vp_ok_def split: option.splits)

lemma resolve_refs_patches:
  assumes "cacher_wf s" and "\<forall>r \<in> set rs. vp_ok s (dataptr r) 1" and "distinct (map dataptr rs)"
    and "\<forall>r \<in> set rs. label_defined (labels s) (pool s ! vindex (dataptr r))"
  shows "\<exists>pl. resolve_refs calc_mask rs s = Some (Some (), s\<lparr>pool := pl\<rparr>) \<and> length pl = length (pool s) \<and>
    (\<forall>r \<in> set rs. pl ! vindex (dataptr r) =
       patched calc_mask (labels s) (calling_index r) (pool s ! vindex (dataptr r))) \<and>
    (\<forall>i. i \<notin> (vindex \<circ> dataptr) ` set rs \<longrightarrow> pl ! i = pool s ! i)"
  using assms
proof (induction rs arbitrary: s)
  case Nil
  then show ?case
    by (intro exI [of _ "pool s"]) simp
next
  case (Cons r rs)
  let ?i = "vindex (dataptr r)"
  let ?v = "patched calc_mask (labels s) (calling_index r) (pool s ! ?i)"
  define s1 where "s1 = s\<lparr>pool := (pool s)[?i := ?v]\<rparr>"
  have i: "?i < length (pool s)"
    using Cons.prems by (auto simp: vp_ok_def cacher_wf_def)
  have other: "vindex (dataptr r') \<noteq> ?i" "?i \<noteq> vindex (dataptr r')" if "r' \<in> set rs" for r'
  proof -
    have "dataptr r' \<noteq> dataptr r"
      using Cons.prems(3) that by (metis distinct.simps(2) imageI list.set_map list.simps(9))
    moreover have "vblock (dataptr r') = vblock (dataptr r)"
      using Cons.prems(2) that by (simp add: vp_ok_def)
    ultimately show "vindex (dataptr r') \<noteq> ?i" "?i \<noteq> vindex (dataptr r')"
      by (metis vptr.expand)+
  qed
  have "cacher_wf s1" "\<forall>r \<in> set rs. vp_ok s1 (dataptr r) 1" "distinct (map dataptr rs)"
      "\<forall>r \<in> set rs. label_defined (labels s1) (pool s1 ! vindex (dataptr r))"
    using Cons.prems other by (auto simp: s1_def vp_ok_def intro: cacher_wf_pool)
  from Cons.IH [OF this] obtain pl where pl: "resolve_refs calc_mask rs s1 = Some (Some (), s1\<lparr>pool := pl\<rparr>)"
      "length pl = length (pool s)"
      "\<forall>r \<in> set rs. pl ! vindex (dataptr r) =
         patched calc_mask (labels s1) (calling_index r) (pool s1 ! vindex (dataptr r))"
      "\<forall>i. i \<notin> (vindex \<circ> dataptr) ` set rs \<longrightarrow> pl ! i = pool s1 ! i"
    by (auto simp: s1_def)
  have "resolve_refs calc_mask (r # rs) s = Some (Some (), s\<lparr>pool := pl\<rparr>)"
    using resolve_refs_Cons [OF Cons.prems(1), of r calc_mask rs] Cons.prems(2,4) pl(1)
    by (simp add: s1_def Let_def)
  moreover have "?i \<notin> (vindex \<circ> dataptr) ` set rs"
    using other by force
  then have "pl ! ?i = ?v"
    using pl(4) i by (simp add: s1_def)
  ultimately show ?case
    using pl(2-4) other by (intro exI [of _ pl]) (auto simp: s1_def)
qed

text \<open>The exception, when the first reference names an undefined label.\<close>

lemma undefined_label_throws:
  "cacher_wf s \<Longrightarrow> label_refs s = r # rs \<Longrightarrow> read_vn s (dataptr r) = Some v \<Longrightarrow>
   \<not> label_defined (labels s) v \<Longrightarrow> resolveRelatives calc_mask s = Some (None, s)"
  using resolve_refs_Cons [of s r calc_mask rs] read_vn_pool [of s "dataptr r"]
  by (simp add: resolveRelatives_def Let_def cacher_wf_def)

lemma displacement_reaches:
  fixes l c :: "'a::len word"
  shows "take_bit m (c + ((l - c) AND mask m)) = take_bit m l"
proof -
  have int: "take_bit k (x + take_bit k (y - x)) = take_bit k y" for k and x y :: int
    by (simp add: take_bit_eq_mod mod_add_right_eq)
  have "take_bit m (c + take_bit m (l - c)) = take_bit m l"
    by transfer (simp add: int)
  then show ?thesis
    by (simp add: take_bit_eq_mask)
qed

section \<open>Properties\<close>

text \<open>C19: Growing the pool is invisible to what the cacher holds. An allocation always returns fresh
  varnodes and keeps the code that would be emitted, the references with their varnodes and the
  labels, also when the pool is moved; but a pointer that a caller kept from before then has
  nothing behind it.\<close>

theorem pool_growth_keeps_code:
  assumes "cacher_wf s" and "curpool s + unat sz < 2 ^ 32" and "length (pool s) + 100 < 2 ^ 32"
  shows "\<exists>p t. allocateVarnodes junk sz s = Some (p, t) \<and> cacher_wf t \<and> cacher_view t = cacher_view s \<and>
    vp_ok t p (unat sz) \<and> vindex p = curpool s \<and> curpool t = curpool s + unat sz \<and>
    (\<forall>q v. read_vn s q = Some v \<longrightarrow>
       read_vn t q = (if curpool s + unat sz \<le> length (pool s) then Some v else None))"
proof (cases "curpool s + unat sz \<le> length (pool s)")
  case True
  from allocate_room [OF assms(1) True, of junk] show ?thesis
    using moved_view [OF _ assms(1)] moved_wf [OF _ assms(1)] assms(1) True
    by (auto simp: vp_ok_def read_vn_def cacher_wf_def)
next
  case False
  obtain t where t: "allocateVarnodes junk sz s = Some (VPtr (pool_id s + 1) (curpool s), t)" "moved s t"
      "pool_id t = pool_id s + 1" "curpool t = curpool s + unat sz" "length (pool t) < 2 ^ 32"
    using allocate_expand [OF assms(1) False assms(2,3), of junk] by blast
  then show ?thesis
    using moved_view [OF t(2) assms(1)] moved_wf [OF t(2) assms(1) t(5)] False
    by (auto simp: vp_ok_def read_vn_def split: if_splits)
qed

theorem pool_growth_keeps_code_witness:
  "\<exists>p t. allocateVarnodes (\<lambda>_. \<lparr>vn_space = (), vn_offset = 7, vn_size = 8\<rparr>) 601
      (new_cacher (\<lambda>_. \<lparr>vn_space = (), vn_offset = 0, vn_size = 8\<rparr>)) = Some (p, t) \<and> curpool t = 601 \<and>
    read_vn t (VPtr 0 3) = None"
proof -
  let ?s = "new_cacher (\<lambda>_. \<lparr>vn_space = (), vn_offset = 0, vn_size = 8\<rparr>)"
  have "read_vn ?s (VPtr 0 3) = Some \<lparr>vn_space = (), vn_offset = 0, vn_size = 8\<rparr>"
    by (simp add: read_vn_def new_cacher_def peek_def)
  then show ?thesis
    using pool_growth_keeps_code [of ?s 601 "\<lambda>_. \<lparr>vn_space = (), vn_offset = 7, vn_size = 8\<rparr>"]
    by (fastforce simp: cacher_wf_def new_cacher_def)
qed

text \<open>Resolving relative branches. When every reference is its own varnode and names a defined label,
  each is patched so that, added to the index of its operation, it gives the index of the label,
  modulo the size of the varnode; space and size stay, and so does every other varnode and the rest
  of the cacher.\<close>

theorem relatives_reach_labels:
  assumes "cacher_wf s" and "distinct (map dataptr (label_refs s))"
    and "\<forall>n. calc_mask n = mask (8 * unat n)"
    and "\<forall>r \<in> set (label_refs s). \<exists>v. read_vn s (dataptr r) = Some v \<and> label_defined (labels s) v"
  shows "\<exists>pl. resolveRelatives calc_mask s = Some (Some (), s\<lparr>pool := pl\<rparr>) \<and>
    (\<forall>i. i \<notin> (vindex \<circ> dataptr) ` set (label_refs s) \<longrightarrow> pl ! i = pool s ! i) \<and>
    (\<forall>r \<in> set (label_refs s). \<forall>v. read_vn s (dataptr r) = Some v \<longrightarrow>
       (\<exists>v'. read_vn (s\<lparr>pool := pl\<rparr>) (dataptr r) = Some v' \<and>
         vn_space v' = vn_space v \<and> vn_size v' = vn_size v \<and>
         take_bit (8 * unat (vn_size v)) (calling_index r + vn_offset v') =
           take_bit (8 * unat (vn_size v)) (labels s ! unat (ucast (vn_offset v) :: u32))))"
proof -
  have ok: "\<forall>r \<in> set (label_refs s). vp_ok s (dataptr r) 1"
    using assms(1) by (simp add: cacher_wf_def)
  have v: "read_vn s (dataptr r) = Some (pool s ! vindex (dataptr r))" if "r \<in> set (label_refs s)" for r
    using read_vn_pool [OF assms(1)] ok that by blast
  then have "\<forall>r \<in> set (label_refs s). label_defined (labels s) (pool s ! vindex (dataptr r))"
    using assms(4) by fastforce
  from resolve_refs_patches [OF assms(1) ok assms(2) this, of calc_mask]
  obtain pl where pl: "resolveRelatives calc_mask s = Some (Some (), s\<lparr>pool := pl\<rparr>)" "length pl = length (pool s)"
      "\<forall>r \<in> set (label_refs s). pl ! vindex (dataptr r) =
         patched calc_mask (labels s) (calling_index r) (pool s ! vindex (dataptr r))"
      "\<forall>i. i \<notin> (vindex \<circ> dataptr) ` set (label_refs s) \<longrightarrow> pl ! i = pool s ! i"
    by (auto simp: resolveRelatives_def)
  have "read_vn (s\<lparr>pool := pl\<rparr>) (dataptr r) =
      Some (patched calc_mask (labels s) (calling_index r) (pool s ! vindex (dataptr r)))"
    if "r \<in> set (label_refs s)" for r
    using ok assms(1) pl(2,3) that by (auto simp: read_vn_def peek_def vp_ok_def cacher_wf_def)
  then show ?thesis
    using pl(1,4) v assms(3) by (intro exI [of _ pl]) (simp add: patched_def displacement_reaches)
qed

text \<open>The instance: a branch in operation 2 to a label in front of operation 5.\<close>

definition one_branch :: "unit pcode_cacher" where
  "one_branch = \<lparr>pool_id = 0, pool = [\<lparr>vn_space = (), vn_offset = 0, vn_size = 4\<rparr>], curpool = 1,
     issued_id = 0, issued_cap = 0, issued = [],
     label_refs = [\<lparr>dataptr = VPtr 0 0, calling_index = 2\<rparr>], labels = [5]\<rparr>"

theorem relatives_reach_labels_witness:
  "\<exists>pl v. resolveRelatives (\<lambda>n. mask (8 * unat n)) one_branch = Some (Some (), one_branch\<lparr>pool := pl\<rparr>) \<and>
     read_vn (one_branch\<lparr>pool := pl\<rparr>) (VPtr 0 0) = Some v \<and> take_bit 32 (2 + vn_offset v) = 5"
proof -
  have 1: "cacher_wf one_branch"
    by (simp add: one_branch_def cacher_wf_def vp_ok_def)
  have 2: "read_vn one_branch (VPtr 0 0) = Some \<lparr>vn_space = (), vn_offset = 0, vn_size = 4\<rparr>"
    by (simp add: one_branch_def read_vn_def peek_def)
  obtain pl where "resolveRelatives (\<lambda>n. mask (8 * unat n)) one_branch = Some (Some (), one_branch\<lparr>pool := pl\<rparr>)"
      "\<forall>r \<in> set (label_refs one_branch). \<forall>v. read_vn one_branch (dataptr r) = Some v \<longrightarrow>
        (\<exists>v'. read_vn (one_branch\<lparr>pool := pl\<rparr>) (dataptr r) = Some v' \<and>
          take_bit (8 * unat (vn_size v)) (calling_index r + vn_offset v') =
            take_bit (8 * unat (vn_size v)) (labels one_branch ! unat (ucast (vn_offset v) :: u32)))"
    using relatives_reach_labels [OF 1, of "\<lambda>n. mask (8 * unat n)"] 2
    by (fastforce simp: one_branch_def label_defined_def no_label_def)
  then show ?thesis
    using 2 by (auto simp: one_branch_def)
qed

end
