(* ===== verification/Pcode_Builder.thy ===== *)
theory Pcode_Builder
  imports Pcode_Cacher
begin

text \<open>
  The translation of one operation template into p-code (src/worker/ghidra/sleighMishegos.cc:
  \<open>SleighBuilder\<close>), on the cacher of \<open>Pcode_Cacher\<close>. The templates and the parser walker belong to
  the SLEIGH library: a template is the record of what its accessors return for the walker. The
  numbers of the operations \<open>LOAD\<close>, \<open>STORE\<close> and \<open>INT_ADD\<close>, the values of pointers to address spaces
  and the wrapping of offsets are the library's, too.
\<close>

section \<open>Templates and the builder\<close>

record 'sp fixed_handle =
  fh_space :: 'sp
  fh_offset_space :: 'sp
  fh_offset_size :: u32
  fh_offset_offset :: u64

record 'sp vn_tpl =
  t_dynamic :: bool
  t_relative :: bool
  t_offset_plus :: bool
  t_space :: 'sp
  t_size :: u32
  t_offset :: u64
  t_real :: u64
  t_handle :: "'sp fixed_handle"

record 'sp op_tpl =
  o_opcode :: nat
  o_in :: "'sp vn_tpl list"
  o_out :: "'sp vn_tpl option"

record 'sp builder =
  const_space :: 'sp
  uniq_space :: 'sp
  uniqueoffset :: u64
  labelBase :: u32
  wrapOffset :: "'sp \<Rightarrow> u64 \<Rightarrow> u64"
  calc_mask :: "u32 \<Rightarrow> u64"
  space_ptr :: "'sp \<Rightarrow> u64"
  unique_ea :: u64
  cpui_load :: nat
  cpui_store :: nat
  cpui_int_add :: nat
  b_junk :: "nat \<Rightarrow> 'sp varnode"
  b_grow :: "nat \<Rightarrow> nat"

definition setUniqueOffset :: "u64 \<Rightarrow> u64 \<Rightarrow> 'sp builder \<Rightarrow> 'sp builder" where
  "setUniqueOffset uniquemask addr b = b\<lparr>uniqueoffset := push_bit 4 (addr AND uniquemask)\<rparr>"

section \<open>Locations and pointers\<close>

definition fix_offset :: "'sp builder \<Rightarrow> 'sp \<Rightarrow> u32 \<Rightarrow> u64 \<Rightarrow> u64" where
  "fix_offset b sp sz off =
     (if sp = const_space b then off AND calc_mask b sz
      else if sp = uniq_space b then off OR uniqueoffset b
      else wrapOffset b sp off)"

definition generateLocation :: "'sp builder \<Rightarrow> 'sp vn_tpl \<Rightarrow> 'sp varnode" where
  "generateLocation b t = \<lparr>vn_space = t_space t, vn_offset = fix_offset b (t_space t) (t_size t) (t_offset t),
     vn_size = t_size t\<rparr>"

definition generatePointer :: "'sp builder \<Rightarrow> 'sp vn_tpl \<Rightarrow> 'sp varnode \<times> 'sp" where
  "generatePointer b t =
     (let hand = t_handle t in
      (\<lparr>vn_space = fh_offset_space hand,
         vn_offset = fix_offset b (fh_offset_space hand) (fh_offset_size hand) (fh_offset_offset hand),
         vn_size = fh_offset_size hand\<rparr>,
       fh_space hand))"

text \<open>The constant varnode that holds the pointer to a space.\<close>

definition space_vn :: "'sp builder \<Rightarrow> 'sp \<Rightarrow> 'sp varnode" where
  "space_vn b spc = \<lparr>vn_space = const_space b, vn_offset = space_ptr b spc, vn_size = 8\<rparr>"

definition update_op :: "optr \<Rightarrow> (pcode_data \<Rightarrow> pcode_data) \<Rightarrow> 'sp pcode_cacher \<Rightarrow> 'sp pcode_cacher option" where
  "update_op p f s = do { d \<leftarrow> read_op s p; write_op p (f d) s }"

text \<open>
  \<open>op\<close> is the load or store the addition is put in front of: it becomes the addition, and the
  operation itself goes to a new entry.
\<close>

definition generatePointerAdd :: "'sp builder \<Rightarrow> optr \<Rightarrow> 'sp vn_tpl \<Rightarrow> 'sp pcode_cacher \<Rightarrow>
    'sp pcode_cacher option" where
  "generatePointerAdd b op t s =
     (let offsetPlus = t_real t AND 0xffff in
      if offsetPlus = 0 then Some s
      else do {
        let (nextop, s) = allocateInstruction (b_grow b) s;
        d \<leftarrow> read_op s op;
        s \<leftarrow> write_op nextop d s;
        s \<leftarrow> update_op op (\<lambda>d. d\<lparr>pd_isize := 2, pd_opc := cpui_int_add b\<rparr>) s;
        (newparams, s) \<leftarrow> allocateVarnodes (b_junk b) 2 s;
        s \<leftarrow> update_op op (\<lambda>d. d\<lparr>pd_invar := Some newparams\<rparr>) s;
        nextd \<leftarrow> read_op s nextop;
        invar \<leftarrow> pd_invar nextd;
        v \<leftarrow> read_vn s (vptr_add invar 1);
        s \<leftarrow> write_vn newparams v s;
        s \<leftarrow> write_vn (vptr_add newparams 1)
          \<lparr>vn_space = const_space b, vn_offset = offsetPlus, vn_size = vn_size v\<rparr> s;
        s \<leftarrow> update_op op (\<lambda>d. d\<lparr>pd_outvar := Some (vptr_add invar 1)\<rparr>) s;
        v \<leftarrow> read_vn s (vptr_add invar 1);
        write_vn (vptr_add invar 1) (v\<lparr>vn_space := uniq_space b, vn_offset := unique_ea b\<rparr>) s })"

section \<open>One operation\<close>

text \<open>The inputs; \<open>invars\<close> is the local pointer to their array.\<close>

definition dump_input :: "'sp builder \<Rightarrow> vptr \<Rightarrow> nat \<Rightarrow> 'sp vn_tpl \<Rightarrow> 'sp pcode_cacher \<Rightarrow>
    'sp pcode_cacher option" where
  "dump_input b invars i t s = do {
     s \<leftarrow> write_vn (vptr_add invars i) (generateLocation b t) s;
     if \<not> t_dynamic t then Some s
     else do {
       let (load_op, s) = allocateInstruction (b_grow b) s;
       s \<leftarrow> update_op load_op (\<lambda>d. d\<lparr>pd_opc := cpui_load b, pd_outvar := Some (vptr_add invars i), pd_isize := 2\<rparr>) s;
       (loadvars, s) \<leftarrow> allocateVarnodes (b_junk b) 2 s;
       s \<leftarrow> update_op load_op (\<lambda>d. d\<lparr>pd_invar := Some loadvars\<rparr>) s;
       let (v, spc) = generatePointer b t;
       s \<leftarrow> write_vn (vptr_add loadvars 1) v s;
       s \<leftarrow> write_vn loadvars (space_vn b spc) s;
       if t_offset_plus t then generatePointerAdd b load_op t s else Some s } }"

fun dump_inputs :: "'sp builder \<Rightarrow> vptr \<Rightarrow> nat \<Rightarrow> 'sp vn_tpl list \<Rightarrow> 'sp pcode_cacher \<Rightarrow>
    'sp pcode_cacher option" where
  "dump_inputs b invars i [] s = Some s"
| "dump_inputs b invars i (t # ts) s = do {
     s \<leftarrow> dump_input b invars i t s;
     dump_inputs b invars (i + 1) ts s }"

definition dump_output :: "'sp builder \<Rightarrow> optr \<Rightarrow> 'sp vn_tpl \<Rightarrow> 'sp pcode_cacher \<Rightarrow> 'sp pcode_cacher option" where
  "dump_output b thisop t s =
     (if t_dynamic t then do {
        (storevars, s) \<leftarrow> allocateVarnodes (b_junk b) 3 s;
        s \<leftarrow> write_vn (vptr_add storevars 2) (generateLocation b t) s;
        s \<leftarrow> update_op thisop (\<lambda>d. d\<lparr>pd_outvar := Some (vptr_add storevars 2)\<rparr>) s;
        let (store_op, s) = allocateInstruction (b_grow b) s;
        s \<leftarrow> update_op store_op (\<lambda>d. d\<lparr>pd_opc := cpui_store b, pd_isize := 3, pd_invar := Some storevars\<rparr>) s;
        let (v, spc) = generatePointer b t;
        s \<leftarrow> write_vn (vptr_add storevars 1) v s;
        s \<leftarrow> write_vn storevars (space_vn b spc) s;
        if t_offset_plus t then generatePointerAdd b store_op t s else Some s }
      else do {
        (outvar, s) \<leftarrow> allocateVarnodes (b_junk b) 1 s;
        s \<leftarrow> update_op thisop (\<lambda>d. d\<lparr>pd_outvar := Some outvar\<rparr>) s;
        write_vn outvar (generateLocation b t) s })"

definition dump :: "'sp builder \<Rightarrow> 'sp op_tpl \<Rightarrow> 'sp pcode_cacher \<Rightarrow> 'sp pcode_cacher option" where
  "dump b op s = do {
     let isize = length (o_in op);
     (invars, s) \<leftarrow> allocateVarnodes (b_junk b) (of_nat isize) s;
     s \<leftarrow> dump_inputs b invars 0 (o_in op) s;
     s \<leftarrow> (if isize > 0 \<and> t_relative (hd (o_in op)) then do {
             v \<leftarrow> read_vn s invars;
             s \<leftarrow> write_vn invars (v\<lparr>vn_offset := vn_offset v + ucast (labelBase b)\<rparr>) s;
             Some (addLabelRef invars s) }
           else Some s);
     let (thisop, s) = allocateInstruction (b_grow b) s;
     s \<leftarrow> update_op thisop (\<lambda>d. d\<lparr>pd_opc := o_opcode op, pd_invar := Some invars, pd_isize := isize\<rparr>) s;
     (case o_out op of None \<Rightarrow> Some s | Some t \<Rightarrow> dump_output b thisop t s) }"

definition setLabel :: "'sp builder \<Rightarrow> u64 \<Rightarrow> 'sp pcode_cacher \<Rightarrow> 'sp pcode_cacher" where
  "setLabel b real s = addLabel (ucast (real + ucast (labelBase b))) s"

section \<open>The code of an operation\<close>

text \<open>What \<open>dump\<close> means to append, without pools and pointers.\<close>

definition pointer_plus :: "'sp vn_tpl \<Rightarrow> u64" where
  "pointer_plus t = (if t_offset_plus t then t_real t AND 0xffff else 0)"

definition ea_vn :: "'sp builder \<Rightarrow> 'sp vn_tpl \<Rightarrow> 'sp varnode" where
  "ea_vn b t = (fst (generatePointer b t))\<lparr>vn_space := uniq_space b, vn_offset := unique_ea b\<rparr>"

text \<open>The addition in front of a load or store, and the pointer that one then uses.\<close>

definition add_code :: "'sp builder \<Rightarrow> 'sp vn_tpl \<Rightarrow> 'sp emitted list" where
  "add_code b t =
     (let v = fst (generatePointer b t) in
      if pointer_plus t = 0 then []
      else [(cpui_int_add b, Some (ea_vn b t),
        [v, \<lparr>vn_space = const_space b, vn_offset = pointer_plus t, vn_size = vn_size v\<rparr>])])"

definition pointer_vn :: "'sp builder \<Rightarrow> 'sp vn_tpl \<Rightarrow> 'sp varnode" where
  "pointer_vn b t = (if pointer_plus t = 0 then fst (generatePointer b t) else ea_vn b t)"

definition load_code :: "'sp builder \<Rightarrow> 'sp vn_tpl \<Rightarrow> 'sp emitted list" where
  "load_code b t =
     (if t_dynamic t then
        add_code b t @ [(cpui_load b, Some (generateLocation b t),
          [space_vn b (snd (generatePointer b t)), pointer_vn b t])]
      else [])"

definition store_code :: "'sp builder \<Rightarrow> 'sp vn_tpl \<Rightarrow> 'sp emitted list" where
  "store_code b t =
     (if t_dynamic t then
        add_code b t @ [(cpui_store b, None,
          [space_vn b (snd (generatePointer b t)), pointer_vn b t, generateLocation b t])]
      else [])"

text \<open>The inputs; a branch target within the instruction is counted from the label base.\<close>

definition in_locations :: "'sp builder \<Rightarrow> 'sp vn_tpl list \<Rightarrow> 'sp varnode list" where
  "in_locations b ts =
     (case ts of [] \<Rightarrow> []
      | t # ts \<Rightarrow> (let v = generateLocation b t in
          (if t_relative t then v\<lparr>vn_offset := vn_offset v + ucast (labelBase b)\<rparr> else v)
          # map (generateLocation b) ts))"

definition op_code :: "'sp builder \<Rightarrow> 'sp op_tpl \<Rightarrow> 'sp emitted list" where
  "op_code b op =
     concat (map (load_code b) (o_in op)) @
     [(o_opcode op, map_option (generateLocation b) (o_out op), in_locations b (o_in op))] @
     (case o_out op of None \<Rightarrow> [] | Some t \<Rightarrow> store_code b t)"

section \<open>Steps that do not move anything\<close>

definition null_op :: pcode_data where
  "null_op = \<lparr>pd_opc = 0, pd_outvar = None, pd_invar = None, pd_isize = 0\<rparr>"

lemma allocate_in_place:
  "curpool s + unat sz \<le> length (pool s) \<Longrightarrow>
   allocateVarnodes junk sz s = Some (VPtr (pool_id s) (curpool s), s\<lparr>curpool := curpool s + unat sz\<rparr>)"
  by (simp add: allocateVarnodes_def)

lemma instruction_in_place:
  "length (issued s) < issued_cap s \<Longrightarrow>
   allocateInstruction grow s = (OPtr (issued_id s) (length (issued s)), s\<lparr>issued := issued s @ [null_op]\<rparr>)"
  by (simp add: allocateInstruction_def null_op_def)

lemma write_in_place:
  "b = pool_id s \<Longrightarrow> i < length (pool s) \<Longrightarrow> write_vn (VPtr b i) v s = Some (s\<lparr>pool := (pool s)[i := v]\<rparr>)"
  "b = pool_id s \<Longrightarrow> i < length (pool s) \<Longrightarrow> read_vn s (VPtr b i) = Some (pool s ! i)"
  by (simp_all add: write_vn_def poke_def read_vn_def peek_def)

lemma op_in_place:
  "b = issued_id s \<Longrightarrow> k < length (issued s) \<Longrightarrow>
     update_op (OPtr b k) f s = Some (s\<lparr>issued := (issued s)[k := f (issued s ! k)]\<rparr>)"
  "b = issued_id s \<Longrightarrow> k < length (issued s) \<Longrightarrow> write_op (OPtr b k) d s = Some (s\<lparr>issued := (issued s)[k := d]\<rparr>)"
  "b = issued_id s \<Longrightarrow> k < length (issued s) \<Longrightarrow> read_op s (OPtr b k) = Some (issued s ! k)"
  by (simp_all add: update_op_def write_op_def read_op_def poke_def peek_def)

lemmas in_place = write_in_place op_in_place vptr_add_def

text \<open>Writing consecutive cells.\<close>

primrec put :: "'a list \<Rightarrow> nat \<Rightarrow> 'a list \<Rightarrow> 'a list" where
  "put pl c [] = pl"
| "put pl c (x # xs) = put (pl[c := x]) (c + 1) xs"

lemma length_put [simp]: "length (put pl c xs) = length pl"
  by (induction xs arbitrary: pl c) simp_all

lemma put_append: "put pl c (xs @ ys) = put (put pl c xs) (c + length xs) ys"
  by (induction xs arbitrary: pl c) simp_all

lemma put_nth:
  "c + length xs \<le> length pl \<Longrightarrow>
   put pl c xs ! j = (if c \<le> j \<and> j < c + length xs then xs ! (j - c) else pl ! j)"
proof (induction xs arbitrary: pl c)
  case (Cons x xs)
  then show ?case
    by (cases "j = c") (auto simp: nth_Cons')
qed auto

text \<open>The cells and the operations of a pointer: from \<open>c\<close> the space and the pointer, then \<open>m\<close> others.\<close>

definition extra_cells :: "'sp builder \<Rightarrow> 'sp vn_tpl \<Rightarrow> 'sp varnode list" where
  "extra_cells b t = (let v = fst (generatePointer b t) in
     if pointer_plus t = 0 then []
     else [v, \<lparr>vn_space = const_space b, vn_offset = pointer_plus t, vn_size = vn_size v\<rparr>])"

definition add_ops :: "'sp builder \<Rightarrow> 'sp vn_tpl \<Rightarrow> nat \<Rightarrow> nat \<Rightarrow> nat \<Rightarrow> pcode_data list" where
  "add_ops b t pid ptr_at extra_at =
     (if pointer_plus t = 0 then []
      else [\<lparr>pd_opc = cpui_int_add b, pd_outvar = Some (VPtr pid ptr_at), pd_invar = Some (VPtr pid extra_at), pd_isize = 2\<rparr>])"

text \<open>The addition, when there is room for its parameters and for one more operation.\<close>

lemma pointer_add_in_place:
  assumes "issued s = ops @ [d]" and "pd_invar d = Some (VPtr (pool_id s) p)" and "p + 1 < curpool s"
    and "pool s ! (p + 1) = fst (generatePointer b t)" and "curpool s + length (extra_cells b t) \<le> length (pool s)"
    and "length ops + length (add_ops b t i j k) < issued_cap s"
  shows "(if t_offset_plus t then generatePointerAdd b (OPtr (issued_id s) (length ops)) t s else Some s) =
    Some (s\<lparr>curpool := curpool s + length (extra_cells b t),
      pool := put ((pool s)[p + 1 := pointer_vn b t]) (curpool s) (extra_cells b t),
      issued := ops @ add_ops b t (pool_id s) (p + 1) (curpool s) @ [d]\<rparr>)"
proof (cases "pointer_plus t = 0")
  case True
  have "(pool s)[p + 1 := fst (generatePointer b t)] = pool s" "ops @ [d] = issued s"
    using assms(1,4) list_update_id [of "pool s" "p + 1"] by simp_all
  then show ?thesis
    using True by (auto simp: pointer_plus_def generatePointerAdd_def extra_cells_def add_ops_def pointer_vn_def
        split: if_splits)
next
  case False
  then have plus: "t_offset_plus t" "t_real t AND 0xffff \<noteq> 0" "pointer_plus t = t_real t AND 0xffff"
    by (auto simp: pointer_plus_def split: if_splits)
  have swap: "pl[curpool s := x, Suc (curpool s) := y, Suc p := z] = pl[Suc p := z, curpool s := x, Suc (curpool s) := y]"
    for pl x y z
    using assms(3) by (metis list_update_swap less_irrefl Suc_lessD less_SucI Suc_eq_plus1)
  show ?thesis
    using assms False plus
    by (cases d) (simp add: swap generatePointerAdd_def instruction_in_place in_place allocate_in_place extra_cells_def
        add_ops_def pointer_vn_def ea_vn_def Let_def nth_append list_update_append)
qed

section \<open>One input\<close>

definition pointer_cells :: "'sp builder \<Rightarrow> 'sp vn_tpl \<Rightarrow> 'sp varnode list" where
  "pointer_cells b t = [space_vn b (snd (generatePointer b t)), pointer_vn b t]"

definition input_cells :: "'sp builder \<Rightarrow> 'sp vn_tpl \<Rightarrow> 'sp varnode list" where
  "input_cells b t = (if t_dynamic t then pointer_cells b t @ extra_cells b t else [])"

definition input_ops :: "'sp builder \<Rightarrow> nat \<Rightarrow> nat \<Rightarrow> nat \<Rightarrow> 'sp vn_tpl \<Rightarrow> pcode_data list" where
  "input_ops b pid q c t =
     (if t_dynamic t then add_ops b t pid (c + 1) (c + 2) @
        [\<lparr>pd_opc = cpui_load b, pd_outvar = Some (VPtr pid q), pd_invar = Some (VPtr pid c), pd_isize = 2\<rparr>]
      else [])"

lemma update_twice: "pl[i := x, j := y, i := z] = pl[j := y, i := z]" if "i \<noteq> j"
  using that by (metis list_update_overwrite list_update_swap)

lemma length_add_ops [simp]: "length (add_ops b t i j k) = (if pointer_plus t = 0 then 0 else 1)"
  by (simp add: add_ops_def)

lemma input_in_place:
  assumes "q + i < curpool s" and "curpool s + length (input_cells b t) \<le> length (pool s)"
    and "curpool s \<le> length (pool s)" and "length (issued s) + length (input_ops b j k l t) \<le> issued_cap s"
  shows "dump_input b (VPtr (pool_id s) q) i t s =
    Some (s\<lparr>curpool := curpool s + length (input_cells b t),
      pool := put ((pool s)[q + i := generateLocation b t]) (curpool s) (input_cells b t),
      issued := issued s @ input_ops b (pool_id s) (q + i) (curpool s) t\<rparr>)"
proof (cases "t_dynamic t")
  case True
  let ?d = "\<lparr>pd_opc = cpui_load b, pd_outvar = Some (VPtr (pool_id s) (q + i)),
    pd_invar = Some (VPtr (pool_id s) (curpool s)), pd_isize = 2\<rparr>"
  let ?s = "s\<lparr>curpool := curpool s + 2, issued := issued s @ [?d],
    pool := (pool s)[q + i := generateLocation b t, curpool s + 1 := fst (generatePointer b t),
      curpool s := space_vn b (snd (generatePointer b t))]\<rparr>"
  have room: "curpool s + 1 < length (pool s)" "length (issued s) < issued_cap s"
    using assms True by (simp_all add: input_cells_def pointer_cells_def input_ops_def)
  have "dump_input b (VPtr (pool_id s) q) i t s =
      (if t_offset_plus t then generatePointerAdd b (OPtr (issued_id ?s) (length (issued s))) t ?s else Some ?s)"
    using True assms(1,3) room
    by (simp add: dump_input_def instruction_in_place in_place allocate_in_place null_op_def case_prod_unfold Let_def)
  also have "\<dots> =
    Some (?s\<lparr>curpool := curpool ?s + length (extra_cells b t),
      pool := put ((pool ?s)[curpool s + 1 := pointer_vn b t]) (curpool ?s) (extra_cells b t),
      issued := issued s @ add_ops b t (pool_id ?s) (curpool s + 1) (curpool ?s) @ [?d]\<rparr>)"
    using assms True room
    by (intro pointer_add_in_place [where p = "curpool s" and i = 0 and j = 0 and k = 0])
      (auto simp: input_cells_def pointer_cells_def input_ops_def)
  finally show ?thesis
    using True by (simp add: input_cells_def pointer_cells_def input_ops_def update_twice)
next
  case False
  then show ?thesis
    using assms(1,3) by (simp add: dump_input_def in_place input_cells_def input_ops_def)
qed

section \<open>All inputs\<close>

definition ins_cells :: "'sp builder \<Rightarrow> 'sp vn_tpl list \<Rightarrow> 'sp varnode list" where
  "ins_cells b ts = concat (map (input_cells b) ts)"

primrec ins_ops :: "'sp builder \<Rightarrow> nat \<Rightarrow> nat \<Rightarrow> nat \<Rightarrow> 'sp vn_tpl list \<Rightarrow> pcode_data list" where
  "ins_ops b pid q c [] = []"
| "ins_ops b pid q c (t # ts) =
     input_ops b pid q c t @ ins_ops b pid (q + 1) (c + length (input_cells b t)) ts"

lemma put_update: "a < c \<Longrightarrow> (put pl c xs)[a := y] = put (pl[a := y]) c xs"
proof (induction xs arbitrary: pl c)
  case (Cons x xs)
  have "pl[c := x, a := y] = pl[a := y, c := x]"
    using Cons.prems by (intro list_update_swap) simp
  then show ?case
    using Cons by simp
qed simp

lemma put_commute: "a + length ys \<le> c \<Longrightarrow> put (put pl c xs) a ys = put (put pl a ys) c xs"
  by (induction ys arbitrary: pl a) (simp_all add: put_update)

lemma length_input_ops: "length (input_ops b i j k t) = length (load_code b t)"
  by (simp add: input_ops_def load_code_def add_code_def Let_def)

lemma length_ins_ops: "length (ins_ops b i j k ts) = length (concat (map (load_code b) ts))"
  by (induction ts arbitrary: j k) (simp_all add: length_input_ops)

lemma inputs_in_place:
  assumes "q + i + length ts \<le> curpool s" and "curpool s + length (ins_cells b ts) \<le> length (pool s)"
    and "length (issued s) + length (concat (map (load_code b) ts)) \<le> issued_cap s"
  shows "dump_inputs b (VPtr (pool_id s) q) i ts s =
    Some (s\<lparr>curpool := curpool s + length (ins_cells b ts),
      pool := put (put (pool s) (q + i) (map (generateLocation b) ts)) (curpool s) (ins_cells b ts),
      issued := issued s @ ins_ops b (pool_id s) (q + i) (curpool s) ts\<rparr>)"
  using assms
proof (induction ts arbitrary: s i)
  case Nil
  then show ?case
    by (simp add: ins_cells_def)
next
  case (Cons t ts)
  define s1 where "s1 = s\<lparr>curpool := curpool s + length (input_cells b t),
      pool := put ((pool s)[q + i := generateLocation b t]) (curpool s) (input_cells b t),
      issued := issued s @ input_ops b (pool_id s) (q + i) (curpool s) t\<rparr>"
  have "dump_input b (VPtr (pool_id s) q) i t s = Some s1"
    unfolding s1_def using Cons.prems
    by (intro input_in_place [where j = 0 and k = 0 and l = 0]) (auto simp: ins_cells_def length_input_ops)
  moreover have "dump_inputs b (VPtr (pool_id s) q) (i + 1) ts s1 =
    Some (s1\<lparr>curpool := curpool s1 + length (ins_cells b ts),
      pool := put (put (pool s1) (q + (i + 1)) (map (generateLocation b) ts)) (curpool s1) (ins_cells b ts),
      issued := issued s1 @ ins_ops b (pool_id s1) (q + (i + 1)) (curpool s1) ts\<rparr>)"
    using Cons.IH [where s = s1 and i = "i + 1"] Cons.prems by (simp add: s1_def ins_cells_def length_input_ops)
  moreover have "put (put pl (curpool s) xs) (q + (i + 1)) (map (generateLocation b) ts) =
      put (put pl (q + (i + 1)) (map (generateLocation b) ts)) (curpool s) xs" for pl xs
    using Cons.prems by (intro put_commute) simp
  ultimately show ?case
    by (simp add: s1_def ins_cells_def put_append add.assoc)
qed

section \<open>What the new operations emit\<close>

definition holds :: "'a list \<Rightarrow> nat \<Rightarrow> 'a list \<Rightarrow> bool" where
  "holds pl c xs \<longleftrightarrow> c + length xs \<le> length pl \<and> (\<forall>k < length xs. pl ! (c + k) = xs ! k)"

lemma holds_Nil: "holds pl c [] \<longleftrightarrow> c \<le> length pl"
  by (simp add: holds_def)

lemma holds_Cons: "holds pl c (x # xs) \<longleftrightarrow> c < length pl \<and> pl ! c = x \<and> holds pl (Suc c) xs"
  by (auto simp: holds_def nth_Cons split: nat.split)

lemma holds_append: "holds pl c (xs @ ys) \<longleftrightarrow> holds pl c xs \<and> holds pl (c + length xs) ys"
proof (induction xs arbitrary: c)
  case Nil
  then show ?case
    by (auto simp: holds_def)
next
  case (Cons x xs)
  then show ?case
    by (simp add: holds_Cons)
qed

lemmas holds_simps = holds_Nil holds_Cons holds_append

lemma holds_put: "c + length xs \<le> length pl \<Longrightarrow> holds (put pl c xs) c xs"
  by (simp add: holds_def put_nth)

lemma holds_put_other:
  "holds pl a ys \<Longrightarrow> c + length xs \<le> length pl \<Longrightarrow> a + length ys \<le> c \<Longrightarrow> holds (put pl c xs) a ys"
  by (simp add: holds_def put_nth)

lemma read_holds: "holds (pool s) c xs \<Longrightarrow> n = length xs \<Longrightarrow> read_vns s (Some (VPtr (pool_id s) c)) n = Some xs"
proof -
  assume "holds (pool s) c xs" and n: "n = length xs"
  then have "those (map (\<lambda>k. read_vn s (vptr_add (VPtr (pool_id s) c) k)) [0..<length xs]) = Some (map (\<lambda>k. xs ! k) [0..<length xs])"
    by (intro those_map_Some) (auto simp: holds_def in_place)
  then show ?thesis
    by (simp add: read_vns_def n map_nth)
qed

lemma emit_op_holds:
  "pid = pool_id s \<Longrightarrow> holds (pool s) c xs \<Longrightarrow> n = length xs \<Longrightarrow>
   emit_op s \<lparr>pd_opc = opc, pd_outvar = None, pd_invar = Some (VPtr pid c), pd_isize = n\<rparr> = Some (opc, None, xs)"
  "pid = pool_id s \<Longrightarrow> holds (pool s) c xs \<Longrightarrow> n = length xs \<Longrightarrow> q < length (pool s) \<Longrightarrow>
   emit_op s \<lparr>pd_opc = opc, pd_outvar = Some (VPtr pid q), pd_invar = Some (VPtr pid c), pd_isize = n\<rparr> =
     Some (opc, Some (pool s ! q), xs)"
  by (simp_all add: emit_op_def read_holds in_place)

lemma emit_add:
  assumes "holds (pool s) (c + 1) [pointer_vn b t]" and "holds (pool s) e (extra_cells b t)"
  shows "those (map (emit_op s) (add_ops b t (pool_id s) (c + 1) e)) = Some (add_code b t)"
  using assms by (simp add: add_ops_def add_code_def emit_op_holds extra_cells_def holds_simps pointer_vn_def Let_def)

lemma those_append: "those (xs @ ys) = do { as \<leftarrow> those xs; bs \<leftarrow> those ys; Some (as @ bs) }"
  by (induction xs) (auto split: option.split Option.bind_splits)

lemma length_those: "those xs = Some ys \<Longrightarrow> length ys = length xs"
  by (induction xs arbitrary: ys) (auto split: option.splits)

lemma emit_input:
  assumes "t_dynamic t \<Longrightarrow> holds (pool s) q [generateLocation b t]" and "holds (pool s) c (input_cells b t)"
  shows "those (map (emit_op s) (input_ops b (pool_id s) q c t)) = Some (load_code b t)"
proof (cases "t_dynamic t")
  case True
  then have cells: "holds (pool s) c (pointer_cells b t)" "holds (pool s) (c + 2) (extra_cells b t)"
    using assms(2) by (simp_all add: input_cells_def holds_simps pointer_cells_def)
  have "those (map (emit_op s) (add_ops b t (pool_id s) (c + 1) (c + 2))) = Some (add_code b t)"
    using cells by (intro emit_add) (simp_all add: pointer_cells_def holds_simps)
  moreover have "emit_op s \<lparr>pd_opc = cpui_load b, pd_outvar = Some (VPtr (pool_id s) q),
      pd_invar = Some (VPtr (pool_id s) c), pd_isize = 2\<rparr> = Some (cpui_load b, Some (pool s ! q), pointer_cells b t)"
    using assms(1) [OF True] cells(1) by (intro emit_op_holds) (simp_all add: pointer_cells_def holds_simps)
  ultimately show ?thesis
    using assms(1) [OF True] True
    by (simp add: input_ops_def load_code_def those_append pointer_cells_def holds_simps)
qed (simp add: input_ops_def load_code_def)

lemma emit_inputs:
  assumes "list_all2 (\<lambda>t v. t_dynamic t \<longrightarrow> v = generateLocation b t) ts vs"
    and "holds (pool s) q vs" and "holds (pool s) c (ins_cells b ts)"
  shows "those (map (emit_op s) (ins_ops b (pool_id s) q c ts)) = Some (concat (map (load_code b) ts))"
  using assms
proof (induction ts vs arbitrary: q c rule: list_all2_induct)
  case Nil
  then show ?case by simp
next
  case (Cons t ts v vs)
  have "those (map (emit_op s) (input_ops b (pool_id s) q c t)) = Some (load_code b t)"
    using Cons by (intro emit_input) (auto simp: ins_cells_def holds_simps)
  moreover have "those (map (emit_op s) (ins_ops b (pool_id s) (q + 1) (c + length (input_cells b t)) ts)) =
      Some (concat (map (load_code b) ts))"
    using Cons by (intro Cons.IH) (auto simp: ins_cells_def holds_simps)
  ultimately show ?case
    by (simp add: those_append)
qed

section \<open>The output\<close>

definition out_cells :: "'sp builder \<Rightarrow> 'sp vn_tpl \<Rightarrow> 'sp varnode list" where
  "out_cells b t = (if t_dynamic t then pointer_cells b t @ [generateLocation b t] @ extra_cells b t
     else [generateLocation b t])"

definition out_ops :: "'sp builder \<Rightarrow> nat \<Rightarrow> nat \<Rightarrow> 'sp vn_tpl \<Rightarrow> pcode_data list" where
  "out_ops b pid c t =
     (if t_dynamic t then add_ops b t pid (c + 1) (c + 3) @
        [\<lparr>pd_opc = cpui_store b, pd_outvar = None, pd_invar = Some (VPtr pid c), pd_isize = 3\<rparr>]
      else [])"

definition outvar_at :: "nat \<Rightarrow> 'sp vn_tpl \<Rightarrow> nat" where
  "outvar_at c t = (if t_dynamic t then c + 2 else c)"

lemma length_out_ops: "length (out_ops b j k t) = length (store_code b t)"
  by (simp add: out_ops_def store_code_def add_code_def Let_def)

lemma update_three:
  "pl[Suc (Suc c) := x, Suc c := y, c := z, Suc c := w] = pl[c := z, Suc c := w, Suc (Suc c) := x]"
proof (rule nth_equalityI)
  fix i
  assume "i < length (pl[Suc (Suc c) := x, Suc c := y, c := z, Suc c := w])"
  then show "pl[Suc (Suc c) := x, Suc c := y, c := z, Suc c := w] ! i = pl[c := z, Suc c := w, Suc (Suc c) := x] ! i"
    by (cases "i = c"; cases "i = Suc c"; cases "i = Suc (Suc c)") simp_all
qed simp

lemma output_in_place:
  assumes "issued s = ops @ [d]" and "curpool s + length (out_cells b t) \<le> length (pool s)"
    and "length (issued s) + length (store_code b t) \<le> issued_cap s"
  shows "dump_output b (OPtr (issued_id s) (length ops)) t s =
    Some (s\<lparr>curpool := curpool s + length (out_cells b t), pool := put (pool s) (curpool s) (out_cells b t),
      issued := ops @ [d\<lparr>pd_outvar := Some (VPtr (pool_id s) (outvar_at (curpool s) t))\<rparr>] @
        out_ops b (pool_id s) (curpool s) t\<rparr>)"
proof (cases "t_dynamic t")
  case True
  let ?d = "d\<lparr>pd_outvar := Some (VPtr (pool_id s) (curpool s + 2))\<rparr>"
  let ?st = "\<lparr>pd_opc = cpui_store b, pd_outvar = None, pd_invar = Some (VPtr (pool_id s) (curpool s)), pd_isize = 3\<rparr>"
  let ?s = "s\<lparr>curpool := curpool s + 3, issued := (ops @ [?d]) @ [?st],
    pool := (pool s)[curpool s + 2 := generateLocation b t, curpool s + 1 := fst (generatePointer b t),
      curpool s := space_vn b (snd (generatePointer b t))]\<rparr>"
  have room: "curpool s + 3 \<le> length (pool s)" "length ops + 1 < issued_cap s"
    using assms True by (simp_all add: out_cells_def pointer_cells_def store_code_def)
  have "dump_output b (OPtr (issued_id s) (length ops)) t s =
      (if t_offset_plus t then generatePointerAdd b (OPtr (issued_id ?s) (length (ops @ [?d]))) t ?s else Some ?s)"
    using True assms(1) room
    by (simp add: dump_output_def instruction_in_place in_place allocate_in_place null_op_def case_prod_unfold
        list_update_append nth_append Let_def)
  also have "\<dots> = Some (?s\<lparr>curpool := curpool ?s + length (extra_cells b t),
      pool := put ((pool ?s)[curpool s + 1 := pointer_vn b t]) (curpool ?s) (extra_cells b t),
      issued := (ops @ [?d]) @ add_ops b t (pool_id ?s) (curpool s + 1) (curpool ?s) @ [?st]\<rparr>)"
    using assms True room
    by (intro pointer_add_in_place [where p = "curpool s" and i = 0 and j = 0 and k = 0])
      (auto simp: out_cells_def pointer_cells_def store_code_def add_code_def Let_def)
  finally show ?thesis
    using True by (simp add: out_cells_def pointer_cells_def out_ops_def outvar_at_def update_three numeral_3_eq_3)
next
  case False
  then show ?thesis
    using assms by (simp add: dump_output_def allocate_in_place in_place out_cells_def out_ops_def outvar_at_def)
qed

lemma emit_output:
  assumes "holds (pool s) c (out_cells b t)"
  shows "those (map (emit_op s) (out_ops b (pool_id s) c t)) = Some (store_code b t)"
    and "pool s ! outvar_at c t = generateLocation b t" and "outvar_at c t < length (pool s)"
proof -
  show "those (map (emit_op s) (out_ops b (pool_id s) c t)) = Some (store_code b t)"
  proof (cases "t_dynamic t")
    case True
    then have cells: "holds (pool s) c (pointer_cells b t @ [generateLocation b t])"
        "holds (pool s) (c + 3) (extra_cells b t)"
      using assms by (simp_all add: out_cells_def holds_simps pointer_cells_def eval_nat_numeral)
    have "those (map (emit_op s) (add_ops b t (pool_id s) (c + 1) (c + 3))) = Some (add_code b t)"
      using cells by (intro emit_add) (simp_all add: pointer_cells_def holds_simps)
    moreover have "emit_op s \<lparr>pd_opc = cpui_store b, pd_outvar = None, pd_invar = Some (VPtr (pool_id s) c), pd_isize = 3\<rparr> =
        Some (cpui_store b, None, pointer_cells b t @ [generateLocation b t])"
      using cells(1) by (intro emit_op_holds) (simp_all add: pointer_cells_def)
    ultimately show ?thesis
      using True by (simp add: out_ops_def store_code_def those_append pointer_cells_def)
  qed (simp add: out_ops_def store_code_def)
  show "pool s ! outvar_at c t = generateLocation b t" "outvar_at c t < length (pool s)"
    using assms by (auto simp: out_cells_def outvar_at_def pointer_cells_def holds_simps)
qed

section \<open>The whole operation\<close>

definition output_cells :: "'sp builder \<Rightarrow> 'sp op_tpl \<Rightarrow> 'sp varnode list" where
  "output_cells b op = (case o_out op of None \<Rightarrow> [] | Some t \<Rightarrow> out_cells b t)"

definition dump_cells :: "'sp builder \<Rightarrow> 'sp op_tpl \<Rightarrow> 'sp varnode list" where
  "dump_cells b op = in_locations b (o_in op) @ ins_cells b (o_in op) @ output_cells b op"

definition dump_ops :: "'sp builder \<Rightarrow> 'sp op_tpl \<Rightarrow> nat \<Rightarrow> nat \<Rightarrow> pcode_data list" where
  "dump_ops b op pid q =
     (let c = q + length (o_in op); c' = c + length (ins_cells b (o_in op)) in
      ins_ops b pid q c (o_in op) @
      [\<lparr>pd_opc = o_opcode op, pd_outvar = map_option (\<lambda>t. VPtr pid (outvar_at c' t)) (o_out op),
         pd_invar = Some (VPtr pid q), pd_isize = length (o_in op)\<rparr>] @
      (case o_out op of None \<Rightarrow> [] | Some t \<Rightarrow> out_ops b pid c' t))"

definition dump_refs :: "'sp builder \<Rightarrow> 'sp op_tpl \<Rightarrow> nat \<Rightarrow> nat \<Rightarrow> nat \<Rightarrow> relative_record list" where
  "dump_refs b op pid q n =
     (if o_in op \<noteq> [] \<and> t_relative (hd (o_in op))
      then [\<lparr>dataptr = VPtr pid q, calling_index = of_nat (n + length (concat (map (load_code b) (o_in op))))\<rparr>]
      else [])"

lemma length_in_locations [simp]: "length (in_locations b ts) = length ts"
  by (simp add: in_locations_def Let_def split: list.split)

lemma length_op_code: "length (dump_ops b op pid q) = length (op_code b op)"
  by (simp add: dump_ops_def op_code_def length_ins_ops length_out_ops Let_def split: option.split)

lemma dump_in_place:
  assumes "curpool s + length (dump_cells b op) \<le> length (pool s)" and "length (pool s) < 2 ^ 32"
    and "length (issued s) + length (op_code b op) \<le> issued_cap s"
  shows "dump b op s = Some (s\<lparr>curpool := curpool s + length (dump_cells b op),
    pool := put (pool s) (curpool s) (dump_cells b op),
    issued := issued s @ dump_ops b op (pool_id s) (curpool s),
    label_refs := label_refs s @ dump_refs b op (pool_id s) (curpool s) (length (issued s))\<rparr>)"
proof -
  let ?n = "length (o_in op)" and ?q = "curpool s" and ?c = "curpool s + length (o_in op)"
  let ?c' = "?c + length (ins_cells b (o_in op))" and ?ops = "ins_ops b (pool_id s) ?q ?c (o_in op)"
  define s1 where "s1 = s\<lparr>curpool := ?c', issued := issued s @ ?ops,
    pool := put (put (pool s) ?q (map (generateLocation b) (o_in op))) ?c (ins_cells b (o_in op))\<rparr>"
  have n: "unat (of_nat ?n :: u32) = ?n"
    using assms(1,2) by (intro unat_of_nat_u32) (simp add: dump_cells_def)
  have alloc: "allocateVarnodes (b_junk b) (of_nat ?n) s = Some (VPtr (pool_id s) ?q, s\<lparr>curpool := ?c\<rparr>)"
    using assms(1) n by (simp add: allocate_in_place dump_cells_def)
  have inputs: "dump_inputs b (VPtr (pool_id s) ?q) 0 (o_in op) (s\<lparr>curpool := ?c\<rparr>) = Some s1"
    using inputs_in_place [where s = "s\<lparr>curpool := ?c\<rparr>" and q = ?q and i = 0 and ts = "o_in op" and b = b] assms
    by (simp add: s1_def dump_cells_def op_code_def)
  define s2 where "s2 = s\<lparr>curpool := ?c', issued := issued s @ ?ops,
    pool := put (put (pool s) ?q (in_locations b (o_in op))) ?c (ins_cells b (o_in op)),
    label_refs := label_refs s @ dump_refs b op (pool_id s) ?q (length (issued s))\<rparr>"
  have adjust: "(if ?n > 0 \<and> t_relative (hd (o_in op)) then do {
      v \<leftarrow> read_vn s1 (VPtr (pool_id s) ?q);
      s1 \<leftarrow> write_vn (VPtr (pool_id s) ?q) (v\<lparr>vn_offset := vn_offset v + ucast (labelBase b)\<rparr>) s1;
      Some (addLabelRef (VPtr (pool_id s) ?q) s1) } else Some s1) = Some s2"
  proof (cases "o_in op")
    case (Cons t ts)
    have "?q < length (pool s)"
      using assms(1) Cons by (simp add: dump_cells_def)
    then show ?thesis
      using assms(1)
      by (simp add: Cons s1_def s2_def dump_refs_def in_place put_nth put_update addLabelRef_def in_locations_def
          length_ins_ops length_input_ops dump_cells_def add.assoc Let_def)
  qed (simp add: s1_def s2_def dump_refs_def in_locations_def)
  let ?d = "\<lparr>pd_opc = o_opcode op, pd_outvar = None, pd_invar = Some (VPtr (pool_id s) ?q), pd_isize = ?n\<rparr>"
  have cap: "length (issued s) + length ?ops < issued_cap s"
    using assms(3) by (simp add: op_code_def length_ins_ops)
  have main: "dump b op s = (case o_out op of None \<Rightarrow> Some (s2\<lparr>issued := (issued s @ ?ops) @ [?d]\<rparr>)
      | Some t \<Rightarrow> dump_output b (OPtr (issued_id s) (length (issued s @ ?ops))) t
          (s2\<lparr>issued := (issued s @ ?ops) @ [?d]\<rparr>))"
    using cap
    by (simp add: dump_def alloc inputs adjust [simplified] Let_def s2_def instruction_in_place in_place null_op_def
        nth_append list_update_append split: option.split)
  show ?thesis
  proof (cases "o_out op")
    case None
    then show ?thesis
      using assms(1) by (simp add: main s2_def dump_cells_def dump_ops_def output_cells_def put_append Let_def)
  next
    case (Some t)
    let ?s = "s2\<lparr>issued := (issued s @ ?ops) @ [?d]\<rparr>"
    have "dump_output b (OPtr (issued_id ?s) (length (issued s @ ?ops))) t ?s =
      Some (?s\<lparr>curpool := curpool ?s + length (out_cells b t), pool := put (pool ?s) (curpool ?s) (out_cells b t),
        issued := (issued s @ ?ops) @ [?d\<lparr>pd_outvar := Some (VPtr (pool_id ?s) (outvar_at (curpool ?s) t))\<rparr>] @
          out_ops b (pool_id ?s) (curpool ?s) t\<rparr>)"
      using assms(1,3) Some
      by (intro output_in_place) (simp_all add: s2_def dump_cells_def output_cells_def op_code_def length_ins_ops)
    then show ?thesis
      using Some by (simp add: main s2_def dump_cells_def dump_ops_def output_cells_def put_append Let_def add.assoc)
  qed
qed

section \<open>The invariant after an operation\<close>

lemma input_ops_ok:
  "d \<in> set (input_ops b (pool_id s) q c t) \<Longrightarrow> q < curpool s \<Longrightarrow> c + length (input_cells b t) \<le> curpool s \<Longrightarrow> op_ok s d"
  by (auto simp: input_ops_def add_ops_def op_ok_def vp_ok_def input_cells_def pointer_cells_def extra_cells_def Let_def
      split: if_splits)

lemma ins_ops_ok:
  "d \<in> set (ins_ops b (pool_id s) q c ts) \<Longrightarrow> q + length ts \<le> curpool s \<Longrightarrow>
   c + length (ins_cells b ts) \<le> curpool s \<Longrightarrow> op_ok s d"
proof (induction ts arbitrary: q c)
  case (Cons t ts)
  then show ?case
    using input_ops_ok [of d b s q c t] by (auto simp: ins_cells_def)
qed simp

lemma out_ops_ok:
  "d \<in> set (out_ops b (pool_id s) c t) \<Longrightarrow> c + length (out_cells b t) \<le> curpool s \<Longrightarrow> op_ok s d"
  by (auto simp: out_ops_def add_ops_def op_ok_def vp_ok_def out_cells_def pointer_cells_def extra_cells_def Let_def
      split: if_splits)

lemma dump_ops_ok:
  assumes "d \<in> set (dump_ops b op (pool_id s) q)" and "q + length (dump_cells b op) \<le> curpool s"
  shows "op_ok s d"
proof -
  let ?c = "q + length (o_in op)"
  have "op_ok s d" if "d \<in> set (ins_ops b (pool_id s) q ?c (o_in op))"
    using ins_ops_ok [OF that] assms(2) by (simp add: dump_cells_def)
  moreover have "op_ok s d" if "o_out op = Some t" "d \<in> set (out_ops b (pool_id s) (?c + length (ins_cells b (o_in op))) t)" for t
    using out_ops_ok [OF that(2)] assms(2) that(1) by (simp add: dump_cells_def output_cells_def)
  moreover have "outvar_at c t < c + length (out_cells b t)" for c t
    by (simp add: outvar_at_def out_cells_def pointer_cells_def)
  ultimately show ?thesis
    using assms
    by (auto simp: dump_ops_def dump_cells_def output_cells_def op_ok_def vp_ok_def Suc_le_eq Let_def add.assoc
        split: option.splits) (metis add.assoc less_le_trans nat_add_left_cancel_le)
qed

text \<open>Adding operations and cells leaves the code so far as it is.\<close>

lemma extend_wf:
  assumes wf: "cacher_wf s" and room: "curpool s + length xs \<le> length (pool s)"
    and t: "t = s\<lparr>curpool := curpool s + length xs, pool := put (pool s) (curpool s) xs,
      issued := issued s @ ops, label_refs := label_refs s @ refs\<rparr>"
    and ok: "\<forall>d \<in> set ops. op_ok t d" "\<forall>r \<in> set refs. vp_ok t (dataptr r) 1"
  shows "cacher_wf t" and "emit t = do { code \<leftarrow> emit s; new \<leftarrow> those (map (emit_op t) ops); Some (code @ new) }"
proof -
  let ?t = "t\<lparr>issued := issued s, label_refs := label_refs s\<rparr>"
  have "take (curpool s) (put (pool s) (curpool s) xs) = take (curpool s) (pool s)"
    using room by (intro nth_equalityI) (simp_all add: put_nth)
  then have moved: "moved s ?t"
    using wf room t by (simp add: moved_def)
  have "cacher_wf ?t"
    using moved_wf [OF moved wf] wf t by (simp add: cacher_wf_def)
  then show "cacher_wf t"
    using ok t by (auto simp: cacher_wf_def op_ok_def vp_ok_def split: option.splits)
  have "read_vn ?t = read_vn t"
    by (simp add: fun_eq_iff read_vn_def)
  then have "emit_op ?t = emit_op t"
    by (simp add: fun_eq_iff emit_op_def read_vns_def cong: option.case_cong)
  then have "those (map (emit_op t) (issued s)) = emit s"
    using moved_view [OF moved wf] by (simp add: cacher_view_def emit_def)
  then show "emit t = do { code \<leftarrow> emit s; new \<leftarrow> those (map (emit_op t) ops); Some (code @ new) }"
    using t by (simp add: emit_def those_append)
qed

lemma dump_ops_emit:
  assumes "holds (pool s) q (dump_cells b op)" and "\<forall>t \<in> set (o_in op). t_relative t \<longrightarrow> \<not> t_dynamic t"
  shows "those (map (emit_op s) (dump_ops b op (pool_id s) q)) = Some (op_code b op)"
proof -
  let ?c = "q + length (o_in op)" and ?c' = "q + length (o_in op) + length (ins_cells b (o_in op))"
  have cells: "holds (pool s) q (in_locations b (o_in op))" "holds (pool s) ?c (ins_cells b (o_in op))"
      "holds (pool s) ?c' (output_cells b op)"
    using assms(1) by (simp_all add: dump_cells_def holds_append)
  have "list_all2 (\<lambda>t v. t_dynamic t \<longrightarrow> v = generateLocation b t) (o_in op) (in_locations b (o_in op))"
    using assms(2) by (auto simp: in_locations_def list_all2_map2 list_all2_same Let_def split: list.split)
  then have ins: "those (map (emit_op s) (ins_ops b (pool_id s) q ?c (o_in op))) = Some (concat (map (load_code b) (o_in op)))"
    using cells by (intro emit_inputs)
  show ?thesis
  proof (cases "o_out op")
    case None
    then show ?thesis
      using ins cells(1) by (simp add: dump_ops_def op_code_def those_append emit_op_holds Let_def)
  next
    case (Some t)
    then have "holds (pool s) ?c' (out_cells b t)"
      using cells(3) by (simp add: output_cells_def)
    from emit_output [OF this] show ?thesis
      using Some ins cells(1) by (simp add: dump_ops_def op_code_def those_append emit_op_holds Let_def)
  qed
qed

section \<open>Properties\<close>

text \<open>C18: Translating one operation. While the pool and the vector of operations have room, and no input
  that is relative to a label is dynamic as well (templates have none), \<open>dump\<close> adds to the code exactly the operation's: a load for each dynamic input, with an addition in front when
  its handle has an offset, then the operation on the locations (a branch target within the
  instruction counted from the label base), then the store of a dynamic output; the code before it
  and the invariant stay, and a relative branch is noted with the index its operation has in the
  emitted code.\<close>

theorem dump_emits_op_code:
  assumes "cacher_wf s" and "emit s = Some code"
    and "curpool s + length (dump_cells b op) \<le> length (pool s)"
    and "length code + length (op_code b op) \<le> issued_cap s"
    and "\<forall>t \<in> set (o_in op). t_relative t \<longrightarrow> \<not> t_dynamic t"
  shows "\<exists>t. dump b op s = Some t \<and> cacher_wf t \<and> emit t = Some (code @ op_code b op) \<and> labels t = labels s \<and>
    label_refs t = label_refs s @ dump_refs b op (pool_id s) (curpool s) (length code)"
proof -
  have code: "length code = length (issued s)"
    using assms(2) length_those by (fastforce simp: emit_def)
  define t where "t = s\<lparr>curpool := curpool s + length (dump_cells b op),
    pool := put (pool s) (curpool s) (dump_cells b op),
    issued := issued s @ dump_ops b op (pool_id s) (curpool s),
    label_refs := label_refs s @ dump_refs b op (pool_id s) (curpool s) (length (issued s))\<rparr>"
  have dump: "dump b op s = Some t"
    unfolding t_def using assms(1,3,4) code by (intro dump_in_place) (simp_all add: cacher_wf_def)
  have ops: "\<forall>d \<in> set (dump_ops b op (pool_id s) (curpool s)). op_ok t d"
    using dump_ops_ok [of _ b op t "curpool s"] by (auto simp: t_def)
  have refs: "\<forall>r \<in> set (dump_refs b op (pool_id s) (curpool s) (length (issued s))). vp_ok t (dataptr r) 1"
    by (cases "o_in op") (auto simp: dump_refs_def vp_ok_def t_def dump_cells_def)
  note ext = extend_wf [OF assms(1,3) t_def ops refs]
  have "holds (pool t) (curpool s) (dump_cells b op)"
    using assms(3) by (simp add: t_def holds_put)
  from dump_ops_emit [OF this assms(5)] have "emit t = Some (code @ op_code b op)"
    using ext(2) assms(2) by (simp add: t_def)
  then show ?thesis
    using dump ext(1) code by (intro exI [of _ t]) (simp add: t_def)
qed

text \<open>The instance: a branch to label 0 on a fresh cacher with room for four operations.\<close>

definition sample_builder :: "nat builder" where
  "sample_builder = \<lparr>const_space = 0, uniq_space = 1, uniqueoffset = 0, labelBase = 0,
     wrapOffset = (\<lambda>sp off. off), calc_mask = (\<lambda>n. mask (8 * unat n)), space_ptr = of_nat, unique_ea = 0x100,
     cpui_load = 2, cpui_store = 3, cpui_int_add = 19,
     b_junk = (\<lambda>i. \<lparr>vn_space = 9, vn_offset = 9, vn_size = 9\<rparr>), b_grow = (\<lambda>n. 2 * n)\<rparr>"

definition sample_tpl :: "nat vn_tpl" where
  "sample_tpl = \<lparr>t_dynamic = False, t_relative = False, t_offset_plus = False, t_space = 0, t_size = 4,
     t_offset = 0, t_real = 0,
     t_handle = \<lparr>fh_space = 2, fh_offset_space = 3, fh_offset_size = 8, fh_offset_offset = 0x40\<rparr>\<rparr>"

definition sample_cacher :: "nat \<Rightarrow> nat pcode_cacher" where
  "sample_cacher free = (new_cacher (b_junk sample_builder))\<lparr>curpool := 600 - free, issued_cap := 4\<rparr>"

lemma sample_cacher_wf: "cacher_wf (sample_cacher free)"
  by (simp add: cacher_wf_def sample_cacher_def new_cacher_def)

theorem dump_emits_op_code_witness:
  "\<exists>t. dump sample_builder \<lparr>o_opcode = 4, o_in = [sample_tpl\<lparr>t_relative := True\<rparr>, sample_tpl\<lparr>t_dynamic := True\<rparr>],
      o_out = None\<rparr> (sample_cacher 9) = Some t \<and> (\<exists>code. emit t = Some code \<and> length code = 2) \<and> length (label_refs t) = 1"
proof -
  let ?op = "\<lparr>o_opcode = 4, o_in = [sample_tpl\<lparr>t_relative := True\<rparr>, sample_tpl\<lparr>t_dynamic := True\<rparr>], o_out = None\<rparr>"
  have 1: "emit (sample_cacher 9) = Some []"
    by (simp add: emit_def sample_cacher_def new_cacher_def)
  have 2: "length (dump_cells sample_builder ?op) = 4" "length (op_code sample_builder ?op) = 2"
    by (simp_all add: dump_cells_def ins_cells_def output_cells_def input_cells_def pointer_cells_def extra_cells_def
        op_code_def load_code_def add_code_def pointer_plus_def sample_tpl_def Let_def)
  have 3: "label_refs (sample_cacher 9) @ dump_refs sample_builder ?op p q n = dump_refs sample_builder ?op p q n"
      "length (dump_refs sample_builder ?op p q n) = 1" for p q n
    by (simp_all add: sample_cacher_def new_cacher_def dump_refs_def sample_tpl_def)
  show ?thesis
    using dump_emits_op_code [OF sample_cacher_wf 1, of sample_builder ?op] 2 3
    by (auto simp: sample_cacher_def new_cacher_def sample_tpl_def)
qed

section \<open>Pointers kept across an allocation\<close>

text \<open>\<open>allocateInstruction\<close> in either case.\<close>

lemma allocateInstruction_append:
  "\<exists>iid cap. allocateInstruction grow s =
     (OPtr iid (length (issued s)), s\<lparr>issued_id := iid, issued_cap := cap, issued := issued s @ [null_op]\<rparr>)"
proof (cases "length (issued s) < issued_cap s")
  case True
  then show ?thesis
    by (intro exI [of _ "issued_id s"] exI [of _ "issued_cap s"]) (simp add: allocateInstruction_def null_op_def)
next
  case False
  then show ?thesis
    by (auto simp: allocateInstruction_def null_op_def Let_def)
qed

text \<open>The operation \<open>generatePointerAdd\<close> was given is gone when the vector moves.\<close>

lemma pointer_add_moves_vector:
  "pointer_plus t \<noteq> 0 \<Longrightarrow> \<not> length (issued s) < issued_cap s \<Longrightarrow>
   generatePointerAdd b (OPtr (issued_id s) k) t s = None"
  by (auto simp: generatePointerAdd_def pointer_plus_def allocateInstruction_def read_op_def Let_def split: if_splits)

text \<open>The array of inputs is used after it is freed. If the pool has room for the inputs of an
  operation but not for the parameters of the load its dynamic first input needs, the pool is moved
  there, and the next input is written through the pointer into the freed pool.\<close>

theorem dump_uses_freed_pool:
  assumes "cacher_wf s" and "o_in op = t # t' # ts" and "t_dynamic t" and "pointer_plus t = 0"
    and "curpool s + length (o_in op) \<le> length (pool s)" and "length (pool s) < curpool s + length (o_in op) + 2"
    and "length (pool s) + 102 < 2 ^ 32"
  shows "dump b op s = None"
proof -
  let ?n = "length (o_in op)" and ?q = "curpool s"
  have n: "unat (of_nat ?n :: u32) = ?n"
    using assms(5,7) by (intro unat_of_nat_u32) simp
  have alloc: "allocateVarnodes (b_junk b) (of_nat ?n) s = Some (VPtr (pool_id s) ?q, s\<lparr>curpool := ?q + ?n\<rparr>)"
    using assms(5) n by (simp add: allocate_in_place)
  have q: "?q < length (pool s)"
    using assms(2,5) by simp
  define pl where "pl = (pool s)[?q := generateLocation b t]"
  define d where "d = \<lparr>pd_opc = cpui_load b, pd_outvar = Some (VPtr (pool_id s) ?q), pd_invar = None, pd_isize = 2\<rparr>"
  obtain iid cap where instr: "allocateInstruction (b_grow b) (s\<lparr>curpool := ?q + ?n, pool := pl\<rparr>) =
      (OPtr iid (length (issued s)), s\<lparr>curpool := ?q + ?n, pool := pl, issued_id := iid, issued_cap := cap,
        issued := issued s @ [null_op]\<rparr>)"
    using allocateInstruction_append [of "b_grow b" "s\<lparr>curpool := ?q + ?n, pool := pl\<rparr>"] by auto
  define s1 where "s1 = s\<lparr>curpool := ?q + ?n, pool := pl, issued_id := iid, issued_cap := cap, issued := issued s @ [d]\<rparr>"
  have "cacher_wf s1"
    using assms(1,2,5,7) by (auto simp: s1_def cacher_wf_def op_ok_def vp_ok_def d_def pl_def split: option.splits)
  from allocate_expand [OF this, of 2 "b_junk b"]
  obtain s2 where s2: "allocateVarnodes (b_junk b) 2 s1 = Some (VPtr (pool_id s + 1) (?q + ?n), s2)" "moved s1 s2"
      "pool_id s2 = pool_id s + 1" "curpool s2 = ?q + ?n + 2" "issued_id s2 = iid"
    using assms(5-7) by (auto simp: s1_def pl_def)
  have len: "length (issued s2) = length (issued s) + 1" "?q + ?n + 1 < length (pool s2)"
    using s2(2,4) by (auto simp: moved_def s1_def)
  obtain s3 where "dump_input b (VPtr (pool_id s) ?q) 0 t (s\<lparr>curpool := ?q + ?n\<rparr>) = Some s3" "pool_id s3 = pool_id s + 1"
    using assms(3,4) q s2 len
    by (auto simp: dump_input_def in_place instr pl_def [symmetric] null_op_def d_def [symmetric] s1_def [symmetric]
        pointer_plus_def generatePointerAdd_def case_prod_unfold Let_def split: if_splits)
  moreover have "dump_input b (VPtr (pool_id s) ?q) 1 t' s3 = None" if "pool_id s3 = pool_id s + 1" for s3
    using that by (simp add: dump_input_def write_vn_def vptr_add_def)
  ultimately show ?thesis
    using assms(2) alloc by (simp add: dump_def Let_def)
qed

theorem dump_uses_freed_pool_witness:
  "dump sample_builder \<lparr>o_opcode = 4, o_in = [sample_tpl\<lparr>t_dynamic := True\<rparr>, sample_tpl], o_out = None\<rparr>
     (sample_cacher 3) = None"
  using dump_uses_freed_pool [OF sample_cacher_wf, of _ "sample_tpl\<lparr>t_dynamic := True\<rparr>" sample_tpl "[]" 3 sample_builder]
  by (simp add: sample_cacher_def new_cacher_def sample_tpl_def pointer_plus_def)

end
