(* ===== verification/Disassembly_Cache.thy ===== *)
theory Disassembly_Cache
  imports Ghidra_Worker
begin

text \<open>
  The cache of parser contexts of the SLEIGH engine (src/worker/ghidra/sleighMishegos.hh and
  sleighMishegos.cc: \<open>DisassemblyCache\<close>), which the adapted engine keeps but no longer uses: a
  circular list of contexts and a hash table over the low bits of the address. Contexts are
  numbered by their place in the list; of a context its address and state matter here. An address
  is a space and an offset; the default \<open>Address\<close> of a new context is \<open>None\<close>.
\<close>

section \<open>The cache\<close>

record 'sp dis_cache =
  minimumreuse :: nat
  cache_mask :: u32
  ctx_addr :: "('sp \<times> u64) option list"
  ctx_state :: "parse_state list"
  nextfree :: nat
  hashtable :: "nat list"

text \<open>\<open>coveringmask\<close> gives the least mask that covers a value; a size that is not a power of two throws.\<close>

definition cache_initialize :: "(u64 \<Rightarrow> u64) \<Rightarrow> nat \<Rightarrow> u32 \<Rightarrow> 'sp dis_cache option" where
  "cache_initialize coveringmask minreuse hashsize =
     (let m = hashsize - 1 in
      if coveringmask (ucast m) \<noteq> ucast m then None
      else Some \<lparr>minimumreuse = minreuse, cache_mask = m,
        ctx_addr = replicate minreuse None, ctx_state = replicate minreuse uninitialized,
        nextfree = 0, hashtable = replicate (unat hashsize) 0\<rparr>)"

definition getParserContext :: "'sp \<times> u64 \<Rightarrow> 'sp dis_cache \<Rightarrow> (nat \<times> 'sp dis_cache) option" where
  "getParserContext addr s =
     (let hashindex = unat (ucast (snd addr) AND cache_mask s) in do {
        res \<leftarrow> peek (hashtable s) hashindex;
        a \<leftarrow> peek (ctx_addr s) res;
        if a = Some addr then Some (res, s)
        else do {
          let res = nextfree s;
          let free = (if nextfree s + 1 \<ge> minimumreuse s then 0 else nextfree s + 1);
          addrs \<leftarrow> poke (ctx_addr s) res (Some addr);
          states \<leftarrow> poke (ctx_state s) res uninitialized;
          table \<leftarrow> poke (hashtable s) hashindex res;
          Some (res, s\<lparr>nextfree := free, ctx_addr := addrs, ctx_state := states, hashtable := table\<rparr>) } })"

primrec getParserContexts :: "('sp \<times> u64) list \<Rightarrow> 'sp dis_cache \<Rightarrow> (nat list \<times> 'sp dis_cache) option" where
  "getParserContexts [] s = Some ([], s)"
| "getParserContexts (a # as) s = do {
     (i, s) \<leftarrow> getParserContext a s;
     (is, s) \<leftarrow> getParserContexts as s;
     Some (i # is, s) }"

lemma getParserContexts_append:
  "getParserContexts (as @ bs) s = do {
     (is, s) \<leftarrow> getParserContexts as s;
     (js, s) \<leftarrow> getParserContexts bs s;
     Some (is @ js, s) }"
  by (induction as arbitrary: s) (auto split: Option.bind_splits)

section \<open>Calls on a fresh cache\<close>

definition cache_hash :: "u32 \<Rightarrow> 'sp \<times> u64 \<Rightarrow> nat" where
  "cache_hash m addr = unat (ucast (snd addr) AND m)"

lemma cache_hash_le: "cache_hash m addr \<le> unat m"
  by (simp add: cache_hash_def word_le_nat_alt [symmetric] word_and_le1)

text \<open>The state after one call for each of \<open>as\<close>, whose hashes are distinct.\<close>

definition filled :: "('sp \<times> u64) list \<Rightarrow> 'sp dis_cache \<Rightarrow> bool" where
  "filled as s \<longleftrightarrow> length as \<le> minimumreuse s \<and> 0 < minimumreuse s \<and>
     length (ctx_addr s) = minimumreuse s \<and> length (ctx_state s) = minimumreuse s \<and>
     length (hashtable s) = unat (cache_mask s) + 1 \<and>
     nextfree s = (if length as = minimumreuse s then 0 else length as) \<and>
     (\<forall>i < length as. ctx_addr s ! i = Some (as ! i) \<and> hashtable s ! cache_hash (cache_mask s) (as ! i) = i) \<and>
     (as = [] \<longrightarrow> ctx_addr s ! 0 = None) \<and>
     (\<forall>h \<le> unat (cache_mask s). h \<notin> cache_hash (cache_mask s) ` set as \<longrightarrow> hashtable s ! h = 0)"

lemma filled_first: "filled as s \<Longrightarrow> ctx_addr s ! 0 = (if as = [] then None else Some (hd as))"
  by (cases as) (auto simp: filled_def)

text \<open>A hit, and a miss.\<close>

lemma filled_hit:
  assumes "filled as s" and "i < length as"
  shows "getParserContext (as ! i) s = Some (i, s)"
proof -
  have "cache_hash (cache_mask s) (as ! i) < length (hashtable s)"
    using cache_hash_le [of "cache_mask s" "as ! i"] assms by (simp add: filled_def)
  then show ?thesis
    using assms by (auto simp: getParserContext_def filled_def peek_def cache_hash_def Let_def)
qed

lemma filled_miss:
  assumes filled: "filled as s" and new: "cache_hash (cache_mask s) a \<notin> cache_hash (cache_mask s) ` set as"
  shows "\<exists>t. getParserContext a s = Some (nextfree s, t) \<and>
    (length as < minimumreuse s \<longrightarrow> filled (as @ [a]) t \<and> cache_mask t = cache_mask s \<and> minimumreuse t = minimumreuse s)"
proof -
  let ?h = "cache_hash (cache_mask s) a"
  have h: "?h < length (hashtable s)" "?h \<le> unat (cache_mask s)"
    using cache_hash_le [of "cache_mask s" a] filled by (simp_all add: filled_def)
  have zero: "hashtable s ! ?h = 0"
    using filled new h by (simp add: filled_def)
  have "a \<notin> set as"
    using new by blast
  then have "ctx_addr s ! 0 \<noteq> Some a"
    using filled_first [OF filled] by (auto simp: hd_in_set)
  moreover have len: "0 < length (ctx_addr s)" "nextfree s < length (ctx_addr s)" "nextfree s < length (ctx_state s)"
    using filled by (auto simp: filled_def)
  ultimately obtain t where t: "getParserContext a s = Some (nextfree s, t)"
      "t = s\<lparr>nextfree := (if nextfree s + 1 \<ge> minimumreuse s then 0 else nextfree s + 1),
         ctx_addr := (ctx_addr s)[nextfree s := Some a], ctx_state := (ctx_state s)[nextfree s := uninitialized],
         hashtable := (hashtable s)[?h := nextfree s]\<rparr>"
    using zero h by (auto simp: getParserContext_def peek_def poke_def cache_hash_def Let_def)
  have "filled (as @ [a]) t" if less: "length as < minimumreuse s"
  proof -
    have next_is: "nextfree s = length as"
      using filled less by (simp add: filled_def)
    have "(ctx_addr t ! i = Some ((as @ [a]) ! i)) \<and> hashtable t ! cache_hash (cache_mask s) ((as @ [a]) ! i) = i"
      if "i < length (as @ [a])" for i
    proof (cases "i = length as")
      case True
      then show ?thesis
        using t(2) next_is less h len by simp
    next
      case False
      then have i: "i < length as"
        using that by simp
      then have "cache_hash (cache_mask s) (as ! i) \<noteq> ?h"
        using new by (metis imageI nth_mem)
      then show ?thesis
        using t(2) next_is filled i by (simp add: filled_def nth_append)
    qed
    then show ?thesis
      using filled t(2) next_is less by (auto simp: filled_def)
  qed
  then show ?thesis
    using t by auto
qed

lemma filled_calls:
  assumes "filled as s" and "length as + length bs \<le> minimumreuse s"
    and "distinct (map (cache_hash (cache_mask s)) (as @ bs))"
  shows "\<exists>t. getParserContexts bs s = Some ([length as..<length as + length bs], t) \<and> filled (as @ bs) t \<and>
    cache_mask t = cache_mask s \<and> minimumreuse t = minimumreuse s"
  using assms
proof (induction bs arbitrary: as s)
  case Nil
  then show ?case by simp
next
  case (Cons b bs)
  then have less: "length as < minimumreuse s"
    and new: "cache_hash (cache_mask s) b \<notin> cache_hash (cache_mask s) ` set as"
    by auto
  obtain s1 where s1: "getParserContext b s = Some (nextfree s, s1)" "filled (as @ [b]) s1"
      "cache_mask s1 = cache_mask s" "minimumreuse s1 = minimumreuse s"
    using filled_miss [OF Cons.prems(1) new] less by blast
  have "nextfree s = length as"
    using Cons.prems(1) less by (simp add: filled_def)
  moreover obtain t where "getParserContexts bs s1 = Some ([length (as @ [b])..<length (as @ [b]) + length bs], t)"
      "filled ((as @ [b]) @ bs) t" "cache_mask t = cache_mask s1" "minimumreuse t = minimumreuse s1"
    using Cons.IH [OF s1(2)] Cons.prems(2,3) s1(3,4) by auto
  ultimately show ?case
    using s1 by (intro exI [of _ t]) (simp add: upt_conv_Cons del: upt_Suc)
qed

text \<open>Addresses within a window of the size of the table have distinct hashes.\<close>

definition in_window :: "'sp \<Rightarrow> u64 \<Rightarrow> nat \<Rightarrow> 'sp \<times> u64" where
  "in_window sp base k = (sp, base + of_nat k)"

lemma window_hash:
  assumes "m \<le> 32"
  shows "cache_hash (mask m) (in_window sp base k) = (unat base + k) mod 2 ^ m"
proof -
  have "unat (ucast x AND mask m :: u32) = unat x mod 2 ^ m" for x :: u64
    using assms by (simp add: take_bit_eq_mask [symmetric] unsigned_take_bit_eq unsigned_ucast_eq
        take_bit_eq_mod [symmetric] min_absorb2 min_absorb1)
  moreover have "unat (base + of_nat k) mod 2 ^ m = (unat base + k) mod 2 ^ m"
  proof -
    have "(2 :: nat) ^ m dvd 2 ^ 64"
      using assms by (intro le_imp_power_dvd) simp
    moreover have "unat (base + of_nat k) = (unat base + k) mod 2 ^ 64"
      by (simp add: unat_word_ariths unat_of_nat mod_add_right_eq)
    ultimately show ?thesis
      by (simp only: mod_mod_cancel)
  qed
  ultimately show ?thesis
    by (simp add: cache_hash_def in_window_def)
qed

lemma window_hashes_distinct:
  assumes "m \<le> 32" and "distinct ks" and "\<forall>k \<in> set ks. k < 2 ^ m"
  shows "distinct (map (cache_hash (mask m)) (map (in_window sp base) ks))"
proof -
  have le: "k \<ge> l" if "(b + k) mod 2 ^ m = (b + l) mod 2 ^ m" "l < 2 ^ m" for k l b :: nat
  proof (rule ccontr)
    assume "\<not> l \<le> k"
    then have "2 ^ m dvd l - k"
      using that(1) mod_eq_dvd_iff_nat [of "b + k" "b + l" "2 ^ m"] by simp
    then show False
      using \<open>\<not> l \<le> k\<close> that(2) by (auto dest: dvd_imp_le)
  qed
  have "inj_on (\<lambda>k. (unat base + k) mod 2 ^ m) (set ks)"
  proof (rule inj_onI)
    fix k l
    assume "k \<in> set ks" "l \<in> set ks" "(unat base + k) mod 2 ^ m = (unat base + l) mod 2 ^ m"
    then show "k = l"
      using le [of "unat base" k l] le [of "unat base" l k] assms(3) by (intro le_antisym) auto
  qed
  moreover have "map (cache_hash (mask m)) (map (in_window sp base) ks) = map (\<lambda>k. (unat base + k) mod 2 ^ m) ks"
    by (simp add: window_hash [OF assms(1)])
  ultimately show ?thesis
    using assms(2) by (simp only: distinct_map)
qed

section \<open>Properties\<close>

lemma filled_initial:
  assumes "cache_initialize coveringmask n hashsize = Some s" and "0 < n" and "hashsize \<noteq> 0"
  shows "filled [] s \<and> cache_mask s = hashsize - 1 \<and> minimumreuse s = n"
proof -
  have "unat hashsize = unat (hashsize - 1) + 1"
    using assms(3) unat_gt_0 [of hashsize] by (simp add: unat_minus_one)
  then show ?thesis
    using assms by (auto simp: cache_initialize_def filled_def Let_def nth_Cons split: if_splits nat.split)
qed

text \<open>C20: The guarantee of the cache of parser contexts, that as many calls as \<open>minimumreuse\<close> with
  different addresses within the window get different contexts, holds for the first calls on a
  fresh cache; but not later: after these calls the first address and one that was not asked for
  yet, two different addresses in the window, get the same context.\<close>

theorem cache_guarantee_only_fresh:
  assumes "cache_initialize coveringmask n (2 ^ m) = Some s" and "m < 32"
    and "length ks = n" and "2 \<le> n" and "distinct ks" and "\<forall>k \<in> set ks. k < 2 ^ m"
    and "k' \<notin> set ks" and "k' < 2 ^ m"
  shows "\<exists>t t'. getParserContexts (map (in_window sp base) ks) s = Some ([0..<n], t) \<and>
    getParserContexts [in_window sp base (hd ks), in_window sp base k'] t = Some ([0, 0], t')"
proof -
  let ?as = "map (in_window sp base) ks"
  have size: "(2 :: u32) ^ m \<noteq> 0" "(2 :: u32) ^ m - 1 = mask m"
    using assms(2) by (simp_all add: mask_eq_decr_exp)
  have s: "filled [] s" "cache_mask s = mask m" "minimumreuse s = n"
    using filled_initial [OF assms(1)] assms(4) size by simp_all
  have "distinct (map (cache_hash (mask m)) (map (in_window sp base) (k' # ks)))"
    using assms(2,5-8) by (intro window_hashes_distinct) auto
  then have hash: "distinct (map (cache_hash (mask m)) ?as)"
      "cache_hash (mask m) (in_window sp base k') \<notin> cache_hash (mask m) ` set ?as"
    by (simp_all add: image_image)
  obtain t where t: "getParserContexts ?as s = Some ([0..<n], t)" "filled ?as t" "cache_mask t = mask m"
      "minimumreuse t = n"
    using filled_calls [OF s(1), of ?as] assms(3) hash(1) unfolding s(2,3) by auto
  have "hd ks = ks ! 0" "0 < length ks"
    using assms(3,4) by (cases ks; simp)+
  then have "getParserContext (in_window sp base (hd ks)) t = Some (0, t)"
    using filled_hit [OF t(2), of 0] by simp
  moreover have "nextfree t = 0"
    using t(2,4) assms(3) by (simp add: filled_def)
  then obtain t' where "getParserContext (in_window sp base k') t = Some (0, t')"
    using filled_miss [OF t(2), of "in_window sp base k'"] hash(2) unfolding t(3) by metis
  ultimately show ?thesis
    using t(1) by auto
qed

theorem cache_guarantee_only_fresh_witness:
  "\<exists>s t t'. cache_initialize id 2 32 = Some s \<and>
    getParserContexts (map (in_window () 100) [0, 1]) s = Some ([0, 1], t) \<and>
    getParserContexts [in_window () 100 0, in_window () 100 2] t = Some ([0, 0], t')"
proof -
  obtain s :: "unit dis_cache" where s: "cache_initialize id 2 (2 ^ 5) = Some s"
    by (auto simp: cache_initialize_def Let_def)
  have "\<exists>t t'. getParserContexts (map (in_window () 100) [0, 1]) s = Some ([0..<2], t) \<and>
      getParserContexts [in_window () 100 (hd [0, 1]), in_window () 100 2] t = Some ([0, 0], t')"
    using s by (intro cache_guarantee_only_fresh [where m = 5]) auto
  then show ?thesis
    using s by (auto simp: upt_rec)
qed

end
