(* ===== verification/Pcode_Walk.thy ===== *)
theory Pcode_Walk
  imports Pcode_Builder Disassembly_Cache
begin

text \<open>
  The builder's walks over parse trees (src/worker/ghidra/sleighMishegos.cc: \<open>buildEmpty\<close>,
  \<open>appendBuild\<close>, \<open>delaySlot\<close> and \<open>appendCrossBuild\<close> of \<open>SleighBuilder\<close>). The loop over a template's
  operations, \<open>PcodeBuilder::build\<close>, belongs to the library and calls back the virtual functions of
  the builder: it is a parameter that takes them as a record. The builder's pointer \<open>walker\<close> is \<open>None\<close>
  when the walker it points to has been destroyed; a use of it then is undefined.
\<close>

section \<open>The builder's state\<close>

record ('w, 'sp) build_state =
  bs_walker :: "'w option"
  bs_conf :: "'sp builder"
  bs_cacher :: "'sp pcode_cacher"
  bs_discache :: "'sp dis_cache"

text \<open>
  What a call comes to: it returns, it throws, its behaviour is undefined, or (\<open>Too_Deep\<close>) it needs
  more nested calls or turns of a loop than the number that bounds them in the model.
\<close>

datatype 'st outcome = Returned 'st | Thrown 'st | Undefined | Too_Deep

fun and_then :: "'st outcome \<Rightarrow> ('st \<Rightarrow> 'st outcome) \<Rightarrow> 'st outcome" where
  "and_then (Returned st) f = f st"
| "and_then (Thrown st) f = Thrown st"
| "and_then Undefined f = Undefined"
| "and_then Too_Deep f = Too_Deep"

record ('st, 'op) build_hooks =
  hk_dump :: "'op \<Rightarrow> 'st \<Rightarrow> 'st outcome"
  hk_appendBuild :: "'op \<Rightarrow> int \<Rightarrow> 'st \<Rightarrow> 'st outcome"
  hk_delaySlot :: "'op \<Rightarrow> 'st \<Rightarrow> 'st outcome"
  hk_setLabel :: "'op \<Rightarrow> 'st \<Rightarrow> 'st outcome"
  hk_appendCrossBuild :: "'op \<Rightarrow> int \<Rightarrow> 'st \<Rightarrow> 'st outcome"

record ('w, 'ct, 'tpl, 'op, 'sp) build_lib =
  w_push :: "nat \<Rightarrow> 'w \<Rightarrow> 'w"
  w_pop :: "'w \<Rightarrow> 'w"
  w_constructor :: "'w \<Rightarrow> 'ct"
  w_getAddr :: "'w \<Rightarrow> 'sp \<times> u64"
  w_getLength :: "'w \<Rightarrow> int"
  w_delaySlot :: "'w \<Rightarrow> int"
  c_numOperands :: "'ct \<Rightarrow> nat"
  c_subtable :: "'ct \<Rightarrow> nat \<Rightarrow> bool"
  c_named :: "'ct \<Rightarrow> int \<Rightarrow> 'tpl option"
  c_templ :: "'ct \<Rightarrow> 'tpl option"
  op_on :: "'op \<Rightarrow> 'w \<Rightarrow> 'sp op_tpl"
  op_real0 :: "'op \<Rightarrow> u64"
  op_real1 :: "'op \<Rightarrow> u64"
  cross_target :: "'op \<Rightarrow> 'w \<Rightarrow> 'sp \<times> u64"
  walker_at :: "nat \<Rightarrow> 'w"
  walker_cross :: "nat \<Rightarrow> 'w \<Rightarrow> 'w"
  ctx_length :: "nat \<Rightarrow> int"
  unique_mask :: u64
  pb_build :: "(('w, 'sp) build_state, 'op) build_hooks \<Rightarrow> 'tpl option \<Rightarrow> int \<Rightarrow> ('w, 'sp) build_state \<Rightarrow>
    ('w, 'sp) build_state outcome"

type_synonym ('w, 'sp) build_call = "('w, 'sp) build_state \<Rightarrow> ('w, 'sp) build_state outcome"

definition on_walker :: "('w \<Rightarrow> ('w, 'sp) build_call) \<Rightarrow> ('w, 'sp) build_call" where
  "on_walker f st = (case bs_walker st of None \<Rightarrow> Undefined | Some w \<Rightarrow> f w st)"

definition popOperand_call :: "('w, 'ct, 'tpl, 'op, 'sp) build_lib \<Rightarrow> ('w, 'sp) build_call" where
  "popOperand_call lib = on_walker (\<lambda>w st. Returned (st\<lparr>bs_walker := Some (w_pop lib w)\<rparr>))"

section \<open>Subtables\<close>

text \<open>The loop of \<open>buildEmpty\<close> over the operands; \<open>again\<close> is the function itself.\<close>

fun empty_operands :: "('w, 'ct, 'tpl, 'op, 'sp) build_lib \<Rightarrow> ('tpl option \<Rightarrow> int \<Rightarrow> ('w, 'sp) build_call) \<Rightarrow>
    ('ct \<Rightarrow> int \<Rightarrow> ('w, 'sp) build_call) \<Rightarrow> 'ct \<Rightarrow> int \<Rightarrow> nat list \<Rightarrow> ('w, 'sp) build_call" where
  "empty_operands lib build again ct secnum [] st = Returned st"
| "empty_operands lib build again ct secnum (i # is) st =
     (if \<not> c_subtable lib ct i then empty_operands lib build again ct secnum is st
      else on_walker (\<lambda>w st.
        let w = w_push lib i w; st = st\<lparr>bs_walker := Some w\<rparr>; sub = w_constructor lib w in
        and_then (case c_named lib sub secnum of
            None \<Rightarrow> again sub secnum st
          | Some construct \<Rightarrow> build (Some construct) secnum st)
          (\<lambda>st. and_then (popOperand_call lib st) (empty_operands lib build again ct secnum is))) st)"

primrec buildEmpty :: "nat \<Rightarrow> ('w, 'ct, 'tpl, 'op, 'sp) build_lib \<Rightarrow> ('tpl option \<Rightarrow> int \<Rightarrow> ('w, 'sp) build_call) \<Rightarrow>
    'ct \<Rightarrow> int \<Rightarrow> ('w, 'sp) build_call" where
  "buildEmpty 0 lib build ct secnum st = Too_Deep"
| "buildEmpty (Suc n) lib build ct secnum st =
     empty_operands lib build (buildEmpty n lib build) ct secnum [0..<c_numOperands lib ct] st"

text \<open>The index of the operand is cut to an \<open>int4\<close>; one that is out of range is not checked.\<close>

definition appendBuild :: "nat \<Rightarrow> ('w, 'ct, 'tpl, 'op, 'sp) build_lib \<Rightarrow> ('tpl option \<Rightarrow> int \<Rightarrow> ('w, 'sp) build_call) \<Rightarrow>
    'op \<Rightarrow> int \<Rightarrow> ('w, 'sp) build_call" where
  "appendBuild n lib build bld secnum = on_walker (\<lambda>w st.
     let index = sint (ucast (op_real0 lib bld) :: u32); ct = w_constructor lib w in
     if index < 0 \<or> index \<ge> int (c_numOperands lib ct) then Undefined
     else if \<not> c_subtable lib ct (nat index) then Returned st
     else let w = w_push lib (nat index) w; st = st\<lparr>bs_walker := Some w\<rparr>; ct = w_constructor lib w in
       and_then (if secnum \<ge> 0 then
           (case c_named lib ct secnum of
              None \<Rightarrow> buildEmpty n lib build ct secnum st
            | Some construct \<Rightarrow> build (Some construct) secnum st)
         else build (c_templ lib ct) (-1) st)
         (popOperand_call lib))"

section \<open>Other instructions\<close>

definition set_unique :: "('w, 'ct, 'tpl, 'op, 'sp) build_lib \<Rightarrow> u64 \<Rightarrow> ('w, 'sp) build_state \<Rightarrow> ('w, 'sp) build_state" where
  "set_unique lib addr st = st\<lparr>bs_conf := setUniqueOffset (unique_mask lib) addr (bs_conf st)\<rparr>"

text \<open>The cached parse at an address: it must be there, ready for p-code; otherwise an exception.\<close>

definition cached_parse :: "('w, 'ct, 'tpl, 'op, 'sp) build_lib \<Rightarrow> 'sp \<times> u64 \<Rightarrow> ('w, 'sp) build_state \<Rightarrow>
    ('w, 'sp) build_state outcome + nat \<times> ('w, 'sp) build_state" where
  "cached_parse lib newaddr st =
     (let st = set_unique lib (snd newaddr) st in
      case getParserContext newaddr (bs_discache st) of
        None \<Rightarrow> Inl Undefined
      | Some (i, dc) \<Rightarrow>
          let st = st\<lparr>bs_discache := dc\<rparr> in
          (case peek (ctx_state dc) i of
             None \<Rightarrow> Inl Undefined
           | Some ps \<Rightarrow> if ps \<noteq> pcode then Inl (Thrown st) else Inr (i, st)))"

text \<open>A local walker lives until the end of its block, whether that is left by its end or by an exception.\<close>

definition local_walker :: "'w \<Rightarrow> ('w, 'sp) build_call \<Rightarrow> ('w, 'sp) build_call" where
  "local_walker w body st =
     (case body (st\<lparr>bs_walker := Some w\<rparr>) of
        Returned st \<Rightarrow> Returned (st\<lparr>bs_walker := None\<rparr>)
      | Thrown st \<Rightarrow> Thrown (st\<lparr>bs_walker := None\<rparr>)
      | Undefined \<Rightarrow> Undefined
      | Too_Deep \<Rightarrow> Too_Deep)"

text \<open>The do-while loop of \<open>delaySlot\<close>.\<close>

primrec delay_loop :: "nat \<Rightarrow> ('w, 'ct, 'tpl, 'op, 'sp) build_lib \<Rightarrow> ('tpl option \<Rightarrow> int \<Rightarrow> ('w, 'sp) build_call) \<Rightarrow>
    'sp \<times> u64 \<Rightarrow> int \<Rightarrow> int \<Rightarrow> int \<Rightarrow> ('w, 'sp) build_call" where
  "delay_loop 0 lib build base fallOffset delaySlotByteCnt bytecount st = Too_Deep"
| "delay_loop (Suc n) lib build base fallOffset delaySlotByteCnt bytecount st =
     (case cached_parse lib (fst base, snd base + of_int fallOffset) st of
        Inl r \<Rightarrow> r
      | Inr (i, st) \<Rightarrow>
          let len = ctx_length lib i; w = walker_at lib i in
          and_then (local_walker w (build (c_templ lib (w_constructor lib w)) (-1)) st)
            (\<lambda>st. if bytecount + len < delaySlotByteCnt
               then delay_loop n lib build base (fallOffset + len) delaySlotByteCnt (bytecount + len) st
               else Returned st))"

definition back_to :: "'w \<Rightarrow> u64 \<Rightarrow> ('w, 'sp) build_state \<Rightarrow> ('w, 'sp) build_state" where
  "back_to w uo st = st\<lparr>bs_walker := Some w, bs_conf := (bs_conf st)\<lparr>uniqueoffset := uo\<rparr>\<rparr>"

definition delaySlot :: "nat \<Rightarrow> ('w, 'ct, 'tpl, 'op, 'sp) build_lib \<Rightarrow> ('tpl option \<Rightarrow> int \<Rightarrow> ('w, 'sp) build_call) \<Rightarrow>
    'op \<Rightarrow> ('w, 'sp) build_call" where
  "delaySlot n lib build op = on_walker (\<lambda>w st.
     and_then (delay_loop n lib build (w_getAddr lib w) (w_getLength lib w) (w_delaySlot lib w) 0 st)
       (\<lambda>st'. Returned (back_to w (uniqueoffset (bs_conf st)) st')))"

definition appendCrossBuild :: "nat \<Rightarrow> ('w, 'ct, 'tpl, 'op, 'sp) build_lib \<Rightarrow>
    ('tpl option \<Rightarrow> int \<Rightarrow> ('w, 'sp) build_call) \<Rightarrow> 'op \<Rightarrow> int \<Rightarrow> ('w, 'sp) build_call" where
  "appendCrossBuild n lib build bld secnum = on_walker (\<lambda>w st.
     if secnum \<ge> 0 then Thrown st
     else let secnum = sint (ucast (op_real1 lib bld) :: u32) in
       (case cached_parse lib (cross_target lib bld w) st of
          Inl r \<Rightarrow> r
        | Inr (i, st') \<Rightarrow>
            let neww = walker_cross lib i w; ct = w_constructor lib neww in
            and_then (local_walker neww
                (case c_named lib ct secnum of
                   None \<Rightarrow> buildEmpty n lib build ct secnum
                 | Some construct \<Rightarrow> build (Some construct) secnum) st')
              (\<lambda>st'. Returned (back_to w (uniqueoffset (bs_conf st)) st'))))"

section \<open>All together\<close>

definition dump_call :: "('w, 'ct, 'tpl, 'op, 'sp) build_lib \<Rightarrow> 'op \<Rightarrow> ('w, 'sp) build_call" where
  "dump_call lib op = on_walker (\<lambda>w st.
     case dump (bs_conf st) (op_on lib op w) (bs_cacher st) of
       None \<Rightarrow> Undefined
     | Some s \<Rightarrow> Returned (st\<lparr>bs_cacher := s\<rparr>))"

definition setLabel_call :: "('w, 'ct, 'tpl, 'op, 'sp) build_lib \<Rightarrow> 'op \<Rightarrow> ('w, 'sp) build_call" where
  "setLabel_call lib op st =
     Returned (st\<lparr>bs_cacher := setLabel (bs_conf st) (op_real0 lib op) (bs_cacher st)\<rparr>)"

text \<open>The virtual functions, for calls nested at most \<open>n\<close> deep.\<close>

primrec hooks_at :: "nat \<Rightarrow> ('w, 'ct, 'tpl, 'op, 'sp) build_lib \<Rightarrow> (('w, 'sp) build_state, 'op) build_hooks" where
  "hooks_at 0 lib = \<lparr>hk_dump = dump_call lib, hk_appendBuild = \<lambda>_ _ _. Too_Deep, hk_delaySlot = \<lambda>_ _. Too_Deep,
     hk_setLabel = setLabel_call lib, hk_appendCrossBuild = \<lambda>_ _ _. Too_Deep\<rparr>"
| "hooks_at (Suc n) lib = \<lparr>hk_dump = dump_call lib,
     hk_appendBuild = appendBuild n lib (pb_build lib (hooks_at n lib)),
     hk_delaySlot = delaySlot n lib (pb_build lib (hooks_at n lib)),
     hk_setLabel = setLabel_call lib,
     hk_appendCrossBuild = appendCrossBuild n lib (pb_build lib (hooks_at n lib))\<rparr>"

definition build_at :: "nat \<Rightarrow> ('w, 'ct, 'tpl, 'op, 'sp) build_lib \<Rightarrow> 'tpl option \<Rightarrow> int \<Rightarrow> ('w, 'sp) build_call" where
  "build_at n lib = pb_build lib (hooks_at n lib)"

text \<open>
  The constructor: \<open>lib_conf\<close> is what the builder takes from the library, labels start at 0, and the
  offset that makes temporaries unique is that of the instruction.
\<close>

definition builder_new :: "('w, 'ct, 'tpl, 'op, 'sp) build_lib \<Rightarrow> 'sp builder \<Rightarrow> 'w \<Rightarrow> 'sp dis_cache \<Rightarrow>
    'sp pcode_cacher \<Rightarrow> 'sp \<Rightarrow> 'sp \<Rightarrow> ('w, 'sp) build_state" where
  "builder_new lib lib_conf w dcache pc cspc uspc =
     \<lparr>bs_walker = Some w,
      bs_conf = lib_conf\<lparr>const_space := cspc, uniq_space := uspc, labelBase := 0,
        uniqueoffset := push_bit 4 (snd (w_getAddr lib w) AND unique_mask lib)\<rparr>,
      bs_cacher = pc, bs_discache = dcache\<rparr>"

section \<open>Where the builder stands\<close>

text \<open>
  The library: a walker has a parse and a path of operands in it, pushed and popped; and \<open>build\<close>
  changes the builder only through the virtual functions, apart from the base of its labels.
\<close>

definition walker_paths :: "('w, 'ct, 'tpl, 'op, 'sp) build_lib \<Rightarrow> ('w \<Rightarrow> 'c \<times> nat list) \<Rightarrow> bool" where
  "walker_paths lib position \<longleftrightarrow>
     (\<forall>i w. position (w_push lib i w) = (fst (position w), i # snd (position w))) \<and>
     (\<forall>w. position (w_pop lib w) = (fst (position w), tl (snd (position w))))"

definition keeps :: "('st \<Rightarrow> bool) \<Rightarrow> ('st \<Rightarrow> 'st outcome) \<Rightarrow> bool" where
  "keeps P f \<longleftrightarrow> (\<forall>st st'. P st \<longrightarrow> f st = Returned st' \<longrightarrow> P st')"

definition hooks_keep :: "('st \<Rightarrow> bool) \<Rightarrow> ('st, 'op) build_hooks \<Rightarrow> bool" where
  "hooks_keep P hooks \<longleftrightarrow> (\<forall>op. keeps P (hk_dump hooks op) \<and> keeps P (hk_delaySlot hooks op) \<and>
     keeps P (hk_setLabel hooks op) \<and>
     (\<forall>secnum. keeps P (hk_appendBuild hooks op secnum) \<and> keeps P (hk_appendCrossBuild hooks op secnum)))"

definition builds_through_hooks :: "('w, 'ct, 'tpl, 'op, 'sp) build_lib \<Rightarrow> bool" where
  "builds_through_hooks lib \<longleftrightarrow> (\<forall>P hooks tpl secnum.
     (\<forall>st b. P st \<longrightarrow> P (st\<lparr>bs_conf := (bs_conf st)\<lparr>labelBase := b\<rparr>\<rparr>)) \<longrightarrow> hooks_keep P hooks \<longrightarrow>
     keeps P (pb_build lib hooks tpl secnum))"

text \<open>The walker's place, the bits of the instruction, and the cache of parses.\<close>

definition stands_at :: "('w \<Rightarrow> 'c \<times> nat list) \<Rightarrow> 'c \<times> nat list \<Rightarrow> u64 \<Rightarrow> 'sp dis_cache \<Rightarrow>
    ('w, 'sp) build_state \<Rightarrow> bool" where
  "stands_at position p uo dc st \<longleftrightarrow> (\<exists>w. bs_walker st = Some w \<and> position w = p) \<and>
     uniqueoffset (bs_conf st) = uo \<and> bs_discache st = dc"

abbreviation stays_put :: "('w \<Rightarrow> 'c \<times> nat list) \<Rightarrow> ('w, 'sp) build_call \<Rightarrow> bool" where
  "stays_put position f \<equiv> (\<forall>p uo dc. keeps (stands_at position p uo dc) f)"

lemma and_then_Returned: "and_then r f = Returned st' \<longleftrightarrow> (\<exists>st. r = Returned st \<and> f st = Returned st')"
  by (cases r) auto

lemma popOperand_stands:
  assumes "walker_paths lib position" and "stands_at position (c, i # is) uo dc st"
    and "popOperand_call lib st = Returned st'"
  shows "stands_at position (c, is) uo dc st'"
  using assms by (auto simp: stands_at_def popOperand_call_def on_walker_def walker_paths_def)

lemma builder_new_stands:
  "stands_at position (position w) (push_bit 4 (snd (w_getAddr lib w) AND unique_mask lib))
     dcache (builder_new lib lib_conf w dcache pc cspc uspc)"
  by (simp add: stands_at_def builder_new_def)

text \<open>A subtable: down, its code, and up again.\<close>

lemma subtable_stays:
  assumes paths: "walker_paths lib position" and st: "stands_at position (c, is) uo dc st" "bs_walker st = Some w"
    and f: "stays_put position f"
    and run: "and_then (f (st\<lparr>bs_walker := Some (w_push lib i w)\<rparr>)) (popOperand_call lib) = Returned st'"
  shows "stands_at position (c, is) uo dc st'"
proof -
  have "stands_at position (c, i # is) uo dc (st\<lparr>bs_walker := Some (w_push lib i w)\<rparr>)"
    using paths st by (simp add: stands_at_def walker_paths_def)
  then show ?thesis
    using run f popOperand_stands [OF paths] unfolding and_then_Returned keeps_def by blast
qed

lemma empty_operands_stays:
  "\<forall>tpl n. stays_put position (build tpl n) \<Longrightarrow> \<forall>ct n. stays_put position (again ct n) \<Longrightarrow>
   walker_paths lib position \<Longrightarrow> stands_at position p uo dc st \<Longrightarrow>
   empty_operands lib build again ct secnum is st = Returned st' \<Longrightarrow> stands_at position p uo dc st'"
proof (induction lib build again ct secnum "is" st rule: empty_operands.induct)
  case (2 lib build again ct secnum i "is" st)
  show ?case
  proof (cases "c_subtable lib ct i")
    case False
    then show ?thesis
      using 2 by simp
  next
    case True
    obtain w where w: "bs_walker st = Some w"
      using 2(6) by (auto simp: stands_at_def)
    let ?w = "w_push lib i w"
    let ?f = "case c_named lib (w_constructor lib ?w) secnum of None \<Rightarrow> again (w_constructor lib ?w) secnum
      | Some construct \<Rightarrow> build (Some construct) secnum"
    have f: "stays_put position ?f"
      using 2(3,4) by (auto split: option.split)
    from 2(7) True w obtain st1 where
      st1: "and_then (?f (st\<lparr>bs_walker := Some ?w\<rparr>)) (popOperand_call lib) = Returned st1"
        "empty_operands lib build again ct secnum is st1 = Returned st'"
      by (auto simp: on_walker_def Let_def and_then_Returned split: option.splits)
    then have "stands_at position p uo dc st1"
      using subtable_stays [OF 2(5) _ w f, of "fst p" "snd p"] 2(6) by simp
    then show ?thesis
      using 2 True st1(2) w by blast
  qed
qed simp

lemma buildEmpty_stays:
  assumes "walker_paths lib position" and "\<forall>tpl n. stays_put position (build tpl n)"
  shows "stays_put position (buildEmpty n lib build ct secnum)"
proof (induction n arbitrary: ct secnum)
  case 0
  then show ?case by (simp add: keeps_def)
next
  case (Suc n)
  then show ?case
    using empty_operands_stays [OF assms(2) _ assms(1)] unfolding keeps_def buildEmpty.simps by blast
qed

lemma appendBuild_stays:
  assumes paths: "walker_paths lib position" and build: "\<forall>tpl n. stays_put position (build tpl n)"
  shows "stays_put position (appendBuild n lib build bld secnum)"
  unfolding keeps_def
proof (intro allI impI)
  fix p uo dc st st'
  assume st: "stands_at position p uo dc st" and run: "appendBuild n lib build bld secnum st = Returned st'"
  obtain w where w: "bs_walker st = Some w"
    using st by (auto simp: stands_at_def)
  let ?i = "nat (sint (ucast (op_real0 lib bld) :: u32))"
  let ?ct = "w_constructor lib (w_push lib ?i w)"
  let ?f = "if secnum \<ge> 0 then (case c_named lib ?ct secnum of None \<Rightarrow> buildEmpty n lib build ?ct secnum
      | Some construct \<Rightarrow> build (Some construct) secnum) else build (c_templ lib ?ct) (-1)"
  have f: "stays_put position ?f"
    using build buildEmpty_stays [OF paths build] by (auto split: option.split)
  show "stands_at position p uo dc st'"
  proof (cases "c_subtable lib (w_constructor lib w) ?i")
    case True
    have "and_then (?f (st\<lparr>bs_walker := Some (w_push lib ?i w)\<rparr>)) (popOperand_call lib) = Returned st'"
      using run True w by (auto simp: appendBuild_def on_walker_def Let_def split: if_splits option.splits)
    then show ?thesis
      using subtable_stays [OF paths _ w f, of "fst p" "snd p"] st by simp
  next
    case False
    then show ?thesis
      using run w st by (auto simp: appendBuild_def on_walker_def Let_def split: if_splits)
  qed
qed

text \<open>A parse that is found ready is found without any change to the cache.\<close>

definition cached_at :: "'sp dis_cache \<Rightarrow> 'sp \<times> u64 \<Rightarrow> nat \<Rightarrow> bool" where
  "cached_at dc a i \<longleftrightarrow> getParserContext a dc = Some (i, dc) \<and> peek (ctx_state dc) i = Some pcode"

lemma cached_parse_hit:
  assumes "cached_parse lib a st = Inr (i, st')"
  shows "cached_at (bs_discache st) a i" and "bs_discache st' = bs_discache st" and "bs_walker st' = bs_walker st"
proof -
  let ?dc = "bs_discache st"
  obtain dc where dc: "getParserContext a ?dc = Some (i, dc)" "peek (ctx_state dc) i = Some pcode"
      "st' = (set_unique lib (snd a) st)\<lparr>bs_discache := dc\<rparr>"
    using assms by (auto simp: cached_parse_def set_unique_def Let_def split: option.splits if_splits)
  have "dc = ?dc"
    using dc(1,2) by (auto simp: getParserContext_def peek_def poke_def Let_def split: if_splits Option.bind_splits)
  then show "cached_at ?dc a i" "bs_discache st' = ?dc" "bs_walker st' = bs_walker st"
    using dc by (simp_all add: cached_at_def set_unique_def)
qed

lemma cached_parse_exits: "cached_parse lib a st \<noteq> Inl (Returned st')" "cached_parse lib a st \<noteq> Inl Too_Deep"
  by (auto simp: cached_parse_def Let_def split: option.splits)

text \<open>The code of another instruction, at the walker \<open>v\<close>, leaves the cache as it is.\<close>

lemma local_walker_cache:
  assumes "stays_put position f" and "local_walker v f st = Returned st'"
  shows "bs_discache st' = bs_discache st"
proof -
  obtain st1 where run: "f (st\<lparr>bs_walker := Some v\<rparr>) = Returned st1" "st' = st1\<lparr>bs_walker := None\<rparr>"
    using assms(2) by (auto simp: local_walker_def split: outcome.splits)
  have "stands_at position (position v) (uniqueoffset (bs_conf st)) (bs_discache st) (st\<lparr>bs_walker := Some v\<rparr>)"
    by (simp add: stands_at_def)
  then have "stands_at position (position v) (uniqueoffset (bs_conf st)) (bs_discache st) st1"
    using assms(1) run(1) unfolding keeps_def by blast
  then show ?thesis
    using run(2) by (simp add: stands_at_def)
qed

lemma delay_loop_cache:
  assumes build: "\<forall>tpl n. stays_put position (build tpl n)"
  shows "delay_loop n lib build base off count bytes st = Returned st' \<Longrightarrow> bs_discache st' = bs_discache st"
proof (induction n arbitrary: off bytes st)
  case (Suc n)
  let ?a = "(fst base, snd base + of_int off)"
  obtain i st1 where 1: "cached_parse lib ?a st = Inr (i, st1)"
    using Suc.prems cached_parse_exits(1) [of lib ?a st st'] by (cases "cached_parse lib ?a st") auto
  let ?w = "walker_at lib i"
  obtain st2 where 2: "local_walker ?w (build (c_templ lib (w_constructor lib ?w)) (-1)) st1 = Returned st2"
      "(if bytes + ctx_length lib i < count
        then delay_loop n lib build base (off + ctx_length lib i) count (bytes + ctx_length lib i) st2
        else Returned st2) = Returned st'"
    using Suc.prems 1 by (auto simp: Let_def and_then_Returned)
  have "bs_discache st2 = bs_discache st1"
    using local_walker_cache [OF _ 2(1), of position] build by blast
  moreover have "bs_discache st' = bs_discache st2"
    using 2(2) Suc.IH by (auto split: if_splits)
  ultimately show ?case
    using cached_parse_hit(2) [OF 1] by simp
qed simp

text \<open>The others come back to the saved walker and offset, whatever the code in between did.\<close>

lemma back_to_stands: "bs_walker st = Some w \<Longrightarrow> stands_at position p uo dc st \<Longrightarrow> bs_discache st' = bs_discache st \<Longrightarrow>
    stands_at position p uo dc (back_to w (uniqueoffset (bs_conf st)) st')"
  by (auto simp: stands_at_def back_to_def)

lemma delaySlot_stays:
  assumes "\<forall>tpl n. stays_put position (build tpl n)"
  shows "stays_put position (delaySlot n lib build op)"
  unfolding keeps_def
  by (auto simp: delaySlot_def on_walker_def and_then_Returned intro: back_to_stands
      dest: delay_loop_cache [OF assms] split: option.splits)

lemma appendCrossBuild_stays:
  assumes paths: "walker_paths lib position" and build: "\<forall>tpl n. stays_put position (build tpl n)"
  shows "stays_put position (appendCrossBuild n lib build bld secnum)"
  unfolding keeps_def
proof (intro allI impI)
  fix p uo dc st st'
  assume st: "stands_at position p uo dc st" and run: "appendCrossBuild n lib build bld secnum st = Returned st'"
  obtain w where w: "bs_walker st = Some w"
    using st by (auto simp: stands_at_def)
  let ?s = "sint (ucast (op_real1 lib bld) :: u32)" and ?a = "cross_target lib bld w"
  have sec: "\<not> secnum \<ge> 0"
    using run w by (auto simp: appendCrossBuild_def on_walker_def)
  obtain i st1 where 1: "cached_parse lib ?a st = Inr (i, st1)"
    using run w sec cached_parse_exits(1) [of lib ?a st st']
    by (cases "cached_parse lib ?a st") (auto simp: appendCrossBuild_def on_walker_def Let_def)
  let ?ct = "w_constructor lib (walker_cross lib i w)"
  let ?f = "case c_named lib ?ct ?s of None \<Rightarrow> buildEmpty n lib build ?ct ?s | Some construct \<Rightarrow> build (Some construct) ?s"
  have f: "stays_put position ?f"
    using build buildEmpty_stays [OF paths build] by (auto split: option.split)
  obtain st2 where 2: "local_walker (walker_cross lib i w) ?f st1 = Returned st2"
      "st' = back_to w (uniqueoffset (bs_conf st)) st2"
    using run w sec 1 by (auto simp: appendCrossBuild_def on_walker_def Let_def and_then_Returned)
  have "bs_discache st2 = bs_discache st"
    using local_walker_cache [OF f 2(1)] cached_parse_hit(2) [OF 1] by simp
  then show "stands_at position p uo dc st'"
    unfolding 2(2) by (rule back_to_stands [OF w st])
qed

lemma dump_call_stays: "stays_put position (dump_call lib op)"
  unfolding keeps_def by (auto simp: dump_call_def on_walker_def stands_at_def split: option.splits)

lemma setLabel_call_stays: "stays_put position (setLabel_call lib op)"
  unfolding keeps_def by (auto simp: setLabel_call_def stands_at_def)

lemma Too_Deep_keeps: "keeps P (\<lambda>st. Too_Deep)"
  by (simp add: keeps_def)

lemma stands_at_label: "stands_at position p uo dc st \<Longrightarrow>
    stands_at position p uo dc (st\<lparr>bs_conf := (bs_conf st)\<lparr>labelBase := b\<rparr>\<rparr>)"
  by (simp add: stands_at_def)

lemma through_stays:
  fixes lib :: "('w, 'ct, 'tpl, 'op, 'sp) build_lib"
  assumes "builds_through_hooks lib" and "\<And>p uo dc. hooks_keep (stands_at position p uo dc) hooks"
  shows "stays_put position (pb_build lib hooks tpl secnum)"
proof (intro allI)
  fix p uo and dc :: "'sp dis_cache"
  have "\<forall>st b. stands_at position p uo dc st \<longrightarrow>
      stands_at position p uo dc (st\<lparr>bs_conf := (bs_conf st)\<lparr>labelBase := b\<rparr>\<rparr>)"
    by (simp add: stands_at_label)
  then show "keeps (stands_at position p uo dc) (pb_build lib hooks tpl secnum)"
    using assms unfolding builds_through_hooks_def by blast
qed

lemma hooks_stay:
  assumes paths: "walker_paths lib position" and through: "builds_through_hooks lib"
  shows "hooks_keep (stands_at position p uo dc) (hooks_at n lib)"
proof (induction n arbitrary: p uo dc)
  case 0
  show ?case
    by (simp add: hooks_keep_def dump_call_stays setLabel_call_stays Too_Deep_keeps del: split_paired_All)
next
  case (Suc n)
  then have build: "\<forall>tpl secnum. stays_put position (pb_build lib (hooks_at n lib) tpl secnum)"
    using through_stays [OF through] by blast
  show ?case
    by (simp add: hooks_keep_def dump_call_stays setLabel_call_stays appendBuild_stays [OF paths build]
        delaySlot_stays [OF build] appendCrossBuild_stays [OF paths build] del: split_paired_All)
qed

lemma build_stays:
  assumes "walker_paths lib position" and "builds_through_hooks lib"
  shows "stays_put position (pb_build lib (hooks_at n lib) tpl secnum)"
  by (rule through_stays [OF assms(2) hooks_stay [OF assms]])

section \<open>Enough depth\<close>

text \<open>
  When is a bound on the nesting enough? Subtables, the instructions of delay slots and those of
  cross builds each have code of their own, which may ask for more of the same. When every one of
  them is lower in some rank than the place it is asked for from, a bound above the rank is enough:
  parse trees are finite, and the parses in the cache are those of a few instructions. A template
  that cross-builds itself has no such rank; the code then recurs without end.
\<close>

definition nesting_lowers :: "('w, 'ct, 'tpl, 'op, 'sp) build_lib \<Rightarrow> ('op \<Rightarrow> bool) \<Rightarrow> 'sp dis_cache \<Rightarrow>
    ('w \<Rightarrow> 'c \<times> nat list) \<Rightarrow> ('c \<times> nat list \<Rightarrow> nat) \<Rightarrow> bool" where
  "nesting_lowers lib crosses dc position rank \<longleftrightarrow>
     (\<forall>w w'. position w = position w' \<longrightarrow> w_constructor lib w = w_constructor lib w') \<and>
     (\<forall>w i. c_subtable lib (w_constructor lib w) i \<longrightarrow> rank (position (w_push lib i w)) < rank (position w)) \<and>
     (\<forall>w off i. w_getLength lib w \<le> off \<longrightarrow> off < w_getLength lib w + max 1 (w_delaySlot lib w) \<longrightarrow>
        cached_at dc (fst (w_getAddr lib w), snd (w_getAddr lib w) + of_int off) i \<longrightarrow>
        rank (position (walker_at lib i)) < rank (position w)) \<and>
     (\<forall>w op i. crosses op \<longrightarrow> cached_at dc (cross_target lib op w) i \<longrightarrow>
        rank (position (walker_cross lib i w)) < rank (position w))"

definition shallow :: "('st \<Rightarrow> bool) \<Rightarrow> ('st \<Rightarrow> 'st outcome) \<Rightarrow> bool" where
  "shallow P f \<longleftrightarrow> (\<forall>st. P st \<longrightarrow> f st \<noteq> Too_Deep)"

text \<open>
  The library's \<open>build\<close> goes through the operations of a template and calls the virtual functions
  for them, \<open>appendCrossBuild\<close> for cross builds only. It runs out of depth only where they do, and it
  takes their outcomes as they are: where they have one for a bound, a larger bound changes nothing.
\<close>

definition refines :: "('st \<Rightarrow> 'st outcome) \<Rightarrow> ('st \<Rightarrow> 'st outcome) \<Rightarrow> bool" where
  "refines f g \<longleftrightarrow> (\<forall>st. f st \<noteq> Too_Deep \<longrightarrow> g st = f st)"

definition hooks_refine :: "('st, 'op) build_hooks \<Rightarrow> ('st, 'op) build_hooks \<Rightarrow> bool" where
  "hooks_refine hooks hooks' \<longleftrightarrow> (\<forall>op. refines (hk_dump hooks op) (hk_dump hooks' op) \<and>
     refines (hk_delaySlot hooks op) (hk_delaySlot hooks' op) \<and>
     refines (hk_setLabel hooks op) (hk_setLabel hooks' op) \<and>
     (\<forall>secnum. refines (hk_appendBuild hooks op secnum) (hk_appendBuild hooks' op secnum) \<and>
        refines (hk_appendCrossBuild hooks op secnum) (hk_appendCrossBuild hooks' op secnum)))"

definition deep_as_hooks :: "('w, 'ct, 'tpl, 'op, 'sp) build_lib \<Rightarrow> ('op \<Rightarrow> bool) \<Rightarrow> bool" where
  "deep_as_hooks lib crosses \<longleftrightarrow>
     (\<forall>P hooks tpl secnum. (\<forall>st b. P st \<longrightarrow> P (st\<lparr>bs_conf := (bs_conf st)\<lparr>labelBase := b\<rparr>\<rparr>)) \<longrightarrow>
        hooks_keep P hooks \<longrightarrow>
        (\<forall>op. shallow P (hk_dump hooks op) \<and> shallow P (hk_delaySlot hooks op) \<and> shallow P (hk_setLabel hooks op) \<and>
          (\<forall>secnum. shallow P (hk_appendBuild hooks op secnum) \<and>
             (crosses op \<longrightarrow> shallow P (hk_appendCrossBuild hooks op secnum)))) \<longrightarrow>
        shallow P (pb_build lib hooks tpl secnum)) \<and>
     (\<forall>hooks hooks' tpl secnum. hooks_refine hooks hooks' \<longrightarrow>
        refines (pb_build lib hooks tpl secnum) (pb_build lib hooks' tpl secnum))"

lemma nesting_lowersD:
  assumes "nesting_lowers lib crosses dc position rank"
  shows "position w = position w' \<Longrightarrow> w_constructor lib w = w_constructor lib w'"
    and "c_subtable lib (w_constructor lib w) i \<Longrightarrow> rank (position (w_push lib i w)) < rank (position w)"
    and "w_getLength lib w \<le> off \<Longrightarrow> off < w_getLength lib w + max 1 (w_delaySlot lib w) \<Longrightarrow>
      cached_at dc (fst (w_getAddr lib w), snd (w_getAddr lib w) + of_int off) i \<Longrightarrow>
      rank (position (walker_at lib i)) < rank (position w)"
    and "crosses op \<Longrightarrow> cached_at dc (cross_target lib op w) i \<Longrightarrow>
      rank (position (walker_cross lib i w)) < rank (position w)"
  using assms unfolding nesting_lowers_def by blast+

lemma shallowD: "shallow P f \<Longrightarrow> P st \<Longrightarrow> f st \<noteq> Too_Deep"
  by (simp add: shallow_def)

lemma and_then_shallow: "r \<noteq> Too_Deep \<Longrightarrow> (\<And>st. r = Returned st \<Longrightarrow> f st \<noteq> Too_Deep) \<Longrightarrow> and_then r f \<noteq> Too_Deep"
  by (cases r) auto

lemma popOperand_shallow [simp]: "popOperand_call lib st \<noteq> Too_Deep"
  by (simp add: popOperand_call_def on_walker_def split: option.split)

lemma stands_at_moved:
  "bs_walker st = Some w \<Longrightarrow> stands_at position (position w) (uniqueoffset (bs_conf st)) (bs_discache st) st"
  by (simp add: stands_at_def)

text \<open>Code that is not too deep at any place of a lower rank.\<close>

definition shallow_below :: "('w \<Rightarrow> 'c \<times> nat list) \<Rightarrow> ('c \<times> nat list \<Rightarrow> nat) \<Rightarrow> 'sp dis_cache \<Rightarrow> nat \<Rightarrow>
    ('w, 'sp) build_call \<Rightarrow> bool" where
  "shallow_below position rank dc r f \<longleftrightarrow> (\<forall>w st. rank (position w) < r \<longrightarrow> bs_walker st = Some w \<longrightarrow>
     bs_discache st = dc \<longrightarrow> f st \<noteq> Too_Deep)"

lemma shallow_belowD:
  "shallow_below position rank dc r f \<Longrightarrow> rank (position w) < r \<Longrightarrow> bs_walker st = Some w \<Longrightarrow>
   bs_discache st = dc \<Longrightarrow> f st \<noteq> Too_Deep"
  by (simp add: shallow_below_def)

lemma shallow_below_mono:
  assumes "shallow_below position rank dc r f" and "r' \<le> r"
  shows "shallow_below position rank dc r' f"
  unfolding shallow_below_def
  by (intro allI impI, rule shallow_belowD [OF assms(1)], rule less_le_trans [OF _ assms(2)])

lemma empty_operands_shallow:
  assumes paths: "walker_paths lib position" and lower: "nesting_lowers lib crosses dc position rank"
    and stay: "\<forall>tpl n. stays_put position (build tpl n)" "\<forall>ct n. stays_put position (again ct n)"
    and build: "\<And>tpl. shallow_below position rank dc (rank p) (build tpl secnum)"
    and again: "\<And>w st. rank (position w) < rank p \<Longrightarrow> bs_walker st = Some w \<Longrightarrow> bs_discache st = dc \<Longrightarrow>
      again (w_constructor lib w) secnum st \<noteq> Too_Deep"
  shows "stands_at position p uo dc st \<Longrightarrow> (\<And>w. position w = p \<Longrightarrow> w_constructor lib w = ct) \<Longrightarrow>
    empty_operands lib build again ct secnum is st \<noteq> Too_Deep"
proof (induction "is" arbitrary: st)
  case (Cons i "is")
  obtain w where w: "bs_walker st = Some w" "position w = p" "bs_discache st = dc"
    using Cons.prems(1) by (auto simp: stands_at_def)
  show ?case
  proof (cases "c_subtable lib ct i")
    case True
    let ?w = "w_push lib i w"
    let ?f = "case c_named lib (w_constructor lib ?w) secnum of None \<Rightarrow> again (w_constructor lib ?w) secnum
      | Some construct \<Rightarrow> build (Some construct) secnum"
    have f: "stays_put position ?f"
      using stay by (auto split: option.split)
    have low: "rank (position ?w) < rank p"
      using nesting_lowersD(2) [OF lower, of w i] True w(2) Cons.prems(2) [OF w(2)] by simp
    have run: "?f (st\<lparr>bs_walker := Some ?w\<rparr>) \<noteq> Too_Deep"
      using again [OF low, of "st\<lparr>bs_walker := Some ?w\<rparr>"]
        shallow_belowD [OF build low, of "st\<lparr>bs_walker := Some ?w\<rparr>"] w(3)
      by (simp split: option.split)
    have rest: "empty_operands lib build again ct secnum is st2 \<noteq> Too_Deep"
      if "and_then (?f (st\<lparr>bs_walker := Some ?w\<rparr>)) (popOperand_call lib) = Returned st2" for st2
    proof (rule Cons.IH [OF _ Cons.prems(2)])
      show "stands_at position p uo dc st2"
        using subtable_stays [OF paths _ w(1) f that, of "fst p" "snd p" uo dc] Cons.prems(1) by simp
    qed
    have all: "and_then (?f (st\<lparr>bs_walker := Some ?w\<rparr>))
        (\<lambda>st. and_then (popOperand_call lib st) (empty_operands lib build again ct secnum is)) \<noteq> Too_Deep"
    proof (rule and_then_shallow [OF run], rule and_then_shallow)
      fix st1 st2
      assume "?f (st\<lparr>bs_walker := Some ?w\<rparr>) = Returned st1" and "popOperand_call lib st1 = Returned st2"
      then show "empty_operands lib build again ct secnum is st2 \<noteq> Too_Deep"
        by (intro rest) simp
    qed simp
    then show ?thesis
      using True w(1) by (cases "c_named lib (w_constructor lib ?w) secnum")
        (simp_all only: empty_operands.simps on_walker_def Let_def option.case if_False not_True_eq_False not_False_eq_True)
  next
    case False
    then show ?thesis
      using Cons.IH [OF Cons.prems] by simp
  qed
qed simp

lemma buildEmpty_shallow:
  assumes paths: "walker_paths lib position" and lower: "nesting_lowers lib crosses dc position rank"
    and stay: "\<forall>tpl n. stays_put position (build tpl n)"
  shows "rank (position w) < n \<Longrightarrow> bs_walker st = Some w \<Longrightarrow> bs_discache st = dc \<Longrightarrow>
    (\<And>tpl. shallow_below position rank dc (rank (position w)) (build tpl secnum)) \<Longrightarrow>
    buildEmpty n lib build (w_constructor lib w) secnum st \<noteq> Too_Deep"
proof (induction n arbitrary: w st)
  case (Suc n)
  have "\<forall>ct s. stays_put position (buildEmpty n lib build ct s)"
    using buildEmpty_stays [OF paths stay] by blast
  moreover have "buildEmpty n lib build (w_constructor lib w') secnum st' \<noteq> Too_Deep"
    if w': "rank (position w') < rank (position w)" "bs_walker st' = Some w'" "bs_discache st' = dc" for w' st'
  proof (rule Suc.IH [OF _ w'(2,3)])
    show "rank (position w') < n"
      using Suc.prems(1) w'(1) by linarith
  next
    show "shallow_below position rank dc (rank (position w')) (build tpl secnum)" for tpl
      using shallow_below_mono [OF Suc.prems(4)] w'(1) by simp
  qed
  moreover have "stands_at position (position w) (uniqueoffset (bs_conf st)) dc st"
    using stands_at_moved [OF Suc.prems(2)] Suc.prems(3) by simp
  moreover have "w_constructor lib w' = w_constructor lib w" if "position w' = position w" for w'
    using nesting_lowersD(1) [OF lower that] .
  ultimately show ?case
    unfolding buildEmpty.simps using Suc.prems(4)
    by (intro empty_operands_shallow [OF paths lower stay, where p = "position w"]) blast+
qed simp

text \<open>The virtual functions, where the code they reach is lower and not too deep.\<close>

lemma appendBuild_shallow:
  assumes paths: "walker_paths lib position" and lower: "nesting_lowers lib crosses dc position rank"
    and stay: "\<forall>tpl n. stays_put position (build tpl n)"
    and build: "\<And>tpl s. shallow_below position rank dc (rank (position w)) (build tpl s)"
    and n: "rank (position w) \<le> n" and st: "bs_walker st = Some w" "bs_discache st = dc"
  shows "appendBuild n lib build bld secnum st \<noteq> Too_Deep"
proof -
  let ?i = "nat (sint (ucast (op_real0 lib bld) :: u32))"
  let ?w = "w_push lib ?i w" let ?ct = "w_constructor lib ?w" and ?st = "st\<lparr>bs_walker := Some ?w\<rparr>"
  let ?r = "if secnum \<ge> 0 then (case c_named lib ?ct secnum of None \<Rightarrow> buildEmpty n lib build ?ct secnum ?st
      | Some construct \<Rightarrow> build (Some construct) secnum ?st) else build (c_templ lib ?ct) (-1) ?st"
  have "?r \<noteq> Too_Deep" if sub: "c_subtable lib (w_constructor lib w) ?i"
  proof -
    have low: "rank (position ?w) < rank (position w)"
      by (rule nesting_lowersD(2) [OF lower sub])
    have "buildEmpty n lib build ?ct secnum ?st \<noteq> Too_Deep"
    proof (rule buildEmpty_shallow [OF paths lower stay])
      show "rank (position ?w) < n"
        using low n by linarith
    next
      show "shallow_below position rank dc (rank (position ?w)) (build tpl secnum)" for tpl
        using shallow_below_mono [OF build] low by simp
    qed (use st in simp_all)
    moreover have "build tpl s ?st \<noteq> Too_Deep" for tpl s
      using shallow_belowD [OF build low, of ?st] st by simp
    ultimately show ?thesis
      by (simp split: option.split)
  qed
  then have "and_then ?r (popOperand_call lib) \<noteq> Too_Deep" if "c_subtable lib (w_constructor lib w) ?i"
    using that by (intro and_then_shallow popOperand_shallow)
  then show ?thesis
    using st by (simp add: appendBuild_def on_walker_def Let_def)
qed

lemma local_walker_shallow:
  "f (st\<lparr>bs_walker := Some w\<rparr>) \<noteq> Too_Deep \<Longrightarrow> local_walker w f st \<noteq> Too_Deep"
  by (simp add: local_walker_def split: outcome.split)

text \<open>
  With instructions of positive length the do-while loop makes no more turns than the bytes it is
  asked for, at least one.
\<close>

lemma delay_loop_shallow:
  assumes lower: "nesting_lowers lib crosses dc position rank" and len: "\<forall>i. 0 < ctx_length lib i"
    and stay: "\<forall>tpl n. stays_put position (build tpl n)"
    and build: "\<And>tpl s. shallow_below position rank dc (rank (position w)) (build tpl s)"
  shows "0 \<le> bytes \<Longrightarrow> bytes < max 1 (w_delaySlot lib w) \<Longrightarrow> max 1 (w_delaySlot lib w) - bytes \<le> int n \<Longrightarrow>
    bs_discache st = dc \<Longrightarrow>
    delay_loop n lib build (w_getAddr lib w) (w_getLength lib w + bytes) (w_delaySlot lib w) bytes st \<noteq> Too_Deep"
proof (induction n arbitrary: bytes st)
  case (Suc n)
  let ?off = "w_getLength lib w + bytes"
  let ?a = "(fst (w_getAddr lib w), snd (w_getAddr lib w) + of_int ?off)"
  show ?case
  proof (cases "cached_parse lib ?a st")
    case (Inl r)
    then have "r \<noteq> Too_Deep"
      using cached_parse_exits(2) [of lib ?a st] by auto
    then show ?thesis
      using Inl by simp
  next
    case (Inr x)
    obtain i st1 where 1: "cached_parse lib ?a st = Inr (i, st1)"
      using Inr by (cases x) simp
    let ?w = "walker_at lib i" and ?len = "ctx_length lib i"
    have "cached_at dc ?a i"
      using cached_parse_hit(1) [OF 1] Suc.prems(4) by simp
    then have low: "rank (position ?w) < rank (position w)"
      using Suc.prems(1,2) by (intro nesting_lowersD(3) [OF lower, of w ?off i]) linarith+
    have dc: "bs_discache st1 = dc"
      using cached_parse_hit(2) [OF 1] Suc.prems(4) by simp
    let ?f = "build (c_templ lib (w_constructor lib ?w)) (-1)"
    have "local_walker ?w ?f st1 \<noteq> Too_Deep"
      using shallow_belowD [OF build low] dc by (intro local_walker_shallow) simp
    moreover have "(if bytes + ?len < w_delaySlot lib w
        then delay_loop n lib build (w_getAddr lib w) (?off + ?len) (w_delaySlot lib w) (bytes + ?len) st2
        else Returned st2) \<noteq> Too_Deep" if st2: "local_walker ?w ?f st1 = Returned st2" for st2
    proof -
      have "bs_discache st2 = dc"
        using local_walker_cache [OF _ st2, of position] stay dc by simp
      moreover have "0 < ?len"
        using len by simp
      ultimately show ?thesis
        using Suc.IH [of "bytes + ?len" st2] Suc.prems(1,3) by (simp add: add.assoc)
    qed
    ultimately show ?thesis
      using 1 by (simp add: Let_def and_then_shallow)
  qed
qed simp

lemma delaySlot_shallow:
  assumes lower: "nesting_lowers lib crosses dc position rank" and len: "\<forall>i. 0 < ctx_length lib i"
    and stay: "\<forall>tpl n. stays_put position (build tpl n)"
    and build: "\<And>tpl s. shallow_below position rank dc (rank (position w)) (build tpl s)"
    and n: "w_delaySlot lib w \<le> int n" "1 \<le> n" and st: "bs_walker st = Some w" "bs_discache st = dc"
  shows "delaySlot n lib build op st \<noteq> Too_Deep"
proof -
  have "delay_loop n lib build (w_getAddr lib w) (w_getLength lib w + 0) (w_delaySlot lib w) 0 st \<noteq> Too_Deep"
    by (rule delay_loop_shallow [OF lower len stay build]) (use n st in auto)
  then show ?thesis
    using st by (simp add: delaySlot_def on_walker_def and_then_shallow)
qed

lemma appendCrossBuild_shallow:
  assumes paths: "walker_paths lib position" and lower: "nesting_lowers lib crosses dc position rank"
    and stay: "\<forall>tpl n. stays_put position (build tpl n)"
    and build: "\<And>tpl s. shallow_below position rank dc (rank (position w)) (build tpl s)"
    and n: "rank (position w) \<le> n" and st: "bs_walker st = Some w" "bs_discache st = dc" and "crosses bld"
  shows "appendCrossBuild n lib build bld secnum st \<noteq> Too_Deep"
proof (cases "cached_parse lib (cross_target lib bld w) st")
  case (Inl r)
  then have "r \<noteq> Too_Deep"
    using cached_parse_exits(2) [of lib "cross_target lib bld w" st] by auto
  then show ?thesis
    using Inl st by (simp add: appendCrossBuild_def on_walker_def Let_def)
next
  case (Inr x)
  obtain i st1 where 1: "cached_parse lib (cross_target lib bld w) st = Inr (i, st1)"
    using Inr by (cases x) simp
  let ?s = "sint (ucast (op_real1 lib bld) :: u32)" and ?w = "walker_cross lib i w"
  let ?st = "st1\<lparr>bs_walker := Some ?w\<rparr>"
  have dc: "bs_discache ?st = dc" "bs_walker ?st = Some ?w"
    using cached_parse_hit(2) [OF 1] st by simp_all
  have "cached_at dc (cross_target lib bld w) i"
    using cached_parse_hit(1) [OF 1] st by simp
  then have low: "rank (position ?w) < rank (position w)"
    by (rule nesting_lowersD(4) [OF lower \<open>crosses bld\<close>])
  have "buildEmpty n lib build (w_constructor lib ?w) ?s ?st \<noteq> Too_Deep"
  proof (rule buildEmpty_shallow [OF paths lower stay _ dc(2,1)])
    show "rank (position ?w) < n"
      using low n by linarith
  next
    show "shallow_below position rank dc (rank (position ?w)) (build tpl ?s)" for tpl
      using shallow_below_mono [OF build] low by simp
  qed
  moreover have "build tpl ?s ?st \<noteq> Too_Deep" for tpl
    by (rule shallow_belowD [OF build low dc(2,1)])
  ultimately have "local_walker ?w (case c_named lib (w_constructor lib ?w) ?s of
        None \<Rightarrow> buildEmpty n lib build (w_constructor lib ?w) ?s
      | Some construct \<Rightarrow> build (Some construct) ?s) st1 \<noteq> Too_Deep"
    by (intro local_walker_shallow) (simp split: option.split)
  then show ?thesis
    using 1 st by (simp add: appendCrossBuild_def on_walker_def Let_def and_then_shallow)
qed

text \<open>All together: the rank and the most bytes asked for in delay slots are enough.\<close>

lemma build_shallow:
  fixes lib :: "('w, 'ct, 'tpl, 'op, 'sp) build_lib"
  assumes paths: "walker_paths lib position" and through: "builds_through_hooks lib"
    and deep: "deep_as_hooks lib crosses" and lower: "nesting_lowers lib crosses dc position rank"
    and len: "\<forall>i. 0 < ctx_length lib i" and T: "\<forall>w. w_delaySlot lib w \<le> int T" "1 \<le> T"
  shows "rank (position w) + T < n \<Longrightarrow> bs_walker st = Some w \<Longrightarrow> bs_discache st = dc \<Longrightarrow>
    pb_build lib (hooks_at n lib) tpl secnum st \<noteq> Too_Deep"
proof (induction n arbitrary: w st tpl secnum)
  case (Suc n)
  note stay = build_stays [OF paths through]
  let ?build = "pb_build lib (hooks_at n lib)"
  let ?P = "stands_at position (position w) (uniqueoffset (bs_conf st)) dc"
  have low: "shallow_below position rank dc (rank (position v)) (?build tpl s)" if "position v = position w" for v tpl s
    unfolding shallow_below_def
  proof (intro allI impI)
    fix w' and st' :: "('w, 'sp) build_state"
    assume "rank (position w') < rank (position v)" and st': "bs_walker st' = Some w'" "bs_discache st' = dc"
    then have "rank (position w') + T < n"
      using Suc.prems(1) that by simp
    then show "?build tpl s st' \<noteq> Too_Deep"
      using st' by (rule Suc.IH)
  qed
  have at: "\<exists>v. bs_walker st' = Some v \<and> position v = position w \<and> bs_discache st' = dc" if "?P st'" for st'
    using that by (auto simp: stands_at_def)
  have n: "T \<le> n" "rank (position v) \<le> n" if "position v = position w" for v
    using Suc.prems(1) that by simp_all
  have build: "shallow ?P (appendBuild n lib ?build op s)" for op s
    unfolding shallow_def
  proof (intro allI impI)
    fix st'
    assume "?P st'"
    then obtain v where v: "bs_walker st' = Some v" "position v = position w" "bs_discache st' = dc"
      using at by blast
    show "appendBuild n lib ?build op s st' \<noteq> Too_Deep"
      by (rule appendBuild_shallow [OF paths lower _ low [OF v(2)] n(2) [OF v(2)] v(1,3)]) (use stay in blast)+
  qed
  have delay: "shallow ?P (delaySlot n lib ?build op)" for op
    unfolding shallow_def
  proof (intro allI impI)
    fix st'
    assume "?P st'"
    then obtain v where v: "bs_walker st' = Some v" "position v = position w" "bs_discache st' = dc"
      using at by blast
    have "w_delaySlot lib v \<le> int n" "1 \<le> n"
      using T n(1) [OF v(2)] order_trans [of "w_delaySlot lib v" "int T" "int n"] by simp_all
    then show "delaySlot n lib ?build op st' \<noteq> Too_Deep"
      by (intro delaySlot_shallow [OF lower len _ low [OF v(2)] _ _ v(1,3)]) (use stay in blast)+
  qed
  have cross: "shallow ?P (appendCrossBuild n lib ?build op s)" if "crosses op" for op s
    unfolding shallow_def
  proof (intro allI impI)
    fix st'
    assume "?P st'"
    then obtain v where v: "bs_walker st' = Some v" "position v = position w" "bs_discache st' = dc"
      using at by blast
    show "appendCrossBuild n lib ?build op s st' \<noteq> Too_Deep"
      by (rule appendCrossBuild_shallow [OF paths lower _ low [OF v(2)] n(2) [OF v(2)] v(1,3) that]) (use stay in blast)+
  qed
  have others: "shallow ?P (dump_call lib op)" "shallow ?P (setLabel_call lib op)" for op
    by (simp_all add: shallow_def dump_call_def setLabel_call_def on_walker_def split: option.split)
  have "shallow ?P (pb_build lib (hooks_at (Suc n) lib) tpl secnum)"
  proof (rule conjunct1 [OF deep [unfolded deep_as_hooks_def], rule_format])
    show "?P (st'\<lparr>bs_conf := (bs_conf st')\<lparr>labelBase := b\<rparr>\<rparr>)" if "?P st'" for st' b
      using that by (rule stands_at_label)
    show "hooks_keep ?P (hooks_at (Suc n) lib)"
      by (rule hooks_stay [OF paths through])
  qed (use build delay cross others in simp_all)
  then show ?case
    using stands_at_moved [OF Suc.prems(2), of position] Suc.prems(3) by (auto simp: shallow_def)
qed simp

section \<open>A larger bound changes nothing\<close>

lemma refinesD: "refines f g \<Longrightarrow> f st \<noteq> Too_Deep \<Longrightarrow> g st = f st"
  by (simp add: refines_def)

lemma refines_refl [simp]: "refines f f" "refines (\<lambda>st. Too_Deep) f"
  by (simp_all add: refines_def)

lemma and_then_refines:
  "(r \<noteq> Too_Deep \<Longrightarrow> r' = r) \<Longrightarrow> (\<And>st. f st \<noteq> Too_Deep \<Longrightarrow> g st = f st) \<Longrightarrow> and_then r f \<noteq> Too_Deep \<Longrightarrow>
   and_then r' g = and_then r f"
  by (cases r) auto

lemma on_walker_refines: "(\<And>w. refines (f w) (g w)) \<Longrightarrow> refines (on_walker f) (on_walker g)"
  by (simp add: refines_def on_walker_def split: option.split)

lemma local_walker_refines: "refines f g \<Longrightarrow> refines (local_walker w f) (local_walker w g)"
  unfolding refines_def
proof (intro allI impI)
  fix st
  assume fg: "\<forall>st. f st \<noteq> Too_Deep \<longrightarrow> g st = f st" and "local_walker w f st \<noteq> Too_Deep"
  then have "f (st\<lparr>bs_walker := Some w\<rparr>) \<noteq> Too_Deep"
    by (auto simp: local_walker_def)
  then show "local_walker w g st = local_walker w f st"
    using fg by (simp add: local_walker_def)
qed

lemma named_refines:
  "(\<And>tpl s. refines (build tpl s) (build' tpl s)) \<Longrightarrow> refines (again ct s) (again' ct s) \<Longrightarrow>
   (case c of None \<Rightarrow> again ct s st | Some construct \<Rightarrow> build (Some construct) s st) \<noteq> Too_Deep \<Longrightarrow>
   (case c of None \<Rightarrow> again' ct s st | Some construct \<Rightarrow> build' (Some construct) s st) =
   (case c of None \<Rightarrow> again ct s st | Some construct \<Rightarrow> build (Some construct) s st)"
  by (cases c) (simp_all add: refines_def)

lemma empty_operands_refines:
  assumes build: "\<And>tpl s. refines (build tpl s) (build' tpl s)" and again: "\<And>ct s. refines (again ct s) (again' ct s)"
  shows "refines (empty_operands lib build again ct secnum is) (empty_operands lib build' again' ct secnum is)"
proof (induction "is")
  case (Cons i "is")
  show ?case
  proof (cases "c_subtable lib ct i")
    case True
    have step: "empty_operands lib b a ct secnum (i # is) = on_walker (\<lambda>w st.
        let w = w_push lib i w; st = st\<lparr>bs_walker := Some w\<rparr>; sub = w_constructor lib w in
        and_then (case c_named lib sub secnum of None \<Rightarrow> a sub secnum st | Some construct \<Rightarrow> b (Some construct) secnum st)
          (\<lambda>st. and_then (popOperand_call lib st) (empty_operands lib b a ct secnum is)))" for b a
      by (rule ext) (simp only: empty_operands.simps True not_True_eq_False if_False)
    show ?thesis
      unfolding step
    proof (rule on_walker_refines)
      fix w
      show "refines (\<lambda>st. let w = w_push lib i w; st = st\<lparr>bs_walker := Some w\<rparr>; sub = w_constructor lib w in
        and_then (case c_named lib sub secnum of None \<Rightarrow> again sub secnum st | Some construct \<Rightarrow> build (Some construct) secnum st)
          (\<lambda>st. and_then (popOperand_call lib st) (empty_operands lib build again ct secnum is)))
        (\<lambda>st. let w = w_push lib i w; st = st\<lparr>bs_walker := Some w\<rparr>; sub = w_constructor lib w in
        and_then (case c_named lib sub secnum of None \<Rightarrow> again' sub secnum st | Some construct \<Rightarrow> build' (Some construct) secnum st)
          (\<lambda>st. and_then (popOperand_call lib st) (empty_operands lib build' again' ct secnum is)))"
        unfolding refines_def Let_def
        by (intro allI impI and_then_refines) (rule named_refines [OF build again] refl refinesD [OF Cons.IH] | assumption)+
    qed
  next
    case False
    then show ?thesis
      using Cons.IH by (simp add: refines_def)
  qed
qed simp

lemma buildEmpty_refines:
  assumes "\<And>tpl s. refines (build tpl s) (build' tpl s)"
  shows "refines (buildEmpty n lib build ct secnum) (buildEmpty (Suc n) lib build' ct secnum)"
proof (induction n arbitrary: ct secnum)
  case 0
  then show ?case by (simp add: refines_def)
next
  case (Suc n)
  then have "refines (empty_operands lib build (buildEmpty n lib build) ct secnum is)
      (empty_operands lib build' (buildEmpty (Suc n) lib build') ct secnum is)" for "is"
    by (intro empty_operands_refines assms)
  then show ?case
    unfolding refines_def buildEmpty.simps(2) [of n] buildEmpty.simps(2) [of "Suc n"] by blast
qed

lemma appendBuild_refines:
  assumes build: "\<And>tpl s. refines (build tpl s) (build' tpl s)"
  shows "refines (appendBuild n lib build bld secnum) (appendBuild (Suc n) lib build' bld secnum)"
  unfolding appendBuild_def
proof (rule on_walker_refines)
  fix w
  let ?index = "sint (ucast (op_real0 lib bld) :: u32)"
  let ?w = "w_push lib (nat ?index) w" let ?ct = "w_constructor lib ?w"
  let ?r = "\<lambda>n build st. if secnum \<ge> 0 then (case c_named lib ?ct secnum of None \<Rightarrow> buildEmpty n lib build ?ct secnum st
      | Some construct \<Rightarrow> build (Some construct) secnum st) else build (c_templ lib ?ct) (-1) st"
  have empty: "refines (buildEmpty n lib build ?ct secnum) (buildEmpty (Suc n) lib build' ?ct secnum)"
    by (rule buildEmpty_refines) (rule build)
  have "?r (Suc n) build' st = ?r n build st" if "?r n build st \<noteq> Too_Deep" for st
    using named_refines [of build build' "buildEmpty n lib build" ?ct secnum "buildEmpty (Suc n) lib build'"
        st "c_named lib ?ct secnum"] build empty refinesD [OF build] that
    by (cases "secnum \<ge> 0") simp_all
  then have "and_then (?r (Suc n) build' st) (popOperand_call lib) = and_then (?r n build st) (popOperand_call lib)"
    if "and_then (?r n build st) (popOperand_call lib) \<noteq> Too_Deep" for st
    by (rule and_then_refines [OF _ _ that]) blast+
  then show "refines
     (\<lambda>st. let index = ?index; ct = w_constructor lib w in
       if index < 0 \<or> index \<ge> int (c_numOperands lib ct) then Undefined
       else if \<not> c_subtable lib ct (nat index) then Returned st
       else let w = w_push lib (nat index) w; st = st\<lparr>bs_walker := Some w\<rparr>; ct = w_constructor lib w in
         and_then (if secnum \<ge> 0 then
             (case c_named lib ct secnum of None \<Rightarrow> buildEmpty n lib build ct secnum st
              | Some construct \<Rightarrow> build (Some construct) secnum st)
           else build (c_templ lib ct) (-1) st) (popOperand_call lib))
     (\<lambda>st. let index = ?index; ct = w_constructor lib w in
       if index < 0 \<or> index \<ge> int (c_numOperands lib ct) then Undefined
       else if \<not> c_subtable lib ct (nat index) then Returned st
       else let w = w_push lib (nat index) w; st = st\<lparr>bs_walker := Some w\<rparr>; ct = w_constructor lib w in
         and_then (if secnum \<ge> 0 then
             (case c_named lib ct secnum of None \<Rightarrow> buildEmpty (Suc n) lib build' ct secnum st
              | Some construct \<Rightarrow> build' (Some construct) secnum st)
           else build' (c_templ lib ct) (-1) st) (popOperand_call lib))"
    unfolding refines_def Let_def by simp
qed

lemma delay_loop_refines:
  assumes build: "\<And>tpl s. refines (build tpl s) (build' tpl s)"
  shows "refines (delay_loop n lib build base off count bytes) (delay_loop (Suc n) lib build' base off count bytes)"
proof (induction n arbitrary: off bytes)
  case 0
  then show ?case by (simp add: refines_def)
next
  case (Suc n)
  show ?case
    unfolding refines_def
  proof (intro allI impI)
    fix st
    assume run: "delay_loop (Suc n) lib build base off count bytes st \<noteq> Too_Deep"
    show "delay_loop (Suc (Suc n)) lib build' base off count bytes st = delay_loop (Suc n) lib build base off count bytes st"
    proof (cases "cached_parse lib (fst base, snd base + of_int off) st")
      case (Inr x)
      obtain i st1 where 1: "cached_parse lib (fst base, snd base + of_int off) st = Inr (i, st1)"
        using Inr by (cases x) simp
      let ?w = "walker_at lib i" and ?len = "ctx_length lib i"
      let ?c = "c_templ lib (w_constructor lib ?w)"
      have step: "delay_loop (Suc m) lib b base off count bytes st =
          and_then (local_walker ?w (b ?c (-1)) st1) (\<lambda>st. if bytes + ?len < count
            then delay_loop m lib b base (off + ?len) count (bytes + ?len) st else Returned st)" for m b
        using 1 by (simp add: Let_def)
      show ?thesis
        using run unfolding step [of n build] step [of "Suc n" build']
      proof (rule and_then_refines [rotated 2])
        show "local_walker ?w (build' ?c (-1)) st1 = local_walker ?w (build ?c (-1)) st1"
          if "local_walker ?w (build ?c (-1)) st1 \<noteq> Too_Deep"
          using refinesD [OF local_walker_refines [OF build] that] .
      next
        fix st'
        assume "(if bytes + ?len < count then delay_loop n lib build base (off + ?len) count (bytes + ?len) st'
          else Returned st') \<noteq> Too_Deep"
        then show "(if bytes + ?len < count
            then delay_loop (Suc n) lib build' base (off + ?len) count (bytes + ?len) st' else Returned st') =
          (if bytes + ?len < count then delay_loop n lib build base (off + ?len) count (bytes + ?len) st'
            else Returned st')"
          using refinesD [OF Suc.IH] by (simp del: delay_loop.simps split: if_splits)
      qed
    qed simp
  qed
qed

lemma delaySlot_refines:
  assumes "\<And>tpl s. refines (build tpl s) (build' tpl s)"
  shows "refines (delaySlot n lib build op) (delaySlot (Suc n) lib build' op)"
  unfolding delaySlot_def
  by (rule on_walker_refines, unfold refines_def, intro allI impI and_then_refines)
    (rule refinesD [OF delay_loop_refines [OF assms]] refl | assumption)+

lemma appendCrossBuild_refines:
  assumes build: "\<And>tpl s. refines (build tpl s) (build' tpl s)"
  shows "refines (appendCrossBuild n lib build bld secnum) (appendCrossBuild (Suc n) lib build' bld secnum)"
  unfolding refines_def
proof (intro allI impI)
  fix st
  assume run: "appendCrossBuild n lib build bld secnum st \<noteq> Too_Deep"
  show "appendCrossBuild (Suc n) lib build' bld secnum st = appendCrossBuild n lib build bld secnum st"
  proof (cases "bs_walker st")
    case None
    then show ?thesis
      by (simp add: appendCrossBuild_def on_walker_def)
  next
    case (Some w)
    show ?thesis
    proof (cases "secnum \<ge> 0 \<or> (\<exists>r. cached_parse lib (cross_target lib bld w) st = Inl r)")
      case True
      then show ?thesis
        using Some by (auto simp: appendCrossBuild_def on_walker_def Let_def)
    next
      case False
      then obtain i st1 where 1: "cached_parse lib (cross_target lib bld w) st = Inr (i, st1)" "\<not> secnum \<ge> 0"
        by (cases "cached_parse lib (cross_target lib bld w) st") auto
      let ?s = "sint (ucast (op_real1 lib bld) :: u32)" and ?w = "walker_cross lib i w"
      let ?c = "\<lambda>n build. case c_named lib (w_constructor lib ?w) ?s of
          None \<Rightarrow> buildEmpty n lib build (w_constructor lib ?w) ?s | Some construct \<Rightarrow> build (Some construct) ?s"
      have step: "appendCrossBuild m lib b bld secnum st = and_then (local_walker ?w (?c m b) st1)
          (\<lambda>st'. Returned (back_to w (uniqueoffset (bs_conf st)) st'))" for m b
        using Some 1 by (simp add: appendCrossBuild_def on_walker_def Let_def)
      have "refines (buildEmpty n lib build (w_constructor lib ?w) ?s) (buildEmpty (Suc n) lib build' (w_constructor lib ?w) ?s)"
        by (rule buildEmpty_refines) (rule build)
      then have c: "refines (?c n build) (?c (Suc n) build')"
        using build by (simp del: buildEmpty.simps split: option.split)
      show ?thesis
        using run unfolding step
        by (rule and_then_refines [rotated 2]) (rule refinesD [OF local_walker_refines [OF c]] refl | assumption)+
    qed
  qed
qed

lemma hooks_at_fields:
  "hk_dump (hooks_at (Suc n) lib) = dump_call lib"
  "hk_appendBuild (hooks_at (Suc n) lib) = appendBuild n lib (pb_build lib (hooks_at n lib))"
  "hk_delaySlot (hooks_at (Suc n) lib) = delaySlot n lib (pb_build lib (hooks_at n lib))"
  "hk_setLabel (hooks_at (Suc n) lib) = setLabel_call lib"
  "hk_appendCrossBuild (hooks_at (Suc n) lib) = appendCrossBuild n lib (pb_build lib (hooks_at n lib))"
  by simp_all

lemma hooks_at_refine:
  assumes "deep_as_hooks lib crosses"
  shows "hooks_refine (hooks_at n lib) (hooks_at (Suc n) lib)"
proof (induction n)
  case 0
  then show ?case by (simp add: hooks_refine_def)
next
  case (Suc n)
  then have build: "refines (pb_build lib (hooks_at n lib) tpl s) (pb_build lib (hooks_at (Suc n) lib) tpl s)" for tpl s
    using assms unfolding deep_as_hooks_def by blast
  show ?case
    unfolding hooks_refine_def hooks_at_fields
    by (simp add: appendBuild_refines [OF build] delaySlot_refines [OF build] appendCrossBuild_refines [OF build]
        del: hooks_at.simps)
qed

lemma build_at_settles:
  assumes "deep_as_hooks lib crosses" and "build_at n lib tpl secnum st \<noteq> Too_Deep"
  shows "build_at (n + k) lib tpl secnum st = build_at n lib tpl secnum st"
proof (induction k)
  case (Suc k)
  have "refines (build_at (n + k) lib tpl secnum) (build_at (Suc (n + k)) lib tpl secnum)"
    using assms(1) hooks_at_refine [OF assms(1)] unfolding deep_as_hooks_def build_at_def by blast
  then have "build_at (Suc (n + k)) lib tpl secnum st = build_at (n + k) lib tpl secnum st"
    using Suc assms(2) by (intro refinesD) simp_all
  then show ?case
    using Suc by simp
qed simp

section \<open>Exceptions in delay slots\<close>

text \<open>
  An exception out of the code of a delay slot leaves the builder's pointer at the local walker,
  which has been destroyed; \<open>oneInstruction\<close> would then print the instruction through it.
\<close>

lemma local_walker_gone:
  "local_walker v f s = Thrown s' \<Longrightarrow> bs_walker s' = None"
  "local_walker v f s = Returned s' \<Longrightarrow> bs_walker s' = None"
  by (auto simp: local_walker_def split: outcome.splits)

lemma cached_parse_thrown: "cached_parse lib a s = Inl (Thrown s') \<Longrightarrow> bs_walker s' = bs_walker s"
  by (auto simp: cached_parse_def set_unique_def Let_def split: option.splits if_splits)

lemma and_then_Thrown: "and_then r f = Thrown st' \<longleftrightarrow> r = Thrown st' \<or> (\<exists>st. r = Returned st \<and> f st = Thrown st')"
  by (cases r) auto

lemma delay_loop_thrown:
  "bs_walker s = None \<Longrightarrow> delay_loop n lib build base off count bytes s = Thrown s' \<Longrightarrow> bs_walker s' = None"
proof (induction n arbitrary: off bytes s)
  case (Suc n)
  let ?a = "(fst base, snd base + of_int off)"
  show ?case
  proof (cases "cached_parse lib ?a s")
    case (Inl r)
    then show ?thesis
      using Suc.prems cached_parse_thrown [of lib ?a s s'] by simp
  next
    case (Inr x)
    obtain i s1 where x: "x = (i, s1)"
      by (cases x)
    let ?r = "local_walker (walker_at lib i) (build (c_templ lib (w_constructor lib (walker_at lib i))) (-1)) s1"
    consider (thrown) "?r = Thrown s'"
      | (again) s2 where "?r = Returned s2"
          "delay_loop n lib build base (off + ctx_length lib i) count (bytes + ctx_length lib i) s2 = Thrown s'"
      using Suc.prems(2) Inr x by (auto simp: Let_def and_then_Thrown split: if_splits)
    then show ?thesis
      by cases (blast intro: local_walker_gone(1), blast intro: Suc.IH local_walker_gone(2))
  qed
qed simp

lemma delay_throw_dangles:
  assumes "cached_parse lib (fst (w_getAddr lib w), snd (w_getAddr lib w) + of_int (w_getLength lib w)) st = Inr (i, st1)"
    and "bs_walker st = Some w" and "delaySlot n lib build op st = Thrown st'"
  shows "bs_walker st' = None"
  using assms
  by (cases n) (auto simp: delaySlot_def on_walker_def Let_def and_then_Thrown split: if_splits
      dest: local_walker_gone delay_loop_thrown)

section \<open>The property\<close>

text \<open>C24: The builder comes back to where it was, and it comes back at all. Whatever a template asks for,
  subtables, instructions in delay slots and cross builds nested to any depth, when \<open>build\<close> returns
  the builder's walker is at the same parse and the same operand as before, the bits that make
  temporaries unique are those of the same instruction, and the cache of parses is unchanged: the
  code that follows in the template is generated for the right operands. If instructions have
  positive lengths and every subtable, delay-slot instruction and cross-built instruction is lower
  in some rank than what asks for it, a nesting bound above the rank and the bytes of a delay slot
  is never reached, and no larger bound changes the outcome.\<close>

theorem builder_returns_in_place:
  assumes "walker_paths lib position" and "builds_through_hooks lib" and "bs_walker st = Some w"
  shows "(\<forall>st'. build_at n lib tpl secnum st = Returned st' \<longrightarrow>
      (\<exists>w'. bs_walker st' = Some w' \<and> position w' = position w) \<and>
      uniqueoffset (bs_conf st') = uniqueoffset (bs_conf st) \<and> bs_discache st' = bs_discache st) \<and>
    (deep_as_hooks lib crosses \<and> nesting_lowers lib crosses (bs_discache st) position rank \<and>
      (\<forall>i. 0 < ctx_length lib i) \<and> (\<forall>v. w_delaySlot lib v \<le> int T) \<and> 1 \<le> T \<and> rank (position w) + T < n \<longrightarrow>
      build_at n lib tpl secnum st \<noteq> Too_Deep \<and>
      (\<forall>k. build_at (n + k) lib tpl secnum st = build_at n lib tpl secnum st))"
proof (intro conjI allI impI)
  fix st'
  assume run: "build_at n lib tpl secnum st = Returned st'"
  have "stands_at position (position w) (uniqueoffset (bs_conf st)) (bs_discache st) st'"
    using build_stays [OF assms(1,2), of n tpl secnum] stands_at_moved [OF assms(3), of position] run
    unfolding build_at_def keeps_def by blast
  then show "\<exists>w'. bs_walker st' = Some w' \<and> position w' = position w"
      "uniqueoffset (bs_conf st') = uniqueoffset (bs_conf st)" "bs_discache st' = bs_discache st"
    by (auto simp: stands_at_def)
next
  assume deep: "deep_as_hooks lib crosses \<and> nesting_lowers lib crosses (bs_discache st) position rank \<and>
      (\<forall>i. 0 < ctx_length lib i) \<and> (\<forall>v. w_delaySlot lib v \<le> int T) \<and> 1 \<le> T \<and> rank (position w) + T < n"
  show enough: "build_at n lib tpl secnum st \<noteq> Too_Deep"
    unfolding build_at_def
    by (rule build_shallow [OF assms(1,2) _ _ _ _ _ _ assms(3) refl]) (use deep in blast)+
  show "build_at (n + k) lib tpl secnum st = build_at n lib tpl secnum st" for k
    using deep enough by (intro build_at_settles) blast+
qed

text \<open>
  The instance: templates are lists of operations, 1 for the code of the only operand, 3 for a cross
  build, any other for a delay slot; the parse of number 0 has a subtable with a template of its own,
  that of number 1, two bytes on, has an empty template.
\<close>

fun run_template :: "(('w, 'sp) build_state, nat) build_hooks \<Rightarrow> nat list \<Rightarrow> int \<Rightarrow> ('w, 'sp) build_call" where
  "run_template hooks [] secnum st = Returned st"
| "run_template hooks (op # ops) secnum st =
     and_then ((if op = 1 then hk_appendBuild hooks op secnum
         else if op = 3 then hk_appendCrossBuild hooks op secnum else hk_delaySlot hooks op) st)
       (run_template hooks ops secnum)"

definition listed_lib :: "(nat \<times> nat list, nat \<times> nat list, nat list, nat, nat) build_lib" where
  "listed_lib = \<lparr>w_push = \<lambda>i w. (fst w, i # snd w), w_pop = \<lambda>w. (fst w, tl (snd w)), w_constructor = \<lambda>w. w,
     w_getAddr = \<lambda>w. (0, of_nat (2 * fst w)), w_getLength = \<lambda>w. 2, w_delaySlot = \<lambda>w. 1,
     c_numOperands = \<lambda>c. if c = (0, []) then 1 else 0, c_subtable = \<lambda>c i. c = (0, []), c_named = \<lambda>c n. None,
     c_templ = \<lambda>c. Some (if c = (0, [0]) then [2] else []), op_on = \<lambda>op w. \<lparr>o_opcode = 0, o_in = [], o_out = None\<rparr>,
     op_real0 = \<lambda>op. 0, op_real1 = \<lambda>op. 0, cross_target = \<lambda>op w. (0, if fst w = 1 then 0 else 2),
     walker_at = \<lambda>i. (1, []), walker_cross = \<lambda>i w. (1, []), ctx_length = \<lambda>i. 2, unique_mask = 0xff,
     pb_build = \<lambda>hooks tpl secnum st. (case tpl of None \<Rightarrow> Thrown st | Some ops \<Rightarrow> run_template hooks ops secnum st)\<rparr>"

definition listed_cache :: "nat dis_cache" where
  "listed_cache = \<lparr>minimumreuse = 1, cache_mask = 0, ctx_addr = [Some (0, 2)], ctx_state = [pcode], nextfree = 0,
     hashtable = [0]\<rparr>"

definition listed_rank :: "nat \<times> nat list \<Rightarrow> nat" where
  "listed_rank p = (if fst p = 1 then 0 else if snd p = [] then 2 else 1)"

lemma run_template_keeps:
  assumes "hooks_keep P hooks"
  shows "keeps P (run_template hooks ops secnum)"
proof (induction ops)
  case (Cons op ops)
  have "keeps P (if op = 1 then hk_appendBuild hooks op secnum
      else if op = 3 then hk_appendCrossBuild hooks op secnum else hk_delaySlot hooks op)"
    using assms by (simp add: hooks_keep_def)
  then show ?case
    using Cons.IH unfolding keeps_def run_template.simps and_then_Returned by blast
qed (simp add: keeps_def)

lemma run_template_shallow:
  assumes "hooks_keep P hooks" and "\<And>op. shallow P (hk_delaySlot hooks op)"
    and "\<And>op. shallow P (hk_appendBuild hooks op secnum)"
    and "\<And>op. op = 3 \<Longrightarrow> shallow P (hk_appendCrossBuild hooks op secnum)"
  shows "shallow P (run_template hooks ops secnum)"
proof (induction ops)
  case (Cons op ops)
  let ?f = "if op = 1 then hk_appendBuild hooks op secnum
      else if op = 3 then hk_appendCrossBuild hooks op secnum else hk_delaySlot hooks op"
  have f: "keeps P ?f" "shallow P ?f"
    using assms by (simp_all add: hooks_keep_def)
  show ?case
    unfolding shallow_def run_template.simps
  proof (intro allI impI and_then_shallow)
    fix st
    assume st: "P st"
    show "?f st \<noteq> Too_Deep"
      using f(2) st by (rule shallowD)
    show "run_template hooks ops secnum st' \<noteq> Too_Deep" if "?f st = Returned st'" for st'
      using f(1) st that shallowD [OF Cons.IH] unfolding keeps_def by blast
  qed
qed (simp add: shallow_def)

lemma run_template_refines:
  assumes "hooks_refine hooks hooks'"
  shows "refines (run_template hooks ops secnum) (run_template hooks' ops secnum)"
proof (induction ops)
  case (Cons op ops)
  have "refines (if op = 1 then hk_appendBuild hooks op secnum
      else if op = 3 then hk_appendCrossBuild hooks op secnum else hk_delaySlot hooks op)
    (if op = 1 then hk_appendBuild hooks' op secnum
      else if op = 3 then hk_appendCrossBuild hooks' op secnum else hk_delaySlot hooks' op)"
    using assms by (simp add: hooks_refine_def)
  then show ?case
    unfolding refines_def run_template.simps
    by (intro allI impI and_then_refines) (rule refinesD [OF Cons.IH] | blast)+
qed simp

lemma listed_lib_laws: "walker_paths listed_lib id" "builds_through_hooks listed_lib"
    "deep_as_hooks listed_lib (\<lambda>op. op = 3)"
proof -
  show "walker_paths listed_lib id"
    by (simp add: walker_paths_def listed_lib_def)
  have "keeps P (pb_build listed_lib hooks tpl secnum)" if "hooks_keep P hooks" for P hooks tpl secnum
    using run_template_keeps [OF that] by (cases tpl) (simp_all add: listed_lib_def keeps_def)
  then show "builds_through_hooks listed_lib"
    unfolding builds_through_hooks_def by blast
  have "shallow P (pb_build listed_lib hooks tpl secnum)"
    if "hooks_keep P hooks" and "\<forall>op. shallow P (hk_dump hooks op) \<and> shallow P (hk_delaySlot hooks op) \<and>
      shallow P (hk_setLabel hooks op) \<and> (\<forall>secnum. shallow P (hk_appendBuild hooks op secnum) \<and>
        (op = 3 \<longrightarrow> shallow P (hk_appendCrossBuild hooks op secnum)))" for P hooks tpl secnum
    using run_template_shallow [OF that(1), of secnum] that(2)
    by (cases tpl) (simp_all add: listed_lib_def shallow_def)
  moreover have "refines (pb_build listed_lib hooks tpl secnum) (pb_build listed_lib hooks' tpl secnum)"
    if "hooks_refine hooks hooks'" for hooks hooks' tpl secnum
    using run_template_refines [OF that] by (cases tpl) (simp_all add: listed_lib_def refines_def)
  ultimately show "deep_as_hooks listed_lib (\<lambda>op. op = 3)"
    unfolding deep_as_hooks_def by blast
qed

lemma listed_cached: "cached_at listed_cache a i \<Longrightarrow> a = (0, 2)"
  by (auto simp: cached_at_def listed_cache_def getParserContext_def peek_def poke_def Let_def split: if_splits)

lemma listed_lowers: "nesting_lowers listed_lib (\<lambda>op. op = 3) listed_cache id listed_rank"
  unfolding nesting_lowers_def
proof (intro conjI allI impI)
  fix w off i
  assume "w_getLength listed_lib w \<le> off" and "off < w_getLength listed_lib w + max 1 (w_delaySlot listed_lib w)"
    and hit: "cached_at listed_cache (fst (w_getAddr listed_lib w), snd (w_getAddr listed_lib w) + of_int off) i"
  then have "off = 2"
    by (simp add: listed_lib_def)
  then have "fst w \<noteq> 1"
    using listed_cached [OF hit] by (auto simp: listed_lib_def)
  then show "listed_rank (id (walker_at listed_lib i)) < listed_rank (id w)"
    by (simp add: listed_rank_def listed_lib_def)
next
  fix w :: "nat \<times> nat list" and op i
  assume "op = 3" and hit: "cached_at listed_cache (cross_target listed_lib op w) i"
  then have "fst w \<noteq> 1"
    using listed_cached [OF hit] by (auto simp: listed_lib_def)
  then show "listed_rank (id (walker_cross listed_lib i w)) < listed_rank (id w)"
    by (simp add: listed_rank_def listed_lib_def)
qed (auto simp: listed_lib_def listed_rank_def)

lemma listed_numbers: "\<forall>i. 0 < ctx_length listed_lib i" "\<forall>w. w_delaySlot listed_lib w \<le> int 1"
    "(1 :: nat) \<le> 1" "listed_rank (id (0, [])) + 1 < 4"
  by (simp_all add: listed_lib_def listed_rank_def)

definition listed_state :: "(nat \<times> nat list, nat) build_state" where
  "listed_state = \<lparr>bs_walker = Some (0, []), bs_conf = sample_builder, bs_cacher = new_cacher (b_junk sample_builder),
     bs_discache = listed_cache\<rparr>"

theorem builder_returns_in_place_witness:
  "\<exists>st'. build_at 4 listed_lib (Some [1, 2, 3]) (-1) listed_state = Returned st' \<and>
     bs_walker st' = Some (0, []) \<and> uniqueoffset (bs_conf st') = 0 \<and>
     build_at 100 listed_lib (Some [1, 2, 3]) (-1) listed_state = Returned st'"
proof -
  obtain st' where run: "build_at 4 listed_lib (Some [1, 2, 3]) (-1) listed_state = Returned st'"
    by (simp add: build_at_def listed_lib_def listed_state_def listed_cache_def eval_nat_numeral appendBuild_def
        delaySlot_def appendCrossBuild_def on_walker_def popOperand_call_def local_walker_def cached_parse_def
        set_unique_def getParserContext_def peek_def back_to_def Let_def)
  have w: "bs_walker listed_state = Some (0, [])" "bs_discache listed_state = listed_cache"
    by (simp_all add: listed_state_def)
  note in_place = builder_returns_in_place [OF listed_lib_laws(1,2) w(1), of 4 "Some [1, 2, 3]" "-1"
      "\<lambda>op. op = 3" listed_rank 1]
  have "build_at (4 + 96) listed_lib (Some [1, 2, 3]) (-1) listed_state =
      build_at 4 listed_lib (Some [1, 2, 3]) (-1) listed_state"
    using conjunct2 [OF in_place] listed_lib_laws(3) listed_lowers listed_numbers unfolding w(2) by blast
  then show ?thesis
    using conjunct1 [OF in_place] run by (auto simp: listed_state_def sample_builder_def)
qed

end
