(* ===== verification/Alloc_Heap.thy ===== *)
theory Alloc_Heap
  imports Prelude "HOL-Library.Multiset"
begin

text \<open>
  The heap as far as allocation goes, shared by the SLEIGH engine (\<open>new\<close> and \<open>delete\<close>) and the
  converter (\<open>malloc\<close>, \<open>calloc\<close> and \<open>free\<close>): the blocks that are allocated. A pointer is the number of
  an allocation or null; freeing null does nothing, freeing what is not allocated is undefined
  (\<open>None\<close>). Allocation succeeds and never hands out a number again.
\<close>

section \<open>The heap\<close>

record heap =
  h_next :: nat
  h_live :: "nat list"

definition heap_new :: "heap \<Rightarrow> nat \<times> heap" where
  "heap_new h = (h_next h, h\<lparr>h_next := h_next h + 1, h_live := h_next h # h_live h\<rparr>)"

definition heap_delete :: "nat option \<Rightarrow> heap \<Rightarrow> heap option" where
  "heap_delete p h =
     (case p of None \<Rightarrow> Some h
      | Some a \<Rightarrow> if a \<in> set (h_live h) then Some (h\<lparr>h_live := remove1 a (h_live h)\<rparr>) else None)"

definition heap_ok :: "heap \<Rightarrow> bool" where
  "heap_ok h \<longleftrightarrow> distinct (h_live h) \<and> (\<forall>a \<in> set (h_live h). a < h_next h)"

lemma heap_new_ok:
  "heap_ok h \<Longrightarrow> heap_new h = (a, h') \<Longrightarrow> heap_ok h' \<and> a \<notin> set (h_live h) \<and> set (h_live h') = insert a (set (h_live h))"
  by (auto simp: heap_new_def heap_ok_def less_Suc_eq)

lemma heap_delete_ok:
  "heap_ok h \<Longrightarrow> a \<in> set (h_live h) \<Longrightarrow>
   \<exists>h'. heap_delete (Some a) h = Some h' \<and> heap_ok h' \<and> set (h_live h') = set (h_live h) - {a}"
  by (auto simp: heap_delete_def heap_ok_def)

abbreviation allocated :: "heap \<Rightarrow> nat set" where
  "allocated h \<equiv> set (h_live h)"

definition usable :: "nat list \<Rightarrow> heap \<Rightarrow> bool" where
  "usable as h \<longleftrightarrow> list_all (\<lambda>a. a \<in> allocated h) as"

lemma usable_iff [simp]: "usable as h \<longleftrightarrow> set as \<subseteq> allocated h"
  by (auto simp: usable_def list_all_iff)

section \<open>Blocks added to a heap\<close>

text \<open>\<open>added as h0 h\<close>: \<open>h\<close> has what \<open>h0\<close> has and the blocks \<open>as\<close>, each once.\<close>

definition added :: "nat list \<Rightarrow> heap \<Rightarrow> heap \<Rightarrow> bool" where
  "added as h0 h \<longleftrightarrow> heap_ok h \<and> distinct as \<and> set as \<inter> allocated h0 = {} \<and> allocated h = allocated h0 \<union> set as"

lemma added_none: "heap_ok h \<Longrightarrow> added [] h h"
  by (simp add: added_def)

lemma added_mset: "added as h0 h \<Longrightarrow> mset as = mset bs \<Longrightarrow> added bs h0 h"
  unfolding added_def by (metis mset_eq_imp_distinct_iff mset_eq_setD)

lemma added_new: "added as h0 h \<Longrightarrow> heap_new h = (a, h') \<Longrightarrow> added (a # as) h0 h'"
  using heap_new_ok [of h a h'] by (auto simp: added_def)

lemma added_delete: "added (a # as) h0 h \<Longrightarrow> \<exists>h'. heap_delete (Some a) h = Some h' \<and> added as h0 h'"
  using heap_delete_ok [of h a] by (auto simp: added_def)

lemma added_usable: "added as h0 h \<Longrightarrow> set bs \<subseteq> set as \<Longrightarrow> usable bs h"
  by (auto simp: added_def)

lemma added_card: "added as h0 h \<Longrightarrow> card (allocated h) = card (allocated h0) + length as"
  by (simp add: added_def card_Un_disjoint Int_commute distinct_card)

end
