(* ===== verification/Engine_Life.thy ===== *)
theory Engine_Life
  imports Pcode_Cacher Alloc_Heap
begin

text \<open>
  The objects the SLEIGH engine owns (src/worker/ghidra/sleighMishegos.cc: the constructor,
  \<open>clearForDelete\<close>, the destructor, \<open>reset\<close> and \<open>initialize\<close>). The heap is
  that of \<open>Alloc_Heap\<close>. The base class with
  the compiled specification, its decoder and the files are parameters. What is shown: no sequence
  of calls deletes anything twice, the parser context is there exactly after an \<open>initialize\<close> that
  returned and was not followed by a \<open>reset\<close>, and what is left behind are the parser contexts that
  a second \<open>initialize\<close> overwrites.
\<close>

section \<open>The engine\<close>

text \<open>\<open>e_loader\<close> stands for what the engine only borrows, the load image and the context database.\<close>

record ('l, 'b, 'sp) engine =
  e_loader :: 'l
  e_base :: 'b
  e_cache :: "nat option"
  e_discache :: "nat option"
  e_pos :: "nat option"
  e_pcode :: "'sp pcode_cacher"

text \<open>The library: whether the base is initialized, what decoding a file makes of it and whether that threw.\<close>

record ('b, 'doc) sleigh_base =
  isInitialized :: "'b \<Rightarrow> bool"
  reregisterContext :: "'b \<Rightarrow> 'b"
  sleigh_tag :: "'doc \<Rightarrow> string option"
  sla_opens :: "string \<Rightarrow> bool"
  sla_decode :: "string \<Rightarrow> 'b \<Rightarrow> bool \<times> 'b"

definition engine_new :: "'l \<Rightarrow> 'b \<Rightarrow> 'sp pcode_cacher \<Rightarrow> heap \<Rightarrow> ('l, 'b, 'sp) engine \<times> heap" where
  "engine_new ld base pc h =
     (case heap_new h of (cache, h) \<Rightarrow>
        (\<lparr>e_loader = ld, e_base = base, e_cache = Some cache, e_discache = None, e_pos = None, e_pcode = pc\<rparr>, h))"

definition clearForDelete :: "('l, 'b, 'sp) engine \<Rightarrow> heap \<Rightarrow> heap option" where
  "clearForDelete e h = do {
     h \<leftarrow> heap_delete (e_cache e) h;
     h \<leftarrow> (if e_discache e \<noteq> None then heap_delete (e_discache e) h else Some h);
     if e_pos e \<noteq> None then heap_delete (e_pos e) h else Some h }"

definition engine_delete :: "('l, 'b, 'sp) engine \<Rightarrow> heap \<Rightarrow> heap option" where
  "engine_delete e h = clearForDelete e h"

definition engine_reset :: "'l \<Rightarrow> ('l, 'b, 'sp) engine \<Rightarrow> heap \<Rightarrow> (('l, 'b, 'sp) engine \<times> heap) option" where
  "engine_reset ld e h = do {
     h \<leftarrow> clearForDelete e h;
     let e = e\<lparr>e_pcode := clear (e_pcode e), e_loader := ld\<rparr>;
     let (cache, h) = heap_new h;
     Some (e\<lparr>e_cache := Some cache, e_discache := None, e_pos := None\<rparr>, h) }"

text \<open>
  \<open>initialize\<close>: the exceptions are \<open>Inl\<close> with the engine they leave; those of the decoder carry no
  message of this code.
\<close>

definition engine_initialize :: "('b, 'doc) sleigh_base \<Rightarrow> 'doc \<Rightarrow> ('l, 'b, 'sp) engine \<Rightarrow> heap \<Rightarrow>
    (string option + unit) \<times> ('l, 'b, 'sp) engine \<times> heap" where
  "engine_initialize lib store e h =
     (let fresh = (\<lambda>e. case heap_new h of (pos, h) \<Rightarrow> (Inr (), e\<lparr>e_pos := Some pos\<rparr>, h)) in
      if isInitialized lib (e_base e) then fresh (e\<lparr>e_base := reregisterContext lib (e_base e)\<rparr>)
      else case sleigh_tag lib store of
        None \<Rightarrow> (Inl (Some ''Could not find sleigh tag''), e, h)
      | Some path \<Rightarrow>
          if \<not> sla_opens lib path then (Inl (Some (''Could not open .sla file: '' @ path)), e, h)
          else case sla_decode lib path (e_base e) of (ok, base) \<Rightarrow>
            if ok then fresh (e\<lparr>e_base := base\<rparr>) else (Inl None, e\<lparr>e_base := base\<rparr>, h))"

section \<open>A life\<close>

datatype ('l, 'doc) engine_call = Initialize 'doc | Reset 'l

text \<open>The calls in turn, with what each of them came to: \<open>initialize\<close> may throw.\<close>

datatype call_result = Initialized | Threw_out | Was_reset

fun engine_calls :: "('b, 'doc) sleigh_base \<Rightarrow> ('l, 'doc) engine_call list \<Rightarrow> ('l, 'b, 'sp) engine \<Rightarrow> heap \<Rightarrow>
    (call_result list \<times> ('l, 'b, 'sp) engine \<times> heap) option" where
  "engine_calls lib [] e h = Some ([], e, h)"
| "engine_calls lib (Initialize store # cs) e h =
     (case engine_initialize lib store e h of (v, e, h) \<Rightarrow> do {
        (rs, e, h) \<leftarrow> engine_calls lib cs e h;
        Some ((case v of Inr _ \<Rightarrow> Initialized | Inl _ \<Rightarrow> Threw_out) # rs, e, h) })"
| "engine_calls lib (Reset ld # cs) e h = do {
     (e, h) \<leftarrow> engine_reset ld e h;
     (rs, e, h) \<leftarrow> engine_calls lib cs e h;
     Some (Was_reset # rs, e, h) }"

text \<open>Whether there is a parser context, and how many have been lost.\<close>

fun has_pos :: "bool \<Rightarrow> call_result list \<Rightarrow> bool" where
  "has_pos b [] = b"
| "has_pos b (Initialized # rs) = has_pos True rs"
| "has_pos b (Threw_out # rs) = has_pos b rs"
| "has_pos b (Was_reset # rs) = has_pos False rs"

fun lost_pos :: "bool \<Rightarrow> call_result list \<Rightarrow> nat" where
  "lost_pos b [] = 0"
| "lost_pos b (Initialized # rs) = (if b then 1 else 0) + lost_pos True rs"
| "lost_pos b (Threw_out # rs) = lost_pos b rs"
| "lost_pos b (Was_reset # rs) = lost_pos False rs"

section \<open>Ownership\<close>

definition owned :: "('l, 'b, 'sp) engine \<Rightarrow> nat list" where
  "owned e = (case e_cache e of Some a \<Rightarrow> [a] | None \<Rightarrow> []) @ (case e_pos e of Some a \<Rightarrow> [a] | None \<Rightarrow> [])"

text \<open>The other objects of the heap, among them the lost parser contexts, are \<open>rest\<close>.\<close>

definition engine_inv :: "('l, 'b, 'sp) engine \<Rightarrow> heap \<Rightarrow> nat set \<Rightarrow> bool" where
  "engine_inv e h rest \<longleftrightarrow> heap_ok h \<and> e_cache e \<noteq> None \<and> e_discache e = None \<and> distinct (owned e) \<and>
     set (h_live h) = set (owned e) \<union> rest \<and> set (owned e) \<inter> rest = {} \<and> finite rest"

lemma clearForDelete_ok:
  assumes "engine_inv e h rest"
  shows "\<exists>h'. clearForDelete e h = Some h' \<and> heap_ok h' \<and> set (h_live h') = rest"
proof -
  obtain c where c: "e_cache e = Some c"
    using assms by (auto simp: engine_inv_def)
  have h: "heap_ok h" "c \<in> set (h_live h)" "e_discache e = None"
    using assms c by (auto simp: engine_inv_def owned_def)
  obtain h1 where h1: "heap_delete (Some c) h = Some h1" "heap_ok h1" "set (h_live h1) = set (h_live h) - {c}"
    using heap_delete_ok [OF h(1,2)] by blast
  show ?thesis
  proof (cases "e_pos e")
    case None
    then show ?thesis
      using assms c h h1 by (auto simp: clearForDelete_def engine_inv_def owned_def)
  next
    case (Some q)
    then have "q \<in> set (h_live h1)"
      using assms c h1(3) by (auto simp: engine_inv_def owned_def)
    from heap_delete_ok [OF h1(2) this] obtain h2 where
      "heap_delete (Some q) h1 = Some h2" "heap_ok h2" "set (h_live h2) = set (h_live h1) - {q}"
      by blast
    then show ?thesis
      using assms c h h1 Some by (auto simp: clearForDelete_def engine_inv_def owned_def)
  qed
qed

lemma engine_reset_ok:
  assumes "engine_inv e h rest"
  shows "\<exists>e' h'. engine_reset ld e h = Some (e', h') \<and> engine_inv e' h' rest \<and> e_pos e' = None"
proof -
  obtain h1 where h1: "clearForDelete e h = Some h1" "heap_ok h1" "set (h_live h1) = rest"
    using clearForDelete_ok [OF assms] by blast
  obtain a h2 where h2: "heap_new h1 = (a, h2)" by fastforce
  show ?thesis
    using h1 heap_new_ok [OF h1(2) h2] by (auto simp: engine_reset_def h2 engine_inv_def owned_def Let_def)
qed

lemma engine_initialize_ok:
  assumes "engine_inv e h rest" and "engine_initialize lib store e h = (v, e', h')"
  shows "case v of
      Inl _ \<Rightarrow> engine_inv e' h' rest \<and> e_pos e' = e_pos e
    | Inr _ \<Rightarrow> e_pos e' \<noteq> None \<and> (\<exists>lost. engine_inv e' h' lost \<and> card lost = card rest + (if e_pos e = None then 0 else 1) \<and> rest \<subseteq> lost)"
proof -
  obtain q h1 where h1: "heap_new h = (q, h1)" by fastforce
  have ok: "heap_ok h"
    using assms(1) by (simp add: engine_inv_def)
  note new = heap_new_ok [OF ok h1]
  have fresh: "\<exists>lost. engine_inv (e\<lparr>e_base := b, e_pos := Some q\<rparr>) h1 lost \<and>
      card lost = card rest + (if e_pos e = None then 0 else 1) \<and> rest \<subseteq> lost" for b
    using assms(1) new
    by (intro exI [of _ "rest \<union> (case e_pos e of None \<Rightarrow> {} | Some a \<Rightarrow> {a})"])
      (auto simp: engine_inv_def owned_def split: option.splits)
  have keep: "engine_inv (e\<lparr>e_base := b\<rparr>) h rest" for b
    using assms(1) by (simp add: engine_inv_def owned_def)
  show ?thesis
    using assms(2) fresh keep assms(1)
    by (auto simp: engine_initialize_def Let_def h1 split: if_splits option.splits prod.splits)
qed

lemma engine_calls_ok:
  "engine_inv e h rest \<Longrightarrow> \<exists>rs e' h' rest'. engine_calls lib cs e h = Some (rs, e', h') \<and> engine_inv e' h' rest' \<and>
     rest \<subseteq> rest' \<and> (e_pos e' \<noteq> None \<longleftrightarrow> has_pos (e_pos e \<noteq> None) rs) \<and>
     card rest' = card rest + lost_pos (e_pos e \<noteq> None) rs"
proof (induction lib cs e h arbitrary: rest rule: engine_calls.induct)
  case (1 lib e h)
  then show ?case by auto
next
  case (2 lib store cs e h)
  obtain v e1 h1 where i: "engine_initialize lib store e h = (v, e1, h1)"
    by (metis prod_cases3)
  show ?case
  proof (cases v)
    case (Inl m)
    then have e1: "engine_inv e1 h1 rest" "e_pos e1 = e_pos e"
      using engine_initialize_ok [OF 2(2) i] by auto
    from 2(1) [OF i [symmetric] refl e1(1)] obtain rs e' h' rest' where
      "engine_calls lib cs e1 h1 = Some (rs, e', h')" "engine_inv e' h' rest'" "rest \<subseteq> rest'"
      "(e_pos e' \<noteq> None) = has_pos (e_pos e1 \<noteq> None) rs" "card rest' = card rest + lost_pos (e_pos e1 \<noteq> None) rs"
      by blast
    then show ?thesis
      using i Inl e1(2) by (intro exI [of _ "Threw_out # rs"] exI [of _ e'] exI [of _ h'] exI [of _ rest']) simp
  next
    case (Inr x)
    then obtain lost where e1: "e_pos e1 \<noteq> None" "engine_inv e1 h1 lost" "rest \<subseteq> lost"
        "card lost = card rest + (if e_pos e = None then 0 else 1)"
      using engine_initialize_ok [OF 2(2) i] by auto
    from 2(1) [OF i [symmetric] refl e1(2)] obtain rs e' h' rest' where
      "engine_calls lib cs e1 h1 = Some (rs, e', h')" "engine_inv e' h' rest'" "lost \<subseteq> rest'"
      "(e_pos e' \<noteq> None) = has_pos (e_pos e1 \<noteq> None) rs" "card rest' = card lost + lost_pos (e_pos e1 \<noteq> None) rs"
      by blast
    then show ?thesis
      using i Inr e1 by (intro exI [of _ "Initialized # rs"] exI [of _ e'] exI [of _ h'] exI [of _ rest'])
        (simp, blast)
  qed
next
  case (3 lib ld cs e h)
  obtain e1 h1 where r: "engine_reset ld e h = Some (e1, h1)" "engine_inv e1 h1 rest" "e_pos e1 = None"
    using engine_reset_ok [OF 3(2)] by blast
  from 3(1) [OF r(1) refl r(2)] obtain rs e' h' rest' where
    "engine_calls lib cs e1 h1 = Some (rs, e', h')" "engine_inv e' h' rest'" "rest \<subseteq> rest'"
    "(e_pos e' \<noteq> None) = has_pos (e_pos e1 \<noteq> None) rs" "card rest' = card rest + lost_pos (e_pos e1 \<noteq> None) rs"
    by blast
  then show ?case
    using r by (intro exI [of _ "Was_reset # rs"] exI [of _ e'] exI [of _ h'] exI [of _ rest']) simp
qed

text \<open>C22: The engine frees every object once. Whatever sequence of \<open>initialize\<close> (failing or not) and \<open>reset\<close>
  calls an engine goes through between its construction and its destruction, no object is ever
  deleted twice and none that it does not own is touched; it has a parser context exactly when an
  \<open>initialize\<close> returned after the last \<open>reset\<close>; and after the destructor all that is left besides what
  was there before are the contexts that were overwritten by a repeated \<open>initialize\<close>.\<close>

theorem engine_frees_once:
  assumes "heap_ok h" and "engine_new ld base pc h = (e, h1)"
  shows "\<exists>rs e' h2 h3. engine_calls lib cs e h1 = Some (rs, e', h2) \<and> engine_delete e' h2 = Some h3 \<and>
    (e_pos e' \<noteq> None \<longleftrightarrow> has_pos False rs) \<and> set (h_live h) \<subseteq> set (h_live h3) \<and>
    card (set (h_live h3)) = card (set (h_live h)) + lost_pos False rs"
proof -
  obtain c where new: "heap_new h = (c, h1)" "e_cache e = Some c" "e_discache e = None" "e_pos e = None"
    using assms(2) by (auto simp: engine_new_def split: prod.splits)
  have "engine_inv e h1 (set (h_live h))"
    using heap_new_ok [OF assms(1) new(1)] new by (simp add: engine_inv_def owned_def)
  from engine_calls_ok [OF this, of lib cs] obtain rs e' h2 rest where
    run: "engine_calls lib cs e h1 = Some (rs, e', h2)" "engine_inv e' h2 rest" "set (h_live h) \<subseteq> rest"
    "e_pos e' \<noteq> None \<longleftrightarrow> has_pos False rs" "card rest = card (set (h_live h)) + lost_pos False rs"
    using new(4) by auto
  obtain h3 where "clearForDelete e' h2 = Some h3" "set (h_live h3) = rest"
    using clearForDelete_ok [OF run(2)] by blast
  then show ?thesis
    using run by (auto simp: engine_delete_def)
qed

text \<open>The instance: a base that the first \<open>initialize\<close> completes; the second one loses a context.\<close>

definition plain_base :: "(bool, unit) sleigh_base" where
  "plain_base = \<lparr>isInitialized = \<lambda>b. b, reregisterContext = \<lambda>b. b, sleigh_tag = \<lambda>d. Some [],
     sla_opens = \<lambda>p. True, sla_decode = \<lambda>p b. (True, True)\<rparr>"

theorem engine_frees_once_witness:
  "\<exists>e h2 h3. engine_calls plain_base [Initialize (), Reset (), Initialize (), Initialize ()]
      (fst (engine_new () False (new_cacher (\<lambda>_. \<lparr>vn_space = (), vn_offset = 0, vn_size = 0\<rparr>)) \<lparr>h_next = 0, h_live = []\<rparr>))
      (snd (engine_new () False (new_cacher (\<lambda>_. \<lparr>vn_space = (), vn_offset = 0, vn_size = 0\<rparr>)) \<lparr>h_next = 0, h_live = []\<rparr>)) =
    Some ([Initialized, Was_reset, Initialized, Initialized], e, h2) \<and>
    engine_delete e h2 = Some h3 \<and> e_pos e \<noteq> None \<and> card (set (h_live h3)) = 1"
proof -
  let ?pc = "new_cacher (\<lambda>_. \<lparr>vn_space = (), vn_offset = 0, vn_size = 0\<rparr>)" and ?h = "\<lparr>h_next = 0, h_live = []\<rparr>"
  let ?cs = "[Initialize (), Reset (), Initialize (), Initialize ()]"
  obtain e h1 where new: "engine_new () False ?pc ?h = (e, h1)"
    by fastforce
  then have run: "\<exists>e' h2. engine_calls plain_base ?cs e h1 = Some ([Initialized, Was_reset, Initialized, Initialized], e', h2)"
    by (auto simp: engine_new_def heap_new_def engine_initialize_def engine_reset_def clearForDelete_def
        heap_delete_def plain_base_def Let_def)
  have "heap_ok ?h"
    by (simp add: heap_ok_def)
  from engine_frees_once [OF this new, of plain_base ?cs] run show ?thesis
    by (auto simp: new)
qed

end
