(* ===== verification/Ghidra_Startup.thy ===== *)
theory Ghidra_Startup
  imports Adapter_Properties Engine_Life
begin

text \<open>
  The start of the Ghidra worker (src/worker/ghidra/ghidra.cc: the global objects and
  \<open>worker_ctor\<close>). The document storage, the XML elements and the context database belong to the
  SLEIGH library. An exception is the end of the worker: nothing catches it. \<open>Inl (Some m)\<close> is one
  with a message of this repository, \<open>Inl None\<close> one of the library. Then the calls of \<open>try_decode\<close>
  on the state the constructor leaves: a parse reads the context database, and it may write to it
  unless the constructor has forbidden that.
\<close>

section \<open>The global objects\<close>

record ('st, 'el, 'ctx) startup_lib =
  named_element :: "string \<Rightarrow> string \<Rightarrow> 'el"
  registerTag :: "'el \<Rightarrow> 'st \<Rightarrow> 'st"
  openDocument :: "string \<Rightarrow> 'st \<Rightarrow> ('el \<times> 'st) option"
  getTag :: "string \<Rightarrow> 'st \<Rightarrow> 'el option"
  openElement :: "'el \<Rightarrow> 'el list option"
  element_id :: "'el \<Rightarrow> u32"
  ELEM_CONTEXT_DATA :: u32
  closeElementSkipping :: "'el \<Rightarrow> bool"
  closeElement :: "'el \<Rightarrow> bool"
  decodeFromSpec :: "'el \<Rightarrow> 'ctx \<Rightarrow> 'ctx option"

record ('st, 'ctx, 'b, 'sp) ghidra_globals =
  g_docstorage :: 'st
  g_context :: 'ctx
  g_image :: load_image
  g_trans :: "(load_image, 'b, 'sp) engine"
  g_heap :: heap
  g_allowSet :: bool

definition start_image :: load_image where
  "start_image = \<lparr>baseaddr = START_ADDRESS, img_length = 0, img_data = []\<rparr>"

definition sleighfilename :: string where
  "sleighfilename = ''src/worker/ghidra/build/sleigh-cmake/specfiles/Ghidra/Processors/x86/'' @
     ''data/languages/x86-64.sla''"

definition pspecfilename :: string where
  "pspecfilename = ''src/worker/ghidra/build/sleigh-cmake/specfiles/Ghidra/Processors/x86/'' @
     ''data/languages/x86-64.pspec''"

text \<open>Each global is constructed when it is first asked for, all of them by \<open>worker_ctor\<close>.\<close>

definition globals_new :: "'st \<Rightarrow> 'ctx \<Rightarrow> 'b \<Rightarrow> 'sp pcode_cacher \<Rightarrow> bool \<Rightarrow> heap \<Rightarrow> ('st, 'ctx, 'b, 'sp) ghidra_globals" where
  "globals_new st ctx base pc allow h =
     (case engine_new start_image base pc h of (e, h) \<Rightarrow>
        \<lparr>g_docstorage = st, g_context = ctx, g_image = start_image, g_trans = e, g_heap = h, g_allowSet = allow\<rparr>)"

section \<open>\<open>worker_ctor\<close>\<close>

text \<open>
  The loop over the children of the processor specification; \<open>peekElement\<close> gives 0 when there are
  no more. The functions that open, skip and close elements may throw (\<open>False\<close>, \<open>None\<close>).
\<close>

fun context_loop :: "('st, 'el, 'ctx) startup_lib \<Rightarrow> 'el list \<Rightarrow> 'ctx \<Rightarrow> 'ctx option" where
  "context_loop lib [] ctx = Some ctx"
| "context_loop lib (el # els) ctx =
     (let subId = element_id lib el in
      if subId = 0 then Some ctx
      else if subId = ELEM_CONTEXT_DATA lib then decodeFromSpec lib el ctx
      else if closeElementSkipping lib el then context_loop lib els ctx else None)"

definition allowContextSet :: "bool \<Rightarrow> ('st, 'ctx, 'b, 'sp) ghidra_globals \<Rightarrow> ('st, 'ctx, 'b, 'sp) ghidra_globals" where
  "allowContextSet val g = g\<lparr>g_allowSet := val\<rparr>"

definition ghidra_worker_ctor :: "('st, 'el, 'ctx) startup_lib \<Rightarrow> ('b, 'st) sleigh_base \<Rightarrow>
    ('st, 'ctx, 'b, 'sp) ghidra_globals \<Rightarrow> string option + ('st, 'ctx, 'b, 'sp) ghidra_globals" where
  "ghidra_worker_ctor lib base g =
     (let sleighel = named_element lib ''sleigh'' sleighfilename;
          st = registerTag lib sleighel (g_docstorage g)
      in case openDocument lib pspecfilename st of
           None \<Rightarrow> Inl None
         | Some (specroot, st) \<Rightarrow>
             let st = registerTag lib specroot st in
             case engine_initialize base st (g_trans g) (g_heap g) of
               (Inl m, _, _) \<Rightarrow> Inl m
             | (Inr _, e, h) \<Rightarrow>
                 case getTag lib ''processor_spec'' st of
                   None \<Rightarrow> Inl (Some ''No processor configuration tag found'')
                 | Some el \<Rightarrow>
                     case openElement lib el of
                       None \<Rightarrow> Inl None
                     | Some els \<Rightarrow>
                         case context_loop lib els (g_context g) of
                           None \<Rightarrow> Inl None
                         | Some ctx \<Rightarrow>
                             if \<not> closeElement lib el then Inl None
                             else Inr (allowContextSet False
                               (g\<lparr>g_docstorage := st, g_context := ctx, g_trans := e, g_heap := h\<rparr>)))"

section \<open>\<open>try_decode\<close> on the globals\<close>

text \<open>
  The engine with its context database. A parse loads the context of its address from the
  database, and what the constructors of an instruction commit goes through the context cache,
  whose \<open>allowSet\<close> decides whether a set is carried out. So \<open>cp_parse\<close> is given that flag and
  the database, and returns the database as well. The rest works on trees.
\<close>

record ('ctx, 'tree) context_lib =
  cp_parse :: "bool \<Rightarrow> 'ctx \<Rightarrow> byte list \<Rightarrow> u64 \<Rightarrow> 'tree option \<times> 'ctx"
  cp_trees :: "'tree sleigh_lib"

definition at_context :: "('ctx, 'tree) context_lib \<Rightarrow> bool \<Rightarrow> 'ctx \<Rightarrow> 'tree sleigh_lib" where
  "at_context lib allow ctx = (cp_trees lib)\<lparr>sleigh_parse := \<lambda>buf addr. fst (cp_parse lib allow ctx buf addr)\<rparr>"

text \<open>A cache whose sets are not allowed ignores them.\<close>

definition ignores_sets :: "('ctx, 'tree) context_lib \<Rightarrow> bool" where
  "ignores_sets lib \<longleftrightarrow> (\<forall>ctx buf addr. snd (cp_parse lib False ctx buf addr) = ctx)"

text \<open>
  A call, on the globals and the engine's parser context. \<open>printAssembly\<close> parses once, the buffer
  it has filled, at the start address; that parse is what can change the database.
\<close>

definition worker_try_decode :: "('ctx, 'tree) context_lib \<Rightarrow>
    ('st, 'ctx, 'b, 'sp) ghidra_globals \<times> 'tree parser_context \<Rightarrow> output_slot \<Rightarrow> byte list \<Rightarrow> byte \<Rightarrow>
    (output_slot \<times> ('st, 'ctx, 'b, 'sp) ghidra_globals \<times> 'tree parser_context) option" where
  "worker_try_decode lib gp r raw n = (case gp of (g, pos) \<Rightarrow> do {
     (r, s) \<leftarrow> ghidra_decode (at_context lib (g_allowSet g) (g_context g)) \<lparr>g_loader = g_image g, g_pos = pos\<rparr> r raw n;
     let ctx = snd (cp_parse lib (g_allowSet g) (g_context g) (pos_buffer (g_pos s)) START_ADDRESS);
     Some (r, g\<lparr>g_image := g_loader s, g_context := ctx\<rparr>, g_pos s) })"

fun decode_calls :: "('ctx, 'tree) context_lib \<Rightarrow>
    ('st, 'ctx, 'b, 'sp) ghidra_globals \<times> 'tree parser_context \<Rightarrow> (output_slot \<times> byte list \<times> byte) list \<Rightarrow>
    (output_slot list \<times> ('st, 'ctx, 'b, 'sp) ghidra_globals \<times> 'tree parser_context) option" where
  "decode_calls lib gp [] = Some ([], gp)"
| "decode_calls lib gp ((r, raw, n) # calls) = do {
     (r', gp) \<leftarrow> worker_try_decode lib gp r raw n;
     (rs, gp) \<leftarrow> decode_calls lib gp calls;
     Some (r' # rs, gp) }"

text \<open>The parser context that \<open>initialize\<close> has made: nothing is parsed yet, its buffer has 16 bytes.\<close>

definition start_pos :: "byte list \<Rightarrow> 'tree \<Rightarrow> 'tree parser_context" where
  "start_pos buf tree = \<lparr>pos_addr = 0, pos_state = uninitialized, pos_buffer = buf, pos_tree = tree\<rparr>"

section \<open>After the start\<close>

text \<open>What the loop finds: the first context data, if an element of the list is that.\<close>

definition context_data :: "('st, 'el, 'ctx) startup_lib \<Rightarrow> 'el list \<Rightarrow> 'el option" where
  "context_data lib els =
     find (\<lambda>el. element_id lib el = ELEM_CONTEXT_DATA lib) (takeWhile (\<lambda>el. element_id lib el \<noteq> 0) els)"

lemma context_loop_finds:
  "context_loop lib els ctx = Some ctx' \<Longrightarrow>
     (case context_data lib els of None \<Rightarrow> ctx' = ctx | Some el \<Rightarrow> decodeFromSpec lib el ctx = Some ctx')"
  by (induction els) (auto simp: context_data_def Let_def split: if_splits)

lemma initialize_gives_pos:
  "engine_initialize base st e h = (Inr x, e', h') \<Longrightarrow> e_pos e' \<noteq> None"
  by (auto simp: engine_initialize_def Let_def heap_new_def split: if_splits option.splits prod.splits)

lemma ctor_returns:
  assumes "ghidra_worker_ctor slib base (globals_new st ctx b pc allow h) = Inr g"
  shows "g_image g = start_image" and "\<not> g_allowSet g" and "e_pos (g_trans g) \<noteq> None"
    and "\<exists>el els. getTag slib ''processor_spec'' (g_docstorage g) = Some el \<and> openElement slib el = Some els \<and>
      context_loop slib els ctx = Some (g_context g)"
  using assms by (auto simp: ghidra_worker_ctor_def globals_new_def allowContextSet_def Let_def
      dest: initialize_gives_pos split: option.splits prod.splits sum.splits if_splits)

text \<open>While sets are not allowed, every call finds the database as the one before did.\<close>

definition padded :: "byte list \<Rightarrow> byte \<Rightarrow> byte list" where
  "padded raw n = take (unat n) raw @ replicate (16 - unat n) 0"

lemma call_answers:
  assumes "ignores_sets lib" and "\<not> g_allowSet g" and "ghidra_inv \<lparr>g_loader = g_image g, g_pos = pos\<rparr>"
    and "output_slot_ok r" and "insn_given raw n"
  shows "\<exists>r' g' pos'. worker_try_decode lib (g, pos) r raw n = Some (r', g', pos') \<and>
    ghidra_outcome (at_context lib False (g_context g)) r (padded raw n) = Some r' \<and>
    g_context g' = g_context g \<and> \<not> g_allowSet g' \<and> ghidra_inv \<lparr>g_loader = g_image g', g_pos = pos'\<rparr>"
proof -
  let ?lib = "at_context lib False (g_context g)" and ?s = "\<lparr>g_loader = g_image g, g_pos = pos\<rparr>"
  obtain r' where r': "ghidra_outcome ?lib r (padded raw n) = Some r'"
    using ghidra_outcome_line [OF assms(4), of ?lib raw n] by (auto simp: padded_def padded_input_def)
  obtain s' where "ghidra_inv s'" "ghidra_decode ?lib ?s r raw n = Some (r', s')"
    using ghidra_decode_outcome [OF assms(3), of n raw ?lib r] assms(5) r'
    by (auto simp: insn_given_def padded_def padded_input_def)
  moreover from this have "ghidra_inv \<lparr>g_loader = g_loader s', g_pos = g_pos s'\<rparr>"
    by (simp add: ghidra_inv_def)
  ultimately show ?thesis
    using assms(1,2) r' by (simp add: worker_try_decode_def ignores_sets_def Let_def)
qed

lemma calls_answer:
  assumes "ignores_sets lib" and "\<forall>(r, raw, n) \<in> set calls. output_slot_ok r \<and> insn_given raw n"
  shows "\<not> g_allowSet g \<Longrightarrow> ghidra_inv \<lparr>g_loader = g_image g, g_pos = pos\<rparr> \<Longrightarrow>
    \<exists>rs g' pos'. decode_calls lib (g, pos) calls = Some (rs, g', pos') \<and> g_context g' = g_context g \<and>
      list_all2 (\<lambda>(r, raw, n) r'. ghidra_outcome (at_context lib False (g_context g)) r (padded raw n) = Some r')
        calls rs"
  using assms(2)
proof (induction calls arbitrary: g pos)
  case Nil
  then show ?case by simp
next
  case (Cons c calls)
  obtain r raw n where c: "c = (r, raw, n)"
    by (cases c)
  obtain r' g1 pos1 where 1: "worker_try_decode lib (g, pos) r raw n = Some (r', g1, pos1)"
      "ghidra_outcome (at_context lib False (g_context g)) r (padded raw n) = Some r'"
      "g_context g1 = g_context g" "\<not> g_allowSet g1" "ghidra_inv \<lparr>g_loader = g_image g1, g_pos = pos1\<rparr>"
    using call_answers [OF assms(1) Cons.prems(1,2), of r raw n] Cons.prems(3) by (auto simp: c)
  obtain rs g2 pos2 where "decode_calls lib (g1, pos1) calls = Some (rs, g2, pos2)"
      "g_context g2 = g_context g" "list_all2 (\<lambda>(r, raw, n) r'.
        ghidra_outcome (at_context lib False (g_context g)) r (padded raw n) = Some r') calls rs"
    using Cons.IH [OF 1(4,5)] Cons.prems(3) 1(3) by auto
  then show ?case
    using 1(1,2) by (simp add: c)
qed

text \<open>C23: The Ghidra worker starts ready and stays so. When \<open>worker_ctor\<close> returns, the engine has its
  parser context (the pointer \<open>obtainContext\<close> uses without a check), the context database holds the
  settings of the first context data of the processor specification, or is untouched if there are
  none, and sets to it are not allowed. Provided the context cache ignores sets that are not
  allowed, any sequence of calls of \<open>try_decode\<close> that follows, each on a slot with a length within
  its buffer and an instruction of 1 to 15 bytes, returns, leaves the database as the constructor
  left it, and answers each call as a function of the database and of that call's bytes alone.\<close>

theorem ghidra_starts_ready:
  assumes "ghidra_worker_ctor slib base (globals_new st ctx b pc allow h) = Inr g" and "length buf = 16"
    and "ignores_sets lib" and "\<forall>(r, raw, n) \<in> set calls. output_slot_ok r \<and> insn_given raw n"
  shows "e_pos (g_trans g) \<noteq> None \<and> \<not> g_allowSet g \<and>
    (\<exists>el els. getTag slib ''processor_spec'' (g_docstorage g) = Some el \<and> openElement slib el = Some els \<and>
       (case context_data slib els of None \<Rightarrow> g_context g = ctx
        | Some d \<Rightarrow> decodeFromSpec slib d ctx = Some (g_context g))) \<and>
    (\<exists>rs g' pos'. decode_calls lib (g, start_pos buf tree) calls = Some (rs, g', pos') \<and>
       g_context g' = g_context g \<and>
       list_all2 (\<lambda>(r, raw, n) r'. ghidra_outcome (at_context lib False (g_context g)) r
         (take (unat n) raw @ replicate (16 - unat n) 0) = Some r') calls rs)"
proof -
  note ctor = ctor_returns [OF assms(1)]
  have "ghidra_inv \<lparr>g_loader = g_image g, g_pos = start_pos buf tree\<rparr>"
    using assms(2) by (simp add: ghidra_inv_def start_pos_def start_image_def ctor(1))
  note calls = calls_answer [OF assms(3,4) ctor(2) this]
  from ctor(4) obtain el els where els: "getTag slib ''processor_spec'' (g_docstorage g) = Some el"
      "openElement slib el = Some els" "context_loop slib els ctx = Some (g_context g)"
    by blast
  have "case context_data slib els of None \<Rightarrow> g_context g = ctx
      | Some d \<Rightarrow> decodeFromSpec slib d ctx = Some (g_context g)"
    using context_loop_finds [OF els(3)] .
  then show ?thesis
    using ctor(2,3) els(1,2) calls unfolding padded_def by blast
qed

text \<open>
  The instance: a specification with one entry of another kind before the context data, and an
  engine that decodes a byte only with these settings and would change them if it were allowed.
\<close>

definition plain_startup :: "(string list, string, nat) startup_lib" where
  "plain_startup = \<lparr>named_element = \<lambda>n c. n, registerTag = \<lambda>el st. el # st,
     openDocument = \<lambda>f st. Some (''processor_spec'', st),
     getTag = \<lambda>n st. find (\<lambda>el. el = n) st, openElement = \<lambda>el. Some [''programcounter'', ''context_data''],
     element_id = \<lambda>el. if el = ''context_data'' then 7 else 3, ELEM_CONTEXT_DATA = 7,
     closeElementSkipping = \<lambda>el. True, closeElement = \<lambda>el. True, decodeFromSpec = \<lambda>el ctx. Some (ctx + 64)\<rparr>"

definition file_base :: "(bool, string list) sleigh_base" where
  "file_base = \<lparr>isInitialized = \<lambda>b. b, reregisterContext = \<lambda>b. b,
     sleigh_tag = \<lambda>st. if ''sleigh'' \<in> set st then Some sleighfilename else None,
     sla_opens = \<lambda>f. f = sleighfilename, sla_decode = \<lambda>p b. (True, True)\<rparr>"

definition moody_lib :: "(nat, nat) context_lib" where
  "moody_lib = \<lparr>cp_parse = \<lambda>allow ctx buf addr.
       (if ctx = 64 \<and> hd buf = 0x90 then Some 1 else None, if allow then ctx + 1 else ctx),
     cp_trees = nop_sleigh\<rparr>"

definition nop_call :: "output_slot \<times> byte list \<times> byte" where
  "nop_call = (zero_output_slot, nop_insn, 1)"

lemma moody_line: "ghidra_line (at_context moody_lib False 64) nop_insn 1 = Some (bytes_of ''NOP'' @ [32, 10])"
proof -
  have "sleigh_parse (at_context moody_lib False 64) (padded_input nop_insn 1) START_ADDRESS = Some 1"
    by (simp add: at_context_def moody_lib_def padded_input_def nop_insn_def)
  then show ?thesis
    by (simp add: ghidra_line_def at_context_def moody_lib_def nop_sleigh_def c_string_def bytes_of_def)
qed

theorem ghidra_starts_ready_witness:
  "\<exists>g g' pos' r1 r2. ghidra_worker_ctor plain_startup file_base (globals_new [] 0 False
       (new_cacher (\<lambda>_. \<lparr>vn_space = (), vn_offset = 0, vn_size = 0\<rparr>)) True \<lparr>h_next = 0, h_live = []\<rparr>) = Inr g \<and>
     g_context g = 64 \<and> e_pos (g_trans g) \<noteq> None \<and>
     decode_calls moody_lib (g, start_pos (replicate 16 0) 0) [nop_call, nop_call] = Some ([r1, r2], g', pos') \<and>
     g_context g' = 64 \<and> status r2 = S_SUCCESS \<and> out_len r2 = 5"
proof -
  let ?g = "globals_new [] 0 False (new_cacher (\<lambda>_. \<lparr>vn_space = (), vn_offset = 0, vn_size = 0\<rparr>)) True
      \<lparr>h_next = 0, h_live = []\<rparr>"
  obtain g where g: "ghidra_worker_ctor plain_startup file_base ?g = Inr g" "g_context g = 64"
    by (simp add: ghidra_worker_ctor_def plain_startup_def file_base_def globals_new_def engine_new_def heap_new_def
        engine_initialize_def allowContextSet_def Let_def sleighfilename_def)
  have "ignores_sets moody_lib" and slot: "output_slot_ok zero_output_slot"
    by (simp_all add: ignores_sets_def moody_lib_def slot_defs zero_output_slot_def)
  then obtain rs g' pos' where calls: "e_pos (g_trans g) \<noteq> None"
      "decode_calls moody_lib (g, start_pos (replicate 16 0) 0) [nop_call, nop_call] = Some (rs, g', pos')"
      "g_context g' = 64" "list_all2 (\<lambda>(r, raw, n) r'. ghidra_outcome (at_context moody_lib False 64) r
         (take (unat n) raw @ replicate (16 - unat n) 0) = Some r') [nop_call, nop_call] rs"
    using ghidra_starts_ready [OF g(1), of "replicate 16 0" moody_lib "[nop_call, nop_call]" 0] g(2) nop_given
    unfolding nop_call_def by auto
  obtain r1 r2 where rs: "rs = [r1, r2]"
      "ghidra_outcome (at_context moody_lib False 64) zero_output_slot (padded_input nop_insn 1) = Some r2"
    using calls(4) by (auto simp: list_all2_Cons1 nop_call_def padded_input_def)
  then have "status r2 = S_SUCCESS \<and> out_len r2 = 5"
    using ghidra_outcome_line [OF slot, of "at_context moody_lib False 64" nop_insn 1] moody_line
    by (simp add: bytes_of_def)
  then show ?thesis
    using g calls(1-3) rs(1) by blast
qed

end
