(* ===== verification/Sleigh_Walk.thy ===== *)
theory Sleigh_Walk
  imports Ghidra_Worker
begin

text \<open>
  The two tree walks of the SLEIGH engine (src/worker/ghidra/sleighMishegos.cc: \<open>resolve\<close> builds the
  parse tree of an instruction, \<open>resolveHandles\<close> fills in its handles). Both are loops over a walker
  that keeps its own stack of positions; the walker, the parser context and the symbols of the
  specification belong to the SLEIGH library. A function that may throw has no value when it does.
  The walks are shown to be recursive descents, and to end, for a walker that is a stack.
\<close>

section \<open>The common loop\<close>

text \<open>What a visit to an operand ends with: an exception, a new constructor to continue in, or nothing more to do.\<close>

datatype 'w visit = Threw | Descended 'w | Passed 'w

record ('w, 'ct) walk =
  wk_isState :: "'w \<Rightarrow> bool"
  wk_getConstructor :: "'w \<Rightarrow> 'ct"
  wk_getOperand :: "'w \<Rightarrow> nat"
  wk_numOperands :: "'ct \<Rightarrow> nat"
  wk_visit :: "'ct \<Rightarrow> nat \<Rightarrow> 'w \<Rightarrow> 'w visit"
  wk_finish :: "'ct \<Rightarrow> 'w \<Rightarrow> 'w option"

text \<open>The inner loop: operands are visited until one has a constructor of its own.\<close>

function walk_operands :: "('w, 'ct) walk \<Rightarrow> 'ct \<Rightarrow> nat \<Rightarrow> 'w \<Rightarrow> 'w visit" where
  "walk_operands wk ct oper w =
     (if oper < wk_numOperands wk ct then
        (case wk_visit wk ct oper w of
           Threw \<Rightarrow> Threw
         | Descended w \<Rightarrow> Descended w
         | Passed w \<Rightarrow> walk_operands wk ct (oper + 1) w)
      else Passed w)"
  by auto
termination
  by (relation "measure (\<lambda>(wk, ct, oper, w). wk_numOperands wk ct - oper)") auto

declare walk_operands.simps [simp del]

text \<open>The outer loop, which may not end (\<open>None\<close>); an exception is \<open>Some None\<close>.\<close>

partial_function (option) walk_loop :: "('w, 'ct) walk \<Rightarrow> 'w \<Rightarrow> 'w option option" where
  "walk_loop wk w =
     (if \<not> wk_isState wk w then Some (Some w)
      else
        (case walk_operands wk (wk_getConstructor wk w) (wk_getOperand wk w) w of
           Threw \<Rightarrow> Some None
         | Descended w' \<Rightarrow> walk_loop wk w'
         | Passed w' \<Rightarrow>
             (case wk_finish wk (wk_getConstructor wk w) w' of
                None \<Rightarrow> Some None
              | Some w'' \<Rightarrow> walk_loop wk w'')))"

section \<open>\<open>resolve\<close> and \<open>resolveHandles\<close>\<close>

text \<open>
  The library: the walker with its context, constructors, operand symbols and the symbols that
  define them. \<open>ts_resolve\<close> gives the constructor a symbol resolves to, if it has any.
\<close>

record ('w, 'ct, 'sym, 'ts, 'ex) sleigh_walker =
  deallocateState :: "'w \<Rightarrow> 'w"
  setDelaySlot :: "nat \<Rightarrow> 'w \<Rightarrow> 'w"
  clearCommits :: "'w \<Rightarrow> 'w"
  loadContext :: "'w \<Rightarrow> 'w"
  baseState :: "'w \<Rightarrow> 'w"
  isState :: "'w \<Rightarrow> bool"
  getConstructor :: "'w \<Rightarrow> 'ct"
  setConstructor :: "'ct \<Rightarrow> 'w \<Rightarrow> 'w"
  applyContext :: "'ct \<Rightarrow> 'w \<Rightarrow> 'w option"
  getOperand :: "'w \<Rightarrow> nat"
  getOffset :: "int \<Rightarrow> 'w \<Rightarrow> u32"
  setOffset :: "u32 \<Rightarrow> 'w \<Rightarrow> 'w"
  setNaddr :: "u64 \<Rightarrow> 'w \<Rightarrow> 'w"
  setParserState :: "parse_state \<Rightarrow> 'w \<Rightarrow> 'w"
  getAddr :: "'w \<Rightarrow> u64"
  getLength :: "'w \<Rightarrow> u64"
  setCurrentLength :: "int \<Rightarrow> 'w \<Rightarrow> 'w"
  calcCurrentLength :: "int \<Rightarrow> nat \<Rightarrow> 'w \<Rightarrow> 'w"
  allocateOperand :: "nat \<Rightarrow> 'w \<Rightarrow> 'w"
  pushOperand :: "nat \<Rightarrow> 'w \<Rightarrow> 'w"
  popOperand :: "'w \<Rightarrow> 'w"
  ct_numOperands :: "'ct \<Rightarrow> nat"
  ct_operand :: "'ct \<Rightarrow> nat \<Rightarrow> 'sym"
  ct_minimumLength :: "'ct \<Rightarrow> int"
  ct_delaySlot :: "'ct \<Rightarrow> nat option"
  sym_offsetBase :: "'sym \<Rightarrow> int"
  sym_relativeOffset :: "'sym \<Rightarrow> u32"
  sym_minimumLength :: "'sym \<Rightarrow> int"
  sym_defining :: "'sym \<Rightarrow> 'ts option"
  sym_expression :: "'sym \<Rightarrow> 'ex"
  ts_resolve :: "'ts \<Rightarrow> 'w \<Rightarrow> 'ct option option"
  ts_is_subtable :: "'ts \<Rightarrow> bool"
  ts_fixHandle :: "'ts \<Rightarrow> 'w \<Rightarrow> 'w option"
  ex_constHandle :: "'ex \<Rightarrow> 'w \<Rightarrow> 'w option"
  ct_fixResult :: "'ct \<Rightarrow> 'w \<Rightarrow> 'w option"
  root_resolve :: "'w \<Rightarrow> 'ct option"

text \<open>
  \<open>resolve\<close>: an operand whose symbol resolves to a constructor is descended into, any other gets
  its length at once. When a constructor's operands are done its own length follows from theirs,
  and a delay slot of its template is noted.
\<close>

definition resolve_visit :: "('w, 'ct, 'sym, 'ts, 'ex) sleigh_walker \<Rightarrow> 'ct \<Rightarrow> nat \<Rightarrow> 'w \<Rightarrow> 'w visit" where
  "resolve_visit lib ct oper w =
     (let sym = ct_operand lib ct oper;
          off = getOffset lib (sym_offsetBase lib sym) w + sym_relativeOffset lib sym;
          w = setOffset lib off (allocateOperand lib oper w);
          leaf = Passed (popOperand lib (setCurrentLength lib (sym_minimumLength lib sym) w))
      in case sym_defining lib sym of
           None \<Rightarrow> leaf
         | Some tsym \<Rightarrow>
             (case ts_resolve lib tsym w of
                None \<Rightarrow> Threw
              | Some None \<Rightarrow> leaf
              | Some (Some subct) \<Rightarrow>
                  (case applyContext lib subct (setConstructor lib subct w) of
                     None \<Rightarrow> Threw
                   | Some w \<Rightarrow> Descended w)))"

definition resolve_finish :: "('w, 'ct, 'sym, 'ts, 'ex) sleigh_walker \<Rightarrow> 'ct \<Rightarrow> 'w \<Rightarrow> 'w option" where
  "resolve_finish lib ct w =
     (let w = popOperand lib (calcCurrentLength lib (ct_minimumLength lib ct) (ct_numOperands lib ct) w) in
      Some (case ct_delaySlot lib ct of
          None \<Rightarrow> w
        | Some n \<Rightarrow> if n > 0 then setDelaySlot lib n w else w))"

definition resolve_walk :: "('w, 'ct, 'sym, 'ts, 'ex) sleigh_walker \<Rightarrow> ('w, 'ct) walk" where
  "resolve_walk lib = \<lparr>wk_isState = isState lib, wk_getConstructor = getConstructor lib,
     wk_getOperand = getOperand lib, wk_numOperands = ct_numOperands lib,
     wk_visit = resolve_visit lib, wk_finish = resolve_finish lib\<rparr>"

text \<open>
  The function after the bytes have been loaded (\<open>resolve\<close> of \<open>Ghidra_Worker\<close> loads them): the base
  constructor, the walk, and the address of the next instruction.
\<close>

definition resolve_start :: "('w, 'ct, 'sym, 'ts, 'ex) sleigh_walker \<Rightarrow> 'w \<Rightarrow> 'w option" where
  "resolve_start lib w =
     (let w = loadContext lib (clearCommits lib (setOffset lib 0 (setDelaySlot lib 0 (deallocateState lib w))))
      in do {
        ct \<leftarrow> root_resolve lib w;
        applyContext lib ct (setConstructor lib ct w) })"

definition resolve_end :: "('w, 'ct, 'sym, 'ts, 'ex) sleigh_walker \<Rightarrow> 'w \<Rightarrow> 'w" where
  "resolve_end lib w = setParserState lib disassembly (setNaddr lib (getAddr lib w + getLength lib w) w)"

definition resolve_tree :: "('w, 'ct, 'sym, 'ts, 'ex) sleigh_walker \<Rightarrow> 'w \<Rightarrow> 'w option option" where
  "resolve_tree lib w =
     (case resolve_start lib w of
        None \<Rightarrow> Some None
      | Some w \<Rightarrow> map_option (map_option (resolve_end lib)) (walk_loop (resolve_walk lib) w))"

text \<open>
  \<open>resolveHandles\<close>: the operands that are subtables are descended into, the others get their handle
  from their symbol or their expression; a constructor's handle is that of its template's result.
\<close>

definition handles_visit :: "('w, 'ct, 'sym, 'ts, 'ex) sleigh_walker \<Rightarrow> 'ct \<Rightarrow> nat \<Rightarrow> 'w \<Rightarrow> 'w visit" where
  "handles_visit lib ct oper w =
     (let sym = ct_operand lib ct oper;
          w = pushOperand lib oper w;
          leaf = (\<lambda>r. case r of None \<Rightarrow> Threw | Some w \<Rightarrow> Passed (popOperand lib w))
      in case sym_defining lib sym of
           Some triple \<Rightarrow> if ts_is_subtable lib triple then Descended w else leaf (ts_fixHandle lib triple w)
         | None \<Rightarrow> leaf (ex_constHandle lib (sym_expression lib sym) w))"

definition handles_finish :: "('w, 'ct, 'sym, 'ts, 'ex) sleigh_walker \<Rightarrow> 'ct \<Rightarrow> 'w \<Rightarrow> 'w option" where
  "handles_finish lib ct w = map_option (popOperand lib) (ct_fixResult lib ct w)"

definition handles_walk :: "('w, 'ct, 'sym, 'ts, 'ex) sleigh_walker \<Rightarrow> ('w, 'ct) walk" where
  "handles_walk lib = \<lparr>wk_isState = isState lib, wk_getConstructor = getConstructor lib,
     wk_getOperand = getOperand lib, wk_numOperands = ct_numOperands lib,
     wk_visit = handles_visit lib, wk_finish = handles_finish lib\<rparr>"

definition resolve_handles :: "('w, 'ct, 'sym, 'ts, 'ex) sleigh_walker \<Rightarrow> 'w \<Rightarrow> 'w option option" where
  "resolve_handles lib w =
     map_option (map_option (setParserState lib pcode)) (walk_loop (handles_walk lib) (baseState lib w))"

section \<open>A walk over a stack is a recursive descent\<close>

text \<open>
  The descent: the operands of a constructor in order, each finished with everything below it before
  the next, then the constructor itself. The number bounds the depth.
\<close>

function descend :: "('w, 'ct) walk \<Rightarrow> nat \<Rightarrow> 'ct \<Rightarrow> nat \<Rightarrow> 'w \<Rightarrow> 'w option" where
  "descend wk 0 ct oper w = None"
| "descend wk (Suc n) ct oper w =
     (if oper < wk_numOperands wk ct then
        (case wk_visit wk ct oper w of
           Threw \<Rightarrow> None
         | Passed w' \<Rightarrow> descend wk (Suc n) ct (oper + 1) w'
         | Descended w' \<Rightarrow>
             (case descend wk n (wk_getConstructor wk w') 0 w' of
                None \<Rightarrow> None
              | Some w'' \<Rightarrow> descend wk (Suc n) ct (oper + 1) w''))
      else wk_finish wk ct w)"
  by pat_completeness auto
termination
  by (relation "measures [\<lambda>(wk, n, ct, oper, w). n, \<lambda>(wk, n, ct, oper, w). wk_numOperands wk ct - oper]") auto

declare descend.simps(2) [simp del]

lemma descend_branch:
  "oper < wk_numOperands wk ct \<Longrightarrow> wk_visit wk ct oper w = Threw \<Longrightarrow> descend wk (Suc n) ct oper w = None"
  "oper < wk_numOperands wk ct \<Longrightarrow> wk_visit wk ct oper w = Passed w' \<Longrightarrow>
   descend wk (Suc n) ct oper w = descend wk (Suc n) ct (oper + 1) w'"
  "oper < wk_numOperands wk ct \<Longrightarrow> wk_visit wk ct oper w = Descended w' \<Longrightarrow>
   descend wk (Suc n) ct oper w = (case descend wk n (wk_getConstructor wk w') 0 w' of
       None \<Rightarrow> None | Some w'' \<Rightarrow> descend wk (Suc n) ct (oper + 1) w'')"
  "\<not> oper < wk_numOperands wk ct \<Longrightarrow> descend wk (Suc n) ct oper w = wk_finish wk ct w"
  by (simp_all add: descend.simps(2))

text \<open>
  What the loop relies on. \<open>at w ps\<close> says that the walker stands on the positions \<open>ps\<close>, innermost
  first, each with its constructor and the operand to be visited next.
\<close>

type_synonym 'ct position = "nat list \<times> 'ct \<times> nat"

definition stack_walk :: "('w, 'ct) walk \<Rightarrow> ('w \<Rightarrow> 'ct position list \<Rightarrow> bool) \<Rightarrow> nat \<Rightarrow> bool" where
  "stack_walk wk at D \<longleftrightarrow>
     (\<forall>w. at w [] \<longrightarrow> \<not> wk_isState wk w) \<and>
     (\<forall>w p c k s. at w ((p, c, k) # s) \<longrightarrow>
        wk_isState wk w \<and> wk_getConstructor wk w = c \<and> wk_getOperand wk w = k \<and> length s < D \<and>
        (k < wk_numOperands wk c \<longrightarrow> (case wk_visit wk c k w of
           Threw \<Rightarrow> True
         | Passed w' \<Rightarrow> at w' ((p, c, k + 1) # s)
         | Descended w' \<Rightarrow> \<exists>p' c'. at w' ((p', c', 0) # (p, c, k + 1) # s))) \<and>
        (\<not> k < wk_numOperands wk c \<longrightarrow> (\<forall>w'. wk_finish wk c w = Some w' \<longrightarrow> at w' s)))"

lemma stack_walkD:
  assumes "stack_walk wk at D"
  shows "at w [] \<Longrightarrow> \<not> wk_isState wk w"
    and "at w ((p, c, k) # s) \<Longrightarrow> wk_isState wk w"
    and "at w ((p, c, k) # s) \<Longrightarrow> wk_getConstructor wk w = c"
    and "at w ((p, c, k) # s) \<Longrightarrow> wk_getOperand wk w = k"
    and "at w ((p, c, k) # s) \<Longrightarrow> length s < D"
    and "at w ((p, c, k) # s) \<Longrightarrow> k < wk_numOperands wk c \<Longrightarrow> wk_visit wk c k w = Passed w' \<Longrightarrow>
      at w' ((p, c, k + 1) # s)"
    and "at w ((p, c, k) # s) \<Longrightarrow> k < wk_numOperands wk c \<Longrightarrow> wk_visit wk c k w = Descended w' \<Longrightarrow>
      \<exists>p' c'. at w' ((p', c', 0) # (p, c, k + 1) # s)"
    and "at w ((p, c, k) # s) \<Longrightarrow> \<not> k < wk_numOperands wk c \<Longrightarrow> wk_finish wk c w = Some w' \<Longrightarrow> at w' s"
proof -
  note law = assms [unfolded stack_walk_def, THEN conjunct2, rule_format]
  show "at w [] \<Longrightarrow> \<not> wk_isState wk w"
    using assms by (simp add: stack_walk_def)
  show "at w ((p, c, k) # s) \<Longrightarrow> wk_isState wk w" "at w ((p, c, k) # s) \<Longrightarrow> wk_getConstructor wk w = c"
    "at w ((p, c, k) # s) \<Longrightarrow> wk_getOperand wk w = k" "at w ((p, c, k) # s) \<Longrightarrow> length s < D"
    using law [of w p c k s] by simp_all
  show "at w ((p, c, k) # s) \<Longrightarrow> k < wk_numOperands wk c \<Longrightarrow> wk_visit wk c k w = Passed w' \<Longrightarrow>
      at w' ((p, c, k + 1) # s)"
    "at w ((p, c, k) # s) \<Longrightarrow> k < wk_numOperands wk c \<Longrightarrow> wk_visit wk c k w = Descended w' \<Longrightarrow>
      \<exists>p' c'. at w' ((p', c', 0) # (p, c, k + 1) # s)"
    "at w ((p, c, k) # s) \<Longrightarrow> \<not> k < wk_numOperands wk c \<Longrightarrow> wk_finish wk c w = Some w' \<Longrightarrow> at w' s"
    using law [of w p c k s] by simp_all
qed

lemma walk_loop_step:
  assumes "stack_walk wk at D" and at: "at w ((p, c, k) # s)"
  shows "walk_loop wk w =
    (if k < wk_numOperands wk c then
       (case wk_visit wk c k w of Threw \<Rightarrow> Some None | Passed w' \<Rightarrow> walk_loop wk w' | Descended w' \<Rightarrow> walk_loop wk w')
     else (case wk_finish wk c w of None \<Rightarrow> Some None | Some w' \<Rightarrow> walk_loop wk w'))"
proof -
  note here = stack_walkD(2-4) [OF assms]
  have loop: "walk_loop wk w = (case walk_operands wk c k w of Threw \<Rightarrow> Some None
      | Descended w' \<Rightarrow> walk_loop wk w'
      | Passed w' \<Rightarrow> (case wk_finish wk c w' of None \<Rightarrow> Some None | Some w'' \<Rightarrow> walk_loop wk w''))"
    by (subst walk_loop.simps) (simp add: here split: visit.split)
  show ?thesis
  proof (cases "\<exists>w'. k < wk_numOperands wk c \<and> wk_visit wk c k w = Passed w'")
    case True
    then obtain w' where w': "k < wk_numOperands wk c" "wk_visit wk c k w = Passed w'" by blast
    note there = stack_walkD(2-4) [OF assms(1) stack_walkD(6) [OF assms w']]
    have "walk_operands wk c k w = walk_operands wk c (k + 1) w'"
      using w' by (subst walk_operands.simps) simp
    moreover have "walk_loop wk w' = (case walk_operands wk c (k + 1) w' of Threw \<Rightarrow> Some None
        | Descended w' \<Rightarrow> walk_loop wk w'
        | Passed w' \<Rightarrow> (case wk_finish wk c w' of None \<Rightarrow> Some None | Some w'' \<Rightarrow> walk_loop wk w''))"
      by (subst walk_loop.simps) (simp add: there split: visit.split)
    ultimately show ?thesis
      using w' loop by simp
  next
    case False
    then show ?thesis
      unfolding loop by (subst walk_operands.simps) (auto split: visit.splits)
  qed
qed

lemma walk_loop_descends:
  assumes "stack_walk wk at D" and "at w ((p, c, k) # s)" and "length s + n = D"
  shows "case descend wk n c k w of
      None \<Rightarrow> walk_loop wk w = Some None
    | Some w' \<Rightarrow> at w' s \<and> walk_loop wk w = walk_loop wk w'"
  using assms
proof (induction wk n c k w arbitrary: p s rule: descend.induct)
  case (1 wk ct oper w)
  then show ?case
    using stack_walkD(5) [OF 1(1,2)] 1(3) by simp
next
  case (2 wk n ct oper w)
  note step = walk_loop_step [OF 2(4) 2(5)]
  show ?case
  proof (cases "oper < wk_numOperands wk ct")
    case False
    then show ?thesis
      using step stack_walkD(8) [OF 2(4), OF 2(5) False]
      by (auto simp: descend_branch split: option.splits)
  next
    case True
    show ?thesis
    proof (cases "wk_visit wk ct oper w")
      case Threw
      then show ?thesis using True step by (simp add: descend_branch)
    next
      case (Passed w')
      from 2(3) [OF True Passed 2(4) stack_walkD(6) [OF 2(4), OF 2(5) True Passed] 2(6)]
      show ?thesis
        using True Passed step by (simp add: descend_branch split: option.splits)
    next
      case (Descended w')
      then obtain p' c' where w': "at w' ((p', c', 0) # (p, ct, oper + 1) # s)"
        using stack_walkD(7) [OF 2(4), OF 2(5) True] by blast
      note inner = 2(1) [OF True Descended 2(4), of p' "(p, ct, oper + 1) # s"]
      show ?thesis
      proof (cases "descend wk n (wk_getConstructor wk w') 0 w'")
        case None
        then show ?thesis
          using inner w' 2(6) True Descended step by (simp add: stack_walkD(3) [OF 2(4) w'] descend_branch)
      next
        case (Some w'')
        then have "at w'' ((p, ct, oper + 1) # s)" and eq: "walk_loop wk w' = walk_loop wk w''"
          using inner w' 2(6) by (simp_all add: stack_walkD(3) [OF 2(4) w'])
        from 2(2) [OF True Descended Some 2(4) this(1) 2(6)] show ?thesis
          using True Descended Some step eq by (simp add: descend_branch split: option.splits)
      qed
    qed
  qed
qed

lemma walk_loop_is_descent:
  assumes "stack_walk wk at D" and "at w [(p, c, 0)]"
  shows "walk_loop wk w = Some (descend wk D c 0 w)"
    and "descend wk D c 0 w = Some w' \<Longrightarrow> at w' []"
proof -
  have end_here: "walk_loop wk v = Some (Some v)" if "at v []" for v
    using stack_walkD(1) [OF assms(1) that] by (simp add: walk_loop.simps)
  note run = walk_loop_descends [OF assms(1,2), of D]
  show "walk_loop wk w = Some (descend wk D c 0 w)"
    using run end_here by (auto split: option.splits)
  show "at w' []" if "descend wk D c 0 w = Some w'"
    using run that by simp
qed

section \<open>The library's walker\<close>

text \<open>
  What \<open>ParserWalker\<close> and \<open>ParserContext\<close> do with positions and nodes. \<open>stk\<close> is where the walker
  stands: the path of each node on it and the operand to be visited next; \<open>tree\<close> gives the nodes
  that are allocated and the constructors they were given. Only subtables resolve to constructors,
  and never below depth \<open>D\<close>, the size of the walker's arrays.
\<close>

type_synonym 'ct nodes = "nat list \<rightharpoonup> 'ct option"

definition stays :: "('w \<Rightarrow> (nat list \<times> nat) list) \<Rightarrow> ('w \<Rightarrow> 'ct nodes) \<Rightarrow> ('w \<Rightarrow> 'w) \<Rightarrow> bool" where
  "stays stk tree f \<longleftrightarrow> (\<forall>w. stk (f w) = stk w \<and> tree (f w) = tree w)"

definition stays_or_throws ::
  "('w \<Rightarrow> (nat list \<times> nat) list) \<Rightarrow> ('w \<Rightarrow> 'ct nodes) \<Rightarrow> ('w \<Rightarrow> 'w option) \<Rightarrow> bool" where
  "stays_or_throws stk tree f \<longleftrightarrow> (\<forall>w w'. f w = Some w' \<longrightarrow> stk w' = stk w \<and> tree w' = tree w)"

definition walker_setters :: "('w, 'ct, 'sym, 'ts, 'ex) sleigh_walker \<Rightarrow>
    ('w \<Rightarrow> (nat list \<times> nat) list) \<Rightarrow> ('w \<Rightarrow> 'ct nodes) \<Rightarrow> bool" where
  "walker_setters lib stk tree \<longleftrightarrow>
     (\<forall>n. stays stk tree (setDelaySlot lib n)) \<and> stays stk tree (clearCommits lib) \<and>
     stays stk tree (loadContext lib) \<and> (\<forall>n. stays stk tree (setOffset lib n)) \<and>
     (\<forall>n. stays stk tree (setCurrentLength lib n)) \<and> (\<forall>n m. stays stk tree (calcCurrentLength lib n m)) \<and>
     (\<forall>a. stays stk tree (setNaddr lib a)) \<and> (\<forall>st. stays stk tree (setParserState lib st)) \<and>
     (\<forall>ct. stays_or_throws stk tree (applyContext lib ct)) \<and> (\<forall>t. stays_or_throws stk tree (ts_fixHandle lib t)) \<and>
     (\<forall>e. stays_or_throws stk tree (ex_constHandle lib e)) \<and> (\<forall>ct. stays_or_throws stk tree (ct_fixResult lib ct))"

definition walker_moves :: "('w, 'ct, 'sym, 'ts, 'ex) sleigh_walker \<Rightarrow>
    ('w \<Rightarrow> (nat list \<times> nat) list) \<Rightarrow> ('w \<Rightarrow> 'ct nodes) \<Rightarrow> bool" where
  "walker_moves lib stk tree \<longleftrightarrow>
     (\<forall>w. isState lib w \<longleftrightarrow> stk w \<noteq> []) \<and>
     (\<forall>w p k s. stk w = (p, k) # s \<longrightarrow> getOperand lib w = k) \<and>
     (\<forall>w p k s c. stk w = (p, k) # s \<longrightarrow> tree w p = Some (Some c) \<longrightarrow> getConstructor lib w = c) \<and>
     (\<forall>w. stk (deallocateState lib w) = [([], 0)] \<and> tree (deallocateState lib w) = [[] \<mapsto> None]) \<and>
     (\<forall>w. stk (baseState lib w) = [([], 0)] \<and> tree (baseState lib w) = tree w) \<and>
     (\<forall>w p k s. stk w = (p, k) # s \<longrightarrow> stk (allocateOperand lib k w) = (p @ [k], 0) # (p, k + 1) # s \<and>
        tree (allocateOperand lib k w) = (tree w)(p @ [k] \<mapsto> None)) \<and>
     (\<forall>w p k s. stk w = (p, k) # s \<longrightarrow> tree w (p @ [k]) \<noteq> None \<longrightarrow>
        stk (pushOperand lib k w) = (p @ [k], 0) # (p, k + 1) # s \<and> tree (pushOperand lib k w) = tree w) \<and>
     (\<forall>w p k s. stk w = (p, k) # s \<longrightarrow> stk (popOperand lib w) = s \<and> tree (popOperand lib w) = tree w) \<and>
     (\<forall>w p k s c. stk w = (p, k) # s \<longrightarrow> stk (setConstructor lib c w) = (p, k) # s \<and>
        tree (setConstructor lib c w) = (tree w)(p \<mapsto> Some c))"

definition subtables_resolve :: "('w, 'ct, 'sym, 'ts, 'ex) sleigh_walker \<Rightarrow>
    ('w \<Rightarrow> (nat list \<times> nat) list) \<Rightarrow> nat \<Rightarrow> bool" where
  "subtables_resolve lib stk D \<longleftrightarrow> 0 < D \<and>
     (\<forall>t w. ts_resolve lib t w = Some None \<longrightarrow> \<not> ts_is_subtable lib t) \<and>
     (\<forall>t w c. ts_resolve lib t w = Some (Some c) \<longrightarrow> length (stk w) \<le> D)"

definition walker_laws :: "('w, 'ct, 'sym, 'ts, 'ex) sleigh_walker \<Rightarrow>
    ('w \<Rightarrow> (nat list \<times> nat) list) \<Rightarrow> ('w \<Rightarrow> 'ct nodes) \<Rightarrow> nat \<Rightarrow> bool" where
  "walker_laws lib stk tree D \<longleftrightarrow>
     walker_setters lib stk tree \<and> walker_moves lib stk tree \<and> subtables_resolve lib stk D"

lemma settersD:
  assumes "walker_laws lib stk tree D"
  shows "stk (setDelaySlot lib n w) = stk w" "tree (setDelaySlot lib n w) = tree w"
    and "stk (clearCommits lib w) = stk w" "tree (clearCommits lib w) = tree w"
    and "stk (loadContext lib w) = stk w" "tree (loadContext lib w) = tree w"
    and "stk (setOffset lib off w) = stk w" "tree (setOffset lib off w) = tree w"
    and "stk (setCurrentLength lib len w) = stk w" "tree (setCurrentLength lib len w) = tree w"
    and "stk (calcCurrentLength lib len n w) = stk w" "tree (calcCurrentLength lib len n w) = tree w"
    and "stk (setNaddr lib a w) = stk w" "tree (setNaddr lib a w) = tree w"
    and "stk (setParserState lib st w) = stk w" "tree (setParserState lib st w) = tree w"
  using assms by (simp_all add: walker_laws_def walker_setters_def stays_def)

lemma throwersD:
  assumes "walker_laws lib stk tree D"
  shows "applyContext lib c w = Some w' \<Longrightarrow> stk w' = stk w \<and> tree w' = tree w"
    and "ts_fixHandle lib t w = Some w' \<Longrightarrow> stk w' = stk w \<and> tree w' = tree w"
    and "ex_constHandle lib e w = Some w' \<Longrightarrow> stk w' = stk w \<and> tree w' = tree w"
    and "ct_fixResult lib c w = Some w' \<Longrightarrow> stk w' = stk w \<and> tree w' = tree w"
  using assms by (simp_all add: walker_laws_def walker_setters_def stays_or_throws_def)

lemma movesD:
  assumes "walker_laws lib stk tree D"
  shows "isState lib w \<longleftrightarrow> stk w \<noteq> []"
    and "stk w = (p, k) # s \<Longrightarrow> getOperand lib w = k"
    and "stk w = (p, k) # s \<Longrightarrow> tree w p = Some (Some c) \<Longrightarrow> getConstructor lib w = c"
    and "stk (deallocateState lib w) = [([], 0)]" "tree (deallocateState lib w) = [[] \<mapsto> None]"
    and "stk (baseState lib w) = [([], 0)]" "tree (baseState lib w) = tree w"
    and "stk w = (p, k) # s \<Longrightarrow> stk (allocateOperand lib k w) = (p @ [k], 0) # (p, k + 1) # s"
    and "stk w = (p, k) # s \<Longrightarrow> tree (allocateOperand lib k w) = (tree w)(p @ [k] \<mapsto> None)"
    and "stk w = (p, k) # s \<Longrightarrow> tree w (p @ [k]) \<noteq> None \<Longrightarrow>
      stk (pushOperand lib k w) = (p @ [k], 0) # (p, k + 1) # s \<and> tree (pushOperand lib k w) = tree w"
    and "stk w = (p, k) # s \<Longrightarrow> stk (popOperand lib w) = s"
    and "stk w = (p, k) # s \<Longrightarrow> tree (popOperand lib w) = tree w"
    and "stk w = (p, k) # s \<Longrightarrow> stk (setConstructor lib c w) = (p, k) # s"
    and "stk w = (p, k) # s \<Longrightarrow> tree (setConstructor lib c w) = (tree w)(p \<mapsto> Some c)"
  using assms unfolding walker_laws_def walker_moves_def by (elim conjE, simp)+

lemma resolvesD:
  assumes "walker_laws lib stk tree D"
  shows "0 < D" and "ts_resolve lib t w = Some None \<Longrightarrow> \<not> ts_is_subtable lib t"
    and "ts_resolve lib t w = Some (Some c) \<Longrightarrow> length (stk w) \<le> D"
  using assms unfolding walker_laws_def subtables_resolve_def by blast+

section \<open>The walks of the engine\<close>

text \<open>A path of nodes from the root.\<close>

fun stacked :: "'ct position list \<Rightarrow> bool" where
  "stacked [] = True"
| "stacked ((p, c, k) # ps) = (length p = length ps \<and> stacked ps)"

lemma stacked_shorter: "stacked ps \<Longrightarrow> (q, c, k) \<in> set ps \<Longrightarrow> length q < length ps"
  by (induction ps rule: stacked.induct) auto

definition stands :: "'ct nodes \<Rightarrow> (nat list \<times> nat) list \<Rightarrow> 'ct position list \<Rightarrow> bool" where
  "stands T st ps \<longleftrightarrow> st = map (\<lambda>(p, c, k). (p, k)) ps \<and> (\<forall>(p, c, k) \<in> set ps. T p = Some (Some c)) \<and> stacked ps"

text \<open>
  An operand is settled when its node is there, with a constructor if it is a subtable; a tree is
  resolved when all operands of all its constructors are.
\<close>

definition settled :: "('w, 'ct, 'sym, 'ts, 'ex) sleigh_walker \<Rightarrow> 'ct nodes \<Rightarrow> nat list \<Rightarrow> 'ct \<Rightarrow> nat \<Rightarrow> bool" where
  "settled lib T q c i \<longleftrightarrow> T (q @ [i]) \<noteq> None \<and>
     (\<forall>t. sym_defining lib (ct_operand lib c i) = Some t \<longrightarrow> ts_is_subtable lib t \<longrightarrow>
        (\<exists>c'. T (q @ [i]) = Some (Some c')))"

definition tree_within :: "'ct nodes \<Rightarrow> nat \<Rightarrow> bool" where
  "tree_within T D \<longleftrightarrow> (\<exists>c. T [] = Some (Some c)) \<and> (\<forall>q c. T q = Some (Some c) \<longrightarrow> length q < D)"

definition resolved_but :: "('w, 'ct, 'sym, 'ts, 'ex) sleigh_walker \<Rightarrow> 'ct nodes \<Rightarrow> 'ct position list \<Rightarrow> bool" where
  "resolved_but lib T ps \<longleftrightarrow> (\<forall>q c i. T q = Some (Some c) \<longrightarrow> i < ct_numOperands lib c \<longrightarrow>
     settled lib T q c i \<or> (\<exists>k. (q, c, k) \<in> set ps \<and> k \<le> i))"

definition tree_resolved :: "('w, 'ct, 'sym, 'ts, 'ex) sleigh_walker \<Rightarrow> 'ct nodes \<Rightarrow> nat \<Rightarrow> bool" where
  "tree_resolved lib T D \<longleftrightarrow> tree_within T D \<and> resolved_but lib T []"

text \<open>\<open>resolve\<close>: what is not settled yet is an operand still to be visited on the walker's path.\<close>

definition resolving :: "('w, 'ct, 'sym, 'ts, 'ex) sleigh_walker \<Rightarrow> ('w \<Rightarrow> (nat list \<times> nat) list) \<Rightarrow>
    ('w \<Rightarrow> 'ct nodes) \<Rightarrow> nat \<Rightarrow> 'w \<Rightarrow> 'ct position list \<Rightarrow> bool" where
  "resolving lib stk tree D w ps \<longleftrightarrow>
     stands (tree w) (stk w) ps \<and> tree_within (tree w) D \<and> resolved_but lib (tree w) ps"

lemma stands_tree_upd:
  assumes "stands T st ps" and "length ps \<le> length q"
  shows "stands (T(q := x)) st ps"
proof -
  have "q \<notin> fst ` set ps"
    using assms stacked_shorter [of ps] by (force simp: stands_def)
  then show ?thesis
    using assms(1) by (force simp: stands_def)
qed

lemma stands_step:
  "stands T st ((p, c, k) # s) \<Longrightarrow> stands T ((p, k') # tl st) ((p, c, k') # s)"
  by (auto simp: stands_def)

lemma stands_push:
  "stands T st ((p, c, k) # s) \<Longrightarrow> T (p @ [k]) = Some (Some c') \<Longrightarrow>
   stands T ((p @ [k], 0) # (p, k + 1) # tl st) ((p @ [k], c', 0) # (p, c, k + 1) # s)"
  by (auto simp: stands_def)

lemma stands_top: "stands T st ((p, c, k) # s) \<Longrightarrow> st = (p, k) # tl st \<and> T p = Some (Some c) \<and> length p = length s"
  by (auto simp: stands_def)

lemma resolved_but_step:
  assumes "resolved_but lib T ((p, c, k) # s)" and "\<forall>c. T p = Some (Some c) \<longrightarrow> settled lib (T(p @ [k] := x)) p c k"
    and "\<forall>c'. x = Some (Some c') \<longrightarrow> (\<exists>s'. ps = (p @ [k], c', 0) # s')" and "set ((p, c, k + 1) # s) \<subseteq> set ps"
  shows "resolved_but lib (T(p @ [k] := x)) ps"
  unfolding resolved_but_def
proof (intro allI impI)
  fix q c' i
  assume q: "(T(p @ [k] := x)) q = Some (Some c')" and i: "i < ct_numOperands lib c'"
  show "settled lib (T(p @ [k] := x)) q c' i \<or> (\<exists>k. (q, c', k) \<in> set ps \<and> k \<le> i)"
  proof (cases "q = p @ [k]")
    case True
    then show ?thesis using q assms(3) by auto
  next
    case False
    then have old: "settled lib T q c' i \<or> (\<exists>j. (q, c', j) \<in> set ((p, c, k) # s) \<and> j \<le> i)"
      using assms(1) q i unfolding resolved_but_def by fastforce
    show ?thesis
    proof (cases "q = p \<and> i = k")
      case True
      then show ?thesis using assms(2) q by auto
    next
      case False
      then have "(T(p @ [k] := x)) (q @ [i]) = T (q @ [i])"
        by auto
      then show ?thesis
        using old False assms(4) by (cases "settled lib T q c' i") (auto simp: settled_def Suc_le_eq order_le_less)
    qed
  qed
qed

lemma tree_within_upd:
  "tree_within T D \<Longrightarrow> q \<noteq> [] \<Longrightarrow> (\<And>c. x = Some (Some c) \<Longrightarrow> length q < D) \<Longrightarrow> tree_within (T(q := x)) D"
  by (auto simp: tree_within_def)

lemma setOffset_allocate:
  assumes "walker_laws lib stk tree D" and "stk w = (p, k) # s"
  shows "stk (setOffset lib off (allocateOperand lib k w)) = (p @ [k], 0) # (p, k + 1) # s"
    and "tree (setOffset lib off (allocateOperand lib k w)) = (tree w)(p @ [k] \<mapsto> None)"
  using movesD(8,9) [OF assms(1,2)] settersD [OF assms(1)] by simp_all

lemma resolve_leaf:
  assumes laws: "walker_laws lib stk tree D" and at: "resolving lib stk tree D w ((p, c, k) # s)"
    and w1: "stk w1 = (p @ [k], 0) # (p, k + 1) # tl (stk w)" "tree w1 = (tree w)(p @ [k] \<mapsto> None)"
    and leaf: "\<forall>t. sym_defining lib (ct_operand lib c k) = Some t \<longrightarrow> \<not> ts_is_subtable lib t"
  shows "resolving lib stk tree D (popOperand lib (setCurrentLength lib n w1)) ((p, c, k + 1) # s)"
proof -
  let ?w = "popOperand lib (setCurrentLength lib n w1)"
  have w: "stk ?w = (p, k + 1) # tl (stk w)" "tree ?w = (tree w)(p @ [k] \<mapsto> None)"
    using movesD(11,12) [OF laws] settersD [OF laws] w1 by simp_all
  have st: "stands (tree w) (stk w) ((p, c, k) # s)" "tree_within (tree w) D" "resolved_but lib (tree w) ((p, c, k) # s)"
    using at by (auto simp: resolving_def)
  have "stands (tree ?w) (stk ?w) ((p, c, k + 1) # s)"
    using stands_tree_upd [OF stands_step [OF st(1), of "k + 1"], of "p @ [k]" "Some None"] stands_top [OF st(1)]
    by (simp add: w)
  moreover have "tree_within (tree ?w) D"
    using st(2) by (auto simp: w intro!: tree_within_upd)
  moreover have "resolved_but lib (tree ?w) ((p, c, k + 1) # s)"
    using resolved_but_step [OF st(3), of "Some None" "(p, c, k + 1) # s"] leaf stands_top [OF st(1)]
    by (auto simp: w settled_def)
  ultimately show ?thesis
    by (simp add: resolving_def)
qed

lemma resolve_child:
  assumes laws: "walker_laws lib stk tree D" and at: "resolving lib stk tree D w ((p, c, k) # s)"
    and w1: "stk w1 = (p @ [k], 0) # (p, k + 1) # tl (stk w)" "tree w1 = (tree w)(p @ [k] \<mapsto> None)"
    and res: "length (stk w1) \<le> D" and w2: "applyContext lib c' (setConstructor lib c' w1) = Some w2"
  shows "resolving lib stk tree D w2 ((p @ [k], c', 0) # (p, c, k + 1) # s)"
proof -
  have w: "stk w2 = (p @ [k], 0) # (p, k + 1) # tl (stk w)" "tree w2 = (tree w)(p @ [k] \<mapsto> Some c')"
    using movesD(13,14) [OF laws w1(1), of c'] throwersD(1) [OF laws w2] w1(2) by (simp_all del: fun_upd_apply)
  have st: "stands (tree w) (stk w) ((p, c, k) # s)" "tree_within (tree w) D" "resolved_but lib (tree w) ((p, c, k) # s)"
    using at by (auto simp: resolving_def)
  note top = stands_top [OF st(1)]
  have deep: "length (p @ [k]) < D"
    using res top w1(1) st(1) by (auto simp: stands_def)
  have "stands (tree w2) (stk w2) ((p @ [k], c', 0) # (p, c, k + 1) # s)"
    using stands_push [of "tree w2" "stk w" p c k s c'] stands_tree_upd [OF st(1), of "p @ [k]" "Some (Some c')"] top
    by (simp add: w)
  moreover have "tree_within (tree w2) D"
    using st(2) deep by (auto simp: w intro!: tree_within_upd)
  moreover have "resolved_but lib (tree w2) ((p @ [k], c', 0) # (p, c, k + 1) # s)"
    using resolved_but_step [OF st(3), of "Some (Some c')" "(p @ [k], c', 0) # (p, c, k + 1) # s"] top
    by (auto simp: w settled_def)
  ultimately show ?thesis
    by (simp add: resolving_def)
qed

lemma resolve_stack_walk:
  assumes laws: "walker_laws lib stk tree D"
  shows "stack_walk (resolve_walk lib) (resolving lib stk tree D) D"
proof -
  have visit: "case resolve_visit lib c k w of
        Threw \<Rightarrow> True
      | Passed w' \<Rightarrow> resolving lib stk tree D w' ((p, c, k + 1) # s)
      | Descended w' \<Rightarrow> \<exists>p' c'. resolving lib stk tree D w' ((p', c', 0) # (p, c, k + 1) # s)"
    if at: "resolving lib stk tree D w ((p, c, k) # s)" for w p c k s
  proof -
    have top: "stk w = (p, k) # tl (stk w)"
      using at unfolding resolving_def by (blast dest: stands_top)
    note w1 = setOffset_allocate [OF laws top]
    have child: "\<exists>p' c'. resolving lib stk tree D w2 ((p', c', 0) # (p, c, k + 1) # s)"
      if "ts_resolve lib t (setOffset lib off (allocateOperand lib k w)) = Some (Some c')"
        and "applyContext lib c' (setConstructor lib c' (setOffset lib off (allocateOperand lib k w))) = Some w2"
      for t off c' w2
      using resolve_child [OF laws at w1 resolvesD(3) [OF laws that(1)] that(2)] by blast
    show ?thesis
      using resolve_leaf [OF laws at w1] child resolvesD(2) [OF laws]
      by (simp add: resolve_visit_def Let_def split: option.split)
  qed
  have finish: "resolving lib stk tree D w' s"
    if at: "resolving lib stk tree D w ((p, c, k) # s)" and k: "\<not> k < ct_numOperands lib c"
      and w': "resolve_finish lib c w = Some w'" for w p c k s w'
  proof -
    have st: "stands (tree w) (stk w) ((p, c, k) # s)" "tree_within (tree w) D" "resolved_but lib (tree w) ((p, c, k) # s)"
      using at by (auto simp: resolving_def)
    have "stk w' = tl (stk w)" "tree w' = tree w"
      using w' movesD(11,12) [OF laws] settersD [OF laws] stands_top [OF st(1)]
      by (auto simp: resolve_finish_def Let_def split: option.splits if_splits)
    moreover have "stands (tree w) (tl (stk w)) s"
      using st(1) by (auto simp: stands_def)
    moreover have "resolved_but lib (tree w) s"
      using st(3) k by (fastforce simp: resolved_but_def)
    ultimately show ?thesis
      using st(2) by (simp add: resolving_def)
  qed
  have moves: "\<not> isState lib w" if "resolving lib stk tree D w []" for w
    using that movesD(1) [OF laws] by (simp add: resolving_def stands_def)
  have stays: "isState lib w" "getConstructor lib w = c" "getOperand lib w = k" "length s < D"
    if "resolving lib stk tree D w ((p, c, k) # s)" for w p c k s
  proof -
    have top: "stk w = (p, k) # tl (stk w)" "tree w p = Some (Some c)" "length p = length s" "tree_within (tree w) D"
      using that unfolding resolving_def by (blast dest: stands_top)+
    then show "isState lib w" "getConstructor lib w = c" "getOperand lib w = k" "length s < D"
      using movesD(1) [OF laws, of w] movesD(2,3) [OF laws top(1)] by (auto simp: tree_within_def)
  qed
  show ?thesis
    unfolding stack_walk_def resolve_walk_def walk.simps
    by (intro conjI allI impI) (erule moves | erule stays | erule visit | erule (2) finish)+
qed

text \<open>\<open>resolveHandles\<close> walks a resolved tree and leaves it as it is.\<close>

definition walking :: "('w \<Rightarrow> (nat list \<times> nat) list) \<Rightarrow> ('w \<Rightarrow> 'ct nodes) \<Rightarrow> 'ct nodes \<Rightarrow> 'w \<Rightarrow>
    'ct position list \<Rightarrow> bool" where
  "walking stk tree T w ps \<longleftrightarrow> tree w = T \<and> stands T (stk w) ps"

lemma handles_leaf:
  assumes laws: "walker_laws lib stk tree D" and at: "walking stk tree T w ((p, c, k) # s)"
    and w1: "stk w1 = (p @ [k], 0) # (p, k + 1) # tl (stk w)" "tree w1 = T"
    and w2: "stk w2 = stk w1 \<and> tree w2 = tree w1"
  shows "walking stk tree T (popOperand lib w2) ((p, c, k + 1) # s)"
  using movesD(11,12) [OF laws, of w2 "p @ [k]" 0] w1 w2 at stands_step [of T "stk w" p c k s "k + 1"]
  by (auto simp: walking_def)

lemma handles_stack_walk:
  assumes laws: "walker_laws lib stk tree D" and T: "tree_resolved lib T D"
  shows "stack_walk (handles_walk lib) (walking stk tree T) D"
proof -
  have stays: "isState lib w" "getConstructor lib w = c" "getOperand lib w = k" "length s < D"
    if "walking stk tree T w ((p, c, k) # s)" for w p c k s
  proof -
    have top: "stk w = (p, k) # tl (stk w)" "tree w p = Some (Some c)" "T p = Some (Some c)" "length p = length s"
      using that unfolding walking_def by (blast dest: stands_top)+
    then show "isState lib w" "getConstructor lib w = c" "getOperand lib w = k" "length s < D"
      using movesD(1) [OF laws, of w] movesD(2,3) [OF laws top(1)] T by (auto simp: tree_resolved_def tree_within_def)
  qed
  have visit: "case handles_visit lib c k w of
        Threw \<Rightarrow> True
      | Passed w' \<Rightarrow> walking stk tree T w' ((p, c, k + 1) # s)
      | Descended w' \<Rightarrow> \<exists>p' c'. walking stk tree T w' ((p', c', 0) # (p, c, k + 1) # s)"
    if at: "walking stk tree T w ((p, c, k) # s)" and k: "k < ct_numOperands lib c" for w p c k s
  proof -
    have tree: "tree w = T" and st: "stands T (stk w) ((p, c, k) # s)"
      using at by (auto simp: walking_def)
    have top: "stk w = (p, k) # tl (stk w)" "T p = Some (Some c)"
      using stands_top [OF st] by blast+
    have settled: "settled lib T p c k"
      using T top(2) k by (auto simp: tree_resolved_def resolved_but_def)
    then have w1: "stk (pushOperand lib k w) = (p @ [k], 0) # (p, k + 1) # tl (stk w)" "tree (pushOperand lib k w) = T"
      using movesD(10) [OF laws top(1)] tree by (auto simp: settled_def)
    note leaf = handles_leaf [OF laws at w1]
    have child: "\<exists>p' c'. walking stk tree T (pushOperand lib k w) ((p', c', 0) # (p, c, k + 1) # s)"
      if "sym_defining lib (ct_operand lib c k) = Some t" "ts_is_subtable lib t" for t
    proof -
      from settled that obtain c' where "T (p @ [k]) = Some (Some c')"
        by (auto simp: settled_def)
      from stands_push [OF st this] show ?thesis
        using w1 by (auto simp: walking_def)
    qed
    show ?thesis
      using leaf [OF throwersD(2) [OF laws]] leaf [OF throwersD(3) [OF laws]] child
      by (simp add: handles_visit_def Let_def split: option.split)
  qed
  have finish: "walking stk tree T w' s"
    if at: "walking stk tree T w ((p, c, k) # s)" and w': "handles_finish lib c w = Some w'" for w p c k s w'
  proof -
    have st: "tree w = T" "stands T (stk w) ((p, c, k) # s)"
      using at by (auto simp: walking_def)
    then have "stands T (tl (stk w)) s"
      by (auto simp: stands_def)
    moreover from w' obtain v where v: "ct_fixResult lib c w = Some v" "w' = popOperand lib v"
      by (auto simp: handles_finish_def)
    then have "stk w' = tl (stk w)" "tree w' = tree w"
      using movesD(11,12) [OF laws, of v p k "tl (stk w)"] throwersD(4) [OF laws v(1)] stands_top [OF st(2)] by auto
    ultimately show ?thesis
      using st(1) by (simp add: walking_def)
  qed
  have moves: "\<not> isState lib w" if "walking stk tree T w []" for w
    using that movesD(1) [OF laws] by (simp add: walking_def stands_def)
  show ?thesis
    unfolding stack_walk_def handles_walk_def walk.simps
    by (intro conjI allI impI) (erule moves | erule stays | erule (1) visit | erule (1) finish)+
qed

section \<open>Both walks end\<close>

definition resolve_descent :: "('w, 'ct, 'sym, 'ts, 'ex) sleigh_walker \<Rightarrow> nat \<Rightarrow> 'w \<Rightarrow> 'w option" where
  "resolve_descent lib D w = do {
     w \<leftarrow> resolve_start lib w;
     w \<leftarrow> descend (resolve_walk lib) D (getConstructor lib w) 0 w;
     Some (resolve_end lib w) }"

definition handles_descent :: "('w, 'ct, 'sym, 'ts, 'ex) sleigh_walker \<Rightarrow> nat \<Rightarrow> 'w \<Rightarrow> 'w option" where
  "handles_descent lib D w = do {
     let w = baseState lib w;
     w \<leftarrow> descend (handles_walk lib) D (getConstructor lib w) 0 w;
     Some (setParserState lib pcode w) }"

lemma resolve_start_stands:
  assumes laws: "walker_laws lib stk tree D" and w': "resolve_start lib w = Some w'"
  shows "resolving lib stk tree D w' [([], getConstructor lib w', 0)]"
proof -
  define w0 where "w0 = loadContext lib (clearCommits lib (setOffset lib 0 (setDelaySlot lib 0 (deallocateState lib w))))"
  have w0: "stk w0 = [([], 0)]" "tree w0 = [[] \<mapsto> None]"
    using settersD [OF laws] movesD(4,5) [OF laws] by (simp_all add: w0_def)
  from w' obtain ct where ct: "applyContext lib ct (setConstructor lib ct w0) = Some w'"
    by (auto simp: resolve_start_def w0_def Let_def split: Option.bind_splits)
  have s: "stk w' = [([], 0)]" "tree w' = [[] \<mapsto> Some ct]"
    using throwersD(1) [OF laws ct] movesD(13,14) [OF laws w0(1), of ct] w0 by simp_all
  then have "getConstructor lib w' = ct"
    using movesD(3) [OF laws s(1)] by simp
  then show ?thesis
    using s resolvesD(1) [OF laws]
    by (auto simp: resolving_def stands_def tree_within_def resolved_but_def split: if_splits)
qed

lemma resolve_tree_is_descent:
  assumes laws: "walker_laws lib stk tree D"
  shows "resolve_tree lib w = Some (resolve_descent lib D w)"
    and "resolve_descent lib D w = Some w' \<Longrightarrow> tree_resolved lib (tree w') D"
proof -
  note run = walk_loop_is_descent [OF resolve_stack_walk [OF laws] resolve_start_stands [OF laws]]
  show "resolve_tree lib w = Some (resolve_descent lib D w)"
    using run(1) by (cases "resolve_start lib w") (auto simp: resolve_tree_def resolve_descent_def split: Option.bind_splits)
  assume "resolve_descent lib D w = Some w'"
  then obtain v u where v: "resolve_start lib w = Some v"
      and u: "descend (resolve_walk lib) D (getConstructor lib v) 0 v = Some u" and w': "w' = resolve_end lib u"
    by (auto simp: resolve_descent_def split: Option.bind_splits)
  from run(2) [OF v u] have "tree_resolved lib (tree u) D"
    by (simp add: resolving_def tree_resolved_def)
  then show "tree_resolved lib (tree w') D"
    using settersD [OF laws] by (simp add: w' resolve_end_def)
qed

lemma resolve_handles_is_descent:
  assumes laws: "walker_laws lib stk tree D" and T: "tree_resolved lib (tree w) D"
  shows "resolve_handles lib w = Some (handles_descent lib D w)"
proof -
  let ?w = "baseState lib w"
  from T obtain c where c: "tree w [] = Some (Some c)"
    by (auto simp: tree_resolved_def tree_within_def)
  then have "getConstructor lib ?w = c"
    using movesD(3,6,7) [OF laws] by metis
  then have "walking stk tree (tree w) ?w [([], getConstructor lib ?w, 0)]"
    using movesD(6,7) [OF laws] c by (auto simp: walking_def stands_def)
  from walk_loop_is_descent(1) [OF handles_stack_walk [OF laws T] this] show ?thesis
    by (cases "descend (handles_walk lib) D (getConstructor lib ?w) 0 ?w")
      (simp_all add: resolve_handles_def handles_descent_def Let_def)
qed

text \<open>C21: The tree walks of the engine end and are recursive descents. Over a walker that keeps a
  stack of positions of bounded depth, the loops of \<open>resolve\<close> and \<open>resolveHandles\<close> always return (or
  pass on an exception of the library): what they compute is the descent that finishes each operand
  with all below it before the next one and then the constructor itself. The tree \<open>resolve\<close> leaves
  is complete: every operand of every constructor in it has a node, and every subtable operand a
  constructor, so that \<open>resolveHandles\<close> can follow it.\<close>

theorem tree_walks_descend:
  assumes "walker_laws lib stk tree D"
  shows "resolve_tree lib w = Some (resolve_descent lib D w) \<and>
    (\<forall>w'. resolve_tree lib w = Some (Some w') \<longrightarrow>
       tree_resolved lib (tree w') D \<and> resolve_handles lib w' = Some (handles_descent lib D w'))"
  using resolve_tree_is_descent [OF assms] resolve_handles_is_descent [OF assms] by simp

text \<open>
  The instance: a walker that is nothing but its stack and its nodes, over a language of one table
  with two constructors, the first of which has the table as its operand, at most two levels deep.
\<close>

type_synonym plain_walker = "(nat list \<times> nat) list \<times> bool nodes"

fun plain_push :: "nat \<Rightarrow> plain_walker \<Rightarrow> plain_walker" where
  "plain_push i ([], T) = ([], T)"
| "plain_push i ((p, k) # s, T) = ((p @ [i], 0) # (p, i + 1) # s, T)"

fun plain_set :: "bool option \<Rightarrow> plain_walker \<Rightarrow> plain_walker" where
  "plain_set c ([], T) = ([], T)"
| "plain_set c ((p, k) # s, T) = ((p, k) # s, T(p \<mapsto> c))"

definition plain_lib :: "(plain_walker, bool, unit, unit, unit) sleigh_walker" where
  "plain_lib = \<lparr>deallocateState = \<lambda>w. ([([], 0)], [[] \<mapsto> None]), setDelaySlot = \<lambda>n w. w, clearCommits = \<lambda>w. w,
     loadContext = \<lambda>w. w, baseState = \<lambda>w. ([([], 0)], snd w), isState = \<lambda>w. fst w \<noteq> [],
     getConstructor = \<lambda>w. the (the (snd w (fst (hd (fst w))))), setConstructor = \<lambda>c. plain_set (Some c),
     applyContext = \<lambda>c w. Some w, getOperand = \<lambda>w. snd (hd (fst w)), getOffset = \<lambda>i w. 0, setOffset = \<lambda>n w. w,
     setNaddr = \<lambda>a w. w, setParserState = \<lambda>st w. w, getAddr = \<lambda>w. 0, getLength = \<lambda>w. 0,
     setCurrentLength = \<lambda>n w. w, calcCurrentLength = \<lambda>n m w. w,
     allocateOperand = \<lambda>i w. plain_set None (plain_push i w), pushOperand = plain_push,
     popOperand = \<lambda>w. (tl (fst w), snd w), ct_numOperands = \<lambda>c. if c then 1 else 0, ct_operand = \<lambda>c i. (),
     ct_minimumLength = \<lambda>c. 1, ct_delaySlot = \<lambda>c. None, sym_offsetBase = \<lambda>s. 0, sym_relativeOffset = \<lambda>s. 0,
     sym_minimumLength = \<lambda>s. 0, sym_defining = \<lambda>s. Some (), sym_expression = \<lambda>s. (),
     ts_resolve = \<lambda>t w. if length (fst w) \<le> 2 then Some (Some False) else None, ts_is_subtable = \<lambda>t. True,
     ts_fixHandle = \<lambda>t w. Some w, ex_constHandle = \<lambda>e w. Some w, ct_fixResult = \<lambda>c w. Some w,
     root_resolve = \<lambda>w. Some True\<rparr>"

lemma plain_laws: "walker_laws plain_lib fst snd 2"
  by (auto simp: walker_laws_def walker_setters_def walker_moves_def subtables_resolve_def stays_def
      stays_or_throws_def plain_lib_def)

theorem tree_walks_descend_witness:
  "\<exists>T T'. resolve_tree plain_lib ([], Map.empty) = Some (Some ([], T)) \<and> T [] = Some (Some True) \<and>
     T [0] = Some (Some False) \<and> resolve_handles plain_lib ([], T) = Some (Some ([], T'))"
proof -
  note steps = descend_branch numeral_2_eq_2 resolve_walk_def handles_walk_def resolve_visit_def handles_visit_def
    resolve_finish_def handles_finish_def plain_lib_def
  have "resolve_descent plain_lib 2 ([], Map.empty) = Some ([], [[] \<mapsto> Some True, [0] \<mapsto> Some False])"
    by (simp add: resolve_descent_def resolve_start_def resolve_end_def descend.simps(2) steps)
  moreover have "handles_descent plain_lib 2 ([], [[] \<mapsto> Some True, [0] \<mapsto> Some False]) =
      Some ([], [[] \<mapsto> Some True, [0] \<mapsto> Some False])"
    by (simp add: handles_descent_def descend.simps(2) steps)
  ultimately show ?thesis
    using tree_walks_descend [OF plain_laws, of "([], Map.empty)"] by auto
qed

end
