(* ===== verification/Sleigh_Engine.thy ===== *)
theory Sleigh_Engine
  imports Adapter_Properties Sleigh_Walk
begin

text \<open>
  The engine of the Ghidra worker in one piece (src/worker/ghidra/sleighMishegos.cc: \<open>resolve\<close> with
  its walk, \<open>obtainContext\<close>, \<open>instructionLength\<close>, \<open>printAssembly\<close>; ghidra.cc: \<open>try_decode\<close>). Where
  \<open>Ghidra_Worker\<close> takes the parse of a buffer as a function, here one parser context lives on from
  call to call and the walks of \<open>Sleigh_Walk\<close> work on it. It is shown to refine that simpler
  engine, the parse being the recursive descent: nothing of earlier parses is seen.
\<close>

section \<open>The engine on its parser context\<close>

text \<open>
  The library beyond the walker: the buffer, address and state of the parser context, the printing of
  a constructor, and what an exception out of the library leaves of the context.
\<close>

record ('w, 'ct, 'sym, 'ts, 'ex) sleigh_context =
  walker_lib :: "('w, 'ct, 'sym, 'ts, 'ex) sleigh_walker"
  getBuffer :: "'w \<Rightarrow> byte list"
  setBuffer :: "byte list \<Rightarrow> 'w \<Rightarrow> 'w"
  setAddr :: "u64 \<Rightarrow> 'w \<Rightarrow> 'w"
  getParserState :: "'w \<Rightarrow> parse_state"
  ct_printMnemonic :: "'ct \<Rightarrow> 'w \<Rightarrow> byte list option"
  ct_printBody :: "'ct \<Rightarrow> 'w \<Rightarrow> byte list option"
  thrown :: "'w \<Rightarrow> 'w"

text \<open>What a call ends with is as in \<open>Ghidra_Worker\<close>; \<open>None\<close> also stands for a walk that does not end.\<close>

type_synonym ('a, 'w) context_result = "('a option \<times> 'w) option"

definition walked :: "('w, 'ct, 'sym, 'ts, 'ex) sleigh_context \<Rightarrow> 'w \<Rightarrow> 'w option option \<Rightarrow> (unit, 'w) context_result" where
  "walked e w r = map_option (\<lambda>r. case r of None \<Rightarrow> (None, thrown e w) | Some w' \<Rightarrow> (Some (), w')) r"

definition ctx_resolve :: "('w, 'ct, 'sym, 'ts, 'ex) sleigh_context \<Rightarrow> load_image \<Rightarrow> 'w \<Rightarrow> (unit, 'w) context_result" where
  "ctx_resolve e img w = do {
     buf \<leftarrow> loadFill img (getBuffer e w) 16 (getAddr (walker_lib e) w);
     let w = setBuffer e buf w;
     walked e w (resolve_tree (walker_lib e) w) }"

definition ctx_resolveHandles :: "('w, 'ct, 'sym, 'ts, 'ex) sleigh_context \<Rightarrow> 'w \<Rightarrow> (unit, 'w) context_result" where
  "ctx_resolveHandles e w = walked e w (resolve_handles (walker_lib e) w)"

definition ctx_obtain :: "('w, 'ct, 'sym, 'ts, 'ex) sleigh_context \<Rightarrow> load_image \<Rightarrow> u64 \<Rightarrow> parse_state \<Rightarrow> 'w \<Rightarrow>
    (unit, 'w) context_result" where
  "ctx_obtain e img addr st w =
     (let w = setParserState (walker_lib e) uninitialized (setAddr e addr w); curstate = getParserState e w in
      if parse_level curstate \<ge> parse_level st then Some (Some (), w)
      else if curstate = uninitialized then do {
        (v, w) \<leftarrow> ctx_resolve e img w;
        if v = None then Some (None, w)
        else if st = disassembly then Some (Some (), w)
        else ctx_resolveHandles e w }
      else ctx_resolveHandles e w)"

definition ctx_instructionLength :: "('w, 'ct, 'sym, 'ts, 'ex) sleigh_context \<Rightarrow> load_image \<Rightarrow> u64 \<Rightarrow> 'w \<Rightarrow>
    (u32, 'w) context_result" where
  "ctx_instructionLength e img addr w = do {
     (v, w) \<leftarrow> ctx_obtain e img addr disassembly w;
     Some (map_option (\<lambda>_. ucast (getLength (walker_lib e) w)) v, w) }"

text \<open>The walker of \<open>printAssembly\<close> is a local one that starts at the root.\<close>

definition ctx_printAssembly :: "('w, 'ct, 'sym, 'ts, 'ex) sleigh_context \<Rightarrow> load_image \<Rightarrow> u64 \<Rightarrow> 'w \<Rightarrow>
    (byte list \<times> byte list \<times> u32, 'w) context_result" where
  "ctx_printAssembly e img addr w = do {
     (v, w) \<leftarrow> ctx_obtain e img addr disassembly w;
     let walker = baseState (walker_lib e) w;
     let ct = getConstructor (walker_lib e) walker;
     Some (case v of None \<Rightarrow> (None, w)
       | Some _ \<Rightarrow> (case ct_printMnemonic e ct walker of None \<Rightarrow> (None, w)
         | Some mons \<Rightarrow> (case ct_printBody e ct walker of None \<Rightarrow> (None, w)
           | Some body \<Rightarrow> (Some (mons, body, ucast (getLength (walker_lib e) w)), w)))) }"

definition ctx_decode :: "('w, 'ct, 'sym, 'ts, 'ex) sleigh_context \<Rightarrow> load_image \<times> 'w \<Rightarrow> output_slot \<Rightarrow> byte list \<Rightarrow>
    byte \<Rightarrow> (output_slot \<times> load_image \<times> 'w) option" where
  "ctx_decode e g r raw len = do {
     let loader = setData raw len (fst g);
     (v, w) \<leftarrow> ctx_printAssembly e loader START_ADDRESS (snd g);
     case v of
       None \<Rightarrow> Some (r\<lparr>status := S_FAILURE\<rparr>, loader, w)
     | Some (mnem, body, n) \<Rightarrow> do {
         r \<leftarrow> ghidra_dump r mnem body;
         Some (r\<lparr>ndecoded := ucast n\<rparr>, loader, w) } }"

section \<open>What the library promises\<close>

text \<open>
  The parser context beyond \<open>walker_laws\<close>: its buffer holds 16 bytes, setters set what they are named
  after, and \<open>resolve\<close> starts from a clean slate: after the tree is given up, delay slot, commits
  and offset are reset and the context words loaded for the address, the context depends on the
  buffer, the address and the parser state only. (A context stands for what is allocated of it.)
\<close>

definition clean_slate :: "('w, 'ct, 'sym, 'ts, 'ex) sleigh_walker \<Rightarrow> 'w \<Rightarrow> 'w" where
  "clean_slate lib w = loadContext lib (clearCommits lib (setOffset lib 0 (setDelaySlot lib 0 (deallocateState lib w))))"

definition context_laws :: "('w, 'ct, 'sym, 'ts, 'ex) sleigh_context \<Rightarrow> bool" where
  "context_laws e \<longleftrightarrow>
     (\<forall>w. length (getBuffer e w) = 16) \<and>
     (\<forall>b w. length b = 16 \<longrightarrow> getBuffer e (setBuffer e b w) = b) \<and>
     (\<forall>b w. getAddr (walker_lib e) (setBuffer e b w) = getAddr (walker_lib e) w) \<and>
     (\<forall>b w. getParserState e (setBuffer e b w) = getParserState e w) \<and>
     (\<forall>a w. getAddr (walker_lib e) (setAddr e a w) = a) \<and>
     (\<forall>s w. getAddr (walker_lib e) (setParserState (walker_lib e) s w) = getAddr (walker_lib e) w) \<and>
     (\<forall>s w. getParserState e (setParserState (walker_lib e) s w) = s) \<and>
     (\<forall>w w'. getBuffer e w = getBuffer e w' \<longrightarrow> getAddr (walker_lib e) w = getAddr (walker_lib e) w' \<longrightarrow>
        getParserState e w = getParserState e w' \<longrightarrow> clean_slate (walker_lib e) w = clean_slate (walker_lib e) w')"

lemma context_lawsD:
  assumes "context_laws e"
  shows "length (getBuffer e w) = 16"
    and "length b = 16 \<Longrightarrow> getBuffer e (setBuffer e b w) = b"
    and "getAddr (walker_lib e) (setBuffer e b w) = getAddr (walker_lib e) w"
    and "getParserState e (setBuffer e b w) = getParserState e w"
    and "getAddr (walker_lib e) (setAddr e a w) = a"
    and "getAddr (walker_lib e) (setParserState (walker_lib e) s w) = getAddr (walker_lib e) w"
    and "getParserState e (setParserState (walker_lib e) s w) = s"
    and "getBuffer e w = getBuffer e w' \<Longrightarrow> getAddr (walker_lib e) w = getAddr (walker_lib e) w' \<Longrightarrow>
      getParserState e w = getParserState e w' \<Longrightarrow> clean_slate (walker_lib e) w = clean_slate (walker_lib e) w'"
  using assms unfolding context_laws_def by blast+

section \<open>The simpler engine\<close>

text \<open>The parse of a buffer as a function: the descent over a context \<open>w0\<close> that may be any.\<close>

definition fresh_context :: "('w, 'ct, 'sym, 'ts, 'ex) sleigh_context \<Rightarrow> 'w \<Rightarrow> byte list \<Rightarrow> u64 \<Rightarrow> 'w" where
  "fresh_context e w0 buf addr = setBuffer e buf (setParserState (walker_lib e) uninitialized (setAddr e addr w0))"

definition descent_lib :: "('w, 'ct, 'sym, 'ts, 'ex) sleigh_context \<Rightarrow> nat \<Rightarrow> 'w \<Rightarrow> 'w sleigh_lib" where
  "descent_lib e D w0 =
     (let base = baseState (walker_lib e); root = (\<lambda>t. getConstructor (walker_lib e) (base t)) in
      \<lparr>sleigh_parse = \<lambda>buf addr. resolve_descent (walker_lib e) D (fresh_context e w0 buf addr),
       sleigh_handles = handles_descent (walker_lib e) D,
       sleigh_length = \<lambda>t. ucast (getLength (walker_lib e) t),
       printMnemonic = \<lambda>t. ct_printMnemonic e (root t) (base t),
       printBody = \<lambda>t. ct_printBody e (root t) (base t)\<rparr>)"

lemma resolve_start_slate: "clean_slate lib w = clean_slate lib w' \<Longrightarrow> resolve_start lib w = resolve_start lib w'"
  by (simp add: resolve_start_def clean_slate_def Let_def)

lemma resolve_descent_fresh:
  assumes "context_laws e" and "length buf = 16"
  shows "resolve_descent (walker_lib e) D (setBuffer e buf (setParserState (walker_lib e) uninitialized (setAddr e addr w))) =
    resolve_descent (walker_lib e) D (fresh_context e w0 buf addr)"
proof -
  let ?w = "setBuffer e buf (setParserState (walker_lib e) uninitialized (setAddr e addr w))"
  note laws = context_lawsD [OF assms(1)]
  have "clean_slate (walker_lib e) ?w = clean_slate (walker_lib e) (fresh_context e w0 buf addr)"
    by (intro laws(8)) (simp_all add: fresh_context_def laws(2) [OF assms(2)] laws(3,4,5,6,7))
  then show ?thesis
    unfolding resolve_descent_def by (simp only: resolve_start_slate [of "walker_lib e" ?w "fresh_context e w0 buf addr"])
qed

text \<open>Sixteen bytes are loaded or none: what was in the buffer before does not matter.\<close>

lemma load_loop_overwrites:
  "length ptr = length ptr' \<Longrightarrow> i + n = length ptr \<Longrightarrow> take i ptr = take i ptr' \<Longrightarrow>
   load_loop img start i n ptr = load_loop img start i n ptr'"
proof (induction n arbitrary: i ptr ptr')
  case (Suc n)
  have "load_loop img start (i + 1) n (ptr[i := b]) = load_loop img start (i + 1) n (ptr'[i := b])" for b
    using Suc.prems by (intro Suc.IH) (auto simp: take_Suc_conv_app_nth)
  then show ?case
    using Suc.prems by (simp add: poke_def)
qed simp

lemma load_loop_length: "load_loop img start i n ptr = Some buf \<Longrightarrow> length buf = length ptr"
  by (induction n arbitrary: i ptr) (fastforce simp: poke_def split: Option.bind_splits if_splits)+

lemma loadFill_overwrites:
  "length ptr = 16 \<Longrightarrow> length ptr' = 16 \<Longrightarrow> loadFill img ptr 16 addr = loadFill img ptr' 16 addr"
  unfolding loadFill_def by (rule load_loop_overwrites) simp_all

section \<open>Refinement\<close>

text \<open>What the two engines make of a call: the same outcome, and after a parse the same tree.\<close>

definition agree :: "parse_state \<Rightarrow> ('a, 'w) context_result \<Rightarrow> ('a, 'w) engine_result \<Rightarrow> bool" where
  "agree st r r' \<longleftrightarrow> (case (r, r') of
      (None, None) \<Rightarrow> True
    | (Some (v, w), Some (v', pos)) \<Rightarrow> v = v' \<and> length (pos_buffer pos) = 16 \<and>
        (v \<noteq> None \<longrightarrow> st \<noteq> uninitialized \<longrightarrow> pos_tree pos = w)
    | _ \<Rightarrow> False)"

lemma ctx_obtain_agrees:
  assumes walk: "walker_laws (walker_lib e) stk tree D" and ctx: "context_laws e" and buf: "length (pos_buffer pos) = 16"
  shows "agree st (ctx_obtain e img addr st w) (obtainContext (descent_lib e D w0) img addr st pos)"
proof -
  let ?lib = "walker_lib e" and ?w = "setParserState (walker_lib e) uninitialized (setAddr e addr w)"
  note laws = context_lawsD [OF ctx]
  have fill: "loadFill img (getBuffer e ?w) 16 (getAddr ?lib ?w) = loadFill img (pos_buffer pos) 16 addr"
    using loadFill_overwrites [OF laws(1) buf] laws(5,6) by simp
  show ?thesis
  proof (cases "loadFill img (pos_buffer pos) 16 addr")
    case None
    then show ?thesis
      using buf fill by (cases st) (auto simp: agree_def ctx_obtain_def obtainContext_def ctx_resolve_def resolve_def laws(7) Let_def)
  next
    case (Some b)
    then have len: "length b = 16"
      using load_loop_length buf unfolding loadFill_def by fastforce
    have parse: "resolve_tree ?lib (setBuffer e b ?w) = Some (sleigh_parse (descent_lib e D w0) b addr)"
      using resolve_tree_is_descent(1) [OF walk] resolve_descent_fresh [OF ctx len] by (simp add: descent_lib_def Let_def)
    have handles: "resolve_handles ?lib t = Some (sleigh_handles (descent_lib e D w0) t)"
      if "sleigh_parse (descent_lib e D w0) b addr = Some t" for t
      using resolve_handles_is_descent [OF walk] resolve_tree_is_descent [OF walk] parse that
      by (simp add: descent_lib_def Let_def)
    show ?thesis
      using Some fill len parse handles buf
      by (cases st; cases "sleigh_parse (descent_lib e D w0) b addr")
        (auto simp: agree_def ctx_obtain_def obtainContext_def ctx_resolve_def resolve_def ctx_resolveHandles_def
          resolveHandles_def walked_def laws(7) Let_def split: option.split)
  qed
qed

lemma agree_cases [consumes 1, case_names undefined outcome]:
  assumes "agree st r r'"
  obtains "r = None" "r' = None"
  | v w pos where "r = Some (v, w)" "r' = Some (v, pos)" "length (pos_buffer pos) = 16"
      "v \<noteq> None \<Longrightarrow> st \<noteq> uninitialized \<Longrightarrow> pos_tree pos = w"
  using assms by (cases r; cases r') (auto simp: agree_def split: prod.splits)

lemma ctx_instructionLength_agrees:
  assumes "walker_laws (walker_lib e) stk tree D" and "context_laws e" and "length (pos_buffer pos) = 16"
  shows "agree disassembly (ctx_instructionLength e img addr w) (instructionLength (descent_lib e D w0) img addr pos)"
  using ctx_obtain_agrees [OF assms, of disassembly img addr w w0]
proof (cases rule: agree_cases)
  case undefined
  then show ?thesis
    by (simp add: ctx_instructionLength_def instructionLength_def agree_def)
next
  case (outcome v w' pos')
  then show ?thesis
    by (cases v) (simp_all add: ctx_instructionLength_def instructionLength_def agree_def descent_lib_def Let_def)
qed

lemma ctx_printAssembly_agrees:
  assumes "walker_laws (walker_lib e) stk tree D" and "context_laws e" and "length (pos_buffer pos) = 16"
  shows "agree disassembly (ctx_printAssembly e img addr w) (printAssembly (descent_lib e D w0) img addr pos)"
  using ctx_obtain_agrees [OF assms, of disassembly img addr w w0]
proof (cases rule: agree_cases)
  case undefined
  then show ?thesis
    by (simp add: ctx_printAssembly_def printAssembly_def agree_def)
next
  case (outcome v w' pos')
  then show ?thesis
    by (cases v) (auto simp: ctx_printAssembly_def printAssembly_def agree_def descent_lib_def Let_def split: option.split)
qed

lemma ctx_decode_agrees:
  assumes "walker_laws (walker_lib e) stk tree D" and "context_laws e" and "length (pos_buffer pos) = 16"
  shows "\<exists>w'. ctx_decode e (img, w) r raw n = map_option (\<lambda>x. (fst x, setData raw n img, w'))
    (ghidra_decode (descent_lib e D w0) \<lparr>g_loader = img, g_pos = pos\<rparr> r raw n)"
  using ctx_printAssembly_agrees [OF assms, of "setData raw n img" START_ADDRESS w w0]
proof (cases rule: agree_cases)
  case undefined
  then show ?thesis
    by (simp add: ctx_decode_def ghidra_decode_def Let_def)
next
  case (outcome v w' pos')
  then show ?thesis
    by (intro exI [of _ w']) (auto simp: ctx_decode_def ghidra_decode_def Let_def split: option.split prod.split Option.bind_split)
qed

section \<open>The property\<close>

text \<open>C15: The engine with its single, reused parser context refines a parser of buffers. Whatever earlier
  calls, failed ones included, have left in the context, a call of the Ghidra worker's \<open>try_decode\<close> on
  an instruction of 1 to 15 bytes ends and gives what the recursive descent over a fresh context makes of the 16 bytes that are the
  instruction and zeros; mnemonic and body are those of the root of the tree it built, and an
  exception anywhere on the way is a failure.\<close>

theorem engine_refines_parser:
  assumes "walker_laws (walker_lib e) stk tree D" and "context_laws e"
    and "baseaddr (fst g) = START_ADDRESS" and "insn_given raw n"
  shows "\<exists>w'. ctx_decode e g r raw n = map_option (\<lambda>r. (r, setData raw n (fst g), w'))
    (ghidra_outcome (descent_lib e D w0) r (take (unat n) raw @ replicate (16 - unat n) 0))"
proof -
  obtain img w where g: "g = (img, w)"
    by fastforce
  define pos :: "'a parser_context" where
    "pos = \<lparr>pos_addr = 0, pos_state = uninitialized, pos_buffer = replicate 16 0, pos_tree = w0\<rparr>"
  have inv: "ghidra_inv \<lparr>g_loader = img, g_pos = pos\<rparr>" and buf: "length (pos_buffer pos) = 16"
    using assms(3) by (simp_all add: ghidra_inv_def pos_def g)
  obtain g' where "ghidra_decode (descent_lib e D w0) \<lparr>g_loader = img, g_pos = pos\<rparr> r raw n =
      map_option (\<lambda>r. (r, g')) (ghidra_outcome (descent_lib e D w0) r (padded_input raw n))"
    using ghidra_decode_outcome [OF inv, of n raw "descent_lib e D w0" r] assms(4) by (auto simp: insn_given_def)
  then show ?thesis
    using ctx_decode_agrees [OF assms(1,2) buf, of img w r raw n w0]
    by (auto simp: g padded_input_def option.map_comp comp_def)
qed

text \<open>
  The instance: the walker of \<open>Sleigh_Walk\<close> with a buffer, an address and a state beside it; the
  language has instructions that start with 0x90.
\<close>

type_synonym plain_context = "plain_walker \<times> byte list \<times> u64 \<times> parse_state"

definition plain_buffer :: "plain_context \<Rightarrow> byte list" where
  "plain_buffer w = take 16 (fst (snd w) @ replicate 16 0)"

definition beside :: "(plain_walker \<Rightarrow> plain_walker) \<Rightarrow> plain_context \<Rightarrow> plain_context" where
  "beside f w = (f (fst w), snd w)"

definition plain_context_walker :: "(plain_context, bool, unit, unit, unit) sleigh_walker" where
  "plain_context_walker = \<lparr>deallocateState = \<lambda>w. (([([], 0)], [[] \<mapsto> None]), plain_buffer w, snd (snd w)),
     setDelaySlot = \<lambda>n w. w, clearCommits = \<lambda>w. w, loadContext = \<lambda>w. w,
     baseState = beside (\<lambda>w. ([([], 0)], snd w)), isState = \<lambda>w. fst (fst w) \<noteq> [],
     getConstructor = \<lambda>w. the (the (snd (fst w) (fst (hd (fst (fst w)))))),
     setConstructor = \<lambda>c. beside (plain_set (Some c)),
     applyContext = \<lambda>c w. Some w, getOperand = \<lambda>w. snd (hd (fst (fst w))), getOffset = \<lambda>i w. 0, setOffset = \<lambda>n w. w,
     setNaddr = \<lambda>a w. w, setParserState = \<lambda>st w. (fst w, fst (snd w), fst (snd (snd w)), st),
     getAddr = \<lambda>w. fst (snd (snd w)), getLength = \<lambda>w. 1,
     setCurrentLength = \<lambda>n w. w, calcCurrentLength = \<lambda>n m w. w,
     allocateOperand = \<lambda>i. beside (\<lambda>w. plain_set None (plain_push i w)), pushOperand = \<lambda>i. beside (plain_push i),
     popOperand = beside (\<lambda>w. (tl (fst w), snd w)), ct_numOperands = \<lambda>c. if c then 1 else 0, ct_operand = \<lambda>c i. (),
     ct_minimumLength = \<lambda>c. 1, ct_delaySlot = \<lambda>c. None, sym_offsetBase = \<lambda>s. 0, sym_relativeOffset = \<lambda>s. 0,
     sym_minimumLength = \<lambda>s. 0, sym_defining = \<lambda>s. Some (), sym_expression = \<lambda>s. (),
     ts_resolve = \<lambda>t w. if length (fst (fst w)) \<le> 2 then Some (Some False) else None, ts_is_subtable = \<lambda>t. True,
     ts_fixHandle = \<lambda>t w. Some w, ex_constHandle = \<lambda>e w. Some w, ct_fixResult = \<lambda>c w. Some w,
     root_resolve = \<lambda>w. if plain_buffer w ! 0 = 0x90 then Some True else None\<rparr>"

definition plain_engine :: "(plain_context, bool, unit, unit, unit) sleigh_context" where
  "plain_engine = \<lparr>walker_lib = plain_context_walker, getBuffer = plain_buffer, setBuffer = \<lambda>b w. (fst w, b, snd (snd w)),
     setAddr = \<lambda>a w. (fst w, fst (snd w), a, snd (snd (snd w))), getParserState = \<lambda>w. snd (snd (snd w)),
     ct_printMnemonic = \<lambda>c w. if c then Some (bytes_of ''NOP'') else None, ct_printBody = \<lambda>c w. Some [], thrown = \<lambda>w. w\<rparr>"

lemma plain_engine_laws: "walker_laws (walker_lib plain_engine) (fst \<circ> fst) (snd \<circ> fst) 2" "context_laws plain_engine"
proof -
  show "walker_laws (walker_lib plain_engine) (fst \<circ> fst) (snd \<circ> fst) 2"
    by (auto simp: walker_laws_def walker_setters_def walker_moves_def subtables_resolve_def stays_def
        stays_or_throws_def plain_engine_def plain_context_walker_def beside_def)
  show "context_laws plain_engine"
    by (auto simp: context_laws_def plain_engine_def plain_context_walker_def plain_buffer_def clean_slate_def)
qed

theorem engine_refines_parser_witness:
  "\<exists>r' img w. ctx_decode plain_engine (g_loader nop_ghidra, (([([3], 4)], [[3] \<mapsto> None]), [7], 5, pcode))
      zero_output_slot nop_insn 1 = Some (r', img, w) \<and> status r' = S_SUCCESS \<and>
    take 3 (result r') = bytes_of ''NOP''"
proof -
  let ?old = "((([([3], 4)], [[3] \<mapsto> None]), [7], 5, pcode)) :: plain_context"
  let ?bytes = "take (unat (1 :: byte)) nop_insn @ replicate (16 - unat (1 :: byte)) 0"
  note steps = descend_branch numeral_2_eq_2 resolve_walk_def resolve_visit_def resolve_finish_def
    plain_engine_def plain_context_walker_def beside_def
  have "\<exists>t. sleigh_parse (descent_lib plain_engine 2 ?old) ?bytes START_ADDRESS = Some t \<and> snd (fst t) [] = Some (Some True)"
    by (simp add: descent_lib_def fresh_context_def resolve_descent_def resolve_start_def resolve_end_def
        descend.simps(2) plain_buffer_def nop_insn_def Let_def steps)
  then obtain t where t: "sleigh_parse (descent_lib plain_engine 2 ?old) ?bytes START_ADDRESS = Some t"
      "snd (fst t) [] = Some (Some True)"
    by blast
  have printed: "c_snprintf (replicate 248 0) 0 248 (c_string (bytes_of ''NOP'') @ 32 # c_string [] @ [10]) =
      Some ([78, 79, 80, 32, 10] @ replicate 243 0)" "bytes_of ''NOP'' = [78, 79, 80]"
    by code_simp+
  have "\<exists>r'. ghidra_outcome (descent_lib plain_engine 2 ?old) zero_output_slot ?bytes = Some r' \<and>
      status r' = S_SUCCESS \<and> take 3 (result r') = bytes_of ''NOP''"
    unfolding ghidra_outcome_def t(1)
    using t(2)
    by (simp add: descent_lib_def plain_engine_def plain_context_walker_def beside_def ghidra_dump_def
        zero_output_slot_def Let_def printed(1)) (simp add: printed(2))
  moreover have "baseaddr (fst (g_loader nop_ghidra, ?old)) = START_ADDRESS"
    by (simp add: nop_ghidra_def)
  ultimately show ?thesis
    using engine_refines_parser [OF plain_engine_laws, of "(g_loader nop_ghidra, ?old)" nop_insn 1 zero_output_slot ?old]
      nop_given by auto
qed

end
