(* ===== verification/Cache_Life.thy ===== *)
theory Cache_Life
  imports Disassembly_Cache Alloc_Heap
begin

text \<open>
  The memory of the cache of parser contexts (src/worker/ghidra/sleighMishegos.cc: the constructor of
  \<open>DisassemblyCache\<close> with \<open>initialize\<close>, \<open>free\<close> and the destructor). The constructor either throws
  before it has allocated anything or makes the two arrays and the contexts, and the destructor
  gives back exactly those, whatever contexts the calls in between have handed out.
\<close>

section \<open>Construction and destruction\<close>

text \<open>The blocks of the list, the hash table and the contexts, in the order of the list.\<close>

record cache_blocks =
  kb_list :: nat
  kb_hashtable :: nat
  kb_contexts :: "nat list"

primrec new_contexts :: "nat \<Rightarrow> heap \<Rightarrow> nat list \<times> heap" where
  "new_contexts 0 h = ([], h)"
| "new_contexts (Suc n) h =
     (case heap_new h of (a, h) \<Rightarrow> case new_contexts n h of (as, h) \<Rightarrow> (a # as, h))"

text \<open>
  The hash table is filled with the first element of the list, which has to be there (\<open>None\<close> is an
  access outside it); an exception is \<open>Inl\<close>.
\<close>

definition dis_cache_new :: "(u64 \<Rightarrow> u64) \<Rightarrow> nat \<Rightarrow> u32 \<Rightarrow> heap \<Rightarrow>
    ((string + 'sp dis_cache \<times> cache_blocks) \<times> heap) option" where
  "dis_cache_new coveringmask cachesize windowsize h =
     (case cache_initialize coveringmask cachesize windowsize of
        None \<Rightarrow> Some (Inl ''Bad windowsize for disassembly cache'', h)
      | Some c \<Rightarrow> do {
          let (l, h) = heap_new h;
          let (t, h) = heap_new h;
          let (as, h) = new_contexts cachesize h;
          _ \<leftarrow> peek as 0;
          Some (Inr (c, \<lparr>kb_list = l, kb_hashtable = t, kb_contexts = as\<rparr>), h) })"

text \<open>\<open>free\<close>: each context is read from the list before it is deleted, then the arrays go.\<close>

fun free_contexts :: "nat \<Rightarrow> nat \<Rightarrow> nat list \<Rightarrow> heap \<Rightarrow> heap option" where
  "free_contexts 0 l as h = Some h"
| "free_contexts (Suc n) l [] h = None"
| "free_contexts (Suc n) l (a # as) h =
     (if usable [l] h then do { h \<leftarrow> heap_delete (Some a) h; free_contexts n l as h } else None)"

definition dis_cache_free :: "'sp dis_cache \<Rightarrow> cache_blocks \<Rightarrow> heap \<Rightarrow> heap option" where
  "dis_cache_free c bl h = do {
     h \<leftarrow> free_contexts (minimumreuse c) (kb_list bl) (kb_contexts bl) h;
     h \<leftarrow> heap_delete (Some (kb_list bl)) h;
     heap_delete (Some (kb_hashtable bl)) h }"

section \<open>A life\<close>

lemma new_contexts_adds:
  "added as h0 h \<Longrightarrow> new_contexts n h = (bs, h') \<Longrightarrow> length bs = n \<and> added (bs @ as) h0 h'"
proof (induction n arbitrary: as h bs h')
  case (Suc n)
  obtain a h1 where 1: "heap_new h = (a, h1)"
    by fastforce
  obtain cs h2 where 2: "new_contexts n h1 = (cs, h2)"
    by fastforce
  have bs: "bs = a # cs" "h' = h2"
    using Suc.prems(2) 1 2 by auto
  have "length cs = n \<and> added (cs @ a # as) h0 h2"
    by (rule Suc.IH [OF added_new [OF Suc.prems(1) 1] 2])
  then show ?case
    using added_mset [of "cs @ a # as" h0 h2 "bs @ as"] by (simp add: bs)
qed simp

lemma free_contexts_frees:
  "added (cs @ as) h0 h \<Longrightarrow> l \<in> set as \<Longrightarrow> \<exists>h'. free_contexts (length cs) l cs h = Some h' \<and> added as h0 h'"
proof (induction cs arbitrary: h)
  case (Cons c cs)
  then obtain h1 where h1: "heap_delete (Some c) h = Some h1" "added (cs @ as) h0 h1"
    using added_delete [of c "cs @ as" h0 h] by auto
  have "usable [l] h"
    using added_usable [OF Cons.prems(1), of "[l]"] Cons.prems(2) by auto
  with Cons.IH [OF h1(2) Cons.prems(2)] h1(1) show ?case
    by (auto simp del: usable_iff)
qed auto

lemma getParserContext_reuse: "getParserContext a c = Some (i, c') \<Longrightarrow> minimumreuse c' = minimumreuse c"
  by (auto simp: getParserContext_def Let_def split: Option.bind_splits if_splits)

lemma getParserContexts_reuse: "getParserContexts as c = Some (is, c') \<Longrightarrow> minimumreuse c' = minimumreuse c"
proof (induction as arbitrary: c "is")
  case (Cons a as)
  then obtain i c1 js where "getParserContext a c = Some (i, c1)" "getParserContexts as c1 = Some (js, c')"
    by (auto split: Option.bind_splits)
  then show ?case
    using Cons.IH getParserContext_reuse by metis
qed simp

text \<open>A cache that is made, used and destroyed leaves the heap as it found it.\<close>

lemma cache_life:
  assumes h: "heap_ok h" and new: "dis_cache_new cm n hashsize h = Some (Inr (c, bl), h1)"
    and calls: "getParserContexts addrs c = Some (is, c')"
  shows "\<exists>h2. dis_cache_free c' bl h1 = Some h2 \<and> added [] h h2"
proof -
  have c: "cache_initialize cm n hashsize = Some c"
    using new by (auto simp: dis_cache_new_def Let_def split: option.splits prod.splits Option.bind_splits)
  then have reuse: "minimumreuse c = n"
    by (auto simp: cache_initialize_def Let_def split: if_splits)
  obtain l hl t ht cs where run: "heap_new h = (l, hl)" "heap_new hl = (t, ht)" "new_contexts n ht = (cs, h1)"
      and bl: "bl = \<lparr>kb_list = l, kb_hashtable = t, kb_contexts = cs\<rparr>"
    using new c by (auto simp: dis_cache_new_def Let_def split: prod.splits Option.bind_splits)
  have "added [t, l] h ht"
    using added_new [OF added_new [OF added_none [OF h] run(1)] run(2)] .
  from new_contexts_adds [OF this run(3)] have cs: "length cs = n" "added (cs @ [t, l]) h h1"
    by simp_all
  from cs(2) have "added (cs @ [l, t]) h h1"
    by (rule added_mset) simp
  from free_contexts_frees [OF this, of l] obtain h2 where h2: "free_contexts n l cs h1 = Some h2" "added [l, t] h h2"
    using cs(1) by auto
  from added_delete [OF h2(2)] obtain h3 where h3: "heap_delete (Some l) h2 = Some h3" "added [t] h h3"
    by blast
  from added_delete [OF h3(2)] obtain h4 where "heap_delete (Some t) h3 = Some h4" "added [] h h4"
    by blast
  then show ?thesis
    using h2(1) h3(1) getParserContexts_reuse [OF calls] reuse by (simp add: dis_cache_free_def bl)
qed

lemma cache_new_throws:
  "dis_cache_new cm n hashsize h = Some (Inl m, h1) \<Longrightarrow> h1 = h"
  by (auto simp: dis_cache_new_def Let_def split: option.splits prod.splits Option.bind_splits)

end
