(* ===== verification/Ring_Bound.thy ===== *)
theory Ring_Bound
  imports Ring_Complete
begin

text \<open>
  How much work a run of the ring can do: a measure of what is left of the published chunks falls
  with every step of every process, so only finitely many steps, of any interleaving and with any
  crashes, happen between two publications. In manual mode the input bounds the publications.
\<close>

section \<open>Counting steps\<close>

inductive ring_steps :: "fuzz_config \<Rightarrow> ring \<Rightarrow> nat \<Rightarrow> event list \<Rightarrow> ring \<Rightarrow> bool" for u s0 where
  no_step: "ring_steps u s0 0 [] s0"
| one_more: "ring_steps u s0 n es s \<Longrightarrow> ring_step u s es' s' \<Longrightarrow> ring_steps u s0 (Suc n) (es @ es') s'"

lemma ring_steps_run: "ring_steps u s0 n es s \<Longrightarrow> ring_run u s0 es s"
  by (induction rule: ring_steps.induct) (auto intro: trace_run.intros)

lemma run_ring_steps: "ring_run u s0 es s \<Longrightarrow> \<exists>n. ring_steps u s0 n es s"
  by (induction rule: trace_run.induct) (auto intro: ring_steps.intros)

section \<open>What a worker has left\<close>

text \<open>
  The slots a worker still has to go through in its chunk, ten steps each, crash and restart
  included, from its program counter and its \<open>remaining\<close>; and all the chunks up to turn \<open>P\<close>.
\<close>

definition slots_left :: "nat \<Rightarrow> nat" where
  "slots_left r = (if r = 0 then 4096 else r - 1)"

fun turn_work :: "worker_pc \<Rightarrow> nat \<Rightarrow> nat" where
  "turn_work WWait r = 10 * slots_left r + 9"
| "turn_work WStart r = 10 * slots_left r + 8"
| "turn_work (WLoop j) r = 10 * r + 7"
| "turn_work (WDecode j) r = 10 * r + 6"
| "turn_work WDead r = 10 * r + 5"
| "turn_work WReaped r = 10 * r + 4"
| "turn_work WDec r = 3"
| "turn_work WCheck r = 2"
| "turn_work WExit r = 1"

definition worker_work :: "nat \<Rightarrow> nat \<Rightarrow> worker \<Rightarrow> nat" where
  "worker_work P t w = (P - t) * 41000 + turn_work (w_pc w) (unat (remaining (out_chunks w ! (t mod 16))))"

lemma worker_remaining:
  assumes "ring_inv u \<tau> es s" and "i < length (workers s)"
  shows "unat (remaining (out_chunks (workers s ! i) ! (\<tau> i mod 16))) \<le> 4096"
proof -
  note ok = ring_inv_worker [OF assms]
  show ?thesis
  proof (cases "\<tau> i < length (published es)")
    case True
    then have "length (published es ! \<tau> i) \<le> 4096"
      using ring_invD(7) [OF assms(1)] by (auto simp: turns_ok_def)
    then show ?thesis
      using worker_okD(8) [OF ok True] by (cases "w_pc (workers s ! i)") auto
  next
    case False
    then have "remaining (out_chunks (workers s ! i) ! (\<tau> i mod 16)) = 0"
      using ok unfolding worker_ok_def by presburger
    then show ?thesis
      by simp
  qed
qed

lemma turn_work_bound: "r \<le> 4096 \<Longrightarrow> turn_work p r < 41000"
  by (cases p) (auto simp: slots_left_def)

definition others_same :: "nat \<Rightarrow> ring \<Rightarrow> ring \<Rightarrow> bool" where
  "others_same i s s' \<longleftrightarrow> length (workers s') = length (workers s) \<and>
     (\<forall>k. k \<noteq> i \<longrightarrow> workers s' ! k = workers s ! k)"

lemma others_same_upd [simp]: "others_same i s (upd_worker i f s)" "others_same i s (upd_chunk c g (upd_worker i f s))"
  "others_same i s (upd_worker i f (upd_chunk c g s))"
  by (simp_all add: others_same_def upd_worker_def upd_chunk_def)

lemma worker_nth_upd [simp]:
  "i < length (workers s) \<Longrightarrow> workers (upd_worker i f s) ! i = f (workers s ! i)"
  by (simp add: upd_worker_def)

lemma remaining_upd_out:
  assumes "\<And>oc. remaining (f oc) = remaining oc"
  shows "remaining (out_chunks (upd_out c f w) ! k) = remaining (out_chunks w ! k)"
  using assms by (simp add: upd_out_def update_same_field)

lemma worker_step_others: "worker_step u i s = Some s' \<Longrightarrow> others_same i s s' \<and> turn s' = turn s \<and> m_pc s' = m_pc s"
  by (cases "w_pc (workers s ! i)")
    (auto simp: worker_step_def Let_def turn_def upd_worker_def upd_chunk_def others_same_def split: if_splits prod.splits)

lemma worker_step_work:
  assumes inv: "ring_inv u \<tau> es s" and i: "i < length (workers s)" and step: "worker_step u i s = Some s'"
    and P: "length (published es) \<le> P"
  shows "\<exists>\<tau>'. ring_inv u \<tau>' es s' \<and> (\<forall>k. k \<noteq> i \<longrightarrow> \<tau>' k = \<tau> k) \<and>
    worker_work P (\<tau>' i) (workers s' ! i) < worker_work P (\<tau> i) (workers s ! i)"
proof -
  let ?w = "workers s ! i" and ?c = "\<tau> i mod 16" and ?pub = "published es"
  let ?r = "unat (remaining (out_chunks ?w ! ?c))" and ?r' = "unat (remaining (out_chunks (workers s' ! i) ! ?c))"
  note w = worker_okD [OF ring_inv_worker [OF inv i]]
  have len: "i < length (workers s')"
    using worker_step_others [OF step] i by (simp add: others_same_def)
  have same: ?thesis if "ring_inv u \<tau> es s'" "turn_work (w_pc (workers s' ! i)) ?r' < turn_work (w_pc ?w) ?r"
    using that by (intro exI [of _ \<tau>]) (simp add: worker_work_def)
  have post: "progress_ok u i (?pub ! \<tau> i) ?r' (outputs (out_chunks (workers s' ! i) ! ?c)) (w_pc (workers s' ! i))"
    if "ring_inv u \<tau> es s'" "\<tau> i < length ?pub"
    using worker_okD(8) [OF ring_inv_worker [OF that(1) len] that(2)] .
  have big: "length (?pub ! \<tau> i) \<le> 4096" if "\<tau> i < length ?pub"
    using ring_invD(7) [OF inv] that by (auto simp: turns_ok_def)
  show ?thesis
  proof (cases "w_pc ?w")
    case WWait
    have "s' = upd_worker i (\<lambda>w. w\<lparr>w_pc := WStart\<rparr>) s"
      using step WWait by (simp add: worker_step_def Let_def split: if_splits)
    then show ?thesis
      using same [OF wait_step [OF inv i WWait step]] i WWait by simp
  next
    case WStart
    have inv': "ring_inv u \<tau> es s'" and t: "\<tau> i < length ?pub"
      using start_step [OF inv i WStart step] w(9) WStart by auto
    obtain st where st: "st = start_slot (input_count (chunks s ! ?c)) (remaining (out_chunks ?w ! ?c))"
      "w_pc (workers s' ! i) = WLoop st"
      using step WStart i w(3) by (auto simp: worker_step_def Let_def)
    have n: "unat (input_count (chunks s ! ?c)) = length (?pub ! \<tau> i)"
      using own_chunk_contents(1) [OF inv i t] WStart by simp
    have r: "?r = 0 \<or> ?r \<le> length (?pub ! \<tau> i)"
      using w(8) [OF t] WStart by auto
    have "st = (if ?r = 0 then 0 else length (?pub ! \<tau> i) - ?r + 1)"
      using start_slot_eq [of "remaining (out_chunks ?w ! ?c)" "input_count (chunks s ! ?c)"] r n
      by (auto simp: st(1) unat_eq_zero)
    moreover have "?r' = length (?pub ! \<tau> i) - st"
      using post [OF inv' t] st(2) by simp
    ultimately have "?r' \<le> slots_left ?r"
      using r big [OF t] by (auto simp: slots_left_def split: if_splits)
    then show ?thesis
      using same [OF inv'] WStart st(2) by simp
  next
    case (WLoop j)
    have inv': "ring_inv u \<tau> es s'"
      using loop_step [OF inv i WLoop step] .
    show ?thesis
    proof (cases "j < unat (input_count (chunks s ! w_idx ?w))")
      case True
      then have "workers s' ! i = upd_out ?c (put_output j ((outputs (out_chunks ?w ! ?c) ! j)\<lparr>out_len := 0, ndecoded := 0\<rparr>)) ?w\<lparr>w_pc := WDecode j\<rparr>"
        using step WLoop w(3) i by (auto simp: worker_step_def Let_def)
      then show ?thesis
        using same [OF inv'] WLoop by (simp add: remaining_upd_out put_output_def)
    next
      case False
      then have "w_pc (workers s' ! i) = WDec"
        using step WLoop i by (auto simp: worker_step_def Let_def)
      then show ?thesis
        using same [OF inv'] WLoop by simp
    qed
  next
    case (WDecode j)
    have inv': "ring_inv u \<tau> es s'" and t: "\<tau> i < length ?pub"
      using decode_step [OF inv i WDecode step] w(9) WDecode by auto
    have pre: "j < length (?pub ! \<tau> i)" "?r = length (?pub ! \<tau> i) - j"
      using w(8) [OF t] WDecode by simp_all
    show ?thesis
    proof (cases "w_pc (workers s' ! i) = WLoop (j + 1)")
      case True
      then show ?thesis
        using same [OF inv'] post [OF inv' t] pre WDecode by simp
    next
      case False
      then have "w_pc (workers s' ! i) = WDead \<and> ?r' = ?r"
        using step WDecode i
        by (auto simp: worker_step_def Let_def remaining_upd_out put_output_def split: prod.splits if_splits)
      then show ?thesis
        using same [OF inv'] WDecode by simp
    qed
  next
    case WDec
    have "w_pc (workers s' ! i) = WCheck"
      using step WDec i by (auto simp: worker_step_def Let_def upd_chunk_def)
    then show ?thesis
      using same [OF sign_off_step [OF inv i WDec step]] WDec by simp
  next
    case WCheck
    have t: "\<tau> i < length ?pub"
      using w(9) WCheck by simp
    from check_step [OF inv i WCheck step] obtain \<tau>' where inv': "ring_inv u \<tau>' es s'"
      and cases: "\<tau>' = \<tau> \<and> w_pc (workers s' ! i) = WExit \<or> \<tau>' = \<tau>(i := \<tau> i + 1) \<and> w_pc (workers s' ! i) = WWait"
      by blast
    show ?thesis
    proof (cases "\<tau>' = \<tau>")
      case True
      moreover have "\<tau> \<noteq> \<tau>(i := \<tau> i + 1)"
        by (metis fun_upd_same n_not_Suc_n Suc_eq_plus1)
      ultimately show ?thesis
        using same inv' cases WCheck by simp
    next
      case False
      then have "\<tau>' i = \<tau> i + 1" "\<forall>k. k \<noteq> i \<longrightarrow> \<tau>' k = \<tau> k"
        using cases by auto
      moreover have "P - \<tau> i = Suc (P - (\<tau> i + 1))"
        using t P by simp
      ultimately show ?thesis
        using inv' turn_work_bound [OF worker_remaining [OF inv' len], of "w_pc (workers s' ! i)"]
        by (intro exI [of _ \<tau>']) (simp add: worker_work_def)
    qed
  qed (use step in \<open>simp_all add: worker_step_def Let_def\<close>)
qed

lemma signal_step_work:
  assumes inv: "ring_inv u \<tau> es s" and i: "i < length (workers s)" and step: "sigchld_handler i s = Some s'"
  shows "ring_inv u \<tau> es s' \<and> others_same i s s' \<and> turn s' = turn s \<and> m_pc s' = m_pc s \<and>
    worker_work P (\<tau> i) (workers s' ! i) < worker_work P (\<tau> i) (workers s ! i)"
proof -
  have "w_pc (workers s ! i) = WDead" "w_pc (workers s' ! i) = WReaped"
    "remaining (out_chunks (workers s' ! i) ! k) = remaining (out_chunks (workers s ! i) ! k)" for k
    using step i
    by (auto simp: sigchld_handler_def Let_def remaining_upd_out upd_chunk_def upd_out_def mark_crash_def put_output_def
        nth_list_update update_same_field split: if_splits option.splits)
  then show ?thesis
    using signal_step [OF inv i step] step
    by (auto simp: worker_work_def sigchld_handler_def Let_def others_same_def turn_def upd_chunk_def upd_worker_def
        split: if_splits option.splits)
qed

section \<open>What the main loop has left\<close>

fun pc_work :: "nat \<Rightarrow> main_pc \<Rightarrow> nat" where
  "pc_work N MWait = 5000 + N + 3"
| "pc_work N (MScan i r) = 5000 + (N + 1 - i) + (if r then N + 4 else 0)"
| "pc_work N (MProcess i) = 20 + (4096 - i)"
| "pc_work N MFill = 8"
| "pc_work N (MCount n) = 7"
| "pc_work N MWorkers = 6"
| "pc_work N MGeneration = 5"
| "pc_work N MAdvance = 4"
| "pc_work N MDone = 0"

definition main_work :: "nat \<Rightarrow> nat \<Rightarrow> ring \<Rightarrow> nat" where
  "main_work N P s = (P + 16 - turn s) * 6000 + pc_work N (m_pc s)"

text \<open>A restart makes the main loop go over the workers once more; a worker's step pays for that.\<close>

definition ring_work :: "fuzz_config \<Rightarrow> (nat \<Rightarrow> nat) \<Rightarrow> nat \<Rightarrow> ring \<Rightarrow> nat" where
  "ring_work u \<tau> P s =
     (su_nworkers u + 4) * (\<Sum>i < su_nworkers u. worker_work P (\<tau> i) (workers s ! i)) +
     main_work (su_nworkers u) P s"

lemma ring_work_worker:
  assumes "i < su_nworkers u" and "others_same i s s'" and "\<forall>k. k \<noteq> i \<longrightarrow> \<tau>' k = \<tau> k"
    and "worker_work P (\<tau>' i) (workers s' ! i) < worker_work P (\<tau> i) (workers s ! i)"
    and "main_work (su_nworkers u) P s' < main_work (su_nworkers u) P s + su_nworkers u + 4"
  shows "ring_work u \<tau>' P s' < ring_work u \<tau> P s"
proof -
  let ?f = "\<lambda>i. worker_work P (\<tau> i) (workers s ! i)" and ?f' = "\<lambda>i. worker_work P (\<tau>' i) (workers s' ! i)"
  have "sum ?f {..<su_nworkers u} = ?f i + sum ?f ({..<su_nworkers u} - {i})"
    "sum ?f' {..<su_nworkers u} = ?f' i + sum ?f' ({..<su_nworkers u} - {i})"
    using assms(1) by (simp_all add: sum.remove)
  moreover have "sum ?f' ({..<su_nworkers u} - {i}) = sum ?f ({..<su_nworkers u} - {i})"
    using assms(2,3) by (intro sum.cong) (auto simp: others_same_def)
  ultimately have "Suc (sum ?f' {..<su_nworkers u}) \<le> sum ?f {..<su_nworkers u}"
    using assms(4) by simp
  then have "(su_nworkers u + 4) * Suc (sum ?f' {..<su_nworkers u}) \<le> (su_nworkers u + 4) * sum ?f {..<su_nworkers u}"
    by (rule mult_le_mono2)
  then show ?thesis
    using assms(5) by (simp add: ring_work_def)
qed

lemma ring_work_main:
  assumes "workers s' = workers s" and "main_work (su_nworkers u) P s' < main_work (su_nworkers u) P s"
  shows "ring_work u \<tau> P s' < ring_work u \<tau> P s"
  using assms by (simp add: ring_work_def)

lemma main_step_work:
  assumes inv: "ring_inv u \<tau> es s" and step: "main_step u s = Some (s', es')"
    and P: "length (published es) \<le> P"
  shows "ring_work u \<tau> P s' < ring_work u \<tau> P s"
proof -
  let ?N = "su_nworkers u"
  note parts = ring_invD [OF inv]
  have N: "length (workers s) = ?N" "?N \<le> 31"
    using parts(2) by (auto simp: workers_ok_def)
  have "turn s \<le> length (published es) + (if m_pc s = MAdvance then 14 else 15)"
    using parts(7) unfolding turns_ok_def by blast
  then have T: "m_pc s = MAdvance \<Longrightarrow> turn s \<le> P + 14"
    using P by simp
  note inv' = main_step_inv [OF inv step]
  have pc: ?thesis if "turn s' = turn s" "workers s' = workers s" "pc_work ?N (m_pc s') < pc_work ?N (m_pc s)"
    using that by (intro ring_work_main) (simp_all add: main_work_def)
  show ?thesis
  proof (cases "m_pc s")
    case MWait
    then show ?thesis
      using step by (intro pc) (auto simp: main_step_def Let_def turn_def split: if_splits)
  next
    case (MScan i r)
    show ?thesis
    proof (cases "i < ?N \<and> sigchld (workers s ! i)")
      case True
      let ?w = "workers s ! i"
      have s': "s' = upd_worker i worker_start (upd_chunk (start_idx ?w)
          (\<lambda>ic. ic\<lparr>remaining_workers := remaining_workers ic + 1\<rparr>) (s\<lparr>m_pc := MScan (i + 1) True\<rparr>))"
        using step MScan True by (auto simp: main_step_def Let_def)
      note ok = ring_inv_worker [OF inv, of i]
      have w: "w_pc ?w = WReaped" "\<tau> i < length (published es)"
        using worker_okD(5,9) [OF ok] True N by auto
      have "0 < unat (remaining (out_chunks ?w ! (\<tau> i mod 16)))"
        using worker_okD(8) [OF ok w(2)] True N w(1) by auto
      then have "worker_work P (\<tau> i) (workers s' ! i) < worker_work P (\<tau> i) ?w"
        using True N w(1) by (simp add: s' worker_work_def worker_start_def slots_left_def upd_chunk_def)
      moreover have "others_same i s s'"
        by (simp add: s' others_same_def upd_worker_def upd_chunk_def)
      moreover have "turn s' = turn s" "m_pc s' = MScan (i + 1) True"
        by (simp_all add: s' turn_def upd_worker_def upd_chunk_def)
      then have "main_work ?N P s' < main_work ?N P s + ?N + 4"
        using True MScan by (auto simp: main_work_def)
      ultimately show ?thesis
        using True by (intro ring_work_worker [of i]) auto
    next
      case False
      then show ?thesis
        using step MScan by (intro pc) (auto simp: main_step_def Let_def turn_def split: if_splits)
    qed
  next
    case (MProcess i)
    show ?thesis
    proof (cases "m_pc s' = MProcess (i + 1)")
      case True
      have pub: "published es' = []" and t: "turn s' = turn s" and ws: "workers s' = workers s"
        using step MProcess True by (auto simp: main_step_def Let_def turn_def split: if_splits)
      have "i < (if turn s < 16 then 0 else length (published es ! (turn s - 16)))"
        using ring_invD(9) [OF inv'] True by (auto simp: log_ok_def pub t split: if_splits)
      moreover have "length (published es ! (turn s - 16)) \<le> 4096" if "16 \<le> turn s"
        using parts(7) turn_bound [OF parts(7)] that by (auto simp: turns_ok_def)
      ultimately have "i < 4096"
        by (auto split: if_splits)
      then show ?thesis
        using True MProcess by (intro pc t ws) simp
    next
      case False
      then show ?thesis
        using step MProcess by (intro pc) (auto simp: main_step_def Let_def turn_def split: if_splits)
    qed
  next
    case MFill
    then show ?thesis
      using step by (intro pc) (auto simp: main_step_def Let_def turn_def upd_chunk_def split: Option.bind_splits)
  next
    case MAdvance
    then have "turn s' = turn s + 1" "workers s' = workers s" "m_pc s' = MWait"
      using step parts(1) by (auto simp: main_step_def Let_def turn_def shape_ok_def const_simps split: if_splits)
    moreover have "P + 16 - turn s = Suc (P + 16 - (turn s + 1))"
      using T MAdvance by simp
    ultimately have "main_work ?N P s' < main_work ?N P s"
      using N(2) MAdvance by (simp add: main_work_def)
    with \<open>workers s' = workers s\<close> show ?thesis
      by (intro ring_work_main)
  next
    case (MCount n)
    then show ?thesis
      using step by (intro pc) (auto simp: main_step_def Let_def turn_def upd_chunk_def)
  next
    case MWorkers
    then show ?thesis
      using step by (intro pc) (auto simp: main_step_def Let_def turn_def upd_chunk_def)
  next
    case MGeneration
    then show ?thesis
      using step by (intro pc) (auto simp: main_step_def Let_def turn_def upd_chunk_def)
  next
    case MDone
    then show ?thesis
      using step by (simp add: main_step_def)
  qed
qed

lemma ring_step_work:
  assumes inv: "ring_inv u \<tau> es s" and step: "ring_step u s es' s'" and P: "length (published (es @ es')) \<le> P"
  shows "\<exists>\<tau>'. ring_inv u \<tau>' (es @ es') s' \<and> ring_work u \<tau>' P s' < ring_work u \<tau> P s"
proof -
  have N: "length (workers s) = su_nworkers u"
    using inv by (simp add: ring_inv_def workers_ok_def)
  have P': "length (published es) \<le> P"
    using P by simp
  from step show ?thesis
  proof (rule ring_stepE)
    assume m: "main_step u s = Some (s', es')"
    show ?thesis
      using main_step_inv [OF inv m] main_step_work [OF inv m P'] by blast
  next
    fix i
    assume i: "es' = []" "i < su_nworkers u" and w: "worker_step u i s = Some s'"
    from worker_step_work [OF inv _ w P'] i N obtain \<tau>' where \<tau>': "ring_inv u \<tau>' es s'"
      "\<forall>k. k \<noteq> i \<longrightarrow> \<tau>' k = \<tau> k" "worker_work P (\<tau>' i) (workers s' ! i) < worker_work P (\<tau> i) (workers s ! i)"
      by auto
    have "ring_work u \<tau>' P s' < ring_work u \<tau> P s"
      using worker_step_others [OF w] \<tau>'(2,3) i(2) by (intro ring_work_worker [of i]) (auto simp: main_work_def)
    then show ?thesis
      using \<tau>'(1) i(1) by auto
  next
    fix i
    assume i: "es' = []" "i < su_nworkers u" and h: "sigchld_handler i s = Some s'"
    then have "i < length (workers s)"
      using N by simp
    note sig = signal_step_work [OF inv this h, of P]
    have "ring_work u \<tau> P s' < ring_work u \<tau> P s"
      using sig i(2) by (intro ring_work_worker [of i]) (auto simp: main_work_def)
    then show ?thesis
      using sig i(1) by auto
  qed
qed

lemma ring_steps_work:
  "ring_steps u s0 n es s \<Longrightarrow> ring_initial u s0 \<Longrightarrow> length (published es) \<le> P \<Longrightarrow>
   \<exists>\<tau>. ring_inv u \<tau> es s \<and> n + ring_work u \<tau> P s \<le> ring_work u (\<lambda>_. 0) P s0"
proof (induction rule: ring_steps.induct)
  case no_step
  then show ?case
    using ring_inv_start by (intro exI [of _ "\<lambda>_. 0"]) simp
next
  case (one_more n es s es' s')
  then obtain \<tau> where \<tau>: "ring_inv u \<tau> es s" "n + ring_work u \<tau> P s \<le> ring_work u (\<lambda>_. 0) P s0"
    by auto
  from ring_step_work [OF \<tau>(1) one_more.hyps(2) one_more.prems(2)] \<tau>(2) show ?case
    by force
qed

definition step_bound :: "nat \<Rightarrow> nat \<Rightarrow> nat" where
  "step_bound N P = (N + 4) * (N * (41000 * (P + 1))) + 6000 * (P + 17)"

lemma ring_work_start:
  assumes "ring_initial u s0"
  shows "ring_work u (\<lambda>_. 0) P s0 \<le> step_bound (su_nworkers u) P"
proof -
  have inv: "ring_inv u (\<lambda>_. 0) [] s0"
    by (rule ring_inv_start [OF assms])
  have N: "length (workers s0) = su_nworkers u" "su_nworkers u \<le> 31" and pc: "m_pc s0 = MWait" "turn s0 = 0"
    using inv assms by (auto simp: ring_inv_def workers_ok_def ring_initial_def ring_start_def turn_def)
  have "(\<Sum>i < su_nworkers u. worker_work P 0 (workers s0 ! i)) \<le> (\<Sum>i < su_nworkers u. 41000 * (P + 1))"
  proof (rule sum_mono)
    fix i
    assume "i \<in> {..<su_nworkers u}"
    then have "turn_work (w_pc (workers s0 ! i)) (unat (remaining (out_chunks (workers s0 ! i) ! 0))) < 41000"
      using turn_work_bound worker_remaining [OF inv, of i] N(1) by simp
    then show "worker_work P 0 (workers s0 ! i) \<le> 41000 * (P + 1)"
      by (simp add: worker_work_def)
  qed
  then have "(su_nworkers u + 4) * (\<Sum>i < su_nworkers u. worker_work P 0 (workers s0 ! i)) \<le>
      (su_nworkers u + 4) * (su_nworkers u * (41000 * (P + 1)))"
    by (intro mult_le_mono2) simp
  moreover have "main_work (su_nworkers u) P s0 \<le> 6000 * (P + 17)"
    using N(2) by (simp add: main_work_def pc)
  ultimately show ?thesis
    unfolding ring_work_def step_bound_def by (rule add_mono)
qed

lemma ring_steps_bounded:
  assumes "ring_steps u s0 n es s" and "ring_initial u s0" and "length (published es) \<le> P"
  shows "n \<le> step_bound (su_nworkers u) P"
  using ring_steps_work [OF assms] ring_work_start [OF assms(2), of P] by auto

section \<open>Manual mode\<close>

text \<open>Every chunk but the last takes at least one byte of the input.\<close>

lemma manual_consumes:
  "manual_candidate e slot = Some (b, slot', e') \<Longrightarrow>
   length (stdin e') \<le> length (stdin e) \<and> (b \<longrightarrow> length (stdin e') < length (stdin e))"
  by (auto simp: manual_candidate_def Let_def dest!: getline_shorter
      split: option.splits prod.splits if_splits Option.bind_splits)

lemma fill_slots_consumes:
  "fill_slots manual_candidate e ss n = Some (ss', count, ended, e') \<Longrightarrow>
   length (stdin e') + (if ended \<or> ss = [] then 0 else 1) \<le> length (stdin e)"
proof (induction ss arbitrary: e n ss' count ended e')
  case (Cons s ss)
  then obtain b s1 e1 where m: "manual_candidate e s = Some (b, s1, e1)"
    by (auto split: Option.bind_splits)
  show ?case
  proof (cases b)
    case True
    then obtain ss1 where "fill_slots manual_candidate e1 ss (n + 1) = Some (ss1, count, ended, e')"
      using Cons.prems m by (auto split: Option.bind_splits)
    from Cons.IH [OF this] manual_consumes [OF m] True show ?thesis
      by (auto split: if_splits)
  next
    case False
    then show ?thesis
      using Cons.prems manual_consumes [OF m] m by auto
  qed
qed auto

definition input_inv :: "nat \<Rightarrow> input_slot list list \<Rightarrow> ring \<Rightarrow> bool" where
  "input_inv L pub s \<longleftrightarrow>
     length pub + (if filling (m_pc s) \<and> m_pc s \<noteq> MFill then 1 else 0) + length (stdin (m_env s))
       \<le> L + (if m_exit_idx s = 16 then 0 else 1)"

lemma main_step_input:
  assumes inv: "ring_inv u \<tau> es s" and step: "main_step u s = Some (s', es')" and manual: "su_mutator u = Manual"
    and J: "input_inv L (published es) s"
  shows "input_inv L (published (es @ es')) s'"
proof (cases "m_pc s")
  case MFill
  then have exit: "m_exit_idx s = 16"
    using ring_invD(7) [OF inv] by (simp add: turns_ok_def)
  have idx: "m_idx s < 16" "length (inputs (chunks s ! m_idx s)) = 4096"
    using ring_invD(1) [OF inv] by (auto simp: shape_ok_def chunk_wf_def const_simps)
  from step MFill manual obtain slots count ended e where
    fill: "fill_slots manual_candidate (m_env s) (inputs (chunks s ! m_idx s)) 0 = Some (slots, count, ended, e)"
    and s': "s' = upd_chunk (m_idx s) (\<lambda>ic. ic\<lparr>inputs := slots\<rparr>)
      (s\<lparr>m_env := e, m_exit_idx := if ended then m_idx s else m_exit_idx s, m_pc := MCount count\<rparr>)" "es' = []"
    by (auto simp: main_step_def Let_def split: Option.bind_splits)
  have "m_env s' = e"
    by (simp add: s' upd_chunk_def)
  then show ?thesis
    using J MFill exit idx fill_slots_consumes [OF fill] by (auto simp: input_inv_def s' split: if_splits)
next
  case MWait
  then show ?thesis
    using step J by (auto simp: input_inv_def main_step_def Let_def split: if_splits)
next
  case (MScan i r)
  have "m_env s' = m_env s" "m_exit_idx s' = m_exit_idx s" "\<not> filling (m_pc s')" "es' = []"
    using step MScan by (auto simp: main_step_def Let_def upd_worker_def upd_chunk_def split: if_splits)
  then show ?thesis
    using J MScan by (simp add: input_inv_def)
next
  case (MProcess i)
  have "m_env s' = m_env s" "m_exit_idx s' = m_exit_idx s" "filling (m_pc s') \<longrightarrow> m_pc s' = MFill" "published es' = []"
    using step MProcess by (auto simp: main_step_def Let_def split: if_splits)
  then show ?thesis
    using J MProcess by (auto simp: input_inv_def)
qed (use step J in \<open>auto simp: input_inv_def main_step_def Let_def upd_chunk_def split: if_splits\<close>)

lemma other_step_input:
  assumes "m_pc s' = m_pc s" "m_env s' = m_env s" "m_exit_idx s' = m_exit_idx s" and "input_inv L pub s"
  shows "input_inv L pub s'"
  using assms by (simp add: input_inv_def)

lemma worker_step_env: "worker_step u i s = Some s' \<Longrightarrow> m_env s' = m_env s"
  by (cases "w_pc (workers s ! i)")
    (auto simp: worker_step_def Let_def upd_worker_def upd_chunk_def split: if_splits prod.splits)

lemma signal_step_env: "sigchld_handler i s = Some s' \<Longrightarrow> m_env s' = m_env s"
  by (auto simp: sigchld_handler_def Let_def upd_worker_def upd_chunk_def split: if_splits option.splits)

lemma ring_step_input:
  assumes inv: "ring_inv u \<tau> es s" and step: "ring_step u s es' s'" and manual: "su_mutator u = Manual"
    and J: "input_inv L (published es) s"
  shows "input_inv L (published (es @ es')) s'"
  using step
proof (rule ring_stepE)
  show ?thesis if "main_step u s = Some (s', es')"
    by (rule main_step_input [OF inv that manual J])
  show ?thesis if "es' = []" "worker_step u i s = Some s'" for i
    using other_step_input [OF worker_step_frame(2) [OF that(2)] worker_step_env [OF that(2)] worker_step_frame(1) [OF that(2)] J]
      that(1) by simp
  show ?thesis if "es' = []" "sigchld_handler i s = Some s'" for i
    using other_step_input [OF signal_step_frame(2) [OF that(2)] signal_step_env [OF that(2)] signal_step_frame(1) [OF that(2)] J]
      that(1) by simp
qed

lemma manual_published:
  assumes "ring_run u s0 es s" and "ring_initial u s0" and "su_mutator u = Manual"
  shows "length (published es) \<le> length (stdin (m_env s0)) + 1"
proof -
  have "input_inv (length (stdin (m_env s0))) (published es) s"
    using assms(1)
  proof (induction rule: trace_run.induct)
    case start
    then show ?case
      using assms(2) by (auto simp: input_inv_def ring_initial_def ring_start_def)
  next
    case (more es s es' s')
    then show ?case
      using ring.run_inv [OF more.hyps(1) assms(2)] ring_step_input assms(3) by blast
  qed
  then show ?thesis
    by (auto simp: input_inv_def split: if_splits)
qed

lemma step_bound_mono: "P \<le> Q \<Longrightarrow> step_bound N P \<le> step_bound N Q"
  unfolding step_bound_def by (intro add_mono mult_le_mono) auto

lemma manual_bounded:
  assumes "ring_steps u s0 n es s" and "ring_initial u s0" and "su_mutator u = Manual"
  shows "n \<le> step_bound (su_nworkers u) (length (stdin (m_env s0)) + 1)"
  using ring_steps_bounded [OF assms(1,2) manual_published [OF ring_steps_run [OF assms(1)] assms(2,3)]] .

text \<open>So every run of manual mode has an end, wherever it is continued.\<close>

lemma manual_end:
  assumes "ring_steps u s0 n es s" and "ring_initial u s0" and "su_mutator u = Manual"
  shows "\<exists>m es' s'. ring_steps u s0 m (es @ es') s' \<and> \<not> can_step u s'"
  using assms(1)
proof (induction "step_bound (su_nworkers u) (length (stdin (m_env s0)) + 1) - n" arbitrary: n es s rule: less_induct)
  case less
  show ?case
  proof (cases "can_step u s")
    case True
    then obtain es1 s1 where "ring_step u s es1 s1"
      by (auto simp: can_step_iff)
    from ring_steps.one_more [OF less.prems this] have more: "ring_steps u s0 (Suc n) (es @ es1) s1" .
    have "\<exists>m es' s'. ring_steps u s0 m ((es @ es1) @ es') s' \<and> \<not> can_step u s'"
      using manual_bounded [OF more assms(2,3)] by (intro less.hyps [OF _ more]) simp
    then show ?thesis
      unfolding append_assoc by blast
  next
    case False
    then show ?thesis
      using less.prems by (intro exI [of _ n] exI [of _ "[]"] exI [of _ s]) simp
  qed
qed

text \<open>C25: Runs make progress. Between two publications only boundedly many steps happen, whatever the
  interleaving and however often workers crash: there is no livelock, and no fairness is needed.
  The bound is linear in the number of published chunks, and in manual mode in the length of the
  input; there every run, wherever it stands, can only go on to an end, where the main loop has
  ended or a worker has left.\<close>

theorem ring_runs_are_bounded:
  assumes "ring_initial u s0" and "ring_steps u s0 n es s"
  shows "n \<le> step_bound (su_nworkers u) (length (published es)) \<and>
    (su_mutator u = Manual \<longrightarrow>
       n \<le> step_bound (su_nworkers u) (length (stdin (m_env s0)) + 1) \<and>
       (\<exists>m es' s'. ring_steps u s0 m (es @ es') s' \<and> \<not> (\<exists>es'' s''. ring_step u s' es'' s'') \<and>
         (m_pc s' = MDone \<or> (\<exists>i < su_nworkers u. w_pc (workers s' ! i) = WExit))))"
proof (intro conjI impI)
  show "n \<le> step_bound (su_nworkers u) (length (published es))"
    by (rule ring_steps_bounded [OF assms(2,1) order_refl])
  assume manual: "su_mutator u = Manual"
  show "n \<le> step_bound (su_nworkers u) (length (stdin (m_env s0)) + 1)"
    by (rule manual_bounded [OF assms(2,1) manual])
  from manual_end [OF assms(2,1) manual] obtain m es' s' where
    m: "ring_steps u s0 m (es @ es') s'" "\<not> can_step u s'" by blast
  from ring.run_inv [OF ring_steps_run [OF m(1)] assms(1)] stuck_cases m(2)
  have "m_pc s' = MDone \<or> (\<exists>i < su_nworkers u. w_pc (workers s' ! i) = WExit)"
    by blast
  then show "\<exists>m es' s'. ring_steps u s0 m (es @ es') s' \<and> \<not> (\<exists>es'' s''. ring_step u s' es'' s'') \<and>
      (m_pc s' = MDone \<or> (\<exists>i < su_nworkers u. w_pc (workers s' ! i) = WExit))"
    using m by (auto simp: can_step_iff)
qed

theorem ring_runs_are_bounded_witness:
  "\<exists>n es s. ring_steps demo demo_start n es s \<and> m_pc s = MDone \<and> n \<le> step_bound 1 4"
proof -
  obtain es s where run: "ring_run demo demo_start es s" "m_pc s = MDone"
    using complete_run by blast
  obtain n where n: "ring_steps demo demo_start n es s"
    using run_ring_steps [OF run(1)] by blast
  have "stdin (m_env demo_start) = manual_lines [[0x90]]"
    by (simp add: demo_start_def ring_start_def)
  moreover have "length (manual_lines [[0x90]]) = 3"
    by code_simp
  ultimately show ?thesis
    using ring_runs_are_bounded [OF demo_initial n] n run(2) by (auto simp: demo_def)
qed

end
