(* ===== verification/Worker_Process.thy ===== *)
theory Worker_Process
  imports Prelude
begin

text \<open>
  The two ends of a worker process (src/mishegos/mishegos.c: \<open>worker\<close> before and after its loop) and
  the constructors and destructors of the C workers (src/worker/*). What the dynamic linker finds in
  a shared object and what the libraries return are parameters; the static variables of a worker
  are a value that the constructor makes and the destructor disposes of.
\<close>

section \<open>\<open>worker\<close>\<close>

text \<open>\<open>errx\<close> ends the process with a status and a message.\<close>

datatype 'g ctor_outcome = Constructed 'g | Exits int string

record 'g shared_object =
  so_opens :: bool
  so_ctor :: "('g \<Rightarrow> 'g ctor_outcome) option"
  so_dtor :: "('g \<Rightarrow> 'g) option"
  so_worker_name :: "string option"

text \<open>
  How far \<open>worker\<close> gets before its loop. A library that cannot be opened is reported and the function
  returns; the symbol \<open>worker_name\<close> is dereferenced without a check.
\<close>

datatype 'g begun = Not_Opened | Segfault | Exited int string | Begun 'g

definition worker_begin :: "'g shared_object \<Rightarrow> 'g \<Rightarrow> 'g begun" where
  "worker_begin so g =
     (if \<not> so_opens so then Not_Opened
      else case so_worker_name so of None \<Rightarrow> Segfault
      | Some name \<Rightarrow>
          (case so_ctor so of None \<Rightarrow> Begun g
           | Some worker_ctor \<Rightarrow>
               (case worker_ctor g of Constructed g \<Rightarrow> Begun g | Exits st m \<Rightarrow> Exited st m)))"

definition worker_end :: "'g shared_object \<Rightarrow> 'g \<Rightarrow> 'g" where
  "worker_end so g = (case so_dtor so of None \<Rightarrow> g | Some worker_dtor \<Rightarrow> worker_dtor g)"

definition begins :: "'g shared_object \<Rightarrow> 'g \<Rightarrow> bool" where
  "begins so g \<longleftrightarrow> (case worker_begin so g of Begun g \<Rightarrow> True | _ \<Rightarrow> False)"

section \<open>The C workers\<close>

record 'd bfd_start =
  bfd_arch_i386 :: nat
  bfd_mach_x86_64 :: nat
  disassembler :: "nat \<Rightarrow> bool \<Rightarrow> nat \<Rightarrow> 'd option"

definition init_dis :: "'d bfd_start \<Rightarrow> 'd option \<Rightarrow> 'd option ctor_outcome" where
  "init_dis lib disasm =
     (let disasm = disassembler lib (bfd_arch_i386 lib) False (bfd_mach_x86_64 lib) in
      if disasm = None then Exits 1 ''disassembler creation failed'' else Constructed disasm)"

definition bfd_so :: "'d bfd_start \<Rightarrow> 'd option shared_object" where
  "bfd_so lib = \<lparr>so_opens = True, so_ctor = Some (init_dis lib), so_dtor = None, so_worker_name = Some ''bfd''\<rparr>"

record ('h, 'c) capstone_start =
  CS_ARCH_X86 :: nat
  CS_MODE_64 :: nat
  CS_ERR_OK :: nat
  cs_open :: "nat \<Rightarrow> nat \<Rightarrow> 'c \<Rightarrow> nat \<times> 'h \<times> 'c"
  cs_close :: "'h \<Rightarrow> 'c \<Rightarrow> 'c"

definition capstone_ctor :: "('h, 'c) capstone_start \<Rightarrow> 'h \<times> 'c \<Rightarrow> ('h \<times> 'c) ctor_outcome" where
  "capstone_ctor lib g =
     (case cs_open lib (CS_ARCH_X86 lib) (CS_MODE_64 lib) (snd g) of (err, g) \<Rightarrow>
        if err \<noteq> CS_ERR_OK lib then Exits 1 ''cs_open'' else Constructed g)"

definition capstone_dtor :: "('h, 'c) capstone_start \<Rightarrow> 'h \<times> 'c \<Rightarrow> 'h \<times> 'c" where
  "capstone_dtor lib g = (fst g, cs_close lib (fst g) (snd g))"

definition capstone_so :: "('h, 'c) capstone_start \<Rightarrow> ('h \<times> 'c) shared_object" where
  "capstone_so lib = \<lparr>so_opens = True, so_ctor = Some (capstone_ctor lib), so_dtor = Some (capstone_dtor lib),
     so_worker_name = Some ''capstone''\<rparr>"

record ('d, 'c) llvm_start =
  LLVMInitializeX86TargetInfo :: "'c \<Rightarrow> 'c"
  LLVMInitializeX86Target :: "'c \<Rightarrow> 'c"
  LLVMInitializeX86TargetMC :: "'c \<Rightarrow> 'c"
  LLVMInitializeX86Disassembler :: "'c \<Rightarrow> 'c"
  LLVMCreateDisasm :: "string \<Rightarrow> 'c \<Rightarrow> 'd option \<times> 'c"
  Option_PrintImmHex :: "64 word"
  Option_AsmPrinterVariant :: "64 word"
  LLVMSetDisasmOptions :: "'d \<Rightarrow> 64 word \<Rightarrow> 'c \<Rightarrow> 'c"
  LLVMDisasmDispose :: "'d option \<Rightarrow> 'c \<Rightarrow> 'c"

definition llvm_ctor :: "('d, 'c) llvm_start \<Rightarrow> 'd option \<times> 'c \<Rightarrow> ('d option \<times> 'c) ctor_outcome" where
  "llvm_ctor lib g =
     (let c = LLVMInitializeX86TargetInfo lib (snd g);
          c = LLVMInitializeX86Target lib c;
          c = LLVMInitializeX86TargetMC lib c;
          c = LLVMInitializeX86Disassembler lib c
      in case LLVMCreateDisasm lib ''x86_64-linux-gnu'' c of
           (None, c) \<Rightarrow> Exits 1 ''LLVMCreateDisasm''
         | (Some dis, c) \<Rightarrow> Constructed (Some dis, LLVMSetDisasmOptions lib dis
             (or (Option_PrintImmHex lib) (Option_AsmPrinterVariant lib)) c))"

definition llvm_dtor :: "('d, 'c) llvm_start \<Rightarrow> 'd option \<times> 'c \<Rightarrow> 'd option \<times> 'c" where
  "llvm_dtor lib g = (fst g, LLVMDisasmDispose lib (fst g) (snd g))"

definition llvm_so :: "('d, 'c) llvm_start \<Rightarrow> ('d option \<times> 'c) shared_object" where
  "llvm_so lib = \<lparr>so_opens = True, so_ctor = Some (llvm_ctor lib), so_dtor = Some (llvm_dtor lib),
     so_worker_name = Some ''llvm''\<rparr>"

definition xed_so :: "('c \<Rightarrow> 'c) \<Rightarrow> 'c shared_object" where
  "xed_so xed_tables_init = \<lparr>so_opens = True, so_ctor = Some (\<lambda>c. Constructed (xed_tables_init c)), so_dtor = None,
     so_worker_name = Some ''xed''\<rparr>"

text \<open>The decoder for 64-bit mode with a 64-bit stack, and the formatter for Intel syntax.\<close>

definition zydis_so :: "'d \<Rightarrow> 'f \<Rightarrow> ('d \<times> 'f) shared_object" where
  "zydis_so decoder_init formatter_init = \<lparr>so_opens = True,
     so_ctor = Some (\<lambda>_. Constructed (decoder_init, formatter_init)), so_dtor = None, so_worker_name = Some ''zydis''\<rparr>"

definition dynamorio_so :: "('c \<Rightarrow> 'c) \<Rightarrow> 'c shared_object" where
  "dynamorio_so disassemble_set_syntax = \<lparr>so_opens = True,
     so_ctor = Some (\<lambda>c. Constructed (disassemble_set_syntax c)), so_dtor = None, so_worker_name = Some ''dynamorio''\<rparr>"

text \<open>fadec and bddisasm have neither constructor nor destructor.\<close>

definition plain_so :: "string \<Rightarrow> unit shared_object" where
  "plain_so name = \<lparr>so_opens = True, so_ctor = None, so_dtor = None, so_worker_name = Some name\<rparr>"

section \<open>Which workers begin\<close>

lemmas so_defs = begins_def worker_begin_def bfd_so_def capstone_so_def llvm_so_def xed_so_def zydis_so_def
  dynamorio_so_def plain_so_def init_dis_def capstone_ctor_def llvm_ctor_def

lemma bfd_begins:
  "begins (bfd_so lib) g \<longleftrightarrow> disassembler lib (bfd_arch_i386 lib) False (bfd_mach_x86_64 lib) \<noteq> None"
  by (auto simp: so_defs Let_def)

lemma capstone_begins:
  "begins (capstone_so lib) g \<longleftrightarrow> fst (cs_open lib (CS_ARCH_X86 lib) (CS_MODE_64 lib) (snd g)) = CS_ERR_OK lib"
  by (auto simp: so_defs split: prod.split)

lemma always_begin: "begins (xed_so f) c" "begins (zydis_so d m) x" "begins (dynamorio_so h) c" "begins (plain_so n) ()"
  by (simp_all add: so_defs)

end
