(* ===== verification/Ring_Stall.thy ===== *)
theory Ring_Stall
  imports Ring_Bound Worker_Process
begin

text \<open>
  What becomes of the ring when a worker fails to start: its library cannot be opened, or its
  constructor ends the process. The signal handler ignores a worker that died outside decoding, so
  nobody decodes for it; the main loop fills its sixteen chunks and waits forever.
\<close>

section \<open>Workers that do not start\<close>

text \<open>A worker whose process ends before its first access to the ring.\<close>

definition start_fails :: "nat \<Rightarrow> ring \<Rightarrow> ring option" where
  "start_fails i s =
     (if w_pc (workers s ! i) = WWait then Some (upd_worker i (\<lambda>w. w\<lparr>w_pc := WDead\<rparr>) s) else None)"

inductive launch_step :: "fuzz_config \<Rightarrow> (nat \<Rightarrow> bool) \<Rightarrow> ring \<Rightarrow> event list \<Rightarrow> ring \<Rightarrow> bool" for u starts where
  main: "main_step u s = Some (s', es) \<Longrightarrow> launch_step u starts s es s'"
| work: "i < su_nworkers u \<Longrightarrow> starts i \<Longrightarrow> worker_step u i s = Some s' \<Longrightarrow> launch_step u starts s [] s'"
| fails: "i < su_nworkers u \<Longrightarrow> \<not> starts i \<Longrightarrow> start_fails i s = Some s' \<Longrightarrow> launch_step u starts s [] s'"
| signal: "i < su_nworkers u \<Longrightarrow> sigchld_handler i s = Some s' \<Longrightarrow> launch_step u starts s [] s'"

inductive_cases launch_stepE: "launch_step u starts s es s'"

inductive launch_steps :: "fuzz_config \<Rightarrow> (nat \<Rightarrow> bool) \<Rightarrow> ring \<Rightarrow> nat \<Rightarrow> event list \<Rightarrow> ring \<Rightarrow> bool"
  for u starts s0 where
  no_step: "launch_steps u starts s0 0 [] s0"
| one_more: "launch_steps u starts s0 n es s \<Longrightarrow> launch_step u starts s es' s' \<Longrightarrow>
    launch_steps u starts s0 (Suc n) (es @ es') s'"

section \<open>The ring with the others\<close>

text \<open>As far as the others can see, a worker that did not start is one that has not moved yet.\<close>

definition asleep :: "(nat \<Rightarrow> bool) \<Rightarrow> nat \<Rightarrow> worker \<Rightarrow> worker" where
  "asleep starts i w = (if starts i then w else w\<lparr>w_pc := WWait\<rparr>)"

definition revive :: "(nat \<Rightarrow> bool) \<Rightarrow> ring \<Rightarrow> ring" where
  "revive starts s = s\<lparr>workers := map (\<lambda>i. asleep starts i (workers s ! i)) [0..<length (workers s)]\<rparr>"

lemma asleep_simps [simp]:
  "sigchld (asleep starts i w) = sigchld w" "start_idx (asleep starts i w) = start_idx w"
  "out_chunks (asleep starts i w) = out_chunks w" "starts i \<Longrightarrow> asleep starts i w = w"
  "\<not> starts i \<Longrightarrow> w_pc (asleep starts i w) = WWait"
  by (simp_all add: asleep_def)

lemma revive_simps [simp]:
  "length (workers (revive starts s)) = length (workers s)"
  "i < length (workers s) \<Longrightarrow> workers (revive starts s) ! i = asleep starts i (workers s ! i)"
  "chunks (revive starts s) = chunks s" "m_pc (revive starts s) = m_pc s" "m_gen (revive starts s) = m_gen s"
  "m_idx (revive starts s) = m_idx s" "m_exit_idx (revive starts s) = m_exit_idx s" "m_env (revive starts s) = m_env s"
  "turn (revive starts s) = turn s"
  by (simp_all add: revive_def turn_def)

lemma workers_upd_chunk: "workers (upd_chunk c f s) = workers s"
  by (simp add: upd_chunk_def)

lemma revive_chunk: "revive starts (upd_chunk c f s) = upd_chunk c f (revive starts s)"
  by (simp add: revive_def upd_chunk_def)

lemma revive_worker:
  assumes "i < length (workers s)" and "starts i"
  shows "revive starts (upd_worker i f s) = upd_worker i f (revive starts s)"
proof -
  have "workers (revive starts (upd_worker i f s)) = workers (upd_worker i f (revive starts s))"
    using assms by (intro nth_equalityI) (auto simp: upd_worker_def revive_def nth_list_update)
  then show ?thesis
    by (simp add: revive_def upd_worker_def)
qed

lemma revive_asleep:
  assumes "i < length (workers s)" and "\<not> starts i" and "\<And>w. (f w)\<lparr>w_pc := WWait\<rparr> = w\<lparr>w_pc := WWait\<rparr>"
  shows "revive starts (upd_worker i f s) = revive starts s"
proof -
  have "workers (revive starts (upd_worker i f s)) = workers (revive starts s)"
    using assms by (intro nth_equalityI) (auto simp: upd_worker_def asleep_def nth_list_update)
  then show ?thesis
    by (simp add: revive_def upd_worker_def)
qed

lemma revive_pc: "revive starts (s\<lparr>m_pc := p\<rparr>) = (revive starts s)\<lparr>m_pc := p\<rparr>"
  by (simp add: revive_def)

lemma revive_outputs:
  "map (\<lambda>w. outputs (out_chunks w ! c) ! k) (workers (revive starts s)) = map (\<lambda>w. outputs (out_chunks w ! c) ! k) (workers s)"
  by (rule nth_equalityI) simp_all

text \<open>The steps of the others are steps of the revived ring.\<close>

lemma main_revive:
  assumes "main_step u s = Some (s', es)" and "length (workers s) = su_nworkers u"
    and "\<forall>i < su_nworkers u. \<not> starts i \<longrightarrow> \<not> sigchld (workers s ! i)"
  shows "main_step u (revive starts s) = Some (revive starts s', es)"
proof (cases "m_pc s")
  case (MScan i r)
  show ?thesis
  proof (cases "i < su_nworkers u \<and> sigchld (workers s ! i)")
    case True
    then show ?thesis
      using assms MScan
      by (auto simp: main_step_def Let_def revive_chunk revive_worker revive_pc workers_upd_chunk)
  next
    case False
    then show ?thesis
      using assms MScan by (auto simp: main_step_def Let_def revive_pc split: if_splits)
  qed
next
  case (MProcess i)
  then show ?thesis
    using assms by (auto simp: main_step_def Let_def revive_pc revive_outputs split: if_splits)
next
  case MFill
  then show ?thesis
    using assms by (auto simp: main_step_def Let_def revive_def upd_chunk_def split: Option.bind_splits)
qed (use assms in \<open>auto simp: main_step_def Let_def revive_def upd_chunk_def split: if_splits\<close>)

lemma worker_revive:
  assumes "worker_step u i s = Some s'" and "i < length (workers s)" and "starts i"
  shows "worker_step u i (revive starts s) = Some (revive starts s')"
  using assms
  by (cases "w_pc (workers s ! i)")
    (auto simp: worker_step_def Let_def revive_worker revive_chunk workers_upd_chunk split: if_splits prod.splits)

lemma signal_revive:
  assumes "sigchld_handler i s = Some s'" and "i < length (workers s)" and "starts i"
  shows "sigchld_handler i (revive starts s) = Some (revive starts s')"
  using assms
  by (auto simp: sigchld_handler_def Let_def revive_worker revive_chunk split: if_splits option.splits)

section \<open>The invariant\<close>

definition idle_worker :: "worker \<Rightarrow> bool" where
  "idle_worker w \<longleftrightarrow> \<not> sigchld w \<and> w_pc w \<in> {WWait, WDead, WReaped} \<and>
     (\<forall>c < 16. remaining (out_chunks w ! c) = 0)"

definition launch_inv :: "fuzz_config \<Rightarrow> (nat \<Rightarrow> bool) \<Rightarrow> (nat \<Rightarrow> nat) \<Rightarrow> event list \<Rightarrow> ring \<Rightarrow> bool" where
  "launch_inv u starts \<tau> es s \<longleftrightarrow> ring_inv u \<tau> es (revive starts s) \<and>
     (\<forall>j < su_nworkers u. \<not> starts j \<longrightarrow> \<tau> j = 0 \<and> idle_worker (workers s ! j))"

lemma launch_inv_length: "launch_inv u starts \<tau> es s \<Longrightarrow> length (workers s) = su_nworkers u"
  by (simp add: launch_inv_def ring_inv_def workers_ok_def)

text \<open>What the failing workers themselves can still do.\<close>

definition dying :: "worker \<Rightarrow> nat" where
  "dying w = (if w_pc w = WWait then 2 else if w_pc w = WDead then 1 else 0)"

definition launch_work :: "fuzz_config \<Rightarrow> (nat \<Rightarrow> bool) \<Rightarrow> (nat \<Rightarrow> nat) \<Rightarrow> nat \<Rightarrow> ring \<Rightarrow> nat" where
  "launch_work u starts \<tau> P s = ring_work u \<tau> P (revive starts s) +
     (\<Sum>j \<in> {j. j < su_nworkers u \<and> \<not> starts j}. dying (workers s ! j))"

lemma idle_crash_chunk: "idle_worker w \<Longrightarrow> crash_chunk w = None"
  by (simp add: crash_chunk_def idle_worker_def const_simps find_None_iff)

text \<open>A failing worker's own two steps.\<close>

lemma failing_step:
  assumes inv: "launch_inv u starts \<tau> es s" and i: "i < su_nworkers u" "\<not> starts i"
    and f: "\<And>w. idle_worker w \<Longrightarrow> idle_worker (f w)" "\<And>w. (f w)\<lparr>w_pc := WWait\<rparr> = w\<lparr>w_pc := WWait\<rparr>"
    and less: "dying (f (workers s ! i)) < dying (workers s ! i)"
  shows "launch_inv u starts \<tau> es (upd_worker i f s)"
    and "launch_work u starts \<tau> P (upd_worker i f s) < launch_work u starts \<tau> P s"
proof -
  let ?s' = "upd_worker i f s" and ?J = "{j. j < su_nworkers u \<and> \<not> starts j}"
  have len: "i < length (workers s)"
    using launch_inv_length [OF inv] i by simp
  have revive: "revive starts ?s' = revive starts s"
    using len i(2) f(2) by (intro revive_asleep)
  have other: "workers ?s' ! j = (if j = i then f (workers s ! i) else workers s ! j)" for j
    using len by (simp add: upd_worker_def)
  show "launch_inv u starts \<tau> es ?s'"
    using inv i f(1) other by (simp add: launch_inv_def revive)
  have "(\<Sum>j \<in> ?J. dying (workers ?s' ! j)) < (\<Sum>j \<in> ?J. dying (workers s ! j))"
    using i less other by (intro sum_strict_mono_ex1) auto
  then show "launch_work u starts \<tau> P ?s' < launch_work u starts \<tau> P s"
    by (simp add: launch_work_def revive)
qed

lemma main_step_same:
  assumes "main_step u s = Some (s', es)" and "\<not> sigchld (workers s ! j)"
  shows "workers s' ! j = workers s ! j"
proof -
  have "workers s' = workers s \<or> (\<exists>k. sigchld (workers s ! k) \<and> workers s' = (workers s)[k := worker_start (workers s ! k)])"
    using assms(1) by (auto simp: main_step_def Let_def upd_worker_def upd_chunk_def
        split: main_pc.splits if_splits Option.bind_splits)
  then show ?thesis
    using assms(2) by (metis nth_list_update_neq)
qed

lemma launch_step_inv:
  assumes inv: "launch_inv u starts \<tau> es s" and step: "launch_step u starts s es' s'"
    and P: "length (published (es @ es')) \<le> P"
  shows "\<exists>\<tau>'. launch_inv u starts \<tau>' (es @ es') s' \<and> launch_work u starts \<tau>' P s' < launch_work u starts \<tau> P s"
proof -
  have ring: "ring_inv u \<tau> es (revive starts s)" and idle: "\<And>j. j < su_nworkers u \<Longrightarrow> \<not> starts j \<Longrightarrow> \<tau> j = 0 \<and> idle_worker (workers s ! j)"
    using inv by (auto simp: launch_inv_def)
  have N: "length (workers s) = su_nworkers u"
    by (rule launch_inv_length [OF inv])
  have P': "length (published es) \<le> P"
    using P by simp
  from step show ?thesis
  proof (rule launch_stepE)
    assume m: "main_step u s = Some (s', es')"
    have rm: "main_step u (revive starts s) = Some (revive starts s', es')"
      using idle by (intro main_revive [OF m N]) (auto simp: idle_worker_def)
    have same: "workers s' ! j = workers s ! j" if "j < su_nworkers u" "\<not> starts j" for j
      using main_step_same [OF m] idle [OF that] by (simp add: idle_worker_def)
    then have "launch_inv u starts \<tau> (es @ es') s'"
      using main_step_inv [OF ring rm] idle by (auto simp: launch_inv_def)
    moreover have "launch_work u starts \<tau> P s' < launch_work u starts \<tau> P s"
      using main_step_work [OF ring rm P'] same by (simp add: launch_work_def)
    ultimately show ?thesis
      by blast
  next
    fix i
    assume i: "es' = []" "i < su_nworkers u" "starts i" and w: "worker_step u i s = Some s'"
    have rw: "worker_step u i (revive starts s) = Some (revive starts s')"
      using worker_revive [OF w] i N by simp
    obtain \<tau>' where \<tau>': "ring_inv u \<tau>' es (revive starts s')" "\<forall>k. k \<noteq> i \<longrightarrow> \<tau>' k = \<tau> k"
      "worker_work P (\<tau>' i) (workers (revive starts s') ! i) < worker_work P (\<tau> i) (workers (revive starts s) ! i)"
      using worker_step_work [OF ring _ rw P'] i N by auto
    have same: "workers s' ! j = workers s ! j" if "\<not> starts j" for j
      using worker_step_others [OF w] i(3) that by (auto simp: others_same_def)
    have "\<tau>' j = 0" if "j < su_nworkers u" "\<not> starts j" for j
      using \<tau>'(2) idle [OF that] that(2) i(3) by metis
    then have "launch_inv u starts \<tau>' es s'"
      using \<tau>'(1) idle same by (auto simp: launch_inv_def)
    moreover have "ring_work u \<tau>' P (revive starts s') < ring_work u \<tau> P (revive starts s)"
      using worker_step_others [OF rw] \<tau>'(2,3) i(2) by (intro ring_work_worker [of i]) (auto simp: main_work_def)
    then have "launch_work u starts \<tau>' P s' < launch_work u starts \<tau> P s"
      using same by (simp add: launch_work_def)
    ultimately show ?thesis
      using i(1) by auto
  next
    fix i
    assume i: "es' = []" "i < su_nworkers u" "\<not> starts i" and f: "start_fails i s = Some s'"
    then have "w_pc (workers s ! i) = WWait" "s' = upd_worker i (\<lambda>w. w\<lparr>w_pc := WDead\<rparr>) s"
      by (auto simp: start_fails_def split: if_splits)
    then show ?thesis
      using failing_step [OF inv i(2,3), of "\<lambda>w. w\<lparr>w_pc := WDead\<rparr>"] i(1)
      by (auto simp: idle_worker_def dying_def)
  next
    fix i
    assume i: "es' = []" "i < su_nworkers u" and h: "sigchld_handler i s = Some s'"
    show ?thesis
    proof (cases "starts i")
      case True
      have rh: "sigchld_handler i (revive starts s) = Some (revive starts s')"
        using signal_revive [OF h] i True N by simp
      note sig = signal_step_work [OF ring _ rh, of P]
      have "others_same i s s'"
        using h by (auto simp: sigchld_handler_def Let_def split: if_splits option.splits)
      then have same: "workers s' ! j = workers s ! j" if "\<not> starts j" for j
        using that True by (auto simp: others_same_def)
      have "launch_inv u starts \<tau> es s'"
        using sig i N idle same by (auto simp: launch_inv_def)
      moreover have "ring_work u \<tau> P (revive starts s') < ring_work u \<tau> P (revive starts s)"
        using sig i N by (intro ring_work_worker [of i]) (auto simp: main_work_def)
      then have "launch_work u starts \<tau> P s' < launch_work u starts \<tau> P s"
        using same by (simp add: launch_work_def)
      ultimately show ?thesis
        using i(1) by auto
    next
      case False
      have "crash_chunk (workers s ! i) = None"
        using idle [OF i(2) False] by (simp add: idle_crash_chunk)
      then have "w_pc (workers s ! i) = WDead" "s' = upd_worker i (\<lambda>w. w\<lparr>w_pc := WReaped\<rparr>) s"
        using h by (auto simp: sigchld_handler_def Let_def split: if_splits)
      then show ?thesis
        using failing_step [OF inv i(2) False, of "\<lambda>w. w\<lparr>w_pc := WReaped\<rparr>"] i(1)
        by (auto simp: idle_worker_def dying_def)
    qed
  qed
qed

text \<open>Runs.\<close>

lemma launch_start:
  assumes "ring_initial u s0"
  shows "launch_inv u starts (\<lambda>_. 0) [] s0"
    and "launch_work u starts (\<lambda>_. 0) P s0 \<le> step_bound (su_nworkers u) P + 2 * su_nworkers u"
proof -
  have ring: "ring_inv u (\<lambda>_. 0) [] s0"
    by (rule ring_inv_start [OF assms])
  have N: "length (workers s0) = su_nworkers u"
    using ring by (simp add: ring_inv_def workers_ok_def)
  have idle: "w_pc (workers s0 ! i) = WWait \<and> idle_worker (workers s0 ! i)" if "i < su_nworkers u" for i
    using worker_okD [OF ring_inv_worker [OF ring, of i]] ring_inv_worker [OF ring, of i] that N
    by (auto simp: worker_ok_def idle_worker_def)
  have "workers (revive starts s0) = workers s0"
    using N idle by (intro nth_equalityI) (auto simp: asleep_def)
  then have revive: "revive starts s0 = s0"
    by (simp add: revive_def)
  show "launch_inv u starts (\<lambda>_. 0) [] s0"
    using ring idle by (simp add: launch_inv_def revive)
  have "(\<Sum>j \<in> {j. j < su_nworkers u \<and> \<not> starts j}. dying (workers s0 ! j)) \<le>
      (\<Sum>j \<in> {j. j < su_nworkers u \<and> \<not> starts j}. 2)"
    by (intro sum_mono) (simp add: dying_def)
  also have "\<dots> = 2 * card {j. j < su_nworkers u \<and> \<not> starts j}"
    by simp
  also have "\<dots> \<le> 2 * su_nworkers u"
    using card_mono [of "{..<su_nworkers u}" "{j. j < su_nworkers u \<and> \<not> starts j}"] by auto
  finally show "launch_work u starts (\<lambda>_. 0) P s0 \<le> step_bound (su_nworkers u) P + 2 * su_nworkers u"
    using ring_work_start [OF assms, of P] by (simp add: launch_work_def revive)
qed

lemma launch_steps_work:
  "launch_steps u starts s0 n es s \<Longrightarrow> ring_initial u s0 \<Longrightarrow> length (published es) \<le> P \<Longrightarrow>
   \<exists>\<tau>. launch_inv u starts \<tau> es s \<and> n + launch_work u starts \<tau> P s \<le> launch_work u starts (\<lambda>_. 0) P s0"
proof (induction rule: launch_steps.induct)
  case no_step
  then show ?case
    using launch_start(1) by (intro exI [of _ "\<lambda>_. 0"]) simp
next
  case (one_more n es s es' s')
  then obtain \<tau> where \<tau>: "launch_inv u starts \<tau> es s"
      "n + launch_work u starts \<tau> P s \<le> launch_work u starts (\<lambda>_. 0) P s0"
    by auto
  from launch_step_inv [OF \<tau>(1) one_more.hyps(2) one_more.prems(2)] \<tau>(2) show ?case
    by force
qed

text \<open>With a worker at turn 0 forever, the main loop does not get past the wait of its seventeenth turn.\<close>

lemma launch_stays:
  assumes inv: "launch_inv u starts \<tau> es s" and j: "j < su_nworkers u" "\<not> starts j"
  shows "processed es = []" and "m_pc s \<noteq> MDone" and "length (published es) \<le> 16" and "turn s \<le> 16"
proof -
  let ?s = "revive starts s"
  have ring: "ring_inv u \<tau> es ?s" and \<tau>: "\<tau> j = 0"
    using inv j by (auto simp: launch_inv_def)
  note parts = ring_invD [OF ring]
  have N: "length (workers s) = su_nworkers u"
    by (rule launch_inv_length [OF inv])
  have "w_pc (workers ?s ! j) = WWait"
    using j N by simp
  then have "\<not> done_with \<tau> (workers ?s) j 0"
    using \<tau> by (simp add: done_with_def)
  then have early: "length (published es) = 0 \<or> turn s < 16 \<or> turn s = 16 \<and> waiting_pc (m_pc s)"
    using parts(8) j N by (fastforce simp: cleared_ok_def)
  have turns: "length (published es) \<le> turn s + (if m_pc s = MAdvance then 1 else 0)"
      "turn s \<le> length (published es) + (if m_pc s = MAdvance then 14 else 15)"
      "m_pc s = MDone \<longrightarrow> turn s = length (published es) + 15 \<and> 0 < length (published es)"
    using parts(7) by (auto simp: turns_ok_def)
  have wait: "\<not> waiting_pc MAdvance" "\<not> waiting_pc MDone"
    by simp_all
  have turn: "turn s < 16 \<or> turn s = 16 \<and> waiting_pc (m_pc s)"
    using early turns(2) by (auto split: if_splits)
  then show "length (published es) \<le> 16" "m_pc s \<noteq> MDone" "turn s \<le> 16"
    using turns wait by (auto split: if_splits)
  have "map fst (processed es) = []"
  proof (cases "turn s < 16")
    case False
    then have "turn s = 16" "current_part (m_pc s) b = []" for b :: "input_slot list"
      using turn by (cases "m_pc s"; auto)+
    then show ?thesis
      using parts(9) by (simp add: log_ok_def)
  qed (use parts(9) in \<open>simp add: log_ok_def\<close>)
  then show "processed es = []"
    by simp
qed

lemma launch_bounded:
  assumes "launch_steps u starts s0 n es s" and "ring_initial u s0" and "j < su_nworkers u" and "\<not> starts j"
  shows "n \<le> step_bound (su_nworkers u) 16 + 2 * su_nworkers u"
proof -
  obtain \<tau> where "launch_inv u starts \<tau> es s"
    using launch_steps_work [OF assms(1,2) order_refl] by blast
  then have "length (published es) \<le> 16"
    using launch_stays(3) assms(3,4) by blast
  then show ?thesis
    using launch_steps_work [OF assms(1,2), of 16] launch_start(2) [OF assms(2), of starts 16] by fastforce
qed

lemma launch_stuck:
  assumes "launch_inv u starts \<tau> es s" and "j < su_nworkers u" and "\<not> starts j"
    and "\<And>es' s'. \<not> launch_step u starts s es' s'"
  shows "m_pc s = MWait \<and> m_idx s = 0 \<and> remaining_workers (chunks s ! 0) \<noteq> 0 \<and> 1 \<le> length (published es)"
proof -
  have ring: "ring_inv u \<tau> es (revive starts s)"
    using assms(1) by (auto simp: launch_inv_def)
  note parts = ring_invD [OF ring]
  have main: "main_step u s = None"
    using assms(4) launch_step.main [of u s _ _ starts] by (cases "main_step u s") auto
  have "m_pc s \<noteq> MDone"
    by (rule launch_stays(2) [OF assms(1-3)])
  then have "main_step u (revive starts s) \<noteq> None" if "m_pc s \<noteq> MWait"
    using main_enabled [OF ring] that by simp
  then have pc: "m_pc s = MWait"
    using main by (cases "m_pc s") (auto simp: main_step_def Let_def revive_def split: if_splits Option.bind_splits)
  have left: "remaining_workers (chunks s ! m_idx s) \<noteq> 0"
    using main pc by (auto simp: main_step_def Let_def)
  have idx: "m_idx s < 16" "turn s mod 16 = m_idx s"
    using parts(1) turn_mod [of s] by (auto simp: shape_ok_def)
  have pub: "length (published es) \<le> turn s" "turn s \<le> length (published es) + 15"
    using parts(7) pc by (simp_all add: turns_ok_def)
  have "16 \<le> turn s"
  proof (rule ccontr)
    assume "\<not> 16 \<le> turn s"
    then have "length (published es) \<le> m_idx s"
      using idx pub(1) by simp
    then show False
      using parts(5) pc left idx(1) by (simp add: counts_ok_def armed_def)
  qed
  then have "turn s = 16"
    using launch_stays(4) [OF assms(1-3)] by simp
  then show ?thesis
    using pc left idx(2) pub(2) by simp
qed

section \<open>The property\<close>

lemma launch_end:
  assumes "launch_steps u starts s0 n es s" and "ring_initial u s0" and "j < su_nworkers u" and "\<not> starts j"
  shows "\<exists>m es' s'. launch_steps u starts s0 m (es @ es') s' \<and> (\<forall>es'' s''. \<not> launch_step u starts s' es'' s'')"
  using assms(1)
proof (induction "step_bound (su_nworkers u) 16 + 2 * su_nworkers u - n" arbitrary: n es s rule: less_induct)
  case less
  show ?case
  proof (cases "\<exists>es' s'. launch_step u starts s es' s'")
    case True
    then obtain es1 s1 where "launch_step u starts s es1 s1"
      by blast
    from launch_steps.one_more [OF less.prems this] have more: "launch_steps u starts s0 (Suc n) (es @ es1) s1" .
    have "\<exists>m es' s'. launch_steps u starts s0 m ((es @ es1) @ es') s' \<and> (\<forall>es'' s''. \<not> launch_step u starts s' es'' s'')"
      using launch_bounded [OF more assms(2-4)] by (intro less.hyps [OF _ more]) simp
    then show ?thesis
      unfolding append_assoc by blast
  next
    case False
    then show ?thesis
      using less.prems by (intro exI [of _ n] exI [of _ "[]"] exI [of _ s]) simp
  qed
qed

text \<open>C26: A worker that does not start stops the fuzzer. If the shared object of one worker cannot be opened
  or its constructor ends the process, then whatever the others do, no input is ever processed and
  nothing is written. After boundedly many steps of all processes together nobody can move any
  more: the main loop has published at least one and at most sixteen chunks (fewer than sixteen
  when the generator ends before), has come round to the first of them and waits for ever for the
  worker that never started to leave it.\<close>

theorem failed_start_hangs:
  assumes "ring_initial u s0" and "launch_steps u (\<lambda>i. begins (sos i) (gs i)) s0 n es s"
    and "j < su_nworkers u" and "\<not> begins (sos j) (gs j)"
  shows "processed es = [] \<and> m_pc s \<noteq> MDone \<and> n \<le> step_bound (su_nworkers u) 16 + 2 * su_nworkers u \<and>
    (\<exists>m es' s'. launch_steps u (\<lambda>i. begins (sos i) (gs i)) s0 m (es @ es') s' \<and>
       processed (es @ es') = [] \<and> length (published (es @ es')) \<in> {1..16} \<and>
       m_pc s' = MWait \<and> m_idx s' = 0 \<and> remaining_workers (chunks s' ! 0) \<noteq> 0 \<and>
       (\<forall>es'' s''. \<not> launch_step u (\<lambda>i. begins (sos i) (gs i)) s' es'' s''))"
proof -
  let ?starts = "\<lambda>i. begins (sos i) (gs i)"
  obtain \<tau> where inv: "launch_inv u ?starts \<tau> es s"
    using launch_steps_work [OF assms(2,1) order_refl] by blast
  obtain m es' s' where fin: "launch_steps u ?starts s0 m (es @ es') s'" "\<forall>es'' s''. \<not> launch_step u ?starts s' es'' s''"
    using launch_end [OF assms(2,1,3,4)] by blast
  obtain \<tau>' where inv': "launch_inv u ?starts \<tau>' (es @ es') s'"
    using launch_steps_work [OF fin(1) assms(1) order_refl] by blast
  have "m_pc s' = MWait \<and> m_idx s' = 0 \<and> remaining_workers (chunks s' ! 0) \<noteq> 0 \<and>
      1 \<le> length (published (es @ es'))"
    using launch_stuck [OF inv' assms(3)] assms(4) fin(2) by blast
  moreover have "processed (es @ es') = []" "length (published (es @ es')) \<le> 16"
    using launch_stays(1,3) [OF inv' assms(3)] assms(4) by blast+
  ultimately have end_state: "processed (es @ es') = [] \<and> length (published (es @ es')) \<in> {1..16} \<and>
      m_pc s' = MWait \<and> m_idx s' = 0 \<and> remaining_workers (chunks s' ! 0) \<noteq> 0"
    unfolding atLeastAtMost_iff by blast
  have now: "processed es = []" "m_pc s \<noteq> MDone" "n \<le> step_bound (su_nworkers u) 16 + 2 * su_nworkers u"
    using launch_stays(1,2) [OF inv assms(3)] launch_bounded [OF assms(2,1,3)] assms(4) by blast+
  have "launch_steps u ?starts s0 m (es @ es') s' \<and>
      processed (es @ es') = [] \<and> length (published (es @ es')) \<in> {1..16} \<and>
      m_pc s' = MWait \<and> m_idx s' = 0 \<and> remaining_workers (chunks s' ! 0) \<noteq> 0 \<and>
      (\<forall>es'' s''. \<not> launch_step u ?starts s' es'' s'')"
    using fin end_state by (intro conjI) (blast | assumption)+
  then show ?thesis
    using now by blast
qed

text \<open>The instance: the only worker is capstone, whose library does not open.\<close>

definition closed_capstone :: "(nat, nat) capstone_start" where
  "closed_capstone = \<lparr>CS_ARCH_X86 = 3, CS_MODE_64 = 8, CS_ERR_OK = 0, cs_open = \<lambda>a m c. (2, 0, c), cs_close = \<lambda>h c. c\<rparr>"

theorem failed_start_hangs_witness:
  "\<exists>m es s. launch_steps demo (\<lambda>i. begins (capstone_so closed_capstone) (0, 0)) demo_start m es s \<and> m_pc s = MWait \<and>
     (\<forall>es'' s''. \<not> launch_step demo (\<lambda>i. begins (capstone_so closed_capstone) (0, 0)) s es'' s'')"
proof -
  have "\<not> begins (capstone_so closed_capstone) (0, 0)"
    by (simp add: capstone_begins closed_capstone_def)
  moreover have "0 < su_nworkers demo"
    by (simp add: demo_def)
  ultimately show ?thesis
    using failed_start_hangs [where sos = "\<lambda>_. capstone_so closed_capstone" and gs = "\<lambda>_. (0, 0)" and j = 0,
        OF demo_initial [of textless] launch_steps.no_step]
    by fastforce
qed

end
