(* ===== verification/Worker_Spawn.thy ===== *)
theory Worker_Spawn
  imports Worker_Config
begin

text \<open>
  Starting a worker process (src/mishegos/mishegos.c: \<open>worker_start\<close> and the loop head of
  \<open>sigchld_handler\<close>). Parent and child synchronise with a pipe, so that the parent has stored the
  child's process id before the child can end and the signal handler look for it. Parent,
  children and handler are step functions at the granularity of system calls, in all
  interleavings; the parent may be killed at any time.
\<close>

section \<open>Processes and pipes\<close>

datatype child_pc = C_Prctl | C_CloseW | C_Read | C_CloseR | C_Worker | C_Zombie

text \<open>
  A child with its pipe: the bytes in it, and which of its four descriptors are open (the
  parent's and the child's own copies of the two ends). \<open>k_deathsig\<close> says that the kernel will
  send SIGHUP when the parent dies.
\<close>

record kid =
  k_pid :: int
  k_pc :: child_pc
  k_deathsig :: bool
  k_bytes :: nat
  k_parent_r :: bool
  k_parent_w :: bool
  k_own_r :: bool
  k_own_w :: bool

datatype parent_pc =
    P_Idle | P_Pipe nat | P_Fork nat | P_Store nat int | P_CloseR nat | P_Write nat | P_CloseW nat
  | P_Exit | P_Aborted | P_Broken_Pipe | P_Killed

record spawn_state =
  sp_workers :: "worker_config list"
  sp_kids :: "kid option list"
  sp_pc :: parent_pc

datatype spawn_event =
    Forked int
  | Reaped nat "nat option"

fun parent_gone :: "parent_pc \<Rightarrow> bool" where
  "parent_gone P_Exit = True" | "parent_gone P_Aborted = True" | "parent_gone P_Broken_Pipe = True"
| "parent_gone P_Killed = True" | "parent_gone _ = False"

definition new_kid :: "int \<Rightarrow> kid" where
  "new_kid p = \<lparr>k_pid = p, k_pc = C_Prctl, k_deathsig = False, k_bytes = 0,
     k_parent_r = True, k_parent_w = True, k_own_r = True, k_own_w = True\<rparr>"

text \<open>A process that ends closes its descriptors.\<close>

definition kid_ends :: "kid \<Rightarrow> kid" where
  "kid_ends k = k\<lparr>k_pc := C_Zombie, k_own_r := False, k_own_w := False\<rparr>"

definition orphan :: "kid \<Rightarrow> kid" where
  "orphan k = (let k = k\<lparr>k_parent_r := False, k_parent_w := False\<rparr> in
     if k_deathsig k then kid_ends k else k)"

definition parent_dies :: "parent_pc \<Rightarrow> spawn_state \<Rightarrow> spawn_state" where
  "parent_dies p s = s\<lparr>sp_pc := p, sp_kids := map (map_option orphan) (sp_kids s)\<rparr>"

definition upd_kid :: "nat \<Rightarrow> (kid \<Rightarrow> kid) \<Rightarrow> spawn_state \<Rightarrow> spawn_state" where
  "upd_kid i f s = s\<lparr>sp_kids := (sp_kids s)[i := map_option f (sp_kids s ! i)]\<rparr>"

section \<open>\<open>worker_start\<close>\<close>

text \<open>
  The parent's part; \<open>r\<close> is what the system call of the step returned. A write into a pipe that
  nobody can read any more ends the parent (SIGPIPE).
\<close>

definition parent_step :: "int \<Rightarrow> spawn_state \<Rightarrow> (spawn_state \<times> spawn_event list) option" where
  "parent_step r s =
     (case sp_pc s of
        P_Pipe i \<Rightarrow> if r < 0 then Some (parent_dies P_Exit s, []) else Some (s\<lparr>sp_pc := P_Fork i\<rparr>, [])
      | P_Fork i \<Rightarrow>
          if r < 0 then Some (parent_dies P_Exit s, [])
          else Some (s\<lparr>sp_kids := (sp_kids s)[i := Some (new_kid r)], sp_pc := P_Store i r\<rparr>, [Forked r])
      | P_Store i child \<Rightarrow>
          Some (s\<lparr>sp_workers := (sp_workers s)[i := (sp_workers s ! i)\<lparr>pid := child\<rparr>], sp_pc := P_CloseR i\<rparr>, [])
      | P_CloseR i \<Rightarrow> Some (upd_kid i (\<lambda>k. k\<lparr>k_parent_r := False\<rparr>) s\<lparr>sp_pc := P_Write i\<rparr>, [])
      | P_Write i \<Rightarrow>
          (case sp_kids s ! i of
             None \<Rightarrow> Some (parent_dies P_Broken_Pipe s, [])
           | Some k \<Rightarrow>
               if k_parent_r k \<or> k_own_r k
               then Some (upd_kid i (\<lambda>k. k\<lparr>k_bytes := k_bytes k + 1\<rparr>) s\<lparr>sp_pc := P_CloseW i\<rparr>, [])
               else Some (parent_dies P_Broken_Pipe s, []))
      | P_CloseW i \<Rightarrow> Some (upd_kid i (\<lambda>k. k\<lparr>k_parent_w := False\<rparr>) s\<lparr>sp_pc := P_Idle\<rparr>, [])
      | _ \<Rightarrow> None)"

text \<open>
  The child's part: \<open>read\<close> blocks while the pipe is empty and somebody could still write to it,
  and returns 0 when nobody can, upon which the child exits. \<open>worker\<close> may end at any time.
\<close>

definition child_run :: "kid \<Rightarrow> kid option" where
  "child_run k =
     (case k_pc k of
        C_Prctl \<Rightarrow> Some (k\<lparr>k_deathsig := True, k_pc := C_CloseW\<rparr>)
      | C_CloseW \<Rightarrow> Some (k\<lparr>k_own_w := False, k_pc := C_Read\<rparr>)
      | C_Read \<Rightarrow>
          if k_bytes k > 0 then Some (k\<lparr>k_bytes := k_bytes k - 1, k_pc := C_CloseR\<rparr>)
          else if k_parent_w k \<or> k_own_w k then None
          else Some (kid_ends k)
      | C_CloseR \<Rightarrow> Some (k\<lparr>k_own_r := False, k_pc := C_Worker\<rparr>)
      | C_Worker \<Rightarrow> Some (kid_ends k)
      | C_Zombie \<Rightarrow> None)"

definition child_step :: "nat \<Rightarrow> spawn_state \<Rightarrow> spawn_state option" where
  "child_step i s =
     (case sp_kids s ! i of None \<Rightarrow> None
      | Some k \<Rightarrow> map_option (\<lambda>k'. s\<lparr>sp_kids := (sp_kids s)[i := Some k']\<rparr>) (child_run k))"

text \<open>The handler for the dead child of worker \<open>i\<close>: \<open>waitpid\<close>, and the search for its number.\<close>

definition reap_step :: "nat \<Rightarrow> spawn_state \<Rightarrow> (spawn_state \<times> spawn_event list) option" where
  "reap_step i s =
     (case sp_kids s ! i of None \<Rightarrow> None
      | Some k \<Rightarrow>
          if k_pc k \<noteq> C_Zombie then None
          else let s = s\<lparr>sp_kids := (sp_kids s)[i := None]\<rparr> in
            (case worker_for_pid (sp_workers s) (k_pid k) of
               None \<Rightarrow> Some (parent_dies P_Aborted s, [Reaped i None])
             | Some n \<Rightarrow> Some (s, [Reaped i (Some n)])))"

text \<open>\<open>fork\<close> gives the parent a positive number no child has, or fails.\<close>

definition fork_gives :: "spawn_state \<Rightarrow> int \<Rightarrow> bool" where
  "fork_gives s r \<longleftrightarrow> r < 0 \<or> 0 < r \<and> (\<forall>k. Some k \<in> set (sp_kids s) \<longrightarrow> k_pid k \<noteq> r)"

text \<open>A worker is started when it has no process: at first and after it has been reaped.\<close>

inductive spawn_step :: "spawn_state \<Rightarrow> spawn_event list \<Rightarrow> spawn_state \<Rightarrow> bool" where
  call: "sp_pc s = P_Idle \<Longrightarrow> i < length (sp_kids s) \<Longrightarrow> sp_kids s ! i = None \<Longrightarrow>
    spawn_step s [] (s\<lparr>sp_pc := P_Pipe i\<rparr>)"
| parent: "(\<And>i. sp_pc s = P_Fork i \<Longrightarrow> fork_gives s r) \<Longrightarrow> parent_step r s = Some (s', es) \<Longrightarrow> spawn_step s es s'"
| child: "i < length (sp_kids s) \<Longrightarrow> child_step i s = Some s' \<Longrightarrow> spawn_step s [] s'"
| reap: "\<not> parent_gone (sp_pc s) \<Longrightarrow> i < length (sp_kids s) \<Longrightarrow> reap_step i s = Some (s', es) \<Longrightarrow> spawn_step s es s'"
| killed: "\<not> parent_gone (sp_pc s) \<Longrightarrow> spawn_step s [] (parent_dies P_Killed s)"

inductive_cases spawn_stepE: "spawn_step s es s'"

abbreviation spawn_run :: "spawn_state \<Rightarrow> spawn_event list \<Rightarrow> spawn_state \<Rightarrow> bool" where
  "spawn_run \<equiv> trace_run spawn_step"

definition spawn_initial :: "spawn_state \<Rightarrow> bool" where
  "spawn_initial s \<longleftrightarrow> sp_pc s = P_Idle \<and> length (sp_workers s) = MISHEGOS_MAX_NWORKERS \<and>
     sp_kids s = replicate MISHEGOS_MAX_NWORKERS None \<and> (\<forall>w \<in> set (sp_workers s). pid w = 0)"

primrec forked :: "spawn_event list \<Rightarrow> int list" where
  "forked [] = []"
| "forked (e # es) = (case e of Forked p \<Rightarrow> p # forked es | Reaped _ _ \<Rightarrow> forked es)"

lemma forked_append [simp]: "forked (es @ es') = forked es @ forked es'"
  by (induction es) (auto split: spawn_event.split)

section \<open>The invariant\<close>

text \<open>The worker the parent is starting, from \<open>fork\<close> to the end.\<close>

fun starting :: "parent_pc \<Rightarrow> nat option" where
  "starting (P_Store i p) = Some i" | "starting (P_CloseR i) = Some i" | "starting (P_Write i) = Some i"
| "starting (P_CloseW i) = Some i" | "starting _ = None"

fun before_write :: "parent_pc \<Rightarrow> nat option" where
  "before_write (P_Store i p) = Some i" | "before_write (P_CloseR i) = Some i" | "before_write (P_Write i) = Some i"
| "before_write _ = None"

definition early :: "child_pc \<Rightarrow> bool" where
  "early p \<longleftrightarrow> p \<in> {C_Prctl, C_CloseW, C_Read}"

text \<open>A child by itself: its descriptors, and that it waits with an empty pipe or has taken the one byte.\<close>

definition kid_ok :: "kid \<Rightarrow> bool" where
  "kid_ok k \<longleftrightarrow> (k_own_w k \<longleftrightarrow> k_pc k \<in> {C_Prctl, C_CloseW}) \<and>
     (k_own_r k \<longleftrightarrow> k_pc k \<in> {C_Prctl, C_CloseW, C_Read, C_CloseR})"

text \<open>A child of a living parent: before the byte is written it has not run, afterwards it will.\<close>

definition kid_fed :: "parent_pc \<Rightarrow> nat \<Rightarrow> kid \<Rightarrow> bool" where
  "kid_fed p i k \<longleftrightarrow> (k_parent_w k \<longleftrightarrow> starting p = Some i) \<and>
     (if before_write p = Some i then k_bytes k = 0 \<and> early (k_pc k) else early (k_pc k) \<longrightarrow> k_bytes k = 1)"

text \<open>
  The table holds process ids of children, each once. A child's id is in its entry, except before it
  has been stored, and for good if the parent died before that: then the child will not run.
\<close>

definition table_ok :: "int list \<Rightarrow> worker_config list \<Rightarrow> bool" where
  "table_ok ps ws \<longleftrightarrow> (\<forall>p \<in> set ps. 0 < p) \<and> (\<forall>i < length ws. pid (ws ! i) \<in> insert 0 (set ps)) \<and>
     (\<forall>i < length ws. \<forall>j < length ws. pid (ws ! i) = pid (ws ! j) \<longrightarrow> pid (ws ! i) \<noteq> 0 \<longrightarrow> i = j)"

fun storing :: "parent_pc \<Rightarrow> (nat \<times> int) option" where
  "storing (P_Store i p) = Some (i, p)" | "storing _ = None"

definition kid_known :: "int list \<Rightarrow> worker_config list \<Rightarrow> parent_pc \<Rightarrow> nat \<Rightarrow> kid \<Rightarrow> bool" where
  "kid_known ps ws p i k \<longleftrightarrow> k_pid k \<in> set ps \<and>
     (case storing p of
        Some (j, c) \<Rightarrow> if j = i then c = k_pid k \<and> c \<notin> pid ` set ws else pid (ws ! i) = k_pid k
      | None \<Rightarrow> pid (ws ! i) = k_pid k \<or> parent_gone p \<and> k_bytes k = 0 \<and> k_pc k \<notin> {C_CloseR, C_Worker})"

definition pids_ok :: "int list \<Rightarrow> spawn_state \<Rightarrow> bool" where
  "pids_ok ps s \<longleftrightarrow> table_ok ps (sp_workers s) \<and>
     (\<forall>i k. i < length (sp_kids s) \<longrightarrow> sp_kids s ! i = Some k \<longrightarrow> kid_known ps (sp_workers s) (sp_pc s) i k)"

definition kids_ok :: "spawn_state \<Rightarrow> bool" where
  "kids_ok s \<longleftrightarrow> length (sp_kids s) = length (sp_workers s) \<and>
     (\<forall>i < length (sp_kids s). \<forall>k. sp_kids s ! i = Some k \<longrightarrow> kid_ok k \<and>
        (if parent_gone (sp_pc s) then \<not> k_parent_w k else kid_fed (sp_pc s) i k)) \<and>
     (\<forall>i. sp_pc s = P_Pipe i \<or> sp_pc s = P_Fork i \<longrightarrow> i < length (sp_kids s) \<and> sp_kids s ! i = None) \<and>
     (\<forall>i. starting (sp_pc s) = Some i \<longrightarrow> i < length (sp_kids s)) \<and>
     (\<forall>i. before_write (sp_pc s) = Some i \<longrightarrow> sp_kids s ! i \<noteq> None)"


definition spawn_inv :: "spawn_event list \<Rightarrow> spawn_state \<Rightarrow> bool" where
  "spawn_inv es s \<longleftrightarrow> (distinct (forked es) \<longrightarrow> kids_ok s \<and> pids_ok (forked es) s \<and>
     sp_pc s \<notin> {P_Aborted, P_Broken_Pipe} \<and> (\<forall>i n. Reaped i n \<in> set es \<longrightarrow> n = Some i))"

lemma worker_for_pid_from_found:
  "j < length ws \<Longrightarrow> pid (ws ! j) = p \<Longrightarrow> \<forall>k < j. pid (ws ! k) \<noteq> p \<Longrightarrow> worker_for_pid_from i ws p = Some (i + j)"
proof (induction ws arbitrary: i j)
  case (Cons w ws)
  show ?case
  proof (cases j)
    case 0
    then show ?thesis
      using Cons.prems by simp
  next
    case (Suc m)
    have "pid w \<noteq> p"
      using Cons.prems(3) Suc nth_Cons_0 [of w ws] zero_less_Suc [of m] by metis
    moreover have "\<forall>k < m. pid (ws ! k) \<noteq> p"
      using Cons.prems(3) Suc nth_Cons_Suc [of w ws] Suc_mono by metis
    then have "worker_for_pid_from (i + 1) ws p = Some (i + 1 + m)"
      using Cons.prems Suc by (intro Cons.IH) auto
    ultimately show ?thesis
      using Suc by simp
  qed
qed simp

lemma worker_for_pid_found:
  assumes "table_ok ps ws" and "j < length ws" and "0 < pid (ws ! j)"
  shows "worker_for_pid ws (pid (ws ! j)) = Some j"
proof -
  have "k = j" if "k < length ws" "pid (ws ! k) = pid (ws ! j)" for k
    using assms that unfolding table_ok_def by (metis less_irrefl)
  then have "\<forall>k < j. pid (ws ! k) \<noteq> pid (ws ! j)"
    using assms(2) by (metis order.strict_trans less_irrefl)
  then show ?thesis
    using worker_for_pid_from_found [OF assms(2) refl, of 0] by (simp add: worker_for_pid_def)
qed

lemma orphan_simps [simp]:
  "k_pid (orphan k) = k_pid k" "k_bytes (orphan k) = k_bytes k" "\<not> k_parent_w (orphan k)"
  "k_pc (orphan k) = (if k_deathsig k then C_Zombie else k_pc k)"
  by (simp_all add: orphan_def kid_ends_def Let_def)

lemma kid_ok_orphan: "kid_ok k \<Longrightarrow> kid_ok (orphan k)"
  by (auto simp: kid_ok_def orphan_def kid_ends_def Let_def)

lemma kids_okD:
  assumes "kids_ok s" and "i < length (sp_kids s)" and "sp_kids s ! i = Some k"
  shows "kid_ok k" and "parent_gone (sp_pc s) \<Longrightarrow> \<not> k_parent_w k"
    and "\<not> parent_gone (sp_pc s) \<Longrightarrow> kid_fed (sp_pc s) i k"
  using assms by (auto simp: kids_ok_def)

lemma parent_gone_no_start: "parent_gone p \<Longrightarrow> starting p = None \<and> before_write p = None"
  by (cases p) auto

lemma kids_ok_dies: "kids_ok s \<Longrightarrow> parent_gone p \<Longrightarrow> kids_ok (parent_dies p s)"
  using parent_gone_no_start [of p]
  by (auto simp: kids_ok_def parent_dies_def kid_ok_orphan)

lemma pids_ok_dies:
  assumes "kids_ok s" and "pids_ok ps s" and "parent_gone p" and "\<not> parent_gone (sp_pc s)"
  shows "pids_ok ps (parent_dies p s)"
proof -
  have p: "storing p = None"
    using assms(3) by (cases p) auto
  have kid: "kid_known ps (sp_workers s) p i (orphan k)" if i: "i < length (sp_kids s)" "sp_kids s ! i = Some k" for i k
  proof -
    have known: "kid_known ps (sp_workers s) (sp_pc s) i k"
      using assms(2) i by (simp add: pids_ok_def)
    have "kid_fed (sp_pc s) i k"
      by (rule kids_okD(3) [OF assms(1) i assms(4)])
    then have "sp_pc s = P_Store i c \<Longrightarrow> k_bytes k = 0 \<and> k_pc k \<notin> {C_CloseR, C_Worker}" for c
      by (auto simp: kid_fed_def early_def)
    then show ?thesis
      using known p assms(3,4) by (cases "sp_pc s") (auto simp: kid_known_def split: if_splits)
  qed
  show ?thesis
    using assms(2) kid by (auto simp: pids_ok_def parent_dies_def)
qed

lemma killed_inv:
  assumes "spawn_inv es s" and "\<not> parent_gone (sp_pc s)" and "p = P_Exit \<or> p = P_Killed"
  shows "spawn_inv es (parent_dies p s)"
  using assms kids_ok_dies [of s p] pids_ok_dies [of s _ p]
  by (auto simp: spawn_inv_def parent_dies_def)

lemma child_run_ok:
  assumes "child_run k = Some k'" and "kid_ok k"
  shows "kid_ok k'" and "k_pid k' = k_pid k" and "k_parent_w k' = k_parent_w k"
    and "kid_fed p i k \<Longrightarrow> kid_fed p i k'"
    and "kid_known ps ws p i k \<Longrightarrow> kid_known ps ws p i k'"
proof -
  show "kid_ok k'" "k_pid k' = k_pid k" "k_parent_w k' = k_parent_w k"
    using assms by (auto simp: child_run_def kid_ok_def kid_ends_def split: child_pc.splits if_splits)
  have "k_bytes k = 0 \<Longrightarrow> k_pc k \<notin> {C_CloseR, C_Worker} \<Longrightarrow> k_bytes k' = 0 \<and> k_pc k' \<notin> {C_CloseR, C_Worker}"
    using assms by (auto simp: child_run_def kid_ends_def split: child_pc.splits if_splits)
  then show "kid_known ps ws p i k \<Longrightarrow> kid_known ps ws p i k'"
    using \<open>k_pid k' = k_pid k\<close> by (auto simp: kid_known_def split: option.splits)
  show "kid_fed p i k'" if fed: "kid_fed p i k"
  proof (cases "k_pc k")
    case C_Read
    have "before_write p = Some i \<Longrightarrow> starting p = Some i"
      by (cases p) auto
    then show ?thesis
      using C_Read assms fed by (auto simp: child_run_def kid_fed_def early_def kid_ends_def split: if_splits)
  qed (use assms fed in \<open>auto simp: child_run_def kid_fed_def early_def kid_ends_def split: if_splits\<close>)
qed

lemma child_inv:
  assumes inv: "spawn_inv es s" and i: "i < length (sp_kids s)" and step: "child_step i s = Some s'"
  shows "spawn_inv es s'"
proof -
  obtain k k' where k: "sp_kids s ! i = Some k" "child_run k = Some k'" "s' = s\<lparr>sp_kids := (sp_kids s)[i := Some k']\<rparr>"
    using step by (auto simp: child_step_def split: option.splits)
  have "kids_ok s \<Longrightarrow> kids_ok s'"
  proof -
    assume ok: "kids_ok s"
    note run = child_run_ok [OF k(2) kids_okD(1) [OF ok i k(1)]]
    show ?thesis
      using ok k i run kids_okD(2,3) [OF ok i k(1)]
      by (auto simp: kids_ok_def nth_list_update)
  qed
  moreover have "kids_ok s \<Longrightarrow> pids_ok ps s \<Longrightarrow> pids_ok ps s'" for ps
  proof -
    assume ok: "kids_ok s" "pids_ok ps s"
    note run = child_run_ok [OF k(2) kids_okD(1) [OF ok(1) i k(1)]]
    then show ?thesis
      using ok(2) k i by (auto simp: pids_ok_def nth_list_update)
  qed
  ultimately show ?thesis
    using inv k(3) by (auto simp: spawn_inv_def)
qed

lemma reap_inv:
  assumes inv: "spawn_inv es s" and alive: "\<not> parent_gone (sp_pc s)" and i: "i < length (sp_kids s)"
    and step: "reap_step i s = Some (s', es')"
  shows "spawn_inv (es @ es') s'"
proof -
  obtain k where k: "sp_kids s ! i = Some k" "k_pc k = C_Zombie"
    using step by (auto simp: reap_step_def split: option.splits if_splits)
  have forked: "forked es' = []"
    using step by (auto simp: reap_step_def Let_def split: option.splits if_splits)
  show ?thesis
  proof (cases "distinct (forked es)")
    case False
    then show ?thesis
      by (simp add: spawn_inv_def forked)
  next
    case True
    then have ok: "kids_ok s" "pids_ok (forked es) s" "sp_pc s \<notin> {P_Aborted, P_Broken_Pipe}"
        "\<forall>i n. Reaped i n \<in> set es \<longrightarrow> n = Some i"
      using inv by (auto simp: spawn_inv_def)
    have fed: "kid_fed (sp_pc s) i k"
      using kids_okD(3) [OF ok(1) i k(1) alive] .
    then have pc: "before_write (sp_pc s) \<noteq> Some i"
      using k(2) by (auto simp: kid_fed_def early_def)
    have known: "kid_known (forked es) (sp_workers s) (sp_pc s) i k" and table: "table_ok (forked es) (sp_workers s)"
      using ok(2) i k(1) by (auto simp: pids_ok_def)
    have pid: "pid (sp_workers s ! i) = k_pid k" "0 < k_pid k"
      using known pc alive table by (cases "sp_pc s"; auto simp: kid_known_def table_ok_def)+
    have "i < length (sp_workers s)"
      using ok(1) i by (simp add: kids_ok_def)
    then have "worker_for_pid (sp_workers s) (k_pid k) = Some i"
      using worker_for_pid_found [OF table] pid by metis
    then have s': "s' = s\<lparr>sp_kids := (sp_kids s)[i := None]\<rparr>" "es' = [Reaped i (Some i)]"
      using step k by (auto simp: reap_step_def Let_def)
    have "kids_ok s'"
      using ok(1) s' pc i by (auto simp: kids_ok_def nth_list_update)
    moreover have "pids_ok (forked es) s'"
      using ok(2) s'(1) i by (auto simp: pids_ok_def nth_list_update)
    ultimately show ?thesis
      using ok s' by (auto simp: spawn_inv_def)
  qed
qed

text \<open>A step of the parent that changes its program counter and one child.\<close>

lemma kids_ok_parent:
  assumes "kids_ok s" and "i < length (sp_kids s)" and "\<not> parent_gone (sp_pc s)" and "\<not> parent_gone p"
    and "s' = s\<lparr>sp_pc := p, sp_kids := (sp_kids s)[i := x], sp_workers := ws\<rparr>" and "length ws = length (sp_workers s)"
    and "\<And>k. x = Some k \<Longrightarrow> kid_ok k \<and> kid_fed p i k" and "before_write p = Some i \<Longrightarrow> x \<noteq> None"
    and "\<And>j. j \<noteq> i \<Longrightarrow> starting p \<noteq> Some j \<and> starting (sp_pc s) \<noteq> Some j" and "\<nexists>j. p = P_Pipe j \<or> p = P_Fork j"
  shows "kids_ok s'"
proof -
  have frame: "kid_fed p j k" if "j \<noteq> i" "kid_fed (sp_pc s) j k" for j k
  proof -
    have "before_write q = Some j \<Longrightarrow> starting q = Some j" for q
      by (cases q) auto
    then show ?thesis
      using that assms(9) [OF that(1)] unfolding kid_fed_def by metis
  qed
  have "before_write p = Some j \<Longrightarrow> j = i" "starting p = Some j \<Longrightarrow> j = i" for j
    using assms(9) [of j] by (cases p; auto)+
  then show ?thesis
    using assms(1-6,7,8,10) frame unfolding kids_ok_def
    by (auto simp: nth_list_update)
qed

lemma pids_ok_parent:
  assumes "pids_ok ps s" and "i < length (sp_kids s)" and "\<not> parent_gone (sp_pc s)"
    and "s' = s\<lparr>sp_pc := p, sp_kids := (sp_kids s)[i := x], sp_workers := ws\<rparr>"
    and "table_ok ps' ws" and "set ps \<subseteq> set ps'"
    and "\<And>k. x = Some k \<Longrightarrow> kid_known ps' ws p i k"
    and "\<And>j c. j \<noteq> i \<Longrightarrow> storing p \<noteq> Some (j, c) \<and> storing (sp_pc s) \<noteq> Some (j, c)"
    and "\<And>j. j \<noteq> i \<Longrightarrow> pid (ws ! j) = pid (sp_workers s ! j)"
  shows "pids_ok ps' s'"
proof -
  have "kid_known ps' ws p j k" if j: "j \<noteq> i" and k: "kid_known ps (sp_workers s) (sp_pc s) j k" for j k
  proof -
    have "storing (sp_pc s) = Some (a, b) \<Longrightarrow> a \<noteq> j" "storing p = Some (a, b) \<Longrightarrow> a \<noteq> j" for a b
      using assms(8) [OF j] by auto
    moreover from this(1) have "pid (sp_workers s ! j) = k_pid k" "k_pid k \<in> set ps"
      using k assms(3) by (auto simp: kid_known_def split: option.splits prod.splits if_splits)
    ultimately show ?thesis
      using assms(6) assms(9) [OF j] by (auto simp: kid_known_def split: option.splits prod.splits)
  qed
  then show ?thesis
    using assms(1-7) by (auto simp: pids_ok_def nth_list_update)
qed

lemma upd_kid_form: "upd_kid i f s\<lparr>sp_pc := p\<rparr> =
    s\<lparr>sp_pc := p, sp_kids := (sp_kids s)[i := map_option f (sp_kids s ! i)], sp_workers := sp_workers s\<rparr>"
  by (simp add: upd_kid_def)

text \<open>The steps of \<open>worker_start\<close> that go well.\<close>

definition both_ok :: "int list \<Rightarrow> spawn_state \<Rightarrow> bool" where
  "both_ok ps s \<longleftrightarrow> kids_ok s \<and> pids_ok ps s"

lemma both_okD:
  assumes "both_ok ps s"
  shows "kids_ok s" and "pids_ok ps s" and "table_ok ps (sp_workers s)"
    and "\<And>i k. i < length (sp_kids s) \<Longrightarrow> sp_kids s ! i = Some k \<Longrightarrow> kid_known ps (sp_workers s) (sp_pc s) i k"
  using assms by (auto simp: both_ok_def pids_ok_def)

lemma before_write_kid:
  assumes "both_ok ps s" and "before_write (sp_pc s) = Some i"
  obtains k where "i < length (sp_kids s)" and "sp_kids s ! i = Some k"
proof -
  have "starting (sp_pc s) = Some i"
    using assms(2) by (cases "sp_pc s") auto
  then show ?thesis
    using assms that by (auto simp: both_ok_def kids_ok_def)
qed

lemma pipe_ok:
  assumes "both_ok ps s" and "sp_pc s = P_Pipe i"
  shows "both_ok ps (s\<lparr>sp_pc := P_Fork i\<rparr>)"
  using assms by (auto simp: both_ok_def kids_ok_def kid_fed_def pids_ok_def kid_known_def)

lemma fork_ok:
  assumes ok: "both_ok ps s" and pc: "sp_pc s = P_Fork i" and r: "0 < r" "r \<notin> set ps"
  shows "both_ok (ps @ [r]) (s\<lparr>sp_kids := (sp_kids s)[i := Some (new_kid r)], sp_pc := P_Store i r\<rparr>)" (is "both_ok _ ?s'")
proof -
  note ok' = both_okD [OF ok]
  have s': "?s' = s\<lparr>sp_pc := P_Store i r, sp_kids := (sp_kids s)[i := Some (new_kid r)], sp_workers := sp_workers s\<rparr>"
    by simp
  have i: "i < length (sp_kids s)"
    using ok'(1) pc by (auto simp: kids_ok_def)
  have "r \<notin> pid ` set (sp_workers s)"
  proof
    assume "r \<in> pid ` set (sp_workers s)"
    then obtain j where "j < length (sp_workers s)" "pid (sp_workers s ! j) = r"
      by (metis imageE in_set_conv_nth)
    then show False
      using ok'(3) r unfolding table_ok_def by (metis insert_iff less_irrefl)
  qed
  then have "pids_ok (ps @ [r]) ?s'"
    using ok'(3) r pc by (intro pids_ok_parent [OF ok'(2) i _ s']) (auto simp: table_ok_def kid_known_def new_kid_def)
  moreover have "kids_ok ?s'"
    using pc by (intro kids_ok_parent [OF ok'(1) i _ _ s']) (auto simp: kid_ok_def kid_fed_def early_def new_kid_def)
  ultimately show ?thesis
    by (simp add: both_ok_def)
qed

lemma store_ok:
  assumes ok: "both_ok ps s" and pc: "sp_pc s = P_Store i c"
  shows "both_ok ps (s\<lparr>sp_workers := (sp_workers s)[i := (sp_workers s ! i)\<lparr>pid := c\<rparr>], sp_pc := P_CloseR i\<rparr>)"
    (is "both_ok _ ?s'")
proof -
  note ok' = both_okD [OF ok]
  obtain k where k: "i < length (sp_kids s)" "sp_kids s ! i = Some k"
    using before_write_kid [OF ok] pc by auto
  let ?ws = "(sp_workers s)[i := (sp_workers s ! i)\<lparr>pid := c\<rparr>]"
  have "(sp_kids s)[i := Some k] = sp_kids s"
    using k(2) by (metis list_update_id)
  then have s': "?s' = s\<lparr>sp_pc := P_CloseR i, sp_kids := (sp_kids s)[i := Some k], sp_workers := ?ws\<rparr>"
    by simp
  have c: "k_pid k = c" "c \<in> set ps" "c \<notin> pid ` set (sp_workers s)" "i < length (sp_workers s)"
    using ok'(4) [OF k] pc ok'(1) k(1) by (auto simp: kid_known_def kids_ok_def)
  then have new: "pid (sp_workers s ! j) \<noteq> c" if "j < length (sp_workers s)" for j
    using c(3) that by (metis image_eqI nth_mem)
  then have "table_ok ps ?ws"
    using ok'(3) c by (simp add: table_ok_def nth_list_update) metis
  then have "pids_ok ps ?s'"
    using pc c by (intro pids_ok_parent [OF ok'(2) k(1) _ s']) (auto simp: kid_known_def)
  moreover have "kids_ok ?s'"
    using pc kids_okD [OF ok'(1) k] by (intro kids_ok_parent [OF ok'(1) k(1) _ _ s']) (auto simp: kid_fed_def)
  ultimately show ?thesis
    by (simp add: both_ok_def)
qed

lemma upd_kid_ok:
  assumes ok: "both_ok ps s" and k: "i < length (sp_kids s)" and alive: "\<not> parent_gone (sp_pc s)" "\<not> parent_gone p"
    and fed: "\<And>k. sp_kids s ! i = Some k \<Longrightarrow> kid_ok (f k) \<and> kid_fed p i (f k) \<and> k_pid (f k) = k_pid k"
    and pc: "starting (sp_pc s) = Some i" "storing (sp_pc s) = None" "storing p = None" "starting p \<in> {None, Some i}"
      "before_write p = Some i \<Longrightarrow> sp_kids s ! i \<noteq> None" "\<nexists>j. p = P_Pipe j \<or> p = P_Fork j"
  shows "both_ok ps (upd_kid i f s\<lparr>sp_pc := p\<rparr>)"
proof -
  note ok' = both_okD [OF ok]
  have "kid_known ps (sp_workers s) p i (f k)" if "sp_kids s ! i = Some k" for k
    using ok'(4) [OF k that] fed [OF that] alive pc by (simp add: kid_known_def)
  then have "pids_ok ps (upd_kid i f s\<lparr>sp_pc := p\<rparr>)"
    using ok'(3) alive pc by (intro pids_ok_parent [OF ok'(2) k _ upd_kid_form]) auto
  moreover have "kids_ok (upd_kid i f s\<lparr>sp_pc := p\<rparr>)"
    using alive fed pc by (intro kids_ok_parent [OF ok'(1) k _ _ upd_kid_form]) auto
  ultimately show ?thesis
    by (simp add: both_ok_def)
qed

lemma close_read_ok:
  assumes ok: "both_ok ps s" and pc: "sp_pc s = P_CloseR i"
  shows "both_ok ps (upd_kid i (\<lambda>k. k\<lparr>k_parent_r := False\<rparr>) s\<lparr>sp_pc := P_Write i\<rparr>)"
proof -
  obtain k where k: "i < length (sp_kids s)" "sp_kids s ! i = Some k"
    using before_write_kid [OF ok] pc by auto
  show ?thesis
    using kids_okD [OF both_okD(1) [OF ok] k] k pc
    by (intro upd_kid_ok [OF ok]) (auto simp: kid_ok_def kid_fed_def)
qed

lemma write_ok:
  assumes ok: "both_ok ps s" and pc: "sp_pc s = P_Write i"
  shows "parent_step r s = Some (upd_kid i (\<lambda>k. k\<lparr>k_bytes := k_bytes k + 1\<rparr>) s\<lparr>sp_pc := P_CloseW i\<rparr>, [])"
    and "both_ok ps (upd_kid i (\<lambda>k. k\<lparr>k_bytes := k_bytes k + 1\<rparr>) s\<lparr>sp_pc := P_CloseW i\<rparr>)"
proof -
  obtain k where k: "i < length (sp_kids s)" "sp_kids s ! i = Some k"
    using before_write_kid [OF ok] pc by auto
  note kid = kids_okD [OF both_okD(1) [OF ok] k]
  have "k_own_r k"
    using kid pc by (auto simp: kid_ok_def kid_fed_def early_def)
  then show "parent_step r s = Some (upd_kid i (\<lambda>k. k\<lparr>k_bytes := k_bytes k + 1\<rparr>) s\<lparr>sp_pc := P_CloseW i\<rparr>, [])"
    using pc k by (simp add: parent_step_def)
  show "both_ok ps (upd_kid i (\<lambda>k. k\<lparr>k_bytes := k_bytes k + 1\<rparr>) s\<lparr>sp_pc := P_CloseW i\<rparr>)"
    using kid k pc by (intro upd_kid_ok [OF ok]) (auto simp: kid_ok_def kid_fed_def)
qed

lemma close_write_ok:
  assumes ok: "both_ok ps s" and pc: "sp_pc s = P_CloseW i"
  shows "both_ok ps (upd_kid i (\<lambda>k. k\<lparr>k_parent_w := False\<rparr>) s\<lparr>sp_pc := P_Idle\<rparr>)"
proof -
  have i: "i < length (sp_kids s)"
    using both_okD(1) [OF ok] pc by (auto simp: kids_ok_def)
  show ?thesis
    using kids_okD [OF both_okD(1) [OF ok] i] i pc
    by (intro upd_kid_ok [OF ok]) (auto simp: kid_ok_def kid_fed_def)
qed

lemma parent_inv:
  assumes inv: "spawn_inv es s" and step: "parent_step r s = Some (s', es')"
    and fork: "\<And>i. sp_pc s = P_Fork i \<Longrightarrow> fork_gives s r"
  shows "spawn_inv (es @ es') s'"
proof (cases "distinct (forked (es @ es'))")
  case False
  then show ?thesis
    unfolding spawn_inv_def by blast
next
  case True
  then have ok: "both_ok (forked es) s" and reaped: "\<forall>i n. Reaped i n \<in> set es \<longrightarrow> n = Some i"
    using inv by (auto simp: spawn_inv_def both_ok_def)
  show ?thesis
  proof (cases "s' = parent_dies P_Exit s \<and> es' = [] \<and> \<not> parent_gone (sp_pc s)")
    case True
    then show ?thesis
      using killed_inv [OF inv, of P_Exit] by simp
  next
    case alive: False
    have "both_ok (forked (es @ es')) s' \<and> sp_pc s' \<notin> {P_Aborted, P_Broken_Pipe} \<and> (\<forall>i n. Reaped i n \<notin> set es')"
    proof (cases "sp_pc s")
      case (P_Pipe i)
      then show ?thesis
        using pipe_ok [OF ok] step alive by (auto simp: parent_step_def split: if_splits)
    next
      case (P_Fork i)
      have *: "0 < r" "s' = s\<lparr>sp_kids := (sp_kids s)[i := Some (new_kid r)], sp_pc := P_Store i r\<rparr>" "es' = [Forked r]"
        using fork [OF P_Fork] step alive P_Fork by (auto simp: parent_step_def fork_gives_def split: if_splits)
      then have "r \<notin> set (forked es)"
        using \<open>distinct (forked (es @ es'))\<close> by simp
      then show ?thesis
        using fork_ok [OF ok P_Fork *(1)] * by simp
    next
      case (P_Store i c)
      then show ?thesis
        using store_ok [OF ok P_Store] step by (auto simp: parent_step_def)
    next
      case (P_CloseR i)
      then show ?thesis
        using close_read_ok [OF ok P_CloseR] step by (auto simp: parent_step_def)
    next
      case (P_Write i)
      then show ?thesis
        using write_ok(1) [OF ok P_Write, of r] write_ok(2) [OF ok P_Write] step by auto
    next
      case (P_CloseW i)
      then show ?thesis
        using close_write_ok [OF ok P_CloseW] step by (auto simp: parent_step_def)
    qed (use step in \<open>simp_all add: parent_step_def\<close>)
    then show ?thesis
      using reaped by (auto simp: spawn_inv_def both_ok_def)
  qed
qed

section \<open>Runs\<close>

lemma spawn_inv_start: "spawn_initial s \<Longrightarrow> spawn_inv [] s"
  by (auto simp: spawn_initial_def spawn_inv_def kids_ok_def pids_ok_def table_ok_def const_simps)

interpretation spawning: traced_system spawn_step spawn_initial spawn_inv
proof
  show "spawn_inv [] s" if "spawn_initial s" for s
    by (rule spawn_inv_start [OF that])
next
  fix es s es' s'
  assume inv: "spawn_inv es s" and step: "spawn_step s es' s'"
  from step show "spawn_inv (es @ es') s'"
  proof (rule spawn_stepE)
    fix i
    assume *: "es' = []" "s' = s\<lparr>sp_pc := P_Pipe i\<rparr>" "sp_pc s = P_Idle" "i < length (sp_kids s)" "sp_kids s ! i = None"
    have "kids_ok s \<Longrightarrow> kids_ok s'"
      using * by (auto simp: kids_ok_def kid_fed_def)
    moreover have "pids_ok ps s \<Longrightarrow> pids_ok ps s'" for ps
      using * by (auto simp: pids_ok_def kid_known_def)
    ultimately show ?thesis
      using inv * by (auto simp: spawn_inv_def)
  next
    fix r
    assume "\<And>i. sp_pc s = P_Fork i \<Longrightarrow> fork_gives s r" "parent_step r s = Some (s', es')"
    then show ?thesis
      using parent_inv [OF inv] by blast
  next
    fix i
    assume "es' = []" "i < length (sp_kids s)" "child_step i s = Some s'"
    then show ?thesis
      using child_inv [OF inv] by simp
  next
    fix i
    assume "\<not> parent_gone (sp_pc s)" "i < length (sp_kids s)" "reap_step i s = Some (s', es')"
    then show ?thesis
      using reap_inv [OF inv] by blast
  next
    assume "es' = []" "s' = parent_dies P_Killed s" "\<not> parent_gone (sp_pc s)"
    then show ?thesis
      using killed_inv [OF inv] by simp
  qed
qed

text \<open>Where everybody waits, nobody does.\<close>

lemma child_blocked:
  assumes "kids_ok s" and "i < length (sp_kids s)" and "sp_kids s ! i = Some k" and "k_pc k \<noteq> C_Zombie"
    and "child_step i s = None"
  shows "k_pc k = C_Read \<and> starting (sp_pc s) = Some i"
proof -
  have "k_pc k = C_Read" "k_parent_w k \<or> k_own_w k"
    using assms(3-5) by (auto simp: child_step_def child_run_def split: child_pc.splits if_splits)
  then show ?thesis
    using kids_okD [OF assms(1-3)] by (auto simp: kid_ok_def kid_fed_def)
qed

lemma parent_moves: "starting (sp_pc s) = Some i \<Longrightarrow> parent_step r s \<noteq> None"
  by (cases "sp_pc s") (auto simp: parent_step_def split: option.splits)

primrec child_runs :: "nat \<Rightarrow> kid \<Rightarrow> kid option" where
  "child_runs 0 k = Some k"
| "child_runs (Suc n) k = Option.bind (child_run k) (child_runs n)"

lemma starved_child:
  assumes "kid_ok k" and "\<not> k_parent_w k" and "k_bytes k = 0" and "early (k_pc k)"
  shows "\<exists>n \<in> {1, 2, 3}. \<exists>k'. child_runs n k = Some k' \<and> k_pc k' = C_Zombie \<and>
    (\<forall>m \<le> n. \<forall>k'. child_runs m k = Some k' \<longrightarrow> k_pc k' \<noteq> C_Worker)"
proof -
  consider (prctl) "k_pc k = C_Prctl" | (close) "k_pc k = C_CloseW" | (read) "k_pc k = C_Read"
    using assms(4) by (auto simp: early_def)
  then show ?thesis
  proof cases
    case prctl
    then show ?thesis
      using assms by (intro bexI [of _ 3]) (auto simp: child_run_def kid_ends_def numeral_3_eq_3 le_Suc_eq)
  next
    case close
    then show ?thesis
      using assms by (intro bexI [of _ 2]) (auto simp: child_run_def kid_ends_def numeral_2_eq_2 le_Suc_eq)
  next
    case read
    then show ?thesis
      using assms by (intro bexI [of _ 1]) (auto simp: child_run_def kid_ends_def kid_ok_def le_Suc_eq)
  qed
qed

section \<open>Concrete runs\<close>

text \<open>Concrete runs: who moves, with the results of the system calls.\<close>

datatype spawn_act = Call nat | Parent int | Child nat | Reap nat | Kill

definition spawn_act :: "spawn_act \<Rightarrow> spawn_state \<Rightarrow> (spawn_state \<times> spawn_event list) option" where
  "spawn_act a s =
     (case a of
        Call i \<Rightarrow> if sp_pc s = P_Idle \<and> i < length (sp_kids s) \<and> sp_kids s ! i = None
          then Some (s\<lparr>sp_pc := P_Pipe i\<rparr>, []) else None
      | Parent r \<Rightarrow> if 0 < r \<and> list_all (\<lambda>x. case x of None \<Rightarrow> True | Some k \<Rightarrow> k_pid k \<noteq> r) (sp_kids s) \<or>
            (case sp_pc s of P_Fork i \<Rightarrow> False | _ \<Rightarrow> True)
          then parent_step r s else None
      | Child i \<Rightarrow> if i < length (sp_kids s) then map_option (\<lambda>s. (s, [])) (child_step i s) else None
      | Reap i \<Rightarrow> if \<not> parent_gone (sp_pc s) \<and> i < length (sp_kids s) then reap_step i s else None
      | Kill \<Rightarrow> if \<not> parent_gone (sp_pc s) then Some (parent_dies P_Killed s, []) else None)"

primrec spawn_acts :: "spawn_act list \<Rightarrow> spawn_state \<Rightarrow> (spawn_state \<times> spawn_event list) option" where
  "spawn_acts [] s = Some (s, [])"
| "spawn_acts (a # as) s = do {
     (s1, es1) \<leftarrow> spawn_act a s;
     (s2, es2) \<leftarrow> spawn_acts as s1;
     Some (s2, es1 @ es2) }"

lemma spawn_act_step:
  assumes "spawn_act a s = Some (s', es)"
  shows "spawn_step s es s'"
proof (cases a)
  case (Parent r)
  have "fork_gives s r" if "sp_pc s = P_Fork i" for i
    using assms Parent that by (force simp: spawn_act_def fork_gives_def list_all_iff split: if_splits)
  then show ?thesis
    using assms Parent by (auto simp: spawn_act_def intro: spawn_step.parent split: if_splits)
qed (use assms in \<open>auto simp: spawn_act_def intro: spawn_step.intros split: if_splits\<close>)

lemma spawn_acts_run: "spawn_acts as s = Some (s', es) \<Longrightarrow> spawn_run s es s'"
proof (induction "as" arbitrary: s s' es)
  case (Cons a "as")
  then obtain s1 es1 es2 where *: "spawn_act a s = Some (s1, es1)" "spawn_acts as s1 = Some (s', es2)" "es = es1 @ es2"
    by (auto split: Option.bind_splits)
  have "spawn_run s ([] @ es1) s1"
    using trace_run.more [where step = spawn_step, OF trace_run.start spawn_act_step [OF *(1)]] .
  then show ?case
    using trace_run_trans [OF Cons.IH [OF *(2)]] *(3) by simp
qed (auto intro: trace_run.start)

definition idle_state :: spawn_state where
  "idle_state = \<lparr>sp_workers = replicate 31 ((worker_entry (\<lambda>_. 0) 0 [97])\<lparr>pid := 0\<rparr>), sp_kids = replicate 31 None, sp_pc = P_Idle\<rparr>"

lemmas spawn_eval = spawn_act_def parent_step_def child_step_def child_run_def reap_step_def upd_kid_def
  parent_dies_def orphan_def kid_ends_def new_kid_def

text \<open>A whole life of the first worker; and the run in which its parent dies too early for \<open>prctl\<close>.\<close>

definition life_acts :: "spawn_act list" where
  "life_acts = [Call 0, Parent 0, Parent 77, Child 0, Parent 1, Parent 0, Child 0, Parent 1, Child 0, Parent 0,
     Child 0, Child 0, Reap 0]"

definition orphan_acts :: "spawn_act list" where
  "orphan_acts = [Call 0, Parent 0, Parent 77, Parent 0, Parent 0, Parent 1, Kill, Child 0, Child 0, Child 0, Child 0]"

lemma idle_cons: "replicate 31 x = x # replicate 30 x"
  by (simp add: numeral_eq_Suc)

lemma life_run: "\<exists>s. spawn_acts life_acts idle_state = Some (s, [Forked 77, Reaped 0 (Some 0)])"
  by (simp add: life_acts_def idle_state_def spawn_eval worker_for_pid_def worker_entry_def idle_cons list_all_iff Let_def)

lemma idle_initial: "spawn_initial idle_state"
  by (simp add: spawn_initial_def idle_state_def const_simps)

section \<open>The properties\<close>

text \<open>C27: The handler knows every worker. In every interleaving of the parent, its children and the signal
  handler, the number the handler finds for a dead child is that of the worker the child was started
  for; it never aborts for want of one, and the parent is never killed by writing into a pipe nobody
  reads. This holds as long as no process id is given out twice. A child that has got as far as
  \<open>worker\<close> has its id in the table.\<close>

theorem handler_knows_worker:
  assumes "spawn_initial s0" and "spawn_run s0 es s" and "distinct (forked es)"
  shows "(\<forall>i n. Reaped i n \<in> set es \<longrightarrow> n = Some i) \<and> sp_pc s \<notin> {P_Aborted, P_Broken_Pipe} \<and>
    (\<forall>i < length (sp_kids s). \<forall>k. sp_kids s ! i = Some k \<longrightarrow> k_pc k \<in> {C_CloseR, C_Worker} \<longrightarrow>
       pid (sp_workers s ! i) = k_pid k)"
proof -
  have inv: "kids_ok s" "pids_ok (forked es) s" "sp_pc s \<notin> {P_Aborted, P_Broken_Pipe}"
      "\<forall>i n. Reaped i n \<in> set es \<longrightarrow> n = Some i"
    using spawning.run_inv [OF assms(2,1)] assms(3) by (auto simp: spawn_inv_def)
  have "pid (sp_workers s ! i) = k_pid k"
    if i: "i < length (sp_kids s)" "sp_kids s ! i = Some k" "k_pc k \<in> {C_CloseR, C_Worker}" for i k
  proof -
    have "before_write (sp_pc s) \<noteq> Some i"
      using kids_okD(3) [OF inv(1) i(1,2)] i(3) parent_gone_no_start [of "sp_pc s"]
      by (cases "parent_gone (sp_pc s)") (auto simp: kid_fed_def early_def)
    then show ?thesis
      using inv(2) i by (cases "sp_pc s") (auto simp: pids_ok_def kid_known_def split: if_splits)
  qed
  then show ?thesis
    using inv by blast
qed

theorem handler_knows_worker_witness:
  "\<exists>s. spawn_run idle_state [Forked 77, Reaped 0 (Some 0)] s \<and> sp_pc s \<notin> {P_Aborted, P_Broken_Pipe}"
proof -
  obtain s where run: "spawn_run idle_state [Forked 77, Reaped 0 (Some 0)] s"
    using life_run spawn_acts_run by blast
  have "distinct (forked [Forked 77, Reaped 0 (Some 0)])"
    by simp
  from handler_knows_worker [OF idle_initial run this] run show ?thesis
    by blast
qed

text \<open>C28: The handshake never hangs. A child that has not ended can always go on by itself, unless it waits
  for the byte of a parent that is just starting it, and that parent can always go on. If the parent
  dies before it has written the byte, the child comes to its end within three system calls, without
  having run \<open>worker\<close>.\<close>

theorem handshake_never_hangs:
  assumes "spawn_initial s0" and "spawn_run s0 es s" and "distinct (forked es)"
    and "i < length (sp_kids s)" and "sp_kids s ! i = Some k" and "k_pc k \<noteq> C_Zombie"
  shows "(child_step i s \<noteq> None \<or> k_pc k = C_Read \<and> starting (sp_pc s) = Some i \<and> (\<forall>r. parent_step r s \<noteq> None)) \<and>
    (parent_gone (sp_pc s) \<and> k_bytes k = 0 \<and> early (k_pc k) \<longrightarrow>
       (\<exists>n \<in> {1, 2, 3}. \<exists>k'. child_runs n k = Some k' \<and> k_pc k' = C_Zombie \<and>
          (\<forall>m \<le> n. \<forall>k'. child_runs m k = Some k' \<longrightarrow> k_pc k' \<noteq> C_Worker)))"
proof -
  have ok: "kids_ok s"
    using spawning.run_inv [OF assms(2,1)] assms(3) by (auto simp: spawn_inv_def)
  have "child_step i s \<noteq> None \<or> k_pc k = C_Read \<and> starting (sp_pc s) = Some i \<and> (\<forall>r. parent_step r s \<noteq> None)"
    using child_blocked [OF ok assms(4-6)] parent_moves by blast
  then show ?thesis
    using starved_child [of k] kids_okD(1,2) [OF ok assms(4,5)] by blast
qed

definition killed_kid :: kid where
  "killed_kid = (new_kid 77)\<lparr>k_parent_r := False, k_parent_w := False\<rparr>"

lemma killed_run: "\<exists>s. spawn_run idle_state [Forked 77] s \<and> sp_pc s = P_Killed \<and> length (sp_kids s) = 31 \<and>
    sp_kids s ! 0 = Some killed_kid"
proof -
  have "\<exists>s. spawn_acts [Call 0, Parent 0, Parent 77, Kill] idle_state = Some (s, [Forked 77]) \<and> sp_pc s = P_Killed \<and>
      length (sp_kids s) = 31 \<and> sp_kids s ! 0 = Some killed_kid"
    by (simp add: idle_state_def spawn_eval list_all_iff Let_def idle_cons killed_kid_def)
  then show ?thesis
    using spawn_acts_run by blast
qed

theorem handshake_never_hangs_witness:
  "\<exists>n k'. child_runs n killed_kid = Some k' \<and> k_pc k' = C_Zombie \<and>
     (\<forall>m \<le> n. \<forall>k'. child_runs m killed_kid = Some k' \<longrightarrow> k_pc k' \<noteq> C_Worker)"
proof -
  obtain s where s: "spawn_run idle_state [Forked 77] s" "sp_pc s = P_Killed" "length (sp_kids s) = 31"
      "sp_kids s ! 0 = Some killed_kid"
    using killed_run by blast
  have "distinct (forked [Forked 77])" "0 < length (sp_kids s)"
    using s(3) by simp_all
  moreover have "k_pc killed_kid \<noteq> C_Zombie" "parent_gone (sp_pc s)" "k_bytes killed_kid = 0" "early (k_pc killed_kid)"
    using s(2) by (simp_all add: killed_kid_def new_kid_def early_def)
  ultimately show ?thesis
    using handshake_never_hangs [OF idle_initial s(1), of 0 killed_kid] s(4) by blast
qed

text \<open>
  What the pipe does not prevent: the parent may write the byte and die before the child has asked
  to be told (\<open>prctl\<close>). Then the child finds the byte, runs \<open>worker\<close>, and no signal ends it.
\<close>

lemma orphan_outlives_parent:
  "\<exists>s k. spawn_run idle_state [Forked 77] s \<and> sp_pc s = P_Killed \<and> sp_kids s ! 0 = Some k \<and> k_pc k = C_Worker"
proof -
  have "\<exists>s k. spawn_acts orphan_acts idle_state = Some (s, [Forked 77]) \<and> sp_pc s = P_Killed \<and>
      sp_kids s ! 0 = Some k \<and> k_pc k = C_Worker"
    by (simp add: orphan_acts_def idle_state_def spawn_eval list_all_iff Let_def idle_cons)
  then show ?thesis
    using spawn_acts_run by blast
qed

end
