(* ===== verification/Manual_Run.thy ===== *)
theory Manual_Run
  imports Ring_Bound
begin

text \<open>
  Manual mode over a whole run: the instructions listed on the standard input, one per line, are
  the inputs the main loop publishes and processes, in order, over as many chunks as it takes.
\<close>

section \<open>The list and the chunks\<close>

definition listable :: "byte list list \<Rightarrow> bool" where
  "listable insns \<longleftrightarrow> (\<forall>bs \<in> set insns. 1 \<le> length bs \<and> length bs \<le> 15)"

lemma manual_lines_append: "manual_lines (xs @ ys) = manual_lines xs @ manual_lines ys"
  by (simp add: manual_lines_def)

lemma listable_parts: "listable xs \<Longrightarrow> listable (take n xs) \<and> listable (drop n xs)"
  unfolding listable_def by (blast dest: in_set_takeD in_set_dropD)

text \<open>One refill, whether the list ends in it or not.\<close>

lemma fill_slots_listed:
  assumes "listable insns" and "stdin e = manual_lines insns" and "\<forall>s \<in> set ss. input_slot_wf s"
  shows "\<exists>ss'. fill_slots manual_candidate e ss 0 = Some (ss', min (length ss) (length insns), length insns < length ss,
      e\<lparr>stdin := manual_lines (drop (length ss) insns)\<rparr>) \<and>
    map insn_bytes (take (min (length ss) (length insns)) ss') = take (length ss) insns"
proof (cases "length insns < length ss")
  case True
  then show ?thesis
    using fill_slots_manual [of insns ss e 0] assms by (auto simp: listable_def manual_lines_def)
next
  case False
  let ?n = "length ss"
  have "stdin e = manual_lines (take ?n insns) @ manual_lines (drop ?n insns)"
    using assms(2) by (simp flip: manual_lines_append)
  moreover have "\<forall>bs \<in> set (take ?n insns). 1 \<le> length bs \<and> length bs \<le> 15" "length (take ?n insns) = ?n"
    using listable_parts [OF assms(1), of ?n] False by (auto simp: listable_def)
  ultimately obtain ss' where *: "fill_slots manual_candidate e ss 0 =
      Some (ss', ?n, False, e\<lparr>stdin := manual_lines (drop ?n insns)\<rparr>)" "map insn_bytes ss' = take ?n insns"
    using fill_slots_manual_full [of "take ?n insns" ss e "manual_lines (drop ?n insns)" 0] assms(3) by fastforce
  from *(2) have "length ss' = ?n"
    using False by (metis length_map length_take min_absorb2 not_less)
  then show ?thesis
    using * False by (auto simp: min_def)
qed

text \<open>What the main loop has taken from the list and not yet made public.\<close>

definition under_way :: "ring \<Rightarrow> input_slot list" where
  "under_way s = (case m_pc s of
       MCount n \<Rightarrow> take n (inputs (chunks s ! m_idx s))
     | MWorkers \<Rightarrow> take (unat (input_count (chunks s ! m_idx s))) (inputs (chunks s ! m_idx s))
     | MGeneration \<Rightarrow> take (unat (input_count (chunks s ! m_idx s))) (inputs (chunks s ! m_idx s))
     | _ \<Rightarrow> [])"

definition list_inv :: "byte list list \<Rightarrow> input_slot list list \<Rightarrow> ring \<Rightarrow> bool" where
  "list_inv insns pub s \<longleftrightarrow> (\<exists>rest. listable rest \<and> stdin (m_env s) = manual_lines rest \<and>
     insns = map insn_bytes (concat pub @ under_way s) @ rest \<and> (m_exit_idx s \<noteq> 16 \<longrightarrow> rest = []))"

lemma list_inv_frame:
  assumes "list_inv insns pub s" and "m_env s' = m_env s" and "m_exit_idx s' = m_exit_idx s"
    and "under_way s' = under_way s"
  shows "list_inv insns pub s'"
  using assms by (simp add: list_inv_def)

lemma under_way_frame:
  assumes "m_pc s' = m_pc s" and "m_idx s' = m_idx s" and "\<And>c. inputs (chunks s' ! c) = inputs (chunks s ! c)"
    and "\<And>c. input_count (chunks s' ! c) = input_count (chunks s ! c)"
  shows "under_way s' = under_way s"
  using assms by (simp add: under_way_def split: main_pc.split)

lemma under_way_nil: "\<not> filling (m_pc s) \<Longrightarrow> under_way s = []" "m_pc s = MFill \<Longrightarrow> under_way s = []"
  by (auto simp: under_way_def split: main_pc.split)

lemma main_step_listed:
  assumes inv: "ring_inv u \<tau> es s" and step: "main_step u s = Some (s', es')" and manual: "su_mutator u = Manual"
    and J: "list_inv insns (published es) s"
  shows "list_inv insns (published (es @ es')) s'"
proof -
  have idx: "m_idx s < 16" "length (chunks s) = 16" "length (inputs (chunks s ! m_idx s)) = 4096"
      "\<forall>x \<in> set (inputs (chunks s ! m_idx s)). input_slot_wf x"
    using ring_invD(1) [OF inv] by (auto simp: shape_ok_def chunk_wf_def const_simps input_slot_ok_wf)
  show ?thesis
  proof (cases "m_pc s")
    case MFill
    then have exit: "m_exit_idx s = 16"
      using ring_invD(7) [OF inv] by (simp add: turns_ok_def)
    obtain rest where rest: "listable rest" "stdin (m_env s) = manual_lines rest"
        "insns = map insn_bytes (concat (published es)) @ rest"
      using J MFill by (auto simp: list_inv_def under_way_nil)
    obtain ss' where fill: "fill_slots manual_candidate (m_env s) (inputs (chunks s ! m_idx s)) 0 =
        Some (ss', min 4096 (length rest), length rest < 4096, (m_env s)\<lparr>stdin := manual_lines (drop 4096 rest)\<rparr>)"
        "map insn_bytes (take (min 4096 (length rest)) ss') = take 4096 rest"
      using fill_slots_listed [OF rest(1,2) idx(4)] idx(3) by auto
    have s': "s' = upd_chunk (m_idx s) (\<lambda>ic. ic\<lparr>inputs := ss'\<rparr>)
        (s\<lparr>m_env := (m_env s)\<lparr>stdin := manual_lines (drop 4096 rest)\<rparr>,
           m_exit_idx := if length rest < 4096 then m_idx s else 16, m_pc := MCount (min 4096 (length rest))\<rparr>)" "es' = []"
      using step MFill manual fill(1) exit by (auto simp: main_step_def Let_def)
    have "under_way s' = take (min 4096 (length rest)) ss'"
      using idx by (simp add: s' under_way_def upd_chunk_def)
    moreover have "m_env s' = (m_env s)\<lparr>stdin := manual_lines (drop 4096 rest)\<rparr>" "m_exit_idx s' = (if length rest < 4096 then m_idx s else 16)"
      by (simp_all add: s' upd_chunk_def)
    ultimately show ?thesis
      using rest fill(2) s'(2) idx(1) listable_parts [OF rest(1), of 4096]
      unfolding list_inv_def by (intro exI [of _ "drop 4096 rest"]) auto
  next
    case (MCount n)
    have "n \<le> 4096"
      using ring_invD(7) [OF inv] MCount by (simp add: turns_ok_def)
    then have "unat (of_nat n :: u32) = n"
      by (simp add: unat_of_nat)
    then show ?thesis
      using step MCount idx J by (auto simp: main_step_def Let_def list_inv_def under_way_def upd_chunk_def)
  next
    case MGeneration
    then show ?thesis
      using step idx J by (auto simp: main_step_def Let_def list_inv_def under_way_def upd_chunk_def)
  next
    case MWorkers
    then show ?thesis
      using step idx J by (auto simp: main_step_def Let_def list_inv_def under_way_def upd_chunk_def)
  next
    case (MScan i r)
    have "m_env s' = m_env s" "m_exit_idx s' = m_exit_idx s" "\<not> filling (m_pc s')" "es' = []"
      using step MScan by (auto simp: main_step_def Let_def upd_worker_def upd_chunk_def split: if_splits)
    then show ?thesis
      using J MScan by (simp add: list_inv_def under_way_nil)
  next
    case (MProcess i)
    have "m_env s' = m_env s" "m_exit_idx s' = m_exit_idx s" "filling (m_pc s') \<longrightarrow> m_pc s' = MFill" "published es' = []"
      using step MProcess by (auto simp: main_step_def Let_def split: if_splits)
    then show ?thesis
      using J MProcess by (cases "filling (m_pc s')") (simp_all add: list_inv_def under_way_nil)
  qed (use step J in \<open>auto simp: main_step_def Let_def list_inv_def under_way_def split: if_splits\<close>)
qed

lemma run_listed:
  assumes "ring_run u s0 es s" and "ring_initial u s0" and "su_mutator u = Manual"
    and "stdin (m_env s0) = manual_lines insns" and "listable insns"
  shows "list_inv insns (published es) s"
  using assms(1)
proof (induction rule: trace_run.induct)
  case start
  then show ?case
    using assms(2,4,5) by (auto simp: list_inv_def under_way_def ring_initial_def ring_start_def const_simps)
next
  case (more es s es' s')
  obtain \<tau> where inv: "ring_inv u \<tau> es s"
    using ring.run_inv [OF more.hyps(1) assms(2)] by blast
  from more.hyps(2) show ?case
  proof (rule ring_stepE)
    assume "main_step u s = Some (s', es')"
    then show ?thesis
      by (rule main_step_listed [OF inv _ assms(3) more.IH])
  next
    fix i
    assume *: "es' = []" "worker_step u i s = Some s'"
    show ?thesis
      using list_inv_frame [OF more.IH worker_step_env [OF *(2)] worker_step_frame(1) [OF *(2)]]
        under_way_frame [OF worker_step_frame(2,3) [OF *(2)] worker_step_inputs [OF *(2)] worker_step_frame(5) [OF *(2)]] *(1)
      by simp
  next
    fix i
    assume *: "es' = []" "sigchld_handler i s = Some s'"
    show ?thesis
      using list_inv_frame [OF more.IH signal_step_env [OF *(2)] signal_step_frame(1) [OF *(2)]]
        under_way_frame [OF signal_step_frame(2,3) [OF *(2)] signal_step_inputs [OF *(2)] signal_step_frame(5) [OF *(2)]] *(1)
      by simp
  qed
qed

section \<open>The property\<close>

text \<open>C5: Manual mode decodes the list. With one instruction per line on the standard input, in the format
  \<open>mish2jsonl\<close> prints, the inputs processed at any moment of any run are a prefix of the list, in
  order, each once, whatever crashes and restarts there were; when the main loop has ended they are
  the whole list. No length of the list makes a difference, whether it fills no chunk, exactly one
  or several rounds of the ring.\<close>

theorem manual_run_decodes_list:
  assumes "ring_initial u s0" and "ring_run u s0 es s" and "su_mutator u = Manual"
    and "stdin (m_env s0) = manual_lines insns" and "\<forall>bs \<in> set insns. 1 \<le> length bs \<and> length bs \<le> 15"
  shows "(\<exists>rest. insns = map (\<lambda>(inp, outs). insn_bytes inp) (processed es) @ rest) \<and>
    (m_pc s = MDone \<longrightarrow> map (\<lambda>(inp, outs). insn_bytes inp) (processed es) = insns)"
proof -
  obtain \<tau> where inv: "ring_inv u \<tau> es s"
    using ring.run_inv [OF assms(2,1)] by blast
  have "list_inv insns (published es) s"
    using run_listed [OF assms(2,1,3,4)] assms(5) by (simp add: listable_def)
  then obtain rest where rest: "insns = map insn_bytes (concat (published es) @ under_way s) @ rest"
      "m_exit_idx s \<noteq> 16 \<longrightarrow> rest = []"
    by (auto simp: list_inv_def)
  have map_fst: "map (\<lambda>(inp, outs). insn_bytes inp) xs = map insn_bytes (map fst xs)" for xs :: "(input_slot \<times> output_slot list) list"
    by (simp add: case_prod_unfold)
  obtain more where "concat (published es) = map fst (processed es) @ more"
    using processed_prefix(1) [OF inv] by blast
  then have "\<exists>rest. insns = map (\<lambda>(inp, outs). insn_bytes inp) (processed es) @ rest"
    using rest(1) unfolding map_fst by simp
  moreover have "map (\<lambda>(inp, outs). insn_bytes inp) (processed es) = insns" if fin: "m_pc s = MDone"
  proof -
    have "m_exit_idx s \<noteq> 16"
      using ring_invD(7) [OF inv] fin by (auto simp: turns_ok_def split: if_splits)
    then show ?thesis
      using rest processed_prefix(2) [OF inv fin] fin unfolding map_fst by (simp add: under_way_nil)
  qed
  ultimately show ?thesis
    by blast
qed

theorem manual_run_decodes_list_witness:
  "\<exists>es s. ring_run demo demo_start es s \<and> m_pc s = MDone \<and>
     map (\<lambda>(inp, outs). insn_bytes inp) (processed es) = [[0x90]]"
proof -
  obtain es s where run: "ring_run demo demo_start es s" "m_pc s = MDone"
    using complete_run by blast
  have a: "su_mutator demo = Manual" "stdin (m_env demo_start) = manual_lines [[0x90]]"
    by (simp_all add: demo_def demo_start_def ring_start_def)
  have b: "\<forall>bs \<in> set [[0x90 :: byte]]. 1 \<le> length bs \<and> length bs \<le> 15"
    by simp
  show ?thesis
    using manual_run_decodes_list [OF demo_initial run(1) a b, THEN conjunct2, THEN mp, OF run(2)] run
    by (intro exI [of _ es] exI [of _ s]) (rule conjI, assumption, rule conjI)
qed

end
