(* ===== verification/Cut_Stream.thy ===== *)
theory Cut_Stream
  imports Converter_Input
begin

text \<open>
  What the converter makes of a stream that ends inside a cohort (src/mish2jsonl/mish2jsonl.c:
  \<open>m_fread\<close> takes a read for the end only when it got nothing at all). Everywhere else in a cohort
  the cut is noticed by the read in which it lies or by the next one; inside the last string
  there is no next one.
\<close>

section \<open>One field\<close>

definition dry :: "conv_state \<Rightarrow> conv_state" where
  "dry st = st\<lparr>unread := [], m_finished_parsing := True\<rparr>"

lemma dry_simps [simp]: "unread (dry st) = []" "m_finished_parsing (dry st)" "results (dry st) = results st"
  "malloc_junk (dry st) = malloc_junk st" "dry (st\<lparr>unread := x\<rparr>) = dry st" "dry (dry st) = dry st"
  by (simp_all add: dry_def)

lemma dry_id: "unread st = [] \<Longrightarrow> m_finished_parsing st \<Longrightarrow> dry st = st"
  by (simp add: dry_def)

lemma m_fread_cut:
  assumes "unread st = take k x" and "k < sz" and "length x = sz"
  shows "snd (m_fread d sz (Suc 0) st) = dry st"
  using assms by (simp add: m_fread_def fread_def Let_def dry_def)

lemma m_fread_dry: "m_fread d sz n (dry st) = (d, dry st)"
  by (simp add: m_fread_def fread_def Let_def overlay_def dry_def)

lemma read_string_dry: "0 < n \<Longrightarrow> read_string n (dry st) = Some (\<lparr>ms_len = 0, ms_string = [0]\<rparr>, dry st)"
  using read_string_empty [of "dry st" n] by (simp add: dry_def)

lemma read_output_dry: "\<exists>r. read_output w (dry st) = Some (r, dry st)"
  using read_output_empty [of "dry st" w] by (simp add: dry_def)

lemma read_each_dry: "\<exists>rs. read_each read_output ds (dry st) = Some (rs, dry st)"
  using read_each_empty [of "dry st" ds] by simp

lemma take_bit_not_max: "k < 8 \<Longrightarrow> take_bit (8 * k) (w :: u64) + 1 \<noteq> 0"
proof
  assume k: "k < 8" and "take_bit (8 * k) w + 1 = 0"
  then have "take_bit (8 * k) w = - 1"
    by (simp add: eq_neg_iff_add_eq_0)
  then have "bit (take_bit (8 * k) w) 63"
    by simp
  then show False
    using k by (simp add: bit_take_bit_iff)
qed

text \<open>A string that ends in its length, or before its first character, is noticed; a later end is not.\<close>

definition cut_string :: "byte list \<Rightarrow> nat \<Rightarrow> m_string" where
  "cut_string s m = \<lparr>ms_len = of_nat (length s), ms_string = take m s @ replicate (length s - m + 1) 0\<rparr>"

lemma take_le_enc: "k \<le> n \<Longrightarrow> take k (le_enc n w) = le_enc k w"
  by (induction n arbitrary: k w) (auto simp: take_Cons split: nat.splits)

lemma read_length_full:
  assumes "0 < n" and "n \<le> 8" and "length s < 256 ^ n" and "length s < 2 ^ 64 - 1"
    and "unread st = le_enc n (of_nat (length s) :: u64) @ rest"
  shows "m_fread (le_enc 8 (0 :: u64)) n (Suc 0) st =
      (le_enc n (of_nat (length s) :: u64) @ replicate (8 - n) 0, st\<lparr>unread := rest\<rparr>)"
    and "le_dec (le_enc n (of_nat (length s) :: u64) @ replicate (8 - n) 0) = (of_nat (length s) :: u64)"
    and "unat (of_nat (length s) :: u64) = length s" and "unat (of_nat (length s) + 1 :: u64) = length s + 1"
proof -
  let ?w = "of_nat (length s) :: u64"
  show w: "unat ?w = length s"
    using assms(4) by (simp add: unat_of_nat)
  then show "unat (?w + 1) = length s + 1"
    using assms(4) by (simp add: unat_word_ariths)
  show "m_fread (le_enc 8 (0 :: u64)) n (Suc 0) st = (le_enc n ?w @ replicate (8 - n) 0, st\<lparr>unread := rest\<rparr>)"
    using assms by (subst m_fread_prefix [of _ "le_enc n ?w"]) (auto simp: le_enc_zero)
  show "le_dec (le_enc n ?w @ replicate (8 - n) 0) = ?w"
    using assms(3) w by (simp add: le_dec_zeros le_dec_le_enc_take word_unat_eq_iff unsigned_take_bit_eq
        take_bit_nat_eq_self power_mult)
qed

lemma read_string_cut:
  assumes n: "0 < n" "n \<le> 8" and s: "length s < 256 ^ n" "length s < 2 ^ 64 - 1"
    and k: "k < length (string_image n s)" and st: "unread st = take k (string_image n s)"
  shows "k \<le> n \<Longrightarrow> \<exists>r. read_string n st = Some (r, dry st)"
    and "n < k \<Longrightarrow> read_string n st = Some (cut_string s (k - n), st\<lparr>unread := []\<rparr>)"
proof -
  let ?w = "of_nat (length s) :: u64"
  have len: "k < n + length s"
    using k by (simp add: string_image_def)
  have full: "n \<le> k \<Longrightarrow> unread st = le_enc n ?w @ take (k - n) s"
    using st by (simp add: string_image_def)
  note length_full = read_length_full [OF n s full]
  show "\<exists>r. read_string n st = Some (r, dry st)" if "k \<le> n"
  proof (cases "k = n")
    case True
    have "unat (?w + 1) \<noteq> 0"
      using length_full(4) True by simp
    then have "?w + 1 \<noteq> 0"
      by auto
    moreover have "snd (m_fread d (Suc 0) (length s) (st\<lparr>unread := []\<rparr>)) = dry st" for d
      using len True by (simp add: m_fread_def fread_def Let_def dry_def)
    ultimately show ?thesis
      using length_full True by (simp add: read_string_def Let_def case_prod_beta)
  next
    case False
    have "unread st = le_enc k ?w"
      using st that False by (simp add: string_image_def take_le_enc)
    then have "m_fread (le_enc 8 (0 :: u64)) n (Suc 0) st = (le_enc k ?w @ replicate (8 - k) 0, dry st)"
      using that False n by (simp add: m_fread_def fread_def Let_def dry_def overlay_def le_enc_zero)
    moreover have "le_dec (le_enc k ?w @ replicate (8 - k) 0) + (1 :: u64) \<noteq> 0"
      using take_bit_not_max [of k ?w] that False n by (simp add: le_dec_zeros le_dec_le_enc_take)
    ultimately show ?thesis
      by (simp add: read_string_def Let_def m_fread_dry)
  qed
  show "read_string n st = Some (cut_string s (k - n), st\<lparr>unread := []\<rparr>)" if "n < k"
  proof -
    have "unat (?w + 1) \<noteq> 0"
      using length_full(4) that by simp
    then have "?w + 1 \<noteq> 0"
      by auto
    moreover have "m_fread (replicate (unat (?w + 1)) 0) (Suc 0) (unat ?w) (st\<lparr>unread := take (k - n) s\<rparr>) =
        (take (k - n) s @ replicate (length s - (k - n) + 1) 0, st\<lparr>unread := []\<rparr>)"
      using length_full(3,4) that len
      by (simp add: m_fread_def fread_def Let_def overlay_def min_absorb2 Suc_diff_le flip: replicate_Suc)
    ultimately show ?thesis
      using length_full(1,2) that by (simp add: read_string_def cut_string_def)
  qed
qed

section \<open>One record\<close>

definition last_part :: "byte list \<times> output_slot \<Rightarrow> byte list" where
  "last_part v = (case v of (so, r) \<Rightarrow> take (unat (out_len r)) (result r))"

lemma take_field: "take k (a @ b) = (if k < length a then take k a else a @ take (k - length a) b)"
  by simp

lemma read_output_cut:
  assumes v: "record_ok v" and k: "k < length (record_image v)" and st: "unread st = take k (record_image v)"
  shows "k \<le> length (record_image v) - length (last_part v) \<Longrightarrow> \<exists>r. read_output w st = Some (r, dry st)"
    and "length (record_image v) - length (last_part v) < k \<Longrightarrow>
      read_output w st = Some ((record_view w v)\<lparr>wo_result := cut_string (last_part v)
        (k - (length (record_image v) - length (last_part v)))\<rparr>, st\<lparr>unread := []\<rparr>)"
proof -
  obtain so r where v': "v = (so, r)"
    by (cases v)
  let ?res = "take (unat (out_len r)) (result r)" and ?a = "8 + length so"
  have so: "length so < 2 ^ 64 - 1" and res: "length ?res < 65536"
    using v by (auto simp: v' record_ok_def slot_defs)
  have image: "record_image v = string_image 8 so @ le_enc 4 (status_code (status r)) @ le_enc 2 (ndecoded r) @ string_image 2 ?res"
    by (simp add: v' record_image_def)
  have len: "length (string_image 8 so) = ?a" "length (string_image 2 ?res) = 2 + length ?res"
    by (simp_all add: string_image_def)
  have total: "length (record_image v) = ?a + 8 + length ?res" "last_part v = ?res"
    by (simp add: image len) (simp add: last_part_def v')
  define rest where "rest = take (k - ?a) (le_enc 4 (status_code (status r)) @ le_enc 2 (ndecoded r) @ string_image 2 ?res)"
  define rest2 where "rest2 = take (k - (?a + 4)) (le_enc 2 (ndecoded r) @ string_image 2 ?res)"
  define rest3 where "rest3 = take (k - (?a + 6)) (string_image 2 ?res)"
  have 1: "read_string 8 st = Some (string_view so, st\<lparr>unread := rest\<rparr>)" if "?a \<le> k"
    using that st len by (intro read_string8_reads [OF so]) (simp add: image rest_def)
  have 2: "m_fread (le_enc 4 x) 4 (Suc 0) (st\<lparr>unread := rest\<rparr>) = (le_enc 4 (status_code (status r)), st\<lparr>unread := rest2\<rparr>)"
    if "?a + 4 \<le> k" for x :: u32
  proof -
    have "rest = le_enc 4 (status_code (status r)) @ rest2"
      using that by (simp add: rest_def rest2_def)
    then show ?thesis
      by (subst m_fread_full [of _ "le_enc 4 (status_code (status r))" rest2]) simp_all
  qed
  have 3: "m_fread (le_enc 2 x) 2 (Suc 0) (st\<lparr>unread := rest2\<rparr>) = (le_enc 2 (ndecoded r), st\<lparr>unread := rest3\<rparr>)"
    if "?a + 6 \<le> k" for x :: u16
  proof -
    have "rest2 = le_enc 2 (ndecoded r) @ rest3"
      using that by (simp add: rest2_def rest3_def)
    then show ?thesis
      by (subst m_fread_full [of _ "le_enc 2 (ndecoded r)" rest3]) simp_all
  qed
  note last = read_string_cut [of 2 ?res "k - (?a + 6)" "st\<lparr>unread := rest3\<rparr>"]
  show "\<exists>r. read_output w st = Some (r, dry st)" if early: "k \<le> length (record_image v) - length (last_part v)"
  proof -
    have bound: "k \<le> ?a + 8"
      using early total by simp
    consider (name) "k < ?a" | (status) "?a \<le> k" "k < ?a + 4" | (decoded) "?a + 4 \<le> k" "k < ?a + 6" | (res) "?a + 6 \<le> k" "k \<le> ?a + 8"
      using bound by linarith
    then show ?thesis
    proof cases
      case name
      then have cut: "k < length (string_image 8 so)" "unread st = take k (string_image 8 so)"
        using st by (simp_all add: image len)
      show ?thesis
      proof (cases "k \<le> 8")
        case True
        then show ?thesis
          using read_string_cut(1) [OF _ _ _ so cut] so
          by (auto simp: read_output_def m_fread_dry read_string_dry)
      next
        case False
        have "snd (m_fread d 4 (Suc 0) (st\<lparr>unread := []\<rparr>)) = dry st" for d
          using m_fread_cut [of "st\<lparr>unread := []\<rparr>" 0 "replicate 4 0" 4] by simp
        then show ?thesis
          using read_string_cut(2) [OF _ _ _ so cut] so False
          by (simp add: read_output_def case_prod_beta m_fread_dry read_string_dry)
      qed
    next
      case status
      then have "snd (m_fread d 4 (Suc 0) (st\<lparr>unread := rest\<rparr>)) = dry st" for d
        using m_fread_cut [of "st\<lparr>unread := rest\<rparr>" "k - ?a" "le_enc 4 (status_code (status r))" 4] by (simp add: rest_def)
      then show ?thesis
        using 1 status by (simp add: read_output_def case_prod_beta m_fread_dry read_string_dry)
    next
      case decoded
      then have "snd (m_fread d 2 (Suc 0) (st\<lparr>unread := rest2\<rparr>)) = dry st" for d
        using m_fread_cut [of "st\<lparr>unread := rest2\<rparr>" "k - (?a + 4)" "le_enc 2 (ndecoded r)" 2] by (simp add: rest2_def)
      then show ?thesis
        using 1 2 decoded by (simp add: read_output_def case_prod_beta m_fread_dry read_string_dry)
    next
      case res
      have "k - (?a + 6) < length (string_image 2 ?res)"
        using res k total len by linarith
      moreover have "k - (?a + 6) \<le> 2"
        using res by linarith
      ultimately obtain x where "read_string 2 (st\<lparr>unread := rest3\<rparr>) = Some (x, dry st)"
        using last(1) res \<open>length ?res < 65536\<close> by (auto simp: rest3_def)
      then show ?thesis
        using 1 2 3 res by (simp add: read_output_def)
    qed
  qed
  show "read_output w st = Some ((record_view w v)\<lparr>wo_result := cut_string (last_part v)
        (k - (length (record_image v) - length (last_part v)))\<rparr>, st\<lparr>unread := []\<rparr>)"
    if late: "length (record_image v) - length (last_part v) < k"
  proof -
    have k': "?a + 8 < k"
      using late total by simp
    moreover have "k < ?a + 8 + length ?res"
      using k total by simp
    ultimately have "k - (?a + 6) < length (string_image 2 ?res)" "2 < k - (?a + 6)" "k - (?a + 6) - 2 = k - (?a + 8)"
      using len by linarith+
    then have "read_string 2 (st\<lparr>unread := rest3\<rparr>) = Some (cut_string ?res (k - (?a + 8)), st\<lparr>unread := []\<rparr>)"
      using last(2) \<open>length ?res < 65536\<close> by (auto simp: rest3_def)
    then have "read_output w st = Some ((record_view w v)\<lparr>wo_result := cut_string ?res (k - (?a + 8))\<rparr>, st\<lparr>unread := []\<rparr>)"
      using 1 2 3 k' by (simp add: read_output_def record_view_def v' le_simps)
    then show ?thesis
      using total by simp
  qed
qed

section \<open>A cohort\<close>

text \<open>What is read of the records: all of them, or with the last string cut after \<open>m\<close> bytes.\<close>

fun cut_views :: "worker_output list \<Rightarrow> (byte list \<times> output_slot) list \<Rightarrow> nat \<Rightarrow> worker_output list" where
  "cut_views [w] [v] m = [(record_view w v)\<lparr>wo_result := cut_string (last_part v) m\<rparr>]"
| "cut_views (w # ws) (v # vs) m = record_view w v # cut_views ws vs m"
| "cut_views ws vs m = []"

definition last_string :: "(byte list \<times> output_slot) list \<Rightarrow> byte list" where
  "last_string recs = (if recs = [] then [] else last_part (last recs))"

lemma last_part_le: "length (last_part v) \<le> length (record_image v)"
  by (simp add: last_part_def record_image_def string_image_def split: prod.split)

lemma last_string_le: "length (last_string recs) \<le> length (concat (map record_image recs))"
proof (cases recs rule: rev_cases)
  case (snoc rs v)
  then show ?thesis
    using last_part_le [of v] by (simp add: last_string_def)
qed (simp add: last_string_def)

lemma read_each_cut:
  assumes "\<forall>v \<in> set recs. record_ok v" and "length ws = length recs"
    and "k < length (concat (map record_image recs))" and "unread st = take k (concat (map record_image recs))"
  shows "(k \<le> length (concat (map record_image recs)) - length (last_string recs) \<longrightarrow>
      (\<exists>rs. read_each read_output ws st = Some (rs, dry st))) \<and>
    (length (concat (map record_image recs)) - length (last_string recs) < k \<longrightarrow>
      read_each read_output ws st = Some (cut_views ws recs
        (k - (length (concat (map record_image recs)) - length (last_string recs))), st\<lparr>unread := []\<rparr>))"
  using assms
proof (induction recs arbitrary: ws k st)
  case (Cons v recs)
  then obtain w ws' where ws: "ws = w # ws'" "length ws' = length recs"
    by (cases ws) auto
  let ?n = "length (record_image v)" and ?rest = "concat (map record_image recs)"
  show ?case
  proof (cases "k < ?n")
    case True
    then have st: "unread st = take k (record_image v)"
      using Cons.prems(4) by simp
    note cut = read_output_cut [of v k st w, OF _ True st]
    show ?thesis
    proof (cases "k \<le> ?n - length (last_part v)")
      case early: True
      then obtain r where "read_output w st = Some (r, dry st)"
        using cut(1) Cons.prems(1) by auto
      then have "\<exists>rs. read_each read_output ws st = Some (rs, dry st)"
        using read_each_dry [of ws' st] ws by auto
      moreover have "k \<le> length (concat (map record_image (v # recs))) - length (last_string (v # recs))"
        using early True last_string_le [of recs] by (cases "recs = []") (auto simp: last_string_def)
      ultimately show ?thesis
        by simp
    next
      case late: False
      then have r: "read_output w st = Some ((record_view w v)\<lparr>wo_result := cut_string (last_part v)
          (k - (?n - length (last_part v)))\<rparr>, st\<lparr>unread := []\<rparr>)"
        using cut(2) Cons.prems(1) by auto
      show ?thesis
      proof (cases recs)
        case Nil
        then show ?thesis
          using r ws late by (simp add: last_string_def)
      next
        case (Cons v2 recs2)
        then obtain w2 ws2 where ws2: "ws' = w2 # ws2"
          using ws(2) by (cases ws') auto
        obtain x where "read_output w2 (st\<lparr>unread := []\<rparr>) = Some (x, dry st)"
          using read_output_empty [of "st\<lparr>unread := []\<rparr>" w2] by (auto simp: dry_def)
        then have "\<exists>rs. read_each read_output ws st = Some (rs, dry st)"
          using r ws ws2 read_each_dry [of ws2 st] by auto
        moreover have "k \<le> length (concat (map record_image (v # recs))) - length (last_string (v # recs))"
          using True last_string_le [of recs] Cons by (simp add: last_string_def)
        ultimately show ?thesis
          by simp
      qed
    qed
  next
    case False
    then have recs: "recs \<noteq> []" and k: "k - ?n < length ?rest"
      using Cons.prems(3) by auto
    have "read_output w st = Some (record_view w v, st\<lparr>unread := take (k - ?n) ?rest\<rparr>)"
      using Cons.prems(1,4) False by (intro read_output_reads) auto
    moreover have "last_string (v # recs) = last_string recs"
      using recs by (simp add: last_string_def)
    moreover have "cut_views (w # ws') (v # recs) m = record_view w v # cut_views ws' recs m" for m
      using recs ws(2) by (cases recs; cases ws') auto
    ultimately show ?thesis
      using Cons.IH [of ws' "k - ?n" "st\<lparr>unread := take (k - ?n) ?rest\<rparr>"] Cons.prems(1) k ws False
        last_string_le [of recs]
      by (auto simp: le_diff_conv less_diff_conv)
  qed
qed simp

text \<open>The whole cohort, from the number of workers on.\<close>

lemma fread_dry: "fread d 4 (Suc 0) (take k x) = (q, d', f) \<Longrightarrow> k \<le> 4 \<Longrightarrow> f = []"
  by (auto simp: fread_def Let_def)

lemma read_next_dry:
  assumes "k < 20" and "unread st = take k (cohort_image c)" and "cohort_ok c"
  shows "\<exists>st'. read_next st = Some (False, st')"
proof -
  obtain input recs where c: "c = (input, recs)"
    by (cases c)
  have in16: "length (input_slot_bytes input) = 16"
    using assms(3) by (simp add: c cohort_ok_def input_slot_size)
  obtain q raw f where fread: "fread (le_enc 4 (cr_nworkers (results st))) 4 (Suc 0) (unread st) = (q, raw, f)"
    by (metis prod_cases3)
  have f: "f = take (k - 4) (input_slot_bytes input)"
  proof -
    have "f = drop 4 (take k (cohort_image c))"
      using fread assms(2) by (auto simp: fread_def Let_def)
    also have "\<dots> = take (k - 4) (drop 4 (cohort_image c))"
      by (rule drop_take)
    also have "drop 4 (cohort_image c) = input_slot_bytes input @ concat (map record_image recs)"
      by (simp add: c cohort_image_def)
    finally show ?thesis
      using assms(1) in16 by simp
  qed
  have "snd (m_fread d 16 (Suc 0) (st\<lparr>unread := f\<rparr>)) = dry st" for d
    using m_fread_cut [of "st\<lparr>unread := f\<rparr>" "k - 4" "input_slot_bytes input" 16] f in16 assms(1) by simp
  then have "snd (read_input_slot old (st\<lparr>unread := f\<rparr>)) = dry st" for old
    by (simp add: read_input_slot_def case_prod_beta Let_def)
  moreover obtain outs where "read_each read_output (map (malloc_junk st) [0..<unat (le_dec raw :: u32)]) (dry st) =
      Some (outs, dry st)"
    using read_each_dry by blast
  ultimately show ?thesis
    by (simp add: read_next_def fread case_prod_beta Let_def)
qed

lemma read_next_cut:
  assumes ok: "cohort_ok c" and wf: "conv_wf st" and k: "k < length (cohort_image c)"
    and st: "unread st = take k (cohort_image c)" "\<not> m_finished_parsing st"
  shows "if k \<le> length (cohort_image c) - length (last_string (snd c))
    then \<exists>st'. read_next st = Some (False, st')
    else read_next st = Some (True, st\<lparr>unread := [], results := \<lparr>cr_nworkers = of_nat (length (snd c)), cr_input = fst c,
      cr_outputs = cut_views (map (malloc_junk st) [0..<length (snd c)]) (snd c)
        (k - (length (cohort_image c) - length (last_string (snd c))))\<rparr>\<rparr>)"
proof (cases "k < 20")
  case True
  obtain input recs where c: "c = (input, recs)"
    by (cases c)
  have "20 + length (last_string recs) \<le> length (cohort_image c)"
    using ok last_string_le [of recs] by (simp add: c cohort_ok_def cohort_image_def input_slot_size)
  then have "k \<le> length (cohort_image c) - length (last_string (snd c))"
    using True c by simp
  then show ?thesis
    using read_next_dry [OF True st(1) ok] by simp
next
  case False
  obtain input recs where c: "c = (input, recs)"
    by (cases c)
  let ?body = "concat (map record_image recs)" and ?ws = "map (malloc_junk st) [0..<length recs]"
  define n :: u32 where "n = of_nat (length recs)"
  have n: "unat n = length recs"
    using ok c by (simp add: cohort_ok_def n_def unat_of_nat)
  have in16: "length (input_slot_bytes input) = 16" and input: "input_slot_wf input" and recs: "\<forall>v \<in> set recs. record_ok v"
    using ok by (simp_all add: c cohort_ok_def input_slot_size)
  define st2 where "st2 = st\<lparr>unread := take (k - 20) ?body\<rparr>"
  have unread: "unread st = le_enc 4 n @ input_slot_bytes input @ take (k - 20) ?body"
    using st(1) False in16 by (simp add: c cohort_image_def n_def)
  have 1: "fread (le_enc 4 m) 4 (Suc 0) (unread st) = (Suc 0, le_enc 4 n, input_slot_bytes input @ take (k - 20) ?body)"
    for m :: u32
    by (simp add: unread fread_def overlay_def)
  have 2: "read_input_slot (cr_input (results st)) (st\<lparr>unread := input_slot_bytes input @ take (k - 20) ?body\<rparr>) = (input, st2)"
    using wf input by (subst read_input_slot_reads [of input _ _ "take (k - 20) ?body"]) (auto simp: conv_wf_def st2_def)
  have size: "length (cohort_image c) = 20 + length ?body"
    using in16 by (simp add: c cohort_image_def)
  have run: "read_next st = do {
      (outs, st3) \<leftarrow> read_each read_output ?ws st2;
      Some (\<not> m_finished_parsing st3, st3\<lparr>results := \<lparr>cr_nworkers = n, cr_input = input, cr_outputs = outs\<rparr>\<rparr>) }"
    by (simp add: read_next_def 1 2 n le_simps)
  have dry2: "dry st2 = dry st" "st2\<lparr>unread := []\<rparr> = st\<lparr>unread := []\<rparr>"
    by (simp_all add: st2_def)
  have body: "k - 20 < length ?body" "unread st2 = take (k - 20) ?body"
    using k False size by (simp_all add: st2_def)
  note cut = read_each_cut [OF recs, of ?ws "k - 20" st2, OF _ body]
  show ?thesis
    using cut run dry2 st(2) size False last_string_le [of recs]
    by (auto simp: c n_def le_diff_conv)
qed

section \<open>The property\<close>

text \<open>C36: Where a cut stream is noticed. If the stream ends inside a cohort, \<open>read_next\<close> reports the end
  whenever the cut lies before the first byte of the last worker's result, in whichever field it
  lies. If it lies behind, the cohort is taken as complete: everything else is as it was written,
  the last result has the length that was announced, and the bytes that are missing are zeros.\<close>

theorem cut_cohort_is_noticed:
  assumes "cohort_ok c" and "conv_wf st" and "\<not> m_finished_parsing st"
    and "k < length (cohort_image c)" and "unread st = take k (cohort_image c)"
  shows "(k \<le> length (cohort_image c) - length (last_string (snd c)) \<longrightarrow> (\<exists>st'. read_next st = Some (False, st'))) \<and>
    (length (cohort_image c) - length (last_string (snd c)) < k \<longrightarrow>
       read_next st = Some (True, st\<lparr>unread := [], results := \<lparr>cr_nworkers = of_nat (length (snd c)), cr_input = fst c,
         cr_outputs = cut_views (map (malloc_junk st) [0..<length (snd c)]) (snd c)
           (k - (length (cohort_image c) - length (last_string (snd c))))\<rparr>\<rparr>))"
  using read_next_cut [OF assms(1,2,4,5,3)] by (auto split: if_splits)

text \<open>The instance: a result of three bytes of which one is there.\<close>

definition long_slot :: output_slot where
  "long_slot = zero_output_slot\<lparr>status := S_SUCCESS, out_len := 3, result := [110, 111, 112] @ replicate 245 0\<rparr>"

theorem cut_cohort_is_noticed_witness:
  "\<exists>st'. read_next (sample_conv\<lparr>unread := take 38 (cohort_image (zero_input_slot, [([97], long_slot)]))\<rparr>) = Some (True, st') \<and>
     ms_string (wo_result (hd (cr_outputs (results st')))) = [110, 0, 0, 0]"
proof -
  let ?c = "(zero_input_slot, [([97 :: byte], long_slot)])"
  let ?st = "sample_conv\<lparr>unread := take 38 (cohort_image ?c)\<rparr>"
  have slot: "output_slot_ok long_slot"
    by (simp add: long_slot_def slot_defs zero_output_slot_def)
  then have ok: "cohort_ok ?c"
    using zero_slots_ok(1) by (simp add: cohort_ok_def record_ok_def input_slot_ok_wf)
  have part: "last_part ([97], long_slot) = [110, 111, 112]"
    by (simp add: last_part_def long_slot_def)
  then have last: "last_string [([97], long_slot)] = [110, 111, 112]"
    by (simp add: last_string_def)
  have len: "length (cohort_image ?c) = 40"
    by (simp add: cohort_image_def record_image_def string_image_def long_slot_def input_slot_size input_slot_ok_wf)
  have run: "\<not> m_finished_parsing ?st" "38 < length (cohort_image ?c)" "unread ?st = take 38 (cohort_image ?c)"
    by (simp_all add: sample_conv_def len)
  have "\<exists>st'. read_next ?st = Some (True, st') \<and>
      cr_outputs (results st') = cut_views (map (malloc_junk ?st) [0..<1]) [([97], long_slot)] 1"
    using cut_cohort_is_noticed [OF ok sample_conv_wf(1) run] by (simp add: last len)
  then show ?thesis
    by (auto simp: part cut_string_def)
qed

end
