(* ===== verification/Converter_Memory.thy ===== *)
theory Converter_Memory
  imports Converter_Json Alloc_Heap
begin

text \<open>
  The memory of the converter (src/mish2jsonl/mish2jsonl.c): the array and the strings that
  \<open>read_next\<close> allocates, the escaped results, and \<open>free_cohort_results\<close>. The definitions are those of
  \<open>Converter_Input\<close> and \<open>Converter_Json\<close> with the heap of \<open>Alloc_Heap\<close> threaded through; what is
  read or freed has to be allocated. What is shown: forgetting the heap gives the functions the
  other theories are about, no block is freed twice or used after it was freed, and what is left at
  the end is what the last, failing \<open>read_next\<close> allocated.
\<close>

section \<open>Reading\<close>

text \<open>The block of \<open>results.outputs\<close> and the pairs of strings its elements point to.\<close>

record cohort_blocks =
  cb_outputs :: nat
  cb_strings :: "(nat \<times> nat) list"

definition read_string_mem :: "nat \<Rightarrow> conv_state \<Rightarrow> heap \<Rightarrow> (m_string \<times> nat \<times> conv_state \<times> heap) option" where
  "read_string_mem len_size st h = do {
     (s, st) \<leftarrow> read_string len_size st;
     let (input, h) = heap_new h;
     Some (s, input, st, h) }"

definition read_output_mem :: "worker_output \<Rightarrow> conv_state \<Rightarrow> heap \<Rightarrow>
    (worker_output \<times> (nat \<times> nat) \<times> conv_state \<times> heap) option" where
  "read_output_mem w st h = do {
     (so, a, st, h) \<leftarrow> read_string_mem 8 st h;
     let (raw, st) = m_fread (le_enc 4 (wo_status w)) 4 1 st;
     let w = w\<lparr>wo_workerso := so, wo_status := le_dec raw\<rparr>;
     let (raw, st) = m_fread (le_enc 2 (wo_ndecoded w)) 2 1 st;
     let w = w\<lparr>wo_ndecoded := le_dec raw\<rparr>;
     (res, b, st, h) \<leftarrow> read_string_mem 2 st h;
     Some (w\<lparr>wo_result := res\<rparr>, (a, b), st, h) }"

fun read_each_mem :: "worker_output list \<Rightarrow> conv_state \<Rightarrow> heap \<Rightarrow>
    (worker_output list \<times> (nat \<times> nat) list \<times> conv_state \<times> heap) option" where
  "read_each_mem [] st h = Some ([], [], st, h)"
| "read_each_mem (w # ws) st h = do {
     (r, p, st, h) \<leftarrow> read_output_mem w st h;
     (rs, ps, st, h) \<leftarrow> read_each_mem ws st h;
     Some (r # rs, p # ps, st, h) }"

definition read_next_mem :: "conv_state \<Rightarrow> heap \<Rightarrow> (bool \<times> conv_state \<times> cohort_blocks \<times> heap) option" where
  "read_next_mem st h = do {
     let (_, raw, f) = fread (le_enc 4 (cr_nworkers (results st))) 4 1 (unread st);
     let st = st\<lparr>unread := f\<rparr>;
     let nworkers = (le_dec raw :: u32);
     let (block, h) = heap_new h;
     let outputs = map (malloc_junk st) [0..<unat nworkers];
     let (input, st) = read_input_slot (cr_input (results st)) st;
     (outputs, ps, st, h) \<leftarrow> read_each_mem outputs st h;
     let st = st\<lparr>results := \<lparr>cr_nworkers = nworkers, cr_input = input, cr_outputs = outputs\<rparr>\<rparr>;
     Some (\<not> m_finished_parsing st, st, \<lparr>cb_outputs = block, cb_strings = ps\<rparr>, h) }"

section \<open>Printing and freeing\<close>

definition print_output_mem :: "(nat \<Rightarrow> byte) \<Rightarrow> nat \<Rightarrow> worker_output \<Rightarrow> nat \<times> nat \<Rightarrow> heap \<Rightarrow>
    (byte list \<times> heap) option" where
  "print_output_mem junk block w p h = do {
     (if usable [block, fst p, snd p] h then Some () else None);
     let (escaped_result, h) = heap_new h;
     b \<leftarrow> print_output junk w;
     h \<leftarrow> heap_delete (Some escaped_result) h;
     Some (b, h) }"

fun print_outputs_mem :: "(nat \<Rightarrow> byte) \<Rightarrow> nat \<Rightarrow> nat \<Rightarrow> worker_output list \<Rightarrow> (nat \<times> nat) list \<Rightarrow> heap \<Rightarrow>
    (byte list \<times> heap) option" where
  "print_outputs_mem junk i block (w # ws) (p # ps) h = do {
     (b, h) \<leftarrow> print_output_mem junk block w p h;
     (bs, h) \<leftarrow> print_outputs_mem junk (i + 1) block ws ps h;
     Some ((if i \<noteq> 0 then bytes_of '','' else []) @ b @ bs, h) }"
| "print_outputs_mem junk i block ws ps h = Some ([], h)"

definition m_cohort_print_json_mem :: "(nat \<Rightarrow> byte) \<Rightarrow> cohort_results \<Rightarrow> cohort_blocks \<Rightarrow> heap \<Rightarrow>
    (byte list \<times> heap) option" where
  "m_cohort_print_json_mem junk r bl h = do {
     hex \<leftarrow> print_hex junk (cr_input r);
     (outs, h) \<leftarrow> print_outputs_mem junk 0 (cb_outputs bl) (cr_outputs r) (cb_strings bl) h;
     Some (bytes_of ''{ \"nworkers\": '' @ dec_digits (unat (cr_nworkers r)) @
       bytes_of '', \"input\": \"'' @ hex @ bytes_of ''\", \"outputs\": ['' @ outs @
       bytes_of '']}'', h) }"

text \<open>
  \<open>free_cohort_results\<close> works on the static \<open>results\<close>, whatever it is given: the strings of the first
  \<open>nworkers\<close> elements, each read from the array, then the array.
\<close>

fun free_outputs :: "nat \<Rightarrow> nat \<Rightarrow> (nat \<times> nat) list \<Rightarrow> heap \<Rightarrow> heap option" where
  "free_outputs 0 block ps h = Some h"
| "free_outputs (Suc k) block [] h = None"
| "free_outputs (Suc k) block ((a, b) # ps) h = do {
     (if usable [block] h then Some () else None);
     h \<leftarrow> heap_delete (Some a) h;
     h \<leftarrow> heap_delete (Some b) h;
     free_outputs k block ps h }"

definition free_cohort_results :: "cohort_results \<Rightarrow> cohort_blocks \<Rightarrow> heap \<Rightarrow> heap option" where
  "free_cohort_results r bl h = do {
     h \<leftarrow> free_outputs (unat (cr_nworkers r)) (cb_outputs bl) (cb_strings bl) h;
     heap_delete (Some (cb_outputs bl)) h }"

section \<open>Forgetting the heap\<close>

lemma read_output_mem_eq: "read_output_mem w st h = (case read_output w st of None \<Rightarrow> None
    | Some (r, st') \<Rightarrow> Some (r, (h_next h, h_next h + 1), st', snd (heap_new (snd (heap_new h)))))"
  by (auto simp: read_output_mem_def read_output_def read_string_mem_def heap_new_def Let_def
      split: prod.splits option.splits Option.bind_splits)

lemma read_each_mem_plain: "read_each_mem ws st h = Some (rs, ps, st', h') \<Longrightarrow>
    read_each read_output ws st = Some (rs, st') \<and> length ps = length rs \<and> length rs = length ws"
proof (induction ws arbitrary: st h rs ps)
  case (Cons w ws)
  then obtain r st1 where 1: "read_output w st = Some (r, st1)"
    by (auto simp: read_output_mem_eq split: Option.bind_splits option.splits)
  with Cons.prems obtain rs' ps' where 2: "rs = r # rs'" "ps = (h_next h, h_next h + 1) # ps'"
      "read_each_mem ws st1 (snd (heap_new (snd (heap_new h)))) = Some (rs', ps', st', h')"
    by (auto simp: read_output_mem_eq split: Option.bind_splits)
  from Cons.IH [OF this(3)] show ?case
    by (simp add: 1 2)
qed simp

lemma read_next_mem_plain: "read_next_mem st h = Some (go, st', bl, h') \<Longrightarrow>
    read_next st = Some (go, st') \<and> length (cb_strings bl) = unat (cr_nworkers (results st')) \<and>
    length (cr_outputs (results st')) = unat (cr_nworkers (results st'))"
  by (auto simp: read_next_mem_def read_next_def Let_def split: prod.splits Option.bind_splits
      dest!: read_each_mem_plain)

function print_jsonl_mem :: "(nat \<Rightarrow> byte) \<Rightarrow> conv_state \<Rightarrow> heap \<Rightarrow> (byte list \<times> conv_state \<times> heap) option" where
  "print_jsonl_mem junk st h =
     (case read_next_mem st h of
        None \<Rightarrow> None
      | Some (False, st', bl, h') \<Rightarrow> Some ([], st', h')
      | Some (True, st', bl, h') \<Rightarrow> do {
          (b, h') \<leftarrow> m_cohort_print_json_mem junk (results st') bl h';
          h' \<leftarrow> free_cohort_results (results st') bl h';
          (bs, st', h') \<leftarrow> print_jsonl_mem junk st' h';
          Some (b @ [10] @ bs, st', h') })"
  by auto
termination
  by (relation "measure (\<lambda>(_, st, _). length (unread st))")
    (auto dest!: read_next_mem_plain read_next_consumes(2))

function print_json_mem :: "(nat \<Rightarrow> byte) \<Rightarrow> bool \<Rightarrow> conv_state \<Rightarrow> heap \<Rightarrow> (byte list \<times> conv_state \<times> heap) option" where
  "print_json_mem junk is_first st h =
     (case read_next_mem st h of
        None \<Rightarrow> None
      | Some (False, st', bl, h') \<Rightarrow> Some ([], st', h')
      | Some (True, st', bl, h') \<Rightarrow>
          if \<not> m_finished_parsing st' then do {
            (b, h') \<leftarrow> m_cohort_print_json_mem junk (results st') bl h';
            h' \<leftarrow> free_cohort_results (results st') bl h';
            (bs, st', h') \<leftarrow> print_json_mem junk False st' h';
            Some ((if \<not> is_first then bytes_of '','' else []) @ b @ [10] @ bs, st', h') }
          else print_json_mem junk is_first st' h')"
  by auto
termination
  by (relation "measure (\<lambda>(_, _, st, _). length (unread st))")
    (auto dest!: read_next_mem_plain read_next_consumes(2))

declare print_jsonl_mem.simps [simp del] print_json_mem.simps [simp del]

definition results_jsonl_mem :: "(nat \<Rightarrow> byte) \<Rightarrow> conv_state \<Rightarrow> heap \<Rightarrow> (byte list \<times> conv_state \<times> heap) option" where
  "results_jsonl_mem junk st h = print_jsonl_mem junk (st\<lparr>m_finished_parsing := False\<rparr>) h"

definition results_json_mem :: "(nat \<Rightarrow> byte) \<Rightarrow> conv_state \<Rightarrow> heap \<Rightarrow> (byte list \<times> conv_state \<times> heap) option" where
  "results_json_mem junk st h = do {
     (bs, st, h) \<leftarrow> print_json_mem junk True (st\<lparr>m_finished_parsing := False\<rparr>) h;
     Some (bytes_of ''['' @ bs @ bytes_of '']'', st, h) }"

section \<open>One cohort\<close>

definition string_addrs :: "(nat \<times> nat) list \<Rightarrow> nat list" where
  "string_addrs ps = concat (map (\<lambda>(a, b). [a, b]) ps)"

lemma string_addrs_simps [simp]: "string_addrs [] = []" "string_addrs ((a, b) # ps) = a # b # string_addrs ps"
  by (simp_all add: string_addrs_def)

lemma length_string_addrs: "length (string_addrs ps) = 2 * length ps"
  by (induction ps) auto

definition block_addrs :: "cohort_blocks \<Rightarrow> nat list" where
  "block_addrs bl = string_addrs (cb_strings bl) @ [cb_outputs bl]"

lemma read_each_mem_adds:
  "read_each read_output ws st = Some (rs, st') \<Longrightarrow> added as h0 h \<Longrightarrow>
   \<exists>ps h'. read_each_mem ws st h = Some (rs, ps, st', h') \<and> added (string_addrs ps @ as) h0 h'"
proof (induction ws arbitrary: st rs as h)
  case (Cons w ws)
  then obtain r st1 rs' where 1: "read_output w st = Some (r, st1)" "read_each read_output ws st1 = Some (rs', st')"
      "rs = r # rs'"
    by (auto split: Option.bind_splits)
  obtain a h1 b h2 where h: "heap_new h = (a, h1)" "heap_new h1 = (b, h2)"
    by fastforce
  then have ab: "a = h_next h" "b = h_next h + 1"
    by (auto simp: heap_new_def)
  have "added (b # a # as) h0 h2"
    using Cons.prems(2) h by (blast intro: added_new)
  from Cons.IH [OF 1(2) this] obtain ps h' where 2: "read_each_mem ws st1 h2 = Some (rs', ps, st', h')"
      "added (string_addrs ps @ b # a # as) h0 h'"
    by blast
  from 2(2) have "added (string_addrs ((a, b) # ps) @ as) h0 h'"
    by (rule added_mset) simp
  moreover have "read_each_mem (w # ws) st h = Some (rs, (a, b) # ps, st', h')"
    using 1 2(1) h ab by (simp add: read_output_mem_eq)
  ultimately show ?case
    by blast
qed auto

lemma read_next_mem_None: "read_next st = None \<Longrightarrow> read_next_mem st h = None"
  using read_next_mem_plain by (metis not_None_eq prod_cases4 option.distinct(1))

definition blocks_fit :: "cohort_blocks \<Rightarrow> cohort_results \<Rightarrow> bool" where
  "blocks_fit bl r \<longleftrightarrow> length (cb_strings bl) = unat (cr_nworkers r) \<and> length (cr_outputs r) = unat (cr_nworkers r)"

lemma read_next_mem_adds:
  assumes "read_next st = Some (go, st')" and "added [] h0 h"
  shows "\<exists>bl h'. read_next_mem st h = Some (go, st', bl, h') \<and> added (block_addrs bl) h0 h' \<and> blocks_fit bl (results st')"
proof -
  obtain q raw f where f: "fread (le_enc 4 (cr_nworkers (results st))) 4 1 (unread st) = (q, raw, f)"
    by (metis prod_cases3)
  define n :: u32 where "n = le_dec raw"
  obtain input st1 where i: "read_input_slot (cr_input (results (st\<lparr>unread := f\<rparr>))) (st\<lparr>unread := f\<rparr>) = (input, st1)"
    by fastforce
  obtain block h1 where h: "heap_new h = (block, h1)"
    by fastforce
  obtain outs st2 where e: "read_each read_output (map (malloc_junk (st\<lparr>unread := f\<rparr>)) [0..<unat n]) st1 = Some (outs, st2)"
      and res: "st' = st2\<lparr>results := \<lparr>cr_nworkers = n, cr_input = input, cr_outputs = outs\<rparr>\<rparr>" "go = (\<not> m_finished_parsing st2)"
    using assms(1) f i by (auto simp: read_next_def n_def Let_def split: Option.bind_splits)
  from read_each_mem_adds [OF e added_new [OF assms(2) h]] obtain ps h' where
    m: "read_each_mem (map (malloc_junk (st\<lparr>unread := f\<rparr>)) [0..<unat n]) st1 h1 = Some (outs, ps, st2, h')"
       "added (string_addrs ps @ [block]) h0 h'"
    by blast
  have run: "read_next_mem st h = Some (go, st', \<lparr>cb_outputs = block, cb_strings = ps\<rparr>, h')"
    using f i h m(1) res by (simp add: read_next_mem_def n_def Let_def)
  with m(2) read_next_mem_plain [OF run] show ?thesis
    by (intro exI [of _ "\<lparr>cb_outputs = block, cb_strings = ps\<rparr>"]) (simp add: block_addrs_def blocks_fit_def)
qed

lemma print_output_mem_keeps:
  assumes "added as h0 h" and "{block, fst p, snd p} \<subseteq> set as"
  shows "case print_output junk w of None \<Rightarrow> print_output_mem junk block w p h = None
    | Some b \<Rightarrow> \<exists>h'. print_output_mem junk block w p h = Some (b, h') \<and> added as h0 h'"
proof -
  obtain e h1 where h: "heap_new h = (e, h1)"
    by fastforce
  obtain h2 where "heap_delete (Some e) h1 = Some h2" "added as h0 h2"
    using added_delete [OF added_new [OF assms(1) h]] by blast
  moreover have "usable [block, fst p, snd p] h"
    using assms by (intro added_usable) auto
  ultimately show ?thesis
    using h by (auto simp: print_output_mem_def simp del: usable_iff split: option.split)
qed

lemma print_outputs_mem_keeps:
  "added as h0 h \<Longrightarrow> block \<in> set as \<Longrightarrow> set (string_addrs ps) \<subseteq> set as \<Longrightarrow> length ps = length ws \<Longrightarrow>
   case print_outputs junk i ws of None \<Rightarrow> print_outputs_mem junk i block ws ps h = None
    | Some b \<Rightarrow> \<exists>h'. print_outputs_mem junk i block ws ps h = Some (b, h') \<and> added as h0 h'"
proof (induction ws arbitrary: i ps h)
  case (Cons w ws)
  then obtain a b ps' where ps: "ps = (a, b) # ps'"
    by (cases ps) auto
  have one: "case print_output junk w of None \<Rightarrow> print_output_mem junk block w (a, b) h = None
    | Some x \<Rightarrow> \<exists>h'. print_output_mem junk block w (a, b) h = Some (x, h') \<and> added as h0 h'"
    using Cons.prems by (intro print_output_mem_keeps) (auto simp: ps)
  show ?case
  proof (cases "print_output junk w")
    case None
    then show ?thesis
      using one by (simp add: ps)
  next
    case (Some x)
    then obtain h1 where h1: "print_output_mem junk block w (a, b) h = Some (x, h1)" "added as h0 h1"
      using one by auto
    have "case print_outputs junk (i + 1) ws of None \<Rightarrow> print_outputs_mem junk (i + 1) block ws ps' h1 = None
      | Some y \<Rightarrow> \<exists>h'. print_outputs_mem junk (i + 1) block ws ps' h1 = Some (y, h') \<and> added as h0 h'"
      using Cons.prems h1(2) by (intro Cons.IH) (auto simp: ps)
    then show ?thesis
      using Some h1(1) by (auto simp: ps split: option.splits)
  qed
qed simp

lemma cohort_print_mem_keeps:
  assumes "added (block_addrs bl) h0 h" and "blocks_fit bl r"
  shows "case m_cohort_print_json junk r of None \<Rightarrow> m_cohort_print_json_mem junk r bl h = None
    | Some b \<Rightarrow> \<exists>h'. m_cohort_print_json_mem junk r bl h = Some (b, h') \<and> added (block_addrs bl) h0 h'"
proof -
  have "case print_outputs junk 0 (cr_outputs r) of
      None \<Rightarrow> print_outputs_mem junk 0 (cb_outputs bl) (cr_outputs r) (cb_strings bl) h = None
    | Some b \<Rightarrow> \<exists>h'. print_outputs_mem junk 0 (cb_outputs bl) (cr_outputs r) (cb_strings bl) h = Some (b, h') \<and>
        added (block_addrs bl) h0 h'"
    using assms by (intro print_outputs_mem_keeps) (auto simp: block_addrs_def blocks_fit_def)
  then show ?thesis
    by (auto simp: m_cohort_print_json_mem_def m_cohort_print_json_def split: option.splits Option.bind_splits)
qed

lemma free_outputs_frees:
  "added (string_addrs ps @ as) h0 h \<Longrightarrow> block \<in> set as \<Longrightarrow>
   \<exists>h'. free_outputs (length ps) block ps h = Some h' \<and> added as h0 h'"
proof (induction ps arbitrary: h)
  case (Cons p ps)
  obtain a b where p: "p = (a, b)"
    by (cases p)
  have "added (a # b # string_addrs ps @ as) h0 h"
    using Cons.prems(1) by (simp add: p)
  from added_delete [OF this] obtain h1 where h1: "heap_delete (Some a) h = Some h1" "added (b # string_addrs ps @ as) h0 h1"
    by blast
  from added_delete [OF h1(2)] obtain h2 where h2: "heap_delete (Some b) h1 = Some h2" "added (string_addrs ps @ as) h0 h2"
    by blast
  have "usable [block] h"
    using added_usable [OF Cons.prems(1), of "[block]"] Cons.prems(2) by auto
  with Cons.IH [OF h2(2) Cons.prems(2)] h1(1) h2(1) show ?case
    by (auto simp: p simp del: usable_iff)
qed auto

lemma free_cohort_frees:
  assumes "added (block_addrs bl) h0 h" and "blocks_fit bl r"
  shows "\<exists>h'. free_cohort_results r bl h = Some h' \<and> added [] h0 h'"
proof -
  obtain h1 where h1: "free_outputs (length (cb_strings bl)) (cb_outputs bl) (cb_strings bl) h = Some h1"
      "added [cb_outputs bl] h0 h1"
    using free_outputs_frees [OF assms(1) [unfolded block_addrs_def], of "cb_outputs bl"] by auto
  then show ?thesis
    using added_delete [OF h1(2)] assms(2) by (auto simp: free_cohort_results_def blocks_fit_def)
qed

section \<open>A whole run\<close>

text \<open>What a run with memory makes of a run without, when \<open>nworkers\<close> is what the last read took it to be.\<close>

definition left_over :: "heap \<Rightarrow> (byte list \<times> conv_state) option \<Rightarrow> (byte list \<times> conv_state \<times> heap) option \<Rightarrow> bool" where
  "left_over h0 plain mem =
     (case plain of None \<Rightarrow> mem = None
      | Some (bs, st') \<Rightarrow> \<exists>as h'. mem = Some (bs, st', h') \<and> added as h0 h' \<and>
          length as = 1 + 2 * unat (cr_nworkers (results st')))"

lemma left_over_end: "added (block_addrs bl) h0 h' \<Longrightarrow> blocks_fit bl (results st') \<Longrightarrow>
    left_over h0 (Some ([], st')) (Some ([], st', h'))"
  by (auto simp: left_over_def blocks_fit_def block_addrs_def length_string_addrs intro!: exI [of _ "block_addrs bl"])

text \<open>One turn of either loop after a \<open>read_next\<close> that went well.\<close>

lemma turn_mem:
  assumes "added (block_addrs bl) h0 h1" and "blocks_fit bl r"
  obtains (fails) "m_cohort_print_json junk r = None" "m_cohort_print_json_mem junk r bl h1 = None"
  | (prints) b h2 h3 where "m_cohort_print_json junk r = Some b" "m_cohort_print_json_mem junk r bl h1 = Some (b, h2)"
      "free_cohort_results r bl h2 = Some h3" "added [] h0 h3"
proof (cases "m_cohort_print_json junk r")
  case None
  then show thesis
    using cohort_print_mem_keeps [OF assms, of junk] fails by simp
next
  case (Some b)
  then obtain h2 where "m_cohort_print_json_mem junk r bl h1 = Some (b, h2)" "added (block_addrs bl) h0 h2"
    using cohort_print_mem_keeps [OF assms, of junk] by auto
  with free_cohort_frees [OF this(2) assms(2)] Some show thesis
    using prints by blast
qed

lemma print_jsonl_mem_left: "added [] h0 h \<Longrightarrow> left_over h0 (print_jsonl_loop junk st) (print_jsonl_mem junk st h)"
proof (induction junk st arbitrary: h rule: print_jsonl_loop.induct)
  case (1 junk st)
  note loops = print_jsonl_loop.simps [of junk st] print_jsonl_mem.simps [of junk st]
  show ?case
  proof (cases "read_next st")
    case None
    then show ?thesis
      by (simp add: loops read_next_mem_None left_over_def)
  next
    case (Some x)
    then obtain go st1 where rd: "read_next st = Some (go, st1)"
      by (cases x) auto
    from read_next_mem_adds [OF rd 1(2)] obtain bl h1 where
      m: "read_next_mem st h = Some (go, st1, bl, h1)" "added (block_addrs bl) h0 h1" "blocks_fit bl (results st1)"
      by blast
    show ?thesis
    proof (cases go)
      case True
      show ?thesis
        using m(2,3)
      proof (cases rule: turn_mem [where junk = junk])
        case fails
        then show ?thesis
          by (simp add: loops rd m(1) True left_over_def)
      next
        case (prints b h2 h3)
        have "left_over h0 (print_jsonl_loop junk st1) (print_jsonl_mem junk st1 h3)"
          using 1(1) rd True prints by blast
        then show ?thesis
          by (auto simp: loops rd m(1) True prints left_over_def split: option.splits)
      qed
    qed (use left_over_end [OF m(2,3)] rd m(1) in \<open>simp add: loops\<close>)
  qed
qed

lemma print_json_mem_left: "added [] h0 h \<Longrightarrow> left_over h0 (print_json_loop junk first st) (print_json_mem junk first st h)"
proof (induction junk first st arbitrary: h rule: print_json_loop.induct)
  case (1 junk first st)
  note loops = print_json_loop.simps [of junk first st] print_json_mem.simps [of junk first st]
  show ?case
  proof (cases "read_next st")
    case None
    then show ?thesis
      by (simp add: loops read_next_mem_None left_over_def)
  next
    case (Some x)
    then obtain go st1 where rd: "read_next st = Some (go, st1)"
      by (cases x) auto
    from read_next_mem_adds [OF rd 1(3)] obtain bl h1 where
      m: "read_next_mem st h = Some (go, st1, bl, h1)" "added (block_addrs bl) h0 h1" "blocks_fit bl (results st1)"
      by blast
    show ?thesis
    proof (cases go)
      case True
      then have run: "\<not> m_finished_parsing st1"
        using read_next_consumes(3) [OF rd] by simp
      show ?thesis
        using m(2,3)
      proof (cases rule: turn_mem [where junk = junk])
        case fails
        then show ?thesis
          by (simp add: loops rd m(1) True run left_over_def)
      next
        case (prints b h2 h3)
        have "left_over h0 (print_json_loop junk False st1) (print_json_mem junk False st1 h3)"
          using 1(1) rd True run prints by blast
        then show ?thesis
          by (auto simp: loops rd m(1) True run prints left_over_def split: option.splits)
      qed
    qed (use left_over_end [OF m(2,3)] rd m(1) in \<open>simp add: loops\<close>)
  qed
qed

section \<open>The property\<close>

text \<open>C34: The converter frees every block once and uses none after that. With the heap made explicit the
  two conversions print what they print without it, on every stream: reading, printing and freeing
  never touch a block that is not allocated, in particular none is freed twice. In between two
  cohorts everything the conversion allocated is free again; what it leaves behind are the array
  and the two strings per worker of the last \<open>read_next\<close>, the one that found the end, with the
  number of workers that read left in \<open>results\<close>.\<close>

theorem converter_frees_cohorts:
  assumes "heap_ok h"
  shows "(case m_print_results_jsonl junk st of None \<Rightarrow> results_jsonl_mem junk st h = None
      | Some (bs, st') \<Rightarrow> \<exists>as h'. results_jsonl_mem junk st h = Some (bs, st', h') \<and> added as h h' \<and>
          length as = 1 + 2 * unat (cr_nworkers (results st'))) \<and>
    (case m_print_results_json junk st of None \<Rightarrow> results_json_mem junk st h = None
      | Some (bs, st') \<Rightarrow> \<exists>as h'. results_json_mem junk st h = Some (bs, st', h') \<and> added as h h' \<and>
          length as = 1 + 2 * unat (cr_nworkers (results st')))"
  using print_jsonl_mem_left [OF added_none [OF assms], of junk "st\<lparr>m_finished_parsing := False\<rparr>"]
    print_json_mem_left [OF added_none [OF assms], of junk True "st\<lparr>m_finished_parsing := False\<rparr>"]
  by (auto simp: results_jsonl_mem_def m_print_results_jsonl_def results_json_mem_def m_print_results_json_def
      left_over_def split: option.splits)

text \<open>The instance: one cohort of one worker; three blocks are left, those of the read that found the end.\<close>

theorem converter_frees_cohorts_witness:
  "\<exists>bs st' as h'. results_jsonl_mem (\<lambda>_. 7)
      (sample_conv\<lparr>unread := cohort_image (zero_input_slot, [([97], zero_output_slot)])\<rparr>) \<lparr>h_next = 0, h_live = []\<rparr> =
      Some (bs, st', h') \<and> added as \<lparr>h_next = 0, h_live = []\<rparr> h' \<and> length as = 3"
proof -
  let ?st = "sample_conv\<lparr>unread := cohort_image (zero_input_slot, [([97], zero_output_slot)])\<rparr>"
  have "map_option (\<lambda>(bs, st). unat (cr_nworkers (results st))) (m_print_results_jsonl (\<lambda>_. 7) ?st) = Some 1"
    by code_simp
  then obtain bs st' where run: "m_print_results_jsonl (\<lambda>_. 7) ?st = Some (bs, st')" "unat (cr_nworkers (results st')) = 1"
    by auto
  have "heap_ok \<lparr>h_next = 0, h_live = []\<rparr>"
    by (simp add: heap_ok_def)
  from converter_frees_cohorts [OF this, of "\<lambda>_. 7" ?st, THEN conjunct1] obtain as h' where
    "results_jsonl_mem (\<lambda>_. 7) ?st \<lparr>h_next = 0, h_live = []\<rparr> = Some (bs, st', h')"
    "added as \<lparr>h_next = 0, h_live = []\<rparr> h'" "length as = 1 + 2 * 1"
    unfolding run(1) option.case prod.case run(2) by blast
  then show ?thesis
    by (intro exI [of _ bs] exI [of _ st'] exI [of _ as] exI [of _ h']) simp
qed

end
