(* ===== verification/Spec2Isabelle.thy ===== *)
theory Spec2Isabelle
  imports Ring_Properties Ring_Adapters Thread_Mode Futex_Wait Command_Line Adapter_Properties
    Pcode_Walk Ghidra_Startup Sleigh_Engine Cache_Life Ring_Stall Worker_Spawn Manual_Run Cut_Stream
    Converter_Memory
begin

text \<open>
  Mishegos is a differential fuzzer for x86 decoders. One process, \<open>mishegos\<close>, invents instruction
  candidates and hands them to worker processes, each of which decodes them with one disassembler
  library; it collects the answers and writes the samples its filters keep to a binary stream,
  which the separate program \<open>mish2jsonl\<close> turns into JSON. This development models the C and C++
  parts: the fuzzer, the workers and the converter.

  Parts, theories and sources (paths under src/):

    \<^item> \<open>Prelude\<close>: words, arrays with checked accesses, little-endian images, C strings, runs of step
      relations with the locale \<open>traced_system\<close>. \<open>Mish_Common\<close>: include/mish_common.h and
      worker/worker.h, the slots through which fuzzer and workers communicate.
    \<^item> mishegos/mutator.c: \<open>Rng\<close> (xoshiro256**), \<open>Mutator\<close> (the dummy, sliding, structured and havoc
      generators over the static candidate and the generator's state), \<open>Manual_Input\<close> (manual mode,
      \<open>hex2bytes\<close>, \<open>mutator_create\<close>; the locale \<open>candidate_mutator\<close> is what the main loop relies on
      and is interpreted for every generator).
    \<^item> mishegos/mishegos.c: \<open>Command_Line\<close> (options, \<open>strtol\<close>, start-up of \<open>main\<close>), \<open>Worker_Config\<close> (the
      worker file and the worker table), \<open>Chunk_Fill\<close> (the refill of a chunk), \<open>Chunk_Ring\<close> (the main
      loop, the workers and the SIGCHLD handler around the ring of 16 chunks), \<open>Worker_Spawn\<close> (how
      \<open>worker_start\<close> makes a process), \<open>Worker_Process\<close> (what \<open>worker\<close> does before and after its loop,
      with the constructors of the C workers), \<open>Futex_Wait\<close> (the waits of the ring), \<open>Cohort_Output\<close>
      (the filters and the output stream).
    \<^item> worker/*: \<open>Worker_Adapters\<close> (bddisasm, bfd, capstone, dynamorio, fadec, llvm, xed and zydis:
      each \<open>try_decode\<close> over a record of the library functions it calls), \<open>Ghidra_Worker\<close> (ghidra.cc
      and what the engine of sleighMishegos.cc runs for one instruction), \<open>Pcode_Cacher\<close>,
      \<open>Pcode_Builder\<close> and \<open>Disassembly_Cache\<close> (the rest of sleighMishegos.cc and .hh that is complete
      in the source, although the worker does not reach it), \<open>Sleigh_Walk\<close> (its loops over parse trees),
      \<open>Pcode_Walk\<close> (the builder's walks over subtables and into other instructions), \<open>Engine_Life\<close> and
      \<open>Cache_Life\<close> (the objects the engine and its cache create and delete), \<open>Ghidra_Startup\<close> (the global
      objects and \<open>worker_ctor\<close>), \<open>Sleigh_Engine\<close> (the walks on the one parser context the worker reuses).
      \<open>Alloc_Heap\<close>: the heap these and the converter allocate from.
    \<^item> mish2jsonl/mish2jsonl.c: \<open>Converter_Input\<close> (reading cohorts), \<open>Cut_Stream\<close> (streams that end too early),
      \<open>Converter_Json\<close> (escaping, printing, \<open>main\<close>) and \<open>Converter_Memory\<close> (the blocks it allocates and frees).
    \<^item> This theory: the way of a sample from the main loop through \<open>write_output\<close> and the converter to
      its JSON line, and of an input printed there back through manual mode.

  Correspondence. A C array is a list, an access outside it the result \<open>None\<close>, so a theorem that a
  routine returns \<open>Some\<close> is a theorem that it stays inside its buffers. Integers are words of their
  width wherever they may wrap; the \<open>int\<close> bounds of the filters are integers with the conversion
  from \<open>long\<close> written out. Static variables, stdin and unread files are fields of the state that is
  passed along. Indeterminate memory is a parameter (\<open>junk\<close>) that the theorems quantify over. Errors,
  exceptions and early returns are values of sum and option types.

  The ring. \<open>main_step\<close>, \<open>worker_step\<close> and \<open>sigchld_handler\<close> perform one access to shared memory at
  a time, the program counters naming the accesses; \<open>ring_step\<close> interleaves them in all ways, with
  crashes during decoding. The invariant (\<open>Chunk_Ring_Inv\<close>) numbers the turns of the main loop and
  says for each chunk which workers have signed off from which turn; \<open>Ring_Main\<close>, \<open>Ring_Workers\<close> and
  \<open>Ring_Signal\<close> show that the steps keep it, \<open>Ring_Run\<close> makes the ring a \<open>traced_system\<close>,
  \<open>Ring_Progress\<close> draws the consequences and \<open>Ring_Properties\<close> states them: every published input
  is processed once and in order with one answer per worker, main loop and workers never meet in a
  chunk, counters do not wrap, and where no step is enabled the main loop has ended or some worker
  has left. \<open>Ring_Leaving\<close> shows that no worker goes on past the last chunk, and \<open>Thread_Mode\<close> that
  thread mode (\<open>-t\<close>) is simulated by the ring and that its joins end. \<open>Ring_Bound\<close> bounds the steps of
  a run by the number of chunks published, with a measure that every step of every process lowers.
  \<open>Manual_Run\<close> follows a list of instructions on the standard input through all chunks.
  \<open>Ring_Stall\<close> adds workers that do not start: the others run as if these had not moved yet, so the
  main loop stops before it has processed anything. \<open>Ring_Lapse\<close> builds the run in which a worker's
  late read of the input count makes the main loop wait forever, \<open>Ring_Complete\<close> a run that goes round
  the ring and ends. A wait is a step that is enabled when the awaited value is there. \<open>Futex_Wait\<close>
  looks into the waits at the granularity of the atomic accesses and system calls and says where
  that is justified: no wake-up is lost on hosts such as x86, where the load of the count of waiters
  stays behind the change it follows. The code makes that load relaxed; on a host that performs it
  first, such as arm64, a wake-up can be lost, and the run that loses it is part of the property.

  Processes. \<open>Worker_Spawn\<close> steps parent, children and signal handler from one system call to the next,
  with pipes, process ids and the death of the parent: the handler finds every dead child in the
  table (process ids that are given out twice apart), and no child waits for a byte that will not come.

  The workers. \<open>decoder_adapter\<close> and \<open>quiet_adapter\<close> are the contracts of \<open>try_decode\<close> towards the
  ring; \<open>Adapter_Contracts\<close> interprets them for the nine workers under the documented contracts of
  the libraries (predicates such as \<open>dynamorio_ok\<close>, with instances in \<open>Adapter_Properties\<close>). libopcodes
  and SLEIGH document no bound for the text they print, so for bfd and Ghidra the contract holds on
  the calls whose text fits (\<open>bfd_fits\<close>, \<open>ghidra_fits\<close>), and \<open>so_overflows\<close> says what happens on the
  others. \<open>Ring_Adapters\<close> runs the ring with the adapters: where the answers fit (\<open>answers_fit\<close>), the
  samples it processes are well-formed and \<open>write_output\<close> never reads past a slot. The start of
  the Ghidra worker is followed by any sequence of calls (\<open>decode_calls\<close>), each of which reads the
  context database and may write to it unless \<open>allowContextSet\<close> forbids it.

  The tree walks. The library's walker keeps a stack of positions and a map of nodes (\<open>walker_laws\<close>);
  over any such walker of bounded depth the loops of \<open>resolve\<close> and \<open>resolveHandles\<close> are shown to end
  and to be recursive descents, the second over the tree the first leaves. \<open>Sleigh_Engine\<close> runs
  them on one context from call to call; if \<open>resolve\<close> starts from a clean slate (\<open>context_laws\<close>), that
  engine refines the one of \<open>Ghidra_Worker\<close>, whose parse is a function of the buffer: the adapted
  engine needs neither the cache nor a new initialization to forget an instruction.

  Memory. \<open>added as h0 h\<close> says that a heap has the blocks \<open>as\<close> besides those of \<open>h0\<close>; freeing or using
  any other block has no value. The engine, its cache and the converter are shown to free what they
  allocated once; the converter leaves the blocks of its last read, the engine those of a repeated
  \<open>initialize\<close>.

  The p-code classes. A pointer into the pool of varnodes is an allocation and an index; what the
  cacher stands for (\<open>cacher_view\<close>) survives the move of the pool, and \<open>dump\<close> appends the code of an
  operation, given without pools or pointers as \<open>op_code\<close>, while nothing moves; two lemmas show the
  accesses through stale pointers when something does. The library's loop over a template calls back
  the builder's virtual functions; \<open>Pcode_Walk\<close> takes it as a parameter that acts on the builder only
  through them (\<open>builds_through_hooks\<close>) and shows that all of them leave the builder where it was.
  A call that needs more nesting than it is allowed has an outcome of its own, \<open>Too_Deep\<close>.

  Bounds and fuel. Loops are structural or have a measure (lines and bytes left to read, slots left
  to fill); the walks of the engine, which may not end for an arbitrary library, are option-valued
  with the end proved. The reference descent takes the depth bound of the walker as fuel. The
  calls of the p-code builder are nested as deep as the specification makes them, so their depth is
  an argument of the model, which also bounds the turns of the loop over delay slots. Where subtables
  and the instructions woven in are lower in some rank than what asks for them (\<open>nesting_lowers\<close>), a
  bound above the rank and the bytes of a delay slot is never reached (\<open>build_shallow\<close>), and a larger
  one does not change the outcome (\<open>build_at_settles\<close>). The constants are the source's: 15 bytes of an instruction, 248 of
  a result, 31 workers, 4096 inputs in each of 16 chunks.

  Assumptions. Atomic accesses are sequentially consistent in the ring, as the code makes them; the
  relaxed accesses to the count of waiters occur only in \<open>Futex_Wait\<close>, where the early load is a step
  of its own, while a system call orders the accesses of the thread that makes it. The main loop's
  generation number, a \<open>uint64_t\<close> in the code, is a natural number, since it does not come to wrap;
  its 32 bits in a chunk are a word. A call of \<open>try_decode\<close> in the ring is a function of the slot and
  the input. Library functions are parameters with their documented behaviour as named hypotheses.
  Hosts are little-endian with 64-bit pointers.

  Not modelled. Shared mappings and the creation of threads; failing writes and allocations, which
  end the programs; messages on standard error; the build without xoshiro256** and the seeding by
  \<open>getrandom\<close> (the seed is a parameter); the rest of \<open>oneInstruction\<close> behind the
  exception it throws first. The workers in Rust, the Ruby scripts over the JSON output, and the
  build files are not in C or C++.
\<close>

section \<open>Properties that span components\<close>

text \<open>The samples one run keeps, as the converter will see them.\<close>

definition kept_cohorts ::
  "filter_config \<Rightarrow> byte list list \<Rightarrow> (input_slot \<times> output_slot list) list \<Rightarrow> cohort list" where
  "kept_cohorts cfg sonames samples =
     map (\<lambda>(inp, outs). sample_cohort sonames inp outs) (filter (\<lambda>(inp, outs). keep_sample cfg outs) samples)"

text \<open>The output stream of the main loop: every processed sample in turn goes through \<open>process\<close>.\<close>

fun output_stream :: "filter_config \<Rightarrow> byte list list \<Rightarrow> (input_slot \<times> output_slot list) list \<Rightarrow>
    byte list option" where
  "output_stream cfg sonames [] = Some []"
| "output_stream cfg sonames ((inp, outs) # samples) = do {
     b \<leftarrow> process cfg sonames inp outs;
     bs \<leftarrow> output_stream cfg sonames samples;
     Some (b @ bs) }"

lemma output_stream_image:
  "\<forall>(inp, outs) \<in> set samples. length outs = length sonames \<and> (\<forall>r \<in> set outs. output_slot_ok r) \<Longrightarrow>
   output_stream cfg sonames samples = Some (concat (map cohort_image (kept_cohorts cfg sonames samples)))"
  by (induction samples)
    (auto simp: kept_cohorts_def process_def write_sample_image)

lemma output_stream_json:
  assumes "\<forall>(inp, outs) \<in> set samples. input_slot_ok inp \<and> length outs = length sonames \<and>
      (\<forall>r \<in> set outs. output_slot_ok r)"
    and "length sonames \<le> MISHEGOS_MAX_NWORKERS" and "\<forall>so \<in> set sonames. length so < 2 ^ 64 - 1"
    and "conv_wf st"
  shows "\<exists>bytes st'. output_stream cfg sonames samples = Some bytes \<and>
    m_print_results_jsonl junk (st\<lparr>unread := bytes\<rparr>) = Some (concat (map
    (\<lambda>(inp, outs). cohort_json (cohort_view (malloc_junk st) (sample_cohort sonames inp outs)) @ [10])
    (filter (\<lambda>(inp, outs). keep_sample cfg outs) samples)), st')"
proof -
  let ?cs = "kept_cohorts cfg sonames samples"
  have ok: "\<forall>c \<in> set ?cs. cohort_ok c \<and> input_slot_ok (fst c)"
    using assms(1-3)
    by (fastforce simp: kept_cohorts_def cohort_ok_def sample_cohort_def record_ok_def
        input_slot_ok_wf dest: set_zip_leftD set_zip_rightD)
  define bytes where bytes: "bytes = concat (map cohort_image ?cs)"
  have stream: "output_stream cfg sonames samples = Some bytes"
    unfolding bytes using assms(1) by (intro output_stream_image) auto
  define st1 where "st1 = st\<lparr>unread := bytes, m_finished_parsing := False\<rparr>"
  have st1: "unread st1 = concat (map cohort_image ?cs)" "conv_wf st1" "\<not> m_finished_parsing st1"
      "malloc_junk st1 = malloc_junk st"
    using assms(4) by (simp_all add: st1_def conv_wf_def bytes)
  obtain st' where "print_jsonl_loop junk st1 =
      Some (concat (map (\<lambda>c. cohort_json (cohort_view (malloc_junk st1) c) @ [10]) ?cs), st')"
    using print_jsonl_loop_stream [OF ok st1(2,3,1)] by blast
  then show ?thesis
    by (intro exI [of _ bytes] exI [of _ st'])
      (simp add: stream m_print_results_jsonl_def st1_def kept_cohorts_def case_prod_unfold comp_def)
qed

text \<open>C6: From the main loop to the JSON lines. Whatever samples are processed, of well-formed inputs and
  outputs (arrays of their sizes with a recorded length within them) and one output for each of at
  most 31 workers, the bytes the main loop writes are converted by \<open>mish2jsonl\<close> into exactly one line
  per kept sample, in order, with the sample's input, the workers' names and what each of them
  answered; samples that are filtered out leave no trace.\<close>

theorem samples_reach_json_lines:
  assumes "\<forall>(inp, outs) \<in> set samples. input_slot_ok inp \<and> length outs = length sonames \<and>
      (\<forall>r \<in> set outs. output_slot_ok r)"
    and "length sonames \<le> MISHEGOS_MAX_NWORKERS" and "\<forall>so \<in> set sonames. length so < 2 ^ 64 - 1"
    and "conv_wf st" and "output_stream cfg sonames samples = Some bytes"
  shows "\<exists>st'. m_print_results_jsonl junk (st\<lparr>unread := bytes\<rparr>) = Some (concat (map
    (\<lambda>(inp, outs). cohort_json (cohort_view (malloc_junk st) (sample_cohort sonames inp outs)) @ [10])
    (filter (\<lambda>(inp, outs). keep_sample cfg outs) samples)), st')"
  using output_stream_json [OF assms(1-4), of cfg junk] assms(5) by auto

theorem samples_reach_json_lines_witness:
  "\<exists>st' line. m_print_results_jsonl (\<lambda>_. 7) (sample_conv\<lparr>unread :=
      the (output_stream default_filter [[97]] [(zero_input_slot, [zero_output_slot\<lparr>status := S_SUCCESS\<rparr>]),
        (zero_input_slot, [zero_output_slot])])\<rparr>) = Some (line @ [10], st')"
proof -
  let ?r = "zero_output_slot\<lparr>status := S_SUCCESS\<rparr>"
  let ?samples = "[(zero_input_slot, [?r]), (zero_input_slot, [zero_output_slot])]"
  have ok: "output_slot_ok ?r"
    by (simp add: slot_defs zero_output_slot_def)
  then have "output_stream default_filter [[97]] ?samples =
      Some (the (output_stream default_filter [[97]] ?samples))"
    by (subst (1 2) output_stream_image) auto
  moreover have "filter (\<lambda>(inp, outs). keep_sample default_filter outs) ?samples = [(zero_input_slot, [?r])]"
    by (simp add: keep_sample_iff successes_def default_filter_def zero_output_slot_def)
  ultimately show ?thesis
    using samples_reach_json_lines [of ?samples "[[97]]" sample_conv default_filter
        "the (output_stream default_filter [[97]] ?samples)" "\<lambda>_. 7"] ok
    by auto
qed

text \<open>C7: From the instruction generator to the JSON lines. Take any run of the ring, with any
  interleaving and any crashes, whose workers are the adapters of the repository over libraries
  that keep their documented contracts. If no empty input is published and the answers to the
  published inputs fit their slots (the text of a bfd or Ghidra call that returns fits the 248
  bytes, which those libraries do not promise, and a call that crashes leaves a length of at most
  248), then every sample processed so far can be written, and \<open>mish2jsonl\<close> turns the bytes written
  into exactly one line for each sample the filters keep, in order, with the input, the workers'
  names and their answers.\<close>

theorem fuzz_run_reaches_json_lines:
  assumes "ring_initial u s0" and "ring_run u s0 es s" and "adapters_run debug sos crash u"
    and "\<forall>x \<in> set (concat (published es)). in_len x \<noteq> 0 \<and> answers_fit sos crash (su_nworkers u) x"
    and "length sonames = su_nworkers u" and "\<forall>so \<in> set sonames. length so < 2 ^ 64 - 1" and "conv_wf st"
  shows "\<exists>bytes. output_stream cfg sonames (processed es) = Some bytes \<and>
    conv_main junk fopen [] [] (st\<lparr>unread := bytes\<rparr>) = Some (Conv_Printed (concat (map
      (\<lambda>(inp, outs). cohort_json (cohort_view (malloc_junk st) (sample_cohort sonames inp outs)) @ [10])
      (filter (\<lambda>(inp, outs). keep_sample cfg outs) (processed es)))))"
proof -
  have ok: "\<forall>(inp, outs) \<in> set (processed es). input_slot_ok inp \<and> length outs = length sonames \<and>
      (\<forall>r \<in> set outs. output_slot_ok r)"
    using adapters_samples_ok [OF assms(1-4)] assms(5) by simp
  have "length sonames \<le> MISHEGOS_MAX_NWORKERS"
    using assms(1,5) by (auto simp: ring_initial_def)
  from output_stream_json [OF ok this assms(6,7), of cfg junk] show ?thesis
    by (auto simp: conv_main_def)
qed

text \<open>The instance: a bfd worker that prints one mnemonic.\<close>

definition nop_bfd :: bfd_lib where
  "nop_bfd = \<lparr>bfd_disasm = \<lambda>raw n. ([bytes_of ''nop''], 1)\<rparr>"

definition nop_sos :: "nat \<Rightarrow> (unit, unit) worker_so" where
  "nop_sos i = Bfd_so nop_bfd"

definition nop_answer :: output_slot where
  "nop_answer = zero_output_slot\<lparr>status := S_SUCCESS,
     result := bytes_of ''nop'' @ 10 # replicate 244 0, out_len := 4, ndecoded := 1\<rparr>"

abbreviation nop_fuzz :: fuzz_config where
  "nop_fuzz \<equiv> demo_with (\<lambda>i. worker_call False (nop_sos i) (\<lambda>inp. None))"

lemma nop_bfd_answers: "so_try_decode False (nop_sos i) zero_output_slot raw n = Some (nop_answer, [])"
proof -
  have "\<not> sublist (bytes_of ''(bad)'') (c_string (bytes_of ''nop'' @ [10]))"
    by (auto simp: sublist_def bytes_of_def c_string_def Cons_eq_append_conv append_eq_Cons_conv)
  moreover have "overlay (bytes_of ''nop'' @ [10]) (replicate 248 0) =
      bytes_of ''nop'' @ 10 # replicate 244 (0 :: byte)"
    by (simp add: overlay_def bytes_of_def)
  ultimately show ?thesis
    using bfd_try_decode_fits [of zero_output_slot nop_bfd raw n "[bytes_of ''nop'']" 1 False]
    by (simp add: nop_sos_def nop_bfd_def nop_answer_def bfd_line_def zero_output_slot_def bytes_of_def)
qed

lemma nop_run: "adapters_run False nop_sos (\<lambda>i inp. None) nop_fuzz"
  by (simp add: adapters_run_def demo_with_def nop_sos_def)

theorem fuzz_run_reaches_json_lines_witness:
  "\<exists>es s x bytes line. ring_run nop_fuzz demo_start es s \<and> m_pc s = MDone \<and>
    processed es = [(x, [nop_answer])] \<and> insn_bytes x = [0x90] \<and>
    output_stream default_filter [[97]] (processed es) = Some bytes \<and>
    conv_main (\<lambda>_. 7) (\<lambda>_. None) [] [] (sample_conv\<lparr>unread := bytes\<rparr>) = Some (Conv_Printed (line @ [10]))"
proof -
  obtain s x where run: "ring_run nop_fuzz demo_start [Published [x], Processed x [nop_answer]] s"
      and x: "insn_bytes x = [0x90]" "m_pc s = MDone"
    using complete_run_with [of "\<lambda>i. worker_call False (nop_sos i) (\<lambda>inp. None)" "\<lambda>x. nop_answer"]
    by (auto simp: worker_call_def nop_bfd_answers)
  have "in_len x \<noteq> 0"
    using x(1) by (auto simp: insn_bytes_def)
  moreover have "answers_fit nop_sos (\<lambda>i inp. None) 1 x"
    by (simp add: answers_fit_def nop_sos_def nop_bfd_def bfd_fits_def bytes_of_def)
  moreover have "filter (\<lambda>(inp, outs). keep_sample default_filter outs) [(x, [nop_answer])] = [(x, [nop_answer])]"
    by (simp add: keep_sample_iff successes_def default_filter_def nop_answer_def)
  ultimately show ?thesis
    using fuzz_run_reaches_json_lines [OF demo_initial run nop_run, of "[[97]]" sample_conv
        default_filter "\<lambda>_. 7" "\<lambda>_. None"] run x sample_conv_wf
    by (fastforce simp: demo_with_def)
qed

text \<open>C38: A result can be replayed. The hexadecimal input that \<open>mish2jsonl\<close> prints for a sample with a
  non-empty instruction (1 to 15 bytes), given as a line to manual mode, produces a candidate with
  exactly the sample's instruction bytes.\<close>

theorem printed_input_replays:
  assumes "input_slot_ok inp" and "1 \<le> unat (in_len inp)" and "print_hex junk inp = Some hex"
    and "stdin e = hex @ 10 # rest" and "input_slot_wf slot"
  shows "\<exists>slot'. run_mutator Manual e slot = Some (True, slot', e\<lparr>stdin := rest\<rparr>) \<and>
    insn_bytes slot' = insn_bytes inp \<and> in_len slot' = in_len inp"
proof -
  have hex: "hex = hex_of_bytes (insn_bytes inp)"
    using print_hex_ok [OF assms(1)] assms(3) by simp
  have len: "length (insn_bytes inp) = unat (in_len inp)" "unat (in_len inp) \<le> 15"
    using length_insn_bytes [OF assms(1)] assms(1) by (auto simp: slot_defs)
  then obtain slot' where *: "manual_candidate e slot = Some (True, slot', e\<lparr>stdin := rest\<rparr>)"
      "input_slot_ok slot'" "insn_bytes slot' = insn_bytes inp"
    using manual_lines_candidate [of "insn_bytes inp" e rest slot] assms(2,4,5) hex by auto
  have "unat (in_len slot') = unat (in_len inp)"
    using length_insn_bytes [OF *(2)] *(3) len(1) by simp
  then show ?thesis
    using * by (auto simp: word_unat_eq_iff)
qed

theorem printed_input_replays_witness:
  "\<exists>slot'. run_mutator Manual (sample_mutator\<lparr>stdin := hex_of_bytes [0x90] @ 10 # []\<rparr>) zero_input_slot =
     Some (True, slot', sample_mutator\<lparr>stdin := []\<rparr>) \<and> insn_bytes slot' = [0x90]"
proof -
  define inp where "inp = \<lparr>in_len = 1, raw_insn = 0x90 # replicate 14 0\<rparr>"
  have inp: "input_slot_ok inp" "insn_bytes inp = [0x90]"
    by (simp_all add: inp_def slot_defs insn_bytes_def)
  then have "print_hex (\<lambda>_. 7) inp = Some (hex_of_bytes [0x90])"
    using print_hex_ok [OF inp(1)] by simp
  then show ?thesis
    using printed_input_replays [of inp "\<lambda>_. 7" "hex_of_bytes [0x90]"
        "sample_mutator\<lparr>stdin := hex_of_bytes [0x90] @ 10 # []\<rparr>" "[]" zero_input_slot] inp
    by (auto simp: inp_def input_slot_ok_wf)
qed

text \<open>C40: An odd digit alone. A line of one digit passes manual mode's checks and becomes an input of
  length zero, which the main loop publishes; the Ghidra worker's window for it is the whole
  address space (the length minus one wraps around), so its load image reads past the input.\<close>

theorem one_digit_line_overreads:
  assumes "stdin e = digit # 10 # rest" and "digit \<noteq> 10" and "digit \<noteq> 0" and "input_slot_wf slot"
    and "ghidra_inv g"
  shows "\<exists>slot'. manual_candidate e slot = Some (True, slot', e\<lparr>stdin := rest\<rparr>) \<and> in_len slot' = 0 \<and>
    ghidra_decode lib g r (raw_insn slot') (in_len slot') = None"
proof -
  obtain slot' where slot': "manual_candidate e slot = Some (True, slot', e\<lparr>stdin := rest\<rparr>)"
      "in_len slot' = 0" "length (raw_insn slot') = 15"
    using manual_candidate_line [of "[digit]" e rest slot] assms(1-4)
    by (auto simp: slot_defs overlay_def)
  moreover have "baseaddr (g_loader g) = 0"
    using assms(5) by (simp add: ghidra_inv_def START_ADDRESS_def)
  from loadFill_zero_length [OF this slot'(3)]
  have "ghidra_decode lib g r (raw_insn slot') 0 = None"
    by (simp add: ghidra_decode_def printAssembly_def obtainContext_def resolve_def Let_def)
  ultimately show ?thesis
    by auto
qed

theorem one_digit_line_overreads_witness:
  "\<exists>slot'. manual_candidate (sample_mutator\<lparr>stdin := [57, 10]\<rparr>) zero_input_slot =
     Some (True, slot', sample_mutator\<lparr>stdin := []\<rparr>) \<and>
     ghidra_decode nop_sleigh nop_ghidra zero_output_slot (raw_insn slot') (in_len slot') = None"
  using one_digit_line_overreads [of "sample_mutator\<lparr>stdin := [57, 10]\<rparr>" 57 "[]" zero_input_slot nop_ghidra
      nop_sleigh zero_output_slot] nop_ghidra_inv by (auto simp: input_slot_ok_wf)

end
